(* ===== verification/Prelude.thy ===== *)
theory Prelude
  imports Main "HOL-Library.Word" "HOL-Library.Monad_Syntax"
begin

text \<open>
  Shared vocabulary of the development: the machine integers of the C sources as words, byte
  buffers as lists of bytes, the little-endian reinterpretation of memory that the sources do by
  casting pointers and through unions, checked array accesses (\<open>None\<close> stands for undefined
  behaviour: a read or write out of bounds, a division by zero, a loop that never ends), and the
  bounded \<open>for\<close> loops of the sources as folds, plain and over the option monad.
\<close>

unbundle bit_operations_syntax

type_synonym u8 = "8 word"
type_synonym u16 = "16 word"
type_synonym u32 = "32 word"
type_synonym u64 = "64 word"
type_synonym bytes = "8 word list"

named_theorems len_simps \<open>lengths of the buffers the operations return\<close>

section \<open>Rotations\<close>

definition rol :: "'a::len word \<Rightarrow> nat \<Rightarrow> 'a word" where
  "rol x s = push_bit s x OR drop_bit (LENGTH('a) - s) x"

definition ror :: "'a::len word \<Rightarrow> nat \<Rightarrow> 'a word" where
  "ror x s = drop_bit s x OR push_bit (LENGTH('a) - s) x"

lemma rol_xor:
  "s \<le> LENGTH('a) \<Longrightarrow> rol (x XOR y) s = rol x s XOR rol (y :: 'a::len word) s"
  unfolding rol_def
  by (rule bit_word_eqI) (auto simp: bit_simps dest: bit_imp_le_length)

lemma rol_0 [simp]: "rol x 0 = x"
  by (rule bit_word_eqI) (auto simp: rol_def bit_simps dest: bit_imp_le_length)

lemma unat_u8_less [simp]: "unat (b :: u8) < 256"
  using unsigned_less [of b, where ?'a = nat] by simp

lemma unat_2p: "k < LENGTH('a) \<Longrightarrow> unat (2 ^ k :: 'a::len word) = 2 ^ k"
proof -
  assume "k < LENGTH('a)"
  moreover have "unat (word_of_nat (2 ^ k) :: 'a word) = 2 ^ k mod 2 ^ LENGTH('a)"
    by (rule unat_of_nat)
  ultimately show ?thesis by simp
qed

lemma unat_drop_bit: "unat (drop_bit i (c :: 'a::len word)) = unat c div 2 ^ i"
  using take_bit_nat_eq_self [OF unsigned_less [of c]]
  by (simp add: unsigned_drop_bit_eq drop_bit_eq_div [of i "_ :: nat"])

section \<open>Lists and buffers\<close>

definition memcpy_at :: "'a list \<Rightarrow> nat \<Rightarrow> 'a list \<Rightarrow> 'a list" where
  "memcpy_at dst off src = take off dst @ src @ drop (off + length src) dst"

lemma length_memcpy_at [len_simps, simp]:
  "off + length src \<le> length dst \<Longrightarrow> length (memcpy_at dst off src) = length dst"
  by (simp add: memcpy_at_def)

lemma memcpy_at_append:
  "length xs = off \<Longrightarrow> memcpy_at (xs @ ys) off src = xs @ src @ drop (length src) ys"
  by (simp add: memcpy_at_def)

lemma list_update_numeral: "(x # xs)[numeral n := y] = x # xs[pred_numeral n := y]"
  by (simp add: numeral_eq_Suc)

lemma upt_numeral:
  "[0..<numeral n] = 0 # [1..<numeral n]"
  by (simp add: upt_conv_Cons)

lemma upt_one_numeral:
  "[Suc 0..<numeral n] = (if Suc 0 < numeral n then 1 # [2..<numeral n] else [])"
  by (simp add: upt_conv_Cons numeral_2_eq_2)

lemma replicate_numeral: "replicate (numeral n) x = x # replicate (pred_numeral n) x"
  by (simp add: numeral_eq_Suc)

lemmas unroll = replicate_numeral list_update_numeral upt_numeral upt_one_numeral upt_rec_numeral

lemma zero_word_xor_left: "(0 :: 'a::len word) XOR x = x"
  by simp

function chunks :: "nat \<Rightarrow> 'a list \<Rightarrow> 'a list list" where
  "chunks n xs = (if n = 0 \<or> xs = [] then [] else take n xs # chunks n (drop n xs))"
  by pat_completeness auto
termination
  by (relation "measure (\<lambda>(n, xs). length xs)") (auto simp: neq_Nil_conv)

declare chunks.simps [simp del]

lemma chunks_Nil [simp]: "chunks n [] = []"
  by (simp add: chunks.simps)

lemma chunks_append:
  "0 < n \<Longrightarrow> length xs = n \<Longrightarrow> chunks n (xs @ ys) = xs # chunks n ys"
  by (subst chunks.simps) auto

lemma chunks_concat:
  "0 < n \<Longrightarrow> \<forall>x \<in> set xss. length x = n \<Longrightarrow> chunks n (concat xss) = xss"
  by (induction xss) (auto simp: chunks_append)

lemma concat_chunks: "0 < n \<Longrightarrow> concat (chunks n xs) = xs"
proof (induction n xs rule: chunks.induct)
  case (1 n xs)
  then show ?case by (cases "xs = []") (simp_all add: chunks.simps [of n xs])
qed

lemma length_chunks:
  "0 < n \<Longrightarrow> n dvd length xs \<Longrightarrow> length (chunks n xs) = length xs div n"
proof (induction n xs rule: chunks.induct)
  case (1 n xs)
  show ?case
  proof (cases "xs = []")
    case False
    with "1.prems" have le: "n \<le> length xs" by (auto intro: dvd_imp_le)
    with "1.prems" have "n dvd length (drop n xs)" by (simp add: dvd_minus_self)
    with "1.IH" "1.prems" False have "length (chunks n (drop n xs)) = (length xs - n) div n"
      by simp
    with False "1.prems" le show ?thesis
      by (simp add: chunks.simps [of n xs] le_div_geq)
  qed simp
qed

lemma chunks_lengths:
  "0 < n \<Longrightarrow> n dvd length xs \<Longrightarrow> c \<in> set (chunks n xs) \<Longrightarrow> length c = n"
proof (induction n xs rule: chunks.induct)
  case (1 n xs)
  show ?case
  proof (cases "xs = []")
    case False
    with "1.prems" have le: "n \<le> length xs" by (auto intro: dvd_imp_le)
    with "1.prems" have d: "n dvd length (drop n xs)" by (simp add: dvd_minus_self)
    from "1.prems"(3) False "1.prems"(1)
    have "c = take n xs \<or> c \<in> set (chunks n (drop n xs))"
      by (simp add: chunks.simps [of n xs])
    with le d "1.IH" "1.prems" False show ?thesis by auto
  next
    case True
    with "1.prems" show ?thesis by simp
  qed
qed

lemma chunks_append_mult:
  "0 < n \<Longrightarrow> n dvd length xs \<Longrightarrow> chunks n (xs @ ys) = chunks n xs @ chunks n ys"
proof (induction n xs rule: chunks.induct)
  case (1 n xs)
  show ?case
  proof (cases "xs = []")
    case False
    with "1.prems" have le: "n \<le> length xs" by (auto intro: dvd_imp_le)
    with "1.prems" have d: "n dvd length (drop n xs)" by (simp add: dvd_minus_self)
    with le "1.IH" "1.prems" False show ?thesis
      by (simp add: chunks.simps [of n "xs @ ys"] chunks.simps [of n xs])
  qed simp
qed

lemma nth_chunks:
  "0 < n \<Longrightarrow> n dvd length xs \<Longrightarrow> i < length xs div n \<Longrightarrow>
   chunks n xs ! i = take n (drop (n * i) xs)"
proof (induction n xs arbitrary: i rule: chunks.induct)
  case (1 n xs)
  then have ne: "xs \<noteq> []" and le: "n \<le> length xs" by (auto intro: dvd_imp_le)
  then have d: "n dvd length (drop n xs)" using "1.prems" by (simp add: dvd_minus_self)
  show ?case
  proof (cases i)
    case 0
    with ne "1.prems" show ?thesis by (simp add: chunks.simps [of n xs])
  next
    case (Suc j)
    with le "1.prems" have "j < length (drop n xs) div n"
      by (simp add: le_div_geq)
    with "1.IH" d ne "1.prems" have "chunks n (drop n xs) ! j = take n (drop (n * j) (drop n xs))"
      by simp
    with Suc ne "1.prems" show ?thesis by (simp add: chunks.simps [of n xs] add.commute)
  qed
qed

text \<open>A loop that rewrites the cells \<open>0 .. n-1\<close> of an array, each from its own old content.\<close>

lemma fold_update_prefix:
  "n \<le> length xs \<Longrightarrow>
   fold (\<lambda>i ys. ys[i := g i (ys ! i)]) [0..<n] xs = map (\<lambda>i. g i (xs ! i)) [0..<n] @ drop n xs"
proof (induction n)
  case (Suc n)
  then have "fold (\<lambda>i ys. ys[i := g i (ys ! i)]) [0..<n] xs
             = map (\<lambda>i. g i (xs ! i)) [0..<n] @ drop n xs" by simp
  moreover have "drop n xs = xs ! n # drop (Suc n) xs"
    using Suc.prems by (simp add: Cons_nth_drop_Suc)
  ultimately show ?case
    using Suc.prems by (simp add: nth_append list_update_append)
qed simp

section \<open>Little-endian bytes\<close>

fun le_nat :: "bytes \<Rightarrow> nat" where
  "le_nat [] = 0"
| "le_nat (b # bs) = unat b + 256 * le_nat bs"

fun le_bytes :: "nat \<Rightarrow> nat \<Rightarrow> bytes" where
  "le_bytes 0 n = []"
| "le_bytes (Suc k) n = word_of_nat (n mod 256) # le_bytes k (n div 256)"

lemma length_le_bytes [simp, len_simps]: "length (le_bytes k n) = k"
  by (induction k arbitrary: n) auto

lemma le_nat_less: "le_nat bs < 256 ^ length bs"
proof (induction bs)
  case (Cons b bs)
  have "unat b + 256 * le_nat bs < 256 * (le_nat bs + 1)" by simp
  also have "\<dots> \<le> 256 * 256 ^ length bs" using Cons by (intro mult_le_mono2) simp
  finally show ?case by simp
qed simp

lemma le_nat_le_bytes: "le_nat (le_bytes k n) = n mod 256 ^ k"
proof (induction k arbitrary: n)
  case (Suc k)
  have "unat (word_of_nat (n mod 256) :: u8) = n mod 256"
    by (simp add: unat_of_nat)
  with Suc show ?case
    by (simp add: mod_mult2_eq)
qed simp

lemma le_bytes_le_nat: "le_bytes (length bs) (le_nat bs) = bs"
proof (induction bs)
  case (Cons b bs)
  have lt: "unat b < 256" by simp
  then have "(unat b + 256 * le_nat bs) mod 256 = unat b"
    and "(unat b + 256 * le_nat bs) div 256 = le_nat bs" by simp_all
  with Cons show ?case by simp
qed simp

lemma le_bytes_le_nat' [simp]: "length bs = k \<Longrightarrow> le_bytes k (le_nat bs) = bs"
  using le_bytes_le_nat by blast

text \<open>The same buffer read as an array of words, as a cast of the pointer does.\<close>

definition word_of_bytes :: "bytes \<Rightarrow> 'a::len word" where
  "word_of_bytes bs = word_of_nat (le_nat bs)"

definition bytes_of_word :: "'a::len word \<Rightarrow> bytes" where
  "bytes_of_word w = le_bytes (LENGTH('a) div 8) (unat w)"

definition words_of_bytes :: "bytes \<Rightarrow> 'a::len word list" where
  "words_of_bytes bs = map word_of_bytes (chunks (LENGTH('a) div 8) bs)"

definition bytes_of_words :: "'a::len word list \<Rightarrow> bytes" where
  "bytes_of_words ws = concat (map bytes_of_word ws)"

lemma length_bytes_of_word [simp, len_simps]:
  "length (bytes_of_word (w :: 'a::len word)) = LENGTH('a) div 8"
  by (simp add: bytes_of_word_def)

lemma length_bytes_of_words [simp, len_simps]:
  "length (bytes_of_words (ws :: 'a::len word list)) = LENGTH('a) div 8 * length ws"
  by (induction ws) (auto simp: bytes_of_words_def)

lemma pow_256_8: "8 dvd n \<Longrightarrow> (256::nat) ^ (n div 8) = 2 ^ n"
  by (elim dvdE) (simp add: power_mult)

lemma word_of_bytes_of_word [simp]:
  "8 dvd LENGTH('a) \<Longrightarrow> word_of_bytes (bytes_of_word w) = (w :: 'a::len word)"
  by (simp add: word_of_bytes_def bytes_of_word_def le_nat_le_bytes pow_256_8)

lemma bytes_of_word_of_bytes [simp]:
  assumes "8 dvd LENGTH('a)" and "length bs = LENGTH('a) div 8"
  shows "bytes_of_word (word_of_bytes bs :: 'a::len word) = bs"
proof -
  have "le_nat bs < 2 ^ LENGTH('a)"
    using le_nat_less [of bs] assms by (simp add: pow_256_8)
  then show ?thesis
    using assms by (simp add: word_of_bytes_def bytes_of_word_def unat_of_nat)
qed

lemma width_bytes_pos: "8 dvd LENGTH('a) \<Longrightarrow> 0 < LENGTH('a::len) div 8"
  using len_gt_0 [where ?'a = 'a] by (elim dvdE) (simp del: len_gt_0)

lemma words_of_bytes_of_words [simp]:
  assumes "8 dvd LENGTH('a)"
  shows "words_of_bytes (bytes_of_words ws) = (ws :: 'a::len word list)"
proof -
  have "0 < LENGTH('a) div 8" using assms(1) by (rule width_bytes_pos)
  then have "chunks (LENGTH('a) div 8) (bytes_of_words ws) = map bytes_of_word ws"
    unfolding bytes_of_words_def by (intro chunks_concat) auto
  with assms show ?thesis
    by (simp add: words_of_bytes_def o_def)
qed

lemma bytes_of_words_of_bytes [simp]:
  assumes "8 dvd LENGTH('a)" and "LENGTH('a) div 8 dvd length bs"
  shows "bytes_of_words (words_of_bytes bs :: 'a::len word list) = bs"
proof -
  have pos: "0 < LENGTH('a) div 8" using assms(1) by (rule width_bytes_pos)
  have "map (bytes_of_word \<circ> (word_of_bytes :: bytes \<Rightarrow> 'a word)) (chunks (LENGTH('a) div 8) bs)
        = map id (chunks (LENGTH('a) div 8) bs)"
    using assms pos by (intro map_cong) (auto dest: chunks_lengths)
  with pos show ?thesis
    by (simp add: bytes_of_words_def words_of_bytes_def concat_chunks o_def)
qed

lemma length_words_of_bytes:
  "LENGTH('a) div 8 dvd length bs \<Longrightarrow> 8 dvd LENGTH('a) \<Longrightarrow>
   length (words_of_bytes bs :: 'a::len word list) = length bs div (LENGTH('a) div 8)"
  by (auto simp: words_of_bytes_def length_chunks elim!: dvdE)

lemma length_words32_of_bytes [simp, len_simps]:
  "4 dvd length bs \<Longrightarrow> length (words_of_bytes bs :: u32 list) = length bs div 4"
  using length_words_of_bytes [where 'a = 32] by simp

lemma length_words64_of_bytes [simp, len_simps]:
  "8 dvd length bs \<Longrightarrow> length (words_of_bytes bs :: u64 list) = length bs div 8"
  using length_words_of_bytes [where 'a = 64] by simp

text \<open>XOR of buffers, byte by byte or word by word, is the same thing.\<close>

lemma bit_byte_shift:
  "(a::nat) < 256 \<Longrightarrow> bit (a + 256 * x) n = (if n < 8 then bit a n else bit x (n - 8))"
proof -
  assume a: "a < 256"
  have t: "take_bit 8 (a + 256 * x) = a" and d: "drop_bit 8 (a + 256 * x) = x"
    using a by (simp_all add: take_bit_eq_mod drop_bit_eq_div)
  show ?thesis
  proof (cases "n < 8")
    case True
    then show ?thesis using bit_take_bit_iff [of 8 "a + 256 * x" n] t by simp
  next
    case False
    then show ?thesis using fun_cong [OF bit_drop_bit_eq [of 8 "a + 256 * x"], of "n - 8"] d
      by simp
  qed
qed

lemma xor_byte_less: "(a::nat) < 256 \<Longrightarrow> b < 256 \<Longrightarrow> a XOR b < 256"
proof -
  assume "a < 256" "b < 256"
  then have "take_bit 8 (a XOR b) = a XOR b"
    by (simp add: take_bit_xor take_bit_nat_eq_self)
  then show ?thesis using take_bit_nat_less_exp [of 8 "a XOR b"] by simp
qed

lemma xor_byte_shift:
  "(a::nat) < 256 \<Longrightarrow> b < 256 \<Longrightarrow>
   (a + 256 * x) XOR (b + 256 * y) = (a XOR b) + 256 * (x XOR y)"
  by (rule bit_eqI) (simp add: bit_simps bit_byte_shift xor_byte_less)

lemma le_nat_xor:
  "length xs = length ys \<Longrightarrow> le_nat (map2 (XOR) xs ys) = le_nat xs XOR le_nat ys"
proof (induction xs ys rule: list_induct2)
  case (Cons x xs y ys)
  have "unat x < 256" "unat y < 256" by simp_all
  then show ?case using Cons by (simp add: xor_byte_shift unsigned_xor_eq)
qed simp

lemma word_of_bytes_xor:
  "length xs = length ys \<Longrightarrow>
   (word_of_bytes (map2 (XOR) xs ys) :: 'a::len word) = word_of_bytes xs XOR word_of_bytes ys"
  by (simp add: word_of_bytes_def le_nat_xor) (rule bit_word_eqI, simp add: bit_simps)

lemma words_of_bytes_append:
  "8 dvd LENGTH('a) \<Longrightarrow> LENGTH('a) div 8 dvd length xs \<Longrightarrow>
   words_of_bytes (xs @ ys) = words_of_bytes xs @ (words_of_bytes ys :: 'a::len word list)"
  by (simp add: words_of_bytes_def chunks_append_mult width_bytes_pos)

lemma nth_words_of_bytes:
  "8 dvd LENGTH('a) \<Longrightarrow> LENGTH('a) div 8 dvd length xs \<Longrightarrow>
   i < length xs div (LENGTH('a) div 8) \<Longrightarrow>
   (words_of_bytes xs :: 'a::len word list) ! i =
     word_of_bytes (take (LENGTH('a) div 8) (drop (LENGTH('a) div 8 * i) xs))"
  by (simp add: words_of_bytes_def nth_chunks length_chunks width_bytes_pos)

lemma words_of_bytes_xor:
  assumes "8 dvd LENGTH('a)" and "LENGTH('a) div 8 dvd length xs" and "length xs = length ys"
  shows "(words_of_bytes (map2 (XOR) xs ys) :: 'a::len word list)
         = map2 (XOR) (words_of_bytes xs) (words_of_bytes ys)"
proof (rule nth_equalityI)
  show "length (words_of_bytes (map2 (XOR) xs ys) :: 'a word list)
        = length (map2 (XOR) (words_of_bytes xs :: 'a word list) (words_of_bytes ys))"
    using assms by (simp add: length_words_of_bytes)
next
  fix i
  assume "i < length (words_of_bytes (map2 (XOR) xs ys) :: 'a word list)"
  then have i: "i < length xs div (LENGTH('a) div 8)"
    using assms by (simp add: length_words_of_bytes)
  have "(word_of_bytes (take (LENGTH('a) div 8) (drop (LENGTH('a) div 8 * i) (map2 (XOR) xs ys))) :: 'a word)
        = word_of_bytes (map2 (XOR) (take (LENGTH('a) div 8) (drop (LENGTH('a) div 8 * i) xs))
             (take (LENGTH('a) div 8) (drop (LENGTH('a) div 8 * i) ys)))"
    by (simp add: take_map drop_map take_zip drop_zip)
  also have "\<dots> = word_of_bytes (take (LENGTH('a) div 8) (drop (LENGTH('a) div 8 * i) xs))
       XOR word_of_bytes (take (LENGTH('a) div 8) (drop (LENGTH('a) div 8 * i) ys))"
    using assms by (intro word_of_bytes_xor) simp
  finally show "(words_of_bytes (map2 (XOR) xs ys) :: 'a word list) ! i
      = map2 (XOR) (words_of_bytes xs) (words_of_bytes ys) ! i"
    using assms i by (simp add: nth_words_of_bytes length_words_of_bytes)
qed

section \<open>Big-endian bytes\<close>

definition be_nat :: "bytes \<Rightarrow> nat" where
  "be_nat bs = foldl (\<lambda>n b. 256 * n + unat b) 0 bs"

lemma be_nat_foldl: "foldl (\<lambda>n b. 256 * n + unat (b :: u8)) k bs = k * 256 ^ length bs + be_nat bs"
proof (induction bs arbitrary: k rule: rev_induct)
  case (snoc b bs)
  show ?case
    unfolding be_nat_def foldl_append foldl_Cons foldl_Nil snoc [of k, unfolded be_nat_def]
    by (simp add: distrib_left)
qed (simp add: be_nat_def)

lemma be_nat_Cons: "be_nat (b # bs) = unat b * 256 ^ length bs + be_nat bs"
  using be_nat_foldl [of "unat b" bs] by (simp add: be_nat_def)

lemma be_nat_less: "be_nat bs < 256 ^ length bs"
proof (induction bs)
  case (Cons b bs)
  have "Suc (unat b) \<le> 256" using unat_u8_less [of b] by (rule Suc_leI)
  then have "Suc (unat b) * 256 ^ length bs \<le> 256 * 256 ^ length bs" by (rule mult_right_mono) simp
  with Cons show ?case unfolding be_nat_Cons mult_Suc length_Cons power_Suc by linarith
qed (simp add: be_nat_def)

lemma le_nat_rev: "le_nat (rev bs) = be_nat bs"
proof -
  have app: "le_nat (xs @ ys) = le_nat xs + 256 ^ length xs * le_nat ys" for xs ys
    by (induction xs) (simp_all add: distrib_left)
  show ?thesis
    by (induction bs) (simp_all add: be_nat_def [of "[]"] app be_nat_Cons)
qed

lemma be_nat_append: "be_nat (xs @ ys) = be_nat xs * 256 ^ length ys + be_nat ys"
  using be_nat_foldl [of "be_nat xs" ys] by (simp add: be_nat_def)

section \<open>Checked arrays and loops\<close>

definition rd :: "'a list \<Rightarrow> nat \<Rightarrow> 'a option" where
  "rd xs i = (if i < length xs then Some (xs ! i) else None)"

definition wr :: "'a list \<Rightarrow> nat \<Rightarrow> 'a \<Rightarrow> 'a list option" where
  "wr xs i x = (if i < length xs then Some (xs[i := x]) else None)"

definition umod :: "'a::len word \<Rightarrow> 'a word \<Rightarrow> 'a word option" where
  "umod a b = (if b = 0 then None else Some (a mod b))"

lemma rd_Some [simp]: "i < length xs \<Longrightarrow> rd xs i = Some (xs ! i)"
  by (simp add: rd_def)

lemma wr_Some [simp]: "i < length xs \<Longrightarrow> wr xs i x = Some (xs[i := x])"
  by (simp add: wr_def)

lemma umod_Some [simp]: "b \<noteq> 0 \<Longrightarrow> umod a b = Some (a mod b)"
  by (simp add: umod_def)

fun for_each :: "'i list \<Rightarrow> ('i \<Rightarrow> 's \<Rightarrow> 's option) \<Rightarrow> 's \<Rightarrow> 's option" where
  "for_each [] f s = Some s"
| "for_each (i # is) f s = f i s \<bind> for_each is f"

lemma for_each_append: "for_each (is @ js) f s = for_each is f s \<bind> for_each js f"
  by (induction "is" arbitrary: s) (auto split: bind_splits)

lemma for_each_total:
  assumes "P s" and "\<And>i s. i \<in> set is \<Longrightarrow> P s \<Longrightarrow> \<exists>s'. f i s = Some s' \<and> P s'"
  shows "\<exists>s'. for_each is f s = Some s' \<and> P s'"
  using assms
proof (induction "is" arbitrary: s)
  case (Cons i "is")
  then obtain s1 where "f i s = Some s1" "P s1" by fastforce
  with Cons.IH [of s1] Cons.prems(2) show ?case by fastforce
qed simp

lemma for_each_fold:
  assumes "P s" and "\<And>i s. i \<in> set is \<Longrightarrow> P s \<Longrightarrow> f i s = Some (g i s) \<and> P (g i s)"
  shows "for_each is f s = Some (fold g is s) \<and> P (fold g is s)"
  using assms by (induction "is" arbitrary: s) auto

lemma for_each_cong:
  assumes "P s" and "\<And>i s. i \<in> set is \<Longrightarrow> P s \<Longrightarrow> f i s = g i s"
    and "\<And>i s s'. i \<in> set is \<Longrightarrow> P s \<Longrightarrow> g i s = Some s' \<Longrightarrow> P s'"
  shows "for_each is f s = for_each is g s"
  using assms
proof (induction "is" arbitrary: s)
  case (Cons i "is")
  then have eq: "f i s = g i s" by simp
  show ?case
  proof (cases "g i s")
    case (Some s')
    have "P s'" by (rule Cons.prems(3) [of i s, OF _ Cons.prems(1) Some]) simp
    then have "for_each is f s' = for_each is g s'"
      by (rule Cons.IH) (simp add: Cons.prems(2), meson Cons.prems(3) list.set_intros(2))
    with Some eq show ?thesis by simp
  qed (simp add: eq)
qed simp

lemma fold_invariant:
  assumes "P s" and "\<And>i s. i \<in> set is \<Longrightarrow> P s \<Longrightarrow> P (f i s)"
  shows "P (fold f is s)"
  using assms by (induction "is" arbitrary: s) auto

end
