(* ===== verification/Keccak.thy ===== *)
theory Keccak
  imports Prelude
begin

text \<open>
  The Keccak implementations the pool's native libraries are built on, each translated from its
  own source: the byte sponge of \<open>libethhash/sha3.c\<close> (\<open>keccakf\<close>, \<open>hash\<close>, \<open>sha3_256\<close>,
  \<open>sha3_512\<close>), the word sponge of \<open>libcryptonote/crypto/keccak.c\<close> with \<open>hash.c\<close> on top of it
  (\<open>keccakf\<close>, \<open>keccak\<close>, \<open>keccak1600\<close>, \<open>hash_permutation\<close>, \<open>hash_process\<close>,
  \<open>cn_fast_hash\<close>). The abstract specification is the Keccak permutation as FIPS 202 states it
  (theta, rho, pi, chi, iota on a 5 by 5 array of lanes, the rotation offsets from the walk over
  the array and the round constants from the linear feedback shift register) and the padded
  sponge over it; the theorems show that the sources implement it.
\<close>

section \<open>The specification: Keccak-f[1600] as FIPS 202 has it\<close>

definition lane :: "'a list \<Rightarrow> nat \<Rightarrow> nat \<Rightarrow> 'a" where
  "lane a x y = a ! (x mod 5 + 5 * (y mod 5))"

definition of_lanes :: "(nat \<Rightarrow> nat \<Rightarrow> 'a) \<Rightarrow> 'a list" where
  "of_lanes f = map (\<lambda>i. f (i mod 5) (i div 5)) [0..<25]"

definition spec_theta :: "'a::len word list \<Rightarrow> 'a word list" where
  "spec_theta a =
     (let c = (\<lambda>x. lane a x 0 XOR lane a x 1 XOR lane a x 2 XOR lane a x 3 XOR lane a x 4)
      in of_lanes (\<lambda>x y. lane a x y XOR (c (x + 4) XOR rol (c (x + 1)) 1)))"

primrec rho_walk :: "nat \<Rightarrow> nat \<times> nat" where
  "rho_walk 0 = (1, 0)"
| "rho_walk (Suc t) = (let (x, y) = rho_walk t in (y, (2 * x + 3 * y) mod 5))"

definition rho_offset :: "nat \<Rightarrow> nat \<Rightarrow> nat" where
  "rho_offset x y =
     (case find (\<lambda>t. rho_walk t = (x, y)) [0..<24] of
        None \<Rightarrow> 0 | Some t \<Rightarrow> (t + 1) * (t + 2) div 2)"

definition spec_rho :: "'a::len word list \<Rightarrow> 'a word list" where
  "spec_rho a = of_lanes (\<lambda>x y. rol (lane a x y) (rho_offset x y mod LENGTH('a)))"

definition spec_pi :: "'a list \<Rightarrow> 'a list" where
  "spec_pi a = of_lanes (\<lambda>x y. lane a (x + 3 * y) x)"

definition spec_chi :: "'a::len word list \<Rightarrow> 'a word list" where
  "spec_chi a = of_lanes (\<lambda>x y. lane a x y XOR (NOT (lane a (x + 1) y) AND lane a (x + 2) y))"

text \<open>FIPS 202, Algorithm 5: the round constants' bits.\<close>

fun lfsr_step :: "bool list \<Rightarrow> bool list" where
  "lfsr_step [r0, r1, r2, r3, r4, r5, r6, r7] =
     [r7, r0, r1, r2, r3 \<noteq> r7, r4 \<noteq> r7, r5 \<noteq> r7, r6]"
| "lfsr_step r = r"

definition spec_rc :: "nat \<Rightarrow> bool" where
  "spec_rc t = hd ((lfsr_step ^^ (t mod 255)) [True, False, False, False, False, False, False, False])"

definition spec_RC :: "nat \<Rightarrow> nat \<Rightarrow> 'a::len word" where
  "spec_RC l ir = fold (\<lambda>j w. if spec_rc (j + 7 * ir) then w OR push_bit (2 ^ j - 1) 1 else w) [0..<l + 1] 0"

definition spec_iota :: "'a::len word \<Rightarrow> 'a word list \<Rightarrow> 'a word list" where
  "spec_iota rc a = a[0 := a ! 0 XOR rc]"

definition spec_round :: "'a::len word \<Rightarrow> 'a word list \<Rightarrow> 'a word list" where
  "spec_round rc a = spec_iota rc (spec_chi (spec_pi (spec_rho (spec_theta a))))"

definition keccak_p1600 :: "nat \<Rightarrow> u64 list \<Rightarrow> u64 list" where
  "keccak_p1600 rounds a = fold (\<lambda>ir. spec_round (spec_RC 6 ir)) [0..<rounds] a"

definition keccak_p800 :: "u32 list \<Rightarrow> u32 list" where
  "keccak_p800 a = fold (\<lambda>ir. spec_round (spec_RC 5 ir)) [0..<22] a"

section \<open>libethhash/sha3.c: the permutation\<close>

definition sha3_rho :: "nat list" where
  "sha3_rho = [1, 3, 6, 10, 15, 21, 28, 36, 45, 55, 2, 14, 27, 41, 56, 8, 25, 43, 62, 18, 39, 61, 20, 44]"

definition sha3_pi :: "nat list" where
  "sha3_pi = [10, 7, 11, 17, 18, 3, 5, 16, 8, 21, 24, 4, 15, 23, 19, 13, 12, 2, 20, 14, 22, 9, 6, 1]"

definition sha3_RC :: "u64 list" where
  "sha3_RC =
     [1, 0x8082, 0x800000000000808a, 0x8000000080008000,
      0x808b, 0x80000001, 0x8000000080008081, 0x8000000000008009,
      0x8a, 0x88, 0x80008009, 0x8000000a,
      0x8000808b, 0x800000000000008b, 0x8000000000008089, 0x8000000000008003,
      0x8000000000008002, 0x8000000000000080, 0x800a, 0x800000008000000a,
      0x8000000080008081, 0x8000000000008080, 0x80000001, 0x8000000080008008]"

text \<open>
  One iteration of the round loop, phase by phase. The scratch array \<open>b\<close> is written in full
  before it is read in every phase, so each phase starts it afresh; in the rho and pi phase only
  \<open>b[0]\<close> is used, as the temporary of the swap.
\<close>

definition sha3_theta :: "u64 list \<Rightarrow> u64 list" where
  "sha3_theta a =
     (let b = fold (\<lambda>x b. fold (\<lambda>y b. b[x := b ! x XOR a ! (x + y)]) [0, 5, 10, 15, 20] (b[x := 0]))
                [0, 1, 2, 3, 4] (replicate 5 0)
      in fold (\<lambda>x a. fold (\<lambda>y a. a[y + x := a ! (y + x) XOR
                       (b ! ((x + 4) mod 5) XOR rol (b ! ((x + 1) mod 5)) 1)]) [0, 5, 10, 15, 20] a)
           [0, 1, 2, 3, 4] a)"

definition sha3_rho_pi :: "u64 list \<Rightarrow> u64 list" where
  "sha3_rho_pi a =
     fst (fold (\<lambda>x (a, t). let b0 = a ! (sha3_pi ! x) in (a[sha3_pi ! x := rol t (sha3_rho ! x)], b0))
           [0..<24] (a, a ! 1))"

definition sha3_chi :: "u64 list \<Rightarrow> u64 list" where
  "sha3_chi a =
     fold (\<lambda>y a. let b = fold (\<lambda>x b. b[x := a ! (y + x)]) [0, 1, 2, 3, 4] (replicate 5 0)
                 in fold (\<lambda>x a. a[y + x := b ! x XOR (NOT (b ! ((x + 1) mod 5)) AND b ! ((x + 2) mod 5))])
                      [0, 1, 2, 3, 4] a)
       [0, 5, 10, 15, 20] a"

definition sha3_round :: "nat \<Rightarrow> u64 list \<Rightarrow> u64 list" where
  "sha3_round i a =
     (let a = sha3_chi (sha3_rho_pi (sha3_theta a)) in a[0 := a ! 0 XOR sha3_RC ! i])"

definition sha3_keccakf :: "u64 list \<Rightarrow> u64 list" where
  "sha3_keccakf a = fold sha3_round [0..<24] a"

section \<open>The permutation meets the specification\<close>

lemma list_25_cases:
  assumes "length xs = 25"
  obtains a0 a1 a2 a3 a4 a5 a6 a7 a8 a9 a10 a11 a12 a13 a14 a15 a16 a17 a18 a19 a20 a21 a22 a23 a24
  where "xs = [a0, a1, a2, a3, a4, a5, a6, a7, a8, a9, a10, a11, a12,
               a13, a14, a15, a16, a17, a18, a19, a20, a21, a22, a23, a24]"
  using map_nth [of xs] assms by (simp add: unroll) metis

lemma of_lanes_unroll:
  "of_lanes f =
     [f 0 0, f 1 0, f 2 0, f 3 0, f 4 0, f 0 1, f 1 1, f 2 1, f 3 1, f 4 1,
      f 0 2, f 1 2, f 2 2, f 3 2, f 4 2, f 0 3, f 1 3, f 2 3, f 3 3, f 4 3,
      f 0 4, f 1 4, f 2 4, f 3 4, f 4 4]"
  by (simp add: of_lanes_def unroll)

lemma length_of_lanes [simp]: "length (of_lanes f) = 25"
  by (simp add: of_lanes_def)

lemma length_spec_round [simp]: "length (spec_round rc a) = 25"
  by (simp add: spec_round_def spec_iota_def spec_chi_def)

lemma sha3_theta_spec: "length a = 25 \<Longrightarrow> sha3_theta a = spec_theta a"
  by (erule list_25_cases)
     (simp add: sha3_theta_def spec_theta_def of_lanes_unroll lane_def unroll xor.assoc)

lemma rho_offsets:
  "of_lanes rho_offset =
     [0, 1, 190, 28, 91, 36, 300, 6, 55, 276, 3, 10, 171, 153, 231, 105, 45, 15, 21, 136, 210, 66, 253, 120, 78]"
  by code_simp

lemma sha3_rho_pi_spec: "length a = 25 \<Longrightarrow> sha3_rho_pi a = spec_pi (spec_rho a)"
  using rho_offsets
  by (elim list_25_cases)
     (simp add: sha3_rho_pi_def spec_rho_def spec_pi_def of_lanes_unroll lane_def unroll
        sha3_rho_def sha3_pi_def)

lemma sha3_chi_spec: "length a = 25 \<Longrightarrow> sha3_chi a = spec_chi a"
  by (erule list_25_cases)
     (simp add: sha3_chi_def spec_chi_def of_lanes_unroll lane_def unroll)

lemma sha3_RC_spec: "map (spec_RC 6) [0..<24] = sha3_RC"
  by code_simp

lemma sha3_RC_nth: "i < 24 \<Longrightarrow> sha3_RC ! i = spec_RC 6 i"
  by (simp flip: sha3_RC_spec)

lemma length_spec_steps [simp, len_simps]:
  "length (spec_theta a) = 25" "length (spec_rho a) = 25" "length (spec_pi a) = 25"
  "length (spec_chi a) = 25" "length (spec_iota rc a) = length a" "length (spec_round rc a) = 25"
  by (simp_all add: spec_theta_def spec_rho_def spec_pi_def spec_chi_def spec_iota_def
      spec_round_def Let_def)

lemma sha3_round_spec: "length a = 25 \<Longrightarrow> i < 24 \<Longrightarrow> sha3_round i a = spec_round (spec_RC 6 i) a"
  by (simp add: sha3_round_def spec_round_def spec_iota_def sha3_theta_spec sha3_rho_pi_spec
      sha3_chi_spec sha3_RC_nth Let_def)

lemma fold_rounds_eq:
  assumes "length a = 25"
    and "\<And>i a. i \<in> set is \<Longrightarrow> length a = 25 \<Longrightarrow> f i a = spec_round (rc i) a"
  shows "fold f is a = fold (\<lambda>i. spec_round (rc i)) is a"
  using assms by (induction "is" arbitrary: a) auto

lemma sha3_keccakf_spec: "length a = 25 \<Longrightarrow> sha3_keccakf a = keccak_p1600 24 a"
  unfolding sha3_keccakf_def keccak_p1600_def
  by (rule fold_rounds_eq) (auto simp: sha3_round_spec)

lemma length_keccak_p1600 [simp, len_simps]:
  "length a = 25 \<Longrightarrow> length (keccak_p1600 n a) = 25"
  unfolding keccak_p1600_def by (rule fold_invariant) auto

section \<open>libethhash/sha3.c: the byte sponge\<close>

definition sha3_P :: "bytes \<Rightarrow> bytes" where
  "sha3_P a = bytes_of_words (sha3_keccakf (words_of_bytes a))"

definition sha3_xorin :: "bytes \<Rightarrow> bytes \<Rightarrow> bytes" where
  "sha3_xorin dst src = map2 (XOR) dst src @ drop (length src) dst"

text \<open>
  \<open>foldP(in, inlen, xorin)\<close>: absorb the full blocks, return the state and what is left of the
  input. \<open>hash\<close> is called with the rates 136 and 72 only; at rate 0 the loop of the source
  would not end, the model stops.
\<close>

function sha3_foldP_in :: "nat \<Rightarrow> bytes \<Rightarrow> bytes \<Rightarrow> bytes \<times> bytes" where
  "sha3_foldP_in rate a inp =
     (if rate = 0 \<or> length inp < rate then (a, inp)
      else sha3_foldP_in rate (sha3_P (sha3_xorin a (take rate inp))) (drop rate inp))"
  by pat_completeness auto
termination
  by (relation "measure (\<lambda>(rate, a, inp). length inp)") auto

declare sha3_foldP_in.simps [simp del]

text \<open>\<open>foldP(out, outlen, setout)\<close> and the final \<open>setout\<close>: the bytes written to \<open>out\<close>.\<close>

function sha3_foldP_out :: "nat \<Rightarrow> bytes \<Rightarrow> nat \<Rightarrow> bytes" where
  "sha3_foldP_out rate a outlen =
     (if rate = 0 \<or> outlen < rate then take outlen a
      else take rate a @ sha3_foldP_out rate (sha3_P a) (outlen - rate))"
  by pat_completeness auto
termination
  by (relation "measure (\<lambda>(rate, a, outlen). outlen)") auto

declare sha3_foldP_out.simps [simp del]

definition sha3_hash :: "nat \<Rightarrow> bytes \<Rightarrow> nat \<Rightarrow> u8 \<Rightarrow> int + bytes" where
  "sha3_hash outlen inp rate delim =
     (if 200 \<le> rate then Inl (- 1)
      else let (a, rest) = sha3_foldP_in rate (replicate 200 0) inp;
               a = a[length rest := a ! length rest XOR delim];
               a = a[rate - 1 := a ! (rate - 1) XOR 0x80];
               a = sha3_xorin a rest;
               a = sha3_P a
           in Inr (sha3_foldP_out rate a outlen))"

definition sha3_256 :: "nat \<Rightarrow> bytes \<Rightarrow> int + bytes" where
  "sha3_256 outlen inp =
     (if 256 div 8 < outlen then Inl (- 1) else sha3_hash outlen inp (200 - 256 div 4) 0x01)"

definition sha3_512 :: "nat \<Rightarrow> bytes \<Rightarrow> int + bytes" where
  "sha3_512 outlen inp =
     (if 512 div 8 < outlen then Inl (- 1) else sha3_hash outlen inp (200 - 512 div 4) 0x01)"

text \<open>The wrappers of \<open>sha3.h\<close> ignore the return code, which is never an error there.\<close>

definition SHA3_256 :: "bytes \<Rightarrow> bytes" where
  "SHA3_256 inp = projr (sha3_256 32 inp)"

definition SHA3_512 :: "bytes \<Rightarrow> bytes" where
  "SHA3_512 inp = projr (sha3_512 64 inp)"

section \<open>libcryptonote/crypto/keccak.c and hash.c\<close>

definition keccakf_rndc :: "u64 list" where
  "keccakf_rndc =
     [0x0000000000000001, 0x0000000000008082, 0x800000000000808a,
      0x8000000080008000, 0x000000000000808b, 0x0000000080000001,
      0x8000000080008081, 0x8000000000008009, 0x000000000000008a,
      0x0000000000000088, 0x0000000080008009, 0x000000008000000a,
      0x000000008000808b, 0x800000000000008b, 0x8000000000008089,
      0x8000000000008003, 0x8000000000008002, 0x8000000000000080,
      0x000000000000800a, 0x800000008000000a, 0x8000000080008081,
      0x8000000000008080, 0x0000000080000001, 0x8000000080008008]"

definition keccakf_rotc :: "nat list" where
  "keccakf_rotc = [1, 3, 6, 10, 15, 21, 28, 36, 45, 55, 2, 14, 27, 41, 56, 8, 25, 43, 62, 18, 39, 61, 20, 44]"

definition keccakf_piln :: "nat list" where
  "keccakf_piln = [10, 7, 11, 17, 18, 3, 5, 16, 8, 21, 24, 4, 15, 23, 19, 13, 12, 2, 20, 14, 22, 9, 6, 1]"

definition cn_theta :: "u64 list \<Rightarrow> u64 list" where
  "cn_theta st =
     (let bc = map (\<lambda>i. st ! i XOR st ! (i + 5) XOR st ! (i + 10) XOR st ! (i + 15) XOR st ! (i + 20))
                 [0, 1, 2, 3, 4]
      in fold (\<lambda>i st. let t = bc ! ((i + 4) mod 5) XOR rol (bc ! ((i + 1) mod 5)) 1
                      in fold (\<lambda>j st. st[j + i := st ! (j + i) XOR t]) [0, 5, 10, 15, 20] st)
           [0, 1, 2, 3, 4] st)"

definition cn_rho_pi :: "u64 list \<Rightarrow> u64 list" where
  "cn_rho_pi st =
     fst (fold (\<lambda>i (st, t). let j = keccakf_piln ! i; bc0 = st ! j
                            in (st[j := rol t (keccakf_rotc ! i)], bc0)) [0..<24] (st, st ! 1))"

definition cn_chi :: "u64 list \<Rightarrow> u64 list" where
  "cn_chi st =
     fold (\<lambda>j st. let bc = map (\<lambda>i. st ! (j + i)) [0, 1, 2, 3, 4]
                  in fold (\<lambda>i st. st[j + i := st ! (j + i) XOR
                             (NOT (bc ! ((i + 1) mod 5)) AND bc ! ((i + 2) mod 5))]) [0, 1, 2, 3, 4] st)
       [0, 5, 10, 15, 20] st"

definition cn_keccakf :: "u64 list \<Rightarrow> nat \<Rightarrow> u64 list" where
  "cn_keccakf st rounds =
     fold (\<lambda>round st. let st = cn_chi (cn_rho_pi (cn_theta st))
                      in st[0 := st ! 0 XOR keccakf_rndc ! round]) [0..<rounds] st"

text \<open>\<open>for (i = 0; i < rsizw; i++) st[i] ^= ((uint64_t *) in)[i];\<close>\<close>

definition cn_xor_block :: "nat \<Rightarrow> u64 list \<Rightarrow> bytes \<Rightarrow> u64 list" where
  "cn_xor_block rsizw st inp =
     fold (\<lambda>i st. st[i := st ! i XOR word_of_bytes (take 8 (drop (8 * i) inp))]) [0..<rsizw] st"

function cn_absorb :: "nat \<Rightarrow> u64 list \<Rightarrow> bytes \<Rightarrow> u64 list \<times> bytes" where
  "cn_absorb rsiz st inp =
     (if rsiz = 0 \<or> length inp < rsiz then (st, inp)
      else cn_absorb rsiz (cn_keccakf (cn_xor_block (rsiz div 8) st inp) 24) (drop rsiz inp))"
  by pat_completeness auto
termination
  by (relation "measure (\<lambda>(rsiz, st, inp). length inp)") auto

declare cn_absorb.simps [simp del]

text \<open>
  \<open>keccak(in, inlen, md, mdlen)\<close>. \<open>None\<close> is undefined behaviour: a length that does not fit the
  \<open>int\<close> parameter, or a rate outside the 144 bytes of \<open>temp\<close>. The padded last block is built in
  \<open>temp\<close>: the rest of the input, the byte 1, zeros up to the rate, and 0x80 or-ed into the last
  byte.
\<close>

definition cn_keccak :: "bytes \<Rightarrow> nat \<Rightarrow> bytes option" where
  "cn_keccak inp mdlen =
     (let rsiz = (if mdlen = 200 then 136 else 200 - 2 * int mdlen)
      in if 2 ^ 31 \<le> length inp \<or> rsiz < 8 \<or> 144 < rsiz then None
         else let rsiz = nat rsiz;
                  (st, rest) = cn_absorb rsiz (replicate 25 0) inp;
                  temp = rest @ [1] @ replicate (rsiz - (length rest + 1)) 0;
                  temp = temp[rsiz - 1 := temp ! (rsiz - 1) OR 0x80];
                  st = cn_xor_block (rsiz div 8) st temp;
                  st = cn_keccakf st 24
              in Some (take mdlen (bytes_of_words st)))"

definition keccak1600 :: "bytes \<Rightarrow> bytes option" where
  "keccak1600 inp = cn_keccak inp 200"

definition hash_permutation :: "bytes \<Rightarrow> bytes" where
  "hash_permutation state = bytes_of_words (cn_keccakf (words_of_bytes state) 24)"

definition hash_process :: "bytes \<Rightarrow> bytes option" where
  "hash_process buf = keccak1600 buf"

definition cn_fast_hash :: "bytes \<Rightarrow> bytes option" where
  "cn_fast_hash data = map_option (take 32) (hash_process data)"

text \<open>\<open>libzanonote/crypto/hash.c\<close> keeps that function as \<open>cn_fast_hash_old\<close> and hashes with
  a 32-byte digest of \<open>keccak\<close> directly.\<close>

definition zano_cn_fast_hash_old :: "bytes \<Rightarrow> bytes option" where
  "zano_cn_fast_hash_old data = map_option (take 32) (keccak1600 data)"

definition zano_cn_fast_hash :: "bytes \<Rightarrow> bytes option" where
  "zano_cn_fast_hash data = cn_keccak data 32"


section \<open>The specification of the sponge\<close>

text \<open>
  The padding: the domain byte, zeros, and 0x80 in the last byte of the block (both in one byte
  when only one is left). \<open>sponge_absorb\<close> runs the permutation over the blocks of the padded
  message.
\<close>

definition sponge_pad :: "nat \<Rightarrow> u8 \<Rightarrow> nat \<Rightarrow> bytes" where
  "sponge_pad rate delim len =
     (let q = rate - len mod rate
      in if q = 1 then [delim XOR 0x80] else delim # replicate (q - 2) 0 @ [0x80])"

definition absorb_block :: "u64 list \<Rightarrow> bytes \<Rightarrow> u64 list" where
  "absorb_block s blk =
     (let ws = words_of_bytes blk in keccak_p1600 24 (map2 (XOR) s ws @ drop (length ws) s))"

definition sponge_absorb :: "nat \<Rightarrow> u8 \<Rightarrow> u64 list \<Rightarrow> bytes \<Rightarrow> u64 list" where
  "sponge_absorb rate delim s m =
     fold (\<lambda>blk s. absorb_block s blk) (chunks rate (m @ sponge_pad rate delim (length m))) s"

definition keccak_sponge :: "nat \<Rightarrow> u8 \<Rightarrow> bytes \<Rightarrow> u64 list" where
  "keccak_sponge rate delim m = sponge_absorb rate delim (replicate 25 0) m"

lemma length_sponge_pad: "0 < rate \<Longrightarrow> length (sponge_pad rate delim len) = rate - len mod rate"
proof -
  assume "0 < rate"
  then have "len mod rate < rate" by simp
  then show ?thesis by (auto simp: sponge_pad_def Let_def)
qed

lemma sponge_pad_mod: "sponge_pad rate delim (len mod rate) = sponge_pad rate delim len"
  by (simp add: sponge_pad_def)

lemma sponge_absorb_step:
  assumes "0 < rate" and "rate \<le> length m"
  shows "sponge_absorb rate delim s m
         = sponge_absorb rate delim (absorb_block s (take rate m)) (drop rate m)"
proof -
  have "sponge_pad rate delim (length m - rate) = sponge_pad rate delim (length m)"
    using sponge_pad_mod [of rate delim "length m - rate"] sponge_pad_mod [of rate delim "length m"]
      assms by (simp add: le_mod_geq)
  moreover have "chunks rate (m @ sponge_pad rate delim (length m))
        = take rate m # chunks rate (drop rate m @ sponge_pad rate delim (length m))"
    using assms by (subst chunks.simps) (use assms in auto)
  ultimately show ?thesis by (simp add: sponge_absorb_def)
qed

lemma sponge_absorb_last:
  assumes "length m < rate"
  shows "sponge_absorb rate delim s m = absorb_block s (m @ sponge_pad rate delim (length m))"
proof -
  have "length (m @ sponge_pad rate delim (length m)) = rate"
    using assms by (simp add: length_sponge_pad)
  moreover from this assms have "chunks rate (m @ sponge_pad rate delim (length m))
      = [m @ sponge_pad rate delim (length m)]"
    by (subst chunks.simps) auto
  ultimately show ?thesis by (simp add: sponge_absorb_def)
qed

lemma length_absorb_block [simp, len_simps]:
  "length s = 25 \<Longrightarrow> 8 dvd length blk \<Longrightarrow> length blk \<le> 200 \<Longrightarrow> length (absorb_block s blk) = 25"
  by (auto simp: absorb_block_def Let_def intro!: length_keccak_p1600)

section \<open>The byte sponge meets the specification\<close>

lemma length_sha3_xorin [simp, len_simps]:
  "length src \<le> length a \<Longrightarrow> length (sha3_xorin a src) = length a"
  by (simp add: sha3_xorin_def)

lemma words_sha3_xorin:
  assumes "8 dvd length src" and "8 dvd length a" and "length src \<le> length a"
  shows "(words_of_bytes (sha3_xorin a src) :: u64 list)
         = map2 (XOR) (words_of_bytes a) (words_of_bytes src) @ drop (length src div 8) (words_of_bytes a)"
proof -
  have a: "a = take (length src) a @ drop (length src) a" by simp
  have wa: "(words_of_bytes a :: u64 list)
            = words_of_bytes (take (length src) a) @ words_of_bytes (drop (length src) a)"
    using assms by (subst a, subst words_of_bytes_append) auto
  have "map2 (XOR) a src = map2 (XOR) (take (length src) a) src"
    by (rule nth_equalityI) auto
  then show ?thesis
    using assms unfolding sha3_xorin_def wa
    by (simp add: words_of_bytes_append words_of_bytes_xor zip_append1)
qed

lemma sha3_P_xorin:
  assumes "length s = 25" and "8 dvd length blk" and "length blk \<le> 200"
  shows "sha3_P (sha3_xorin (bytes_of_words s) blk) = bytes_of_words (absorb_block s blk)"
  using assms
  by (simp add: sha3_P_def words_sha3_xorin absorb_block_def sha3_keccakf_spec)


lemma sha3_foldP_in_spec:
  assumes "length s = 25" and "8 dvd rate" and "0 < rate" and "rate \<le> 200"
  shows "\<exists>s' rest. sha3_foldP_in rate (bytes_of_words s) inp = (bytes_of_words s', rest)
           \<and> length s' = 25 \<and> length rest < rate
           \<and> sponge_absorb rate delim s inp = sponge_absorb rate delim s' rest"
  using assms
proof (induction "length inp" arbitrary: inp s rule: less_induct)
  case less
  show ?case
  proof (cases "length inp < rate")
    case True
    with less.prems show ?thesis
      by (intro exI [of _ s] exI [of _ inp]) (simp add: sha3_foldP_in.simps [of rate _ inp])
  next
    case False
    let ?s = "absorb_block s (take rate inp)"
    have "sha3_foldP_in rate (bytes_of_words s) inp
          = sha3_foldP_in rate (bytes_of_words ?s) (drop rate inp)"
      using False less.prems by (simp add: sha3_foldP_in.simps [of rate _ inp] sha3_P_xorin)
    moreover have "sponge_absorb rate delim s inp = sponge_absorb rate delim ?s (drop rate inp)"
      using False less.prems by (intro sponge_absorb_step) auto
    moreover have "length (drop rate inp) < length inp" using False less.prems by simp
    ultimately show ?thesis
      using less.hyps [of "drop rate inp" ?s] False less.prems by simp
  qed
qed

lemma sha3_final_block:
  assumes "length a = 200" and "length rest < rate" and "rate \<le> 200"
  shows "sha3_xorin ((a[length rest := a ! length rest XOR delim])
             [rate - 1 := a[length rest := a ! length rest XOR delim] ! (rate - 1) XOR 0x80]) rest
         = sha3_xorin a (rest @ sponge_pad rate delim (length rest))"
    (is "?l = ?r")
proof (rule nth_equalityI)
  have len: "length (rest @ sponge_pad rate delim (length rest)) = rate"
    using assms by (simp add: length_sponge_pad)
  then show "length ?l = length ?r" using assms by simp
  fix i assume "i < length ?l"
  then have i: "i < 200" using assms by simp
  have pad: "sponge_pad rate delim (length rest) =
      (if rate = Suc (length rest) then [delim XOR 0x80]
       else delim # replicate (rate - length rest - 2) 0 @ [0x80])"
    using assms by (auto simp: sponge_pad_def Let_def)
  consider "i < length rest" | "i = length rest" | "length rest < i" "i < rate" | "rate \<le> i"
    by linarith
  then show "?l ! i = ?r ! i"
  proof cases
    case 1
    then show ?thesis using assms len i by (simp add: sha3_xorin_def nth_append)
  next
    case 2
    then show ?thesis using assms len i pad
      by (auto simp: sha3_xorin_def nth_append xor.assoc)
  next
    case 3
    then have "rate \<noteq> Suc (length rest)" by simp
    moreover have "(delim # replicate (rate - length rest - 2) 0 @ [0x80]) ! (i - length rest)
        = (if i = rate - 1 then 0x80 else 0 :: u8)"
      using 3 by (cases "i - length rest") (auto simp: nth_append)
    ultimately show ?thesis using 3 assms len i pad
      by (auto simp: sha3_xorin_def nth_append)
  next
    case 4
    then show ?thesis using assms len i by (simp add: sha3_xorin_def nth_append)
  qed
qed

lemma sha3_hash_spec:
  assumes "8 dvd rate" and "0 < rate" and "rate < 200" and "outlen < rate"
  shows "sha3_hash outlen inp rate delim
         = Inr (take outlen (bytes_of_words (keccak_sponge rate delim inp)))"
proof -
  have "bytes_of_words (replicate 25 (0 :: u64)) = replicate 200 (0 :: u8)" by code_simp
  then obtain s rest where
    abs: "sha3_foldP_in rate (replicate 200 0) inp = (bytes_of_words s, rest)"
    and s: "length s = 25" and rest: "length rest < rate"
    and eq: "keccak_sponge rate delim inp = sponge_absorb rate delim s rest"
    using sha3_foldP_in_spec [of "replicate 25 0" rate inp delim] assms
    by (auto simp: keccak_sponge_def)
  have len: "length (rest @ sponge_pad rate delim (length rest)) = rate"
    using rest assms by (simp add: length_sponge_pad)
  have "sha3_hash outlen inp rate delim
      = Inr (take outlen (bytes_of_words (absorb_block s (rest @ sponge_pad rate delim (length rest)))))"
    using abs s rest assms len sha3_final_block [of "bytes_of_words s" rest rate delim]
    by (simp add: sha3_hash_def sha3_P_xorin sha3_foldP_out.simps Let_def)
  then show ?thesis by (simp add: eq sponge_absorb_last [OF rest])
qed

lemma SHA3_256_sponge: "SHA3_256 m = take 32 (bytes_of_words (keccak_sponge 136 1 m))"
  by (simp add: SHA3_256_def sha3_256_def sha3_hash_spec)

lemma SHA3_512_sponge: "SHA3_512 m = take 64 (bytes_of_words (keccak_sponge 72 1 m))"
  by (simp add: SHA3_512_def sha3_512_def sha3_hash_spec)

lemma length_sponge_absorb:
  assumes "length s = 25" and "8 dvd rate" and "0 < rate" and "rate \<le> 200"
  shows "length (sponge_absorb rate delim s m) = 25"
proof -
  obtain s' rest where "length s' = 25" "length rest < rate"
      "sponge_absorb rate delim s m = sponge_absorb rate delim s' rest"
    using sha3_foldP_in_spec [OF assms] by blast
  then show ?thesis using assms by (simp add: sponge_absorb_last length_sponge_pad)
qed

lemma length_keccak_sponge [simp, len_simps]:
  "8 dvd rate \<Longrightarrow> 0 < rate \<Longrightarrow> rate \<le> 200 \<Longrightarrow> length (keccak_sponge rate delim m) = 25"
  by (simp add: keccak_sponge_def length_sponge_absorb)

lemma length_SHA3 [simp, len_simps]:
  "length (SHA3_256 m) = 32" "length (SHA3_512 m) = 64"
  by (simp_all add: SHA3_256_sponge SHA3_512_sponge)

section \<open>The word sponge meets the specification\<close>

lemma cn_round_spec:
  assumes "length st = 25" and "i < 24"
  shows "(let st = cn_chi (cn_rho_pi (cn_theta st)) in st[0 := st ! 0 XOR keccakf_rndc ! i])
         = spec_round (spec_RC 6 i) st"
proof -
  have "cn_theta st = spec_theta st"
    using assms by (elim list_25_cases)
      (simp add: cn_theta_def spec_theta_def of_lanes_unroll lane_def unroll Let_def xor.assoc)
  moreover have "cn_rho_pi a = sha3_rho_pi a" for a
    by (simp add: cn_rho_pi_def sha3_rho_pi_def keccakf_piln_def keccakf_rotc_def sha3_pi_def sha3_rho_def
        Let_def)
  moreover have "cn_chi a = spec_chi a" if "length a = 25" for a
    using that by (elim list_25_cases)
      (simp add: cn_chi_def spec_chi_def of_lanes_unroll lane_def unroll Let_def)
  moreover have "keccakf_rndc = sha3_RC" by (simp add: keccakf_rndc_def sha3_RC_def)
  ultimately show ?thesis
    using sha3_round_spec [OF assms] assms
    by (simp add: sha3_round_def sha3_theta_spec sha3_rho_pi_spec sha3_chi_spec)
qed

lemma cn_keccakf_spec: "length st = 25 \<Longrightarrow> rounds \<le> 24 \<Longrightarrow> cn_keccakf st rounds = keccak_p1600 rounds st"
  unfolding cn_keccakf_def keccak_p1600_def
  by (rule fold_rounds_eq) (auto simp: cn_round_spec)

lemma cn_xor_block_spec:
  assumes "length st = 25" and "n \<le> 25" and "8 * n \<le> length inp"
  shows "cn_xor_block n st inp
         = map2 (XOR) st (words_of_bytes (take (8 * n) inp)) @ drop n st"
proof -
  have "cn_xor_block n st inp
      = map (\<lambda>i. st ! i XOR word_of_bytes (take 8 (drop (8 * i) inp))) [0..<n] @ drop n st"
    unfolding cn_xor_block_def
    using fold_update_prefix [of n st "\<lambda>i x. x XOR word_of_bytes (take 8 (drop (8 * i) inp))"] assms
    by simp
  also have "map (\<lambda>i. st ! i XOR word_of_bytes (take 8 (drop (8 * i) inp))) [0..<n]
      = map2 (XOR) st (words_of_bytes (take (8 * n) inp))"
  proof (rule nth_equalityI)
    fix i assume "i < length (map (\<lambda>i. st ! i XOR word_of_bytes (take 8 (drop (8 * i) inp))) [0..<n])"
    then have "i < n" by simp
    moreover have "take 8 (drop (8 * i) (take (8 * n) inp)) = take 8 (drop (8 * i) inp)"
      using \<open>i < n\<close> by (simp add: drop_take)
    ultimately show "map (\<lambda>i. st ! i XOR word_of_bytes (take 8 (drop (8 * i) inp))) [0..<n] ! i
        = map2 (XOR) st (words_of_bytes (take (8 * n) inp)) ! i"
      using assms by (simp add: nth_words_of_bytes)
  qed (use assms in simp)
  finally show ?thesis .
qed

lemma cn_absorb_block:
  assumes "length s = 25" and "8 dvd rate" and "rate \<le> 200" and "rate \<le> length inp"
  shows "cn_keccakf (cn_xor_block (rate div 8) s inp) 24 = absorb_block s (take rate inp)"
  using assms
  by (simp add: cn_xor_block_spec cn_keccakf_spec absorb_block_def)

lemma cn_absorb_spec:
  assumes "length s = 25" and "8 dvd rate" and "0 < rate" and "rate \<le> 200"
  shows "\<exists>s' rest. cn_absorb rate s inp = (s', rest) \<and> length s' = 25 \<and> length rest < rate
           \<and> sponge_absorb rate delim s inp = sponge_absorb rate delim s' rest"
  using assms
proof (induction "length inp" arbitrary: inp s rule: less_induct)
  case less
  show ?case
  proof (cases "length inp < rate")
    case True
    with less.prems show ?thesis
      by (intro exI [of _ s] exI [of _ inp]) (simp add: cn_absorb.simps [of rate _ inp])
  next
    case False
    let ?s = "absorb_block s (take rate inp)"
    have "cn_absorb rate s inp = cn_absorb rate ?s (drop rate inp)"
      using False less.prems by (simp add: cn_absorb.simps [of rate _ inp] cn_absorb_block)
    moreover have "sponge_absorb rate delim s inp = sponge_absorb rate delim ?s (drop rate inp)"
      using False less.prems by (intro sponge_absorb_step) auto
    moreover have "length (drop rate inp) < length inp" using False less.prems by simp
    ultimately show ?thesis
      using less.hyps [of "drop rate inp" ?s] False less.prems by simp
  qed
qed

lemma cn_temp_pad:
  assumes "length rest < rate"
  shows "(let temp = rest @ [1] @ replicate (rate - (length rest + 1)) 0
          in temp[rate - 1 := temp ! (rate - 1) OR 0x80])
         = rest @ sponge_pad rate 1 (length rest)"
proof (cases "rate = Suc (length rest)")
  case True
  then show ?thesis by (simp add: sponge_pad_def list_update_append nth_append)
next
  case False
  define k where "k = rate - length rest - 2"
  have rate: "rate = length rest + (k + 2)" using assms False by (simp add: k_def)
  define pre where "pre = rest @ 1 # replicate k (0 :: u8)"
  have temp: "rest @ [1] @ replicate (rate - (length rest + 1)) 0 = pre @ [0]"
    by (simp add: pre_def rate replicate_append_same)
  have idx: "rate - 1 = length pre" by (simp add: pre_def rate)
  have pad: "rest @ sponge_pad rate 1 (length rest) = pre @ [0x80]"
    by (simp add: sponge_pad_def rate pre_def)
  show ?thesis unfolding temp idx pad by (simp add: Let_def)
qed

lemma cn_keccak_spec:
  assumes "length inp < 2 ^ 31"
    and "rate = (if mdlen = 200 then 136 else 200 - 2 * mdlen)"
    and "mdlen = 200 \<or> 28 \<le> mdlen \<and> mdlen \<le> 96 \<and> 4 dvd mdlen"
  shows "cn_keccak inp mdlen = Some (take mdlen (bytes_of_words (keccak_sponge rate 1 inp)))"
proof -
  have r: "8 dvd rate" "8 \<le> rate" "rate \<le> 144"
    using assms(2,3) by (auto elim!: dvdE)
  have ri: "(if mdlen = 200 then 136 else 200 - 2 * int mdlen) = int rate"
    using assms(2,3) by auto
  obtain s rest where
    abs: "cn_absorb rate (replicate 25 0) inp = (s, rest)"
    and s: "length s = 25" and rest: "length rest < rate"
    and eq: "keccak_sponge rate 1 inp = sponge_absorb rate 1 s rest"
    using cn_absorb_spec [of "replicate 25 0" rate inp 1] r
    by (auto simp: keccak_sponge_def)
  have len: "length (rest @ sponge_pad rate 1 (length rest)) = rate"
    using rest r by (simp add: length_sponge_pad)
  have "cn_keccakf (cn_xor_block (rate div 8) s (rest @ sponge_pad rate 1 (length rest))) 24
        = sponge_absorb rate 1 s rest"
    using s r rest len by (simp add: cn_absorb_block sponge_absorb_last)
  then show ?thesis
    using assms(1) r abs cn_temp_pad [OF rest] unfolding cn_keccak_def ri
    by (simp add: eq Let_def)
qed


lemma take_32_200: "length ws = 25 \<Longrightarrow> take 32 (take 200 (bytes_of_words (ws :: u64 list))) = take 32 (bytes_of_words ws)"
  by simp

lemma cn_fast_hash_sponge:
  "length data < 2 ^ 31 \<Longrightarrow> cn_fast_hash data = Some (SHA3_256 data)"
  using cn_keccak_spec [of data 136 200]
  by (simp add: cn_fast_hash_def hash_process_def keccak1600_def SHA3_256_sponge)

lemma zano_cn_fast_hash_sponge:
  "length data < 2 ^ 31 \<Longrightarrow> zano_cn_fast_hash data = Some (SHA3_256 data)"
  using cn_keccak_spec [of data 136 32]
  by (simp add: zano_cn_fast_hash_def SHA3_256_sponge)

lemma cn_fast_hash_length:
  "cn_fast_hash data = Some h \<Longrightarrow> length h = 32"
proof -
  assume h: "cn_fast_hash data = Some h"
  then have "length data < 2 ^ 31"
    by (auto simp: cn_fast_hash_def hash_process_def keccak1600_def cn_keccak_def Let_def
        split: if_splits)
  with h show ?thesis by (auto simp: cn_fast_hash_sponge)
qed

section \<open>Properties\<close>

text \<open>
  Property C27: the macros \<open>SHA3_256\<close> and \<open>SHA3_512\<close> of \<open>sha3.h\<close> compute the Keccak sponge
  over the permutation of FIPS 202 with rates 136 and 72 and the original Keccak padding (domain
  byte 1), for every message.
\<close>

theorem SHA3_keccak_sponge:
  "SHA3_256 m = take 32 (bytes_of_words (keccak_sponge 136 1 m))
   \<and> SHA3_512 m = take 64 (bytes_of_words (keccak_sponge 72 1 m))"
  by (simp add: SHA3_256_sponge SHA3_512_sponge)

text \<open>
  The unrolled permutation of \<open>sha3.c\<close> and the in-place loops of \<open>keccak.c\<close> are
  both the permutation of FIPS 202, for every state of 25 lanes.
\<close>

theorem keccakf_permutations_agree:
  assumes "length a = 25"
  shows "sha3_keccakf a = keccak_p1600 24 a \<and> cn_keccakf a 24 = keccak_p1600 24 a"
  using assms by (simp add: sha3_keccakf_spec cn_keccakf_spec)

theorem keccakf_permutations_agree_witness:
  "sha3_keccakf (replicate 25 7) = cn_keccakf (replicate 25 7) 24"
  using keccakf_permutations_agree [of "replicate 25 7"] by simp

text \<open>
  \<open>cn_fast_hash\<close> of \<open>libcryptonote\<close>, which copies the first 32 bytes of a 200-byte
  state, and \<open>cn_fast_hash\<close> of \<open>libzanonote\<close>, which asks for 32 bytes, are the same Keccak-256
  as the one \<open>libethhash\<close> uses, for every input a C \<open>int\<close> can measure.
\<close>

theorem cn_fast_hash_is_SHA3_256:
  assumes "length data < 2 ^ 31"
  shows "cn_fast_hash data = Some (SHA3_256 data) \<and> zano_cn_fast_hash data = Some (SHA3_256 data)"
  using assms by (simp add: cn_fast_hash_sponge zano_cn_fast_hash_sponge)

theorem cn_fast_hash_is_SHA3_256_witness:
  "cn_fast_hash [1, 2, 3] = zano_cn_fast_hash [1, 2, 3]"
  using cn_fast_hash_is_SHA3_256 [of "[1, 2, 3]"] by simp

end
