(* ===== verification/TreeHash.thy ===== *)
theory TreeHash
  imports Keccak
begin

text \<open>
  The Merkle tree over a block's transaction hashes, \<open>crypto/tree-hash.c\<close> of \<open>libcryptonote\<close>
  (\<open>tree_hash\<close>, \<open>tree_depth\<close>, \<open>tree_branch\<close>, \<open>tree_hash_from_branch\<close>) and of
  \<open>libzanonote\<close> (\<open>tree_hash\<close>). The pool uses the root when it turns a block template into the
  blob the miners hash. The specification is the recursive tree: the hashes that do not fit the
  largest power of two below the count are paired first, and the perfect tree over the result is
  reduced level by level. The theorems: the in-place loops compute that root, and the branch of
  the first leaf proves the root.
\<close>

section \<open>The code\<close>

text \<open>\<open>cn_fast_hash(xs[i], 2 * HASH_SIZE, ...)\<close>: the 64 bytes of two adjacent cells.\<close>

definition hash_pair :: "bytes list \<Rightarrow> nat \<Rightarrow> bytes option" where
  "hash_pair xs i = do { a \<leftarrow> rd xs i; b \<leftarrow> rd xs (i + 1); cn_fast_hash (a @ b) }"

text \<open>The two loops that isolate the highest bit of \<open>count - 1\<close>.\<close>

definition tree_hash_cnt :: "u64 \<Rightarrow> u64" where
  "tree_hash_cnt count =
     (let cnt = fold (\<lambda>i cnt. cnt OR drop_bit i cnt) [1, 2, 4, 8, 16, 32] (count - 1)
      in cnt AND NOT (drop_bit 1 cnt))"

text \<open>
  \<open>for (i = i0, j = j0; j < n; i += 2, ++j) cn_fast_hash(src[i], 64, dst[j]);\<close> with separate
  source and destination; the value of \<open>i\<close> after the loop is returned with the destination.
\<close>

definition pair_loop :: "bytes list \<Rightarrow> nat \<Rightarrow> nat \<Rightarrow> nat \<Rightarrow> bytes list \<Rightarrow> (nat \<times> bytes list) option" where
  "pair_loop src i0 j0 n dst =
     for_each [j0..<n] (\<lambda>j (i, dst). do { h \<leftarrow> hash_pair src i; dst \<leftarrow> wr dst j h; Some (i + 2, dst) })
       (i0, dst)"

text \<open>The same loop in place, with \<open>i\<close> starting at \<open>i0\<close> and \<open>j\<close> at 0.\<close>

definition reduce_loop :: "nat \<Rightarrow> nat \<Rightarrow> bytes list \<Rightarrow> bytes list option" where
  "reduce_loop i0 n ints =
     map_option snd
       (for_each [0..<n] (\<lambda>j (i, ints). do { h \<leftarrow> hash_pair ints i; ints \<leftarrow> wr ints j h; Some (i + 2, ints) })
         (i0, ints))"

text \<open>\<open>while (cnt > 2) { cnt >>= 1; ... }\<close>\<close>

function tree_hash_levels :: "nat \<Rightarrow> bytes list \<Rightarrow> bytes list option" where
  "tree_hash_levels cnt ints =
     (if 2 < cnt then do { ints \<leftarrow> reduce_loop 0 (cnt div 2) ints; tree_hash_levels (cnt div 2) ints }
      else Some ints)"
  by pat_completeness auto
termination
  by (relation "measure fst") auto

declare tree_hash_levels.simps [simp del]

text \<open>
  \<open>tree_hash\<close>. The array \<open>ints\<close> from \<open>alloca\<close> is written before it is read; the model fills
  it with zero hashes. \<open>None\<close> is undefined behaviour or a failed assertion.
\<close>

definition tree_hash :: "bytes list \<Rightarrow> u64 \<Rightarrow> bytes option" where
  "tree_hash hashes count =
     (if count = 0 then None
      else if count = 1 then rd hashes 0
      else if count = 2 then hash_pair hashes 0
      else let cnt = unat (tree_hash_cnt count); k = 2 * cnt - unat count in
        if length hashes < k then None
        else do {
          (i, ints) \<leftarrow> pair_loop hashes k k cnt (memcpy_at (replicate cnt (replicate 32 0)) 0 (take k hashes));
          if i \<noteq> unat count then None
          else do {
            ints \<leftarrow> tree_hash_levels cnt ints;
            hash_pair ints 0
          }
        })"

text \<open>\<open>tree_depth\<close>: the shifts 32, 16, ..., 1.\<close>

definition tree_depth_step :: "nat \<Rightarrow> u64 \<times> nat \<Rightarrow> u64 \<times> nat" where
  "tree_depth_step i = (\<lambda>(count, depth).
     if 0 < drop_bit i count then (drop_bit i count, depth + i) else (count, depth))"

definition tree_depth :: "u64 \<Rightarrow> nat option" where
  "tree_depth count =
     (if count = 0 then None else Some (snd (fold tree_depth_step [32, 16, 8, 4, 2, 1] (count, 0))))"

definition tree_branch_step :: "u64 \<Rightarrow> nat \<Rightarrow> u64 \<times> nat \<Rightarrow> u64 \<times> nat" where
  "tree_branch_step count i = (\<lambda>(cnt, depth).
     if push_bit i cnt \<le> count then (push_bit i cnt, depth + i) else (cnt, depth))"

definition tree_branch_cnt :: "u64 \<Rightarrow> u64 \<times> nat" where
  "tree_branch_cnt count = fold (tree_branch_step count) [32, 16, 8, 4, 2, 1] (1, 0)"

text \<open>\<open>while (depth > 0) { cnt >>= 1; --depth; branch[depth] = ints[0]; ... }\<close>\<close>

fun tree_branch_levels :: "nat \<Rightarrow> nat \<Rightarrow> bytes list \<Rightarrow> bytes list \<Rightarrow> bytes list option" where
  "tree_branch_levels 0 cnt ints branch = Some branch"
| "tree_branch_levels (Suc depth) cnt ints branch =
     do {
       h \<leftarrow> rd ints 0;
       branch \<leftarrow> wr branch depth h;
       ints \<leftarrow> reduce_loop 1 (cnt div 2 - 1) ints;
       tree_branch_levels depth (cnt div 2) ints branch
     }"

definition tree_branch :: "bytes list \<Rightarrow> u64 \<Rightarrow> bytes list \<Rightarrow> bytes list option" where
  "tree_branch hashes count branch =
     (if count = 0 then None
      else let (c, depth) = tree_branch_cnt count; cnt = unat c; k = 2 * cnt - unat count - 1 in
        if c \<noteq> 2 ^ depth \<or> tree_depth count \<noteq> Some depth \<or> length hashes < k + 1 then None
        else do {
          (i, ints) \<leftarrow> pair_loop hashes (2 * cnt - unat count) k (cnt - 1)
             (memcpy_at (replicate (cnt - 1) (replicate 32 0)) 0 (take k (drop 1 hashes)));
          if i \<noteq> unat count then None
          else tree_branch_levels depth cnt ints branch
        })"

text \<open>
  \<open>tree_hash_from_branch\<close>. The two halves of \<open>buffer\<close> are the pair of the model's loop; the
  bit \<open>depth\<close> of the path, when there is a path, says that the leaf's side is the right one.
\<close>

definition path_bit :: "bytes option \<Rightarrow> nat \<Rightarrow> bool option" where
  "path_bit path depth =
     (case path of None \<Rightarrow> Some False
      | Some p \<Rightarrow> map_option (\<lambda>b. bit b (depth mod 8)) (rd p (depth div 8)))"

fun branch_loop :: "bytes list \<Rightarrow> bytes option \<Rightarrow> nat \<Rightarrow> bytes \<Rightarrow> (bytes \<times> bytes) option \<Rightarrow> bytes option" where
  "branch_loop branch path 0 leaf buffer =
     (case buffer of None \<Rightarrow> None | Some (l, r) \<Rightarrow> cn_fast_hash (l @ r))"
| "branch_loop branch path (Suc depth) leaf buffer =
     do {
       right \<leftarrow> path_bit path depth;
       x \<leftarrow> (case buffer of None \<Rightarrow> Some leaf | Some (l, r) \<Rightarrow> cn_fast_hash (l @ r));
       b \<leftarrow> rd branch depth;
       branch_loop branch path depth leaf (Some (if right then (b, x) else (x, b)))
     }"

definition tree_hash_from_branch :: "bytes list \<Rightarrow> nat \<Rightarrow> bytes \<Rightarrow> bytes option \<Rightarrow> bytes option" where
  "tree_hash_from_branch branch depth leaf path =
     (if depth = 0 then Some leaf else branch_loop branch path depth leaf None)"

section \<open>The specification\<close>

fun pair_level :: "bytes list \<Rightarrow> bytes list" where
  "pair_level (a # b # xs) = SHA3_256 (a @ b) # pair_level xs"
| "pair_level xs = []"

primrec merkle_root :: "nat \<Rightarrow> bytes list \<Rightarrow> bytes" where
  "merkle_root 0 xs = hd xs"
| "merkle_root (Suc d) xs = merkle_root d (pair_level xs)"

fun ceil_log :: "nat \<Rightarrow> nat" where
  "ceil_log n = (if n \<le> 1 then 0 else Suc (ceil_log ((n + 1) div 2)))"

declare ceil_log.simps [simp del]

text \<open>The first level: with \<open>2 ^ d < n \<le> 2 ^ (d + 1)\<close> leaves, \<open>2 ^ (d + 1) - n\<close> stay alone.\<close>

definition tree_root :: "bytes list \<Rightarrow> bytes" where
  "tree_root hs =
     (case ceil_log (length hs) of
        0 \<Rightarrow> hd hs
      | Suc d \<Rightarrow> let k = 2 ^ Suc d - length hs in merkle_root d (take k hs @ pair_level (drop k hs)))"

definition all_hashes :: "bytes list \<Rightarrow> bool" where
  "all_hashes xs \<longleftrightarrow> (\<forall>x \<in> set xs. length x = 32)"

section \<open>Levels\<close>

lemma length_pair_level [simp]: "length (pair_level xs) = length xs div 2"
  by (induction xs rule: pair_level.induct) auto

lemma nth_pair_level:
  "j < length xs div 2 \<Longrightarrow> pair_level xs ! j = SHA3_256 (xs ! (2 * j) @ xs ! (2 * j + 1))"
proof (induction xs arbitrary: j rule: pair_level.induct)
  case (1 a b xs)
  then show ?case by (cases j) auto
qed auto

lemma all_hashes_pair_level [simp]: "all_hashes (pair_level xs)"
  by (induction xs rule: pair_level.induct) (auto simp: all_hashes_def)

lemma all_hashes_nth: "all_hashes xs \<Longrightarrow> i < length xs \<Longrightarrow> length (xs ! i) = 32"
  by (simp add: all_hashes_def)

lemma hash_pair_eq:
  "all_hashes xs \<Longrightarrow> i + 1 < length xs \<Longrightarrow> hash_pair xs i = Some (SHA3_256 (xs ! i @ xs ! (i + 1)))"
  by (simp add: hash_pair_def cn_fast_hash_sponge all_hashes_nth)

lemma pair_loop_eq:
  assumes "all_hashes src" and "length dst = n" and "j0 \<le> n" and "i0 + 2 * (n - j0) \<le> length src"
  shows "pair_loop src i0 j0 n dst
         = Some (i0 + 2 * (n - j0), take j0 dst @ pair_level (take (2 * (n - j0)) (drop i0 src)))"
proof -
  have "m \<le> n - j0 \<Longrightarrow>
      for_each [j0..<j0 + m] (\<lambda>j (i, dst). do { h \<leftarrow> hash_pair src i; dst \<leftarrow> wr dst j h; Some (i + 2, dst) })
        (i0, dst)
      = Some (i0 + 2 * m, take j0 dst @ pair_level (take (2 * m) (drop i0 src)) @ drop (j0 + m) dst)" for m
  proof (induction m)
    case (Suc m)
    have len: "i0 + 2 * m + 1 < length src" using assms Suc.prems by simp
    have lv: "pair_level (take (2 * Suc m) (drop i0 src))
        = pair_level (take (2 * m) (drop i0 src)) @ [SHA3_256 (src ! (i0 + 2 * m) @ src ! (i0 + 2 * m + 1))]"
      using len by (intro nth_equalityI) (auto simp: nth_pair_level nth_append less_Suc_eq)
    have dr: "drop (j0 + m) dst = dst ! (j0 + m) # drop (j0 + Suc m) dst"
      using assms Suc.prems by (simp add: Cons_nth_drop_Suc)
    from Suc len show ?case
      using assms by (simp add: for_each_append hash_pair_eq lv [simplified] dr list_update_append)
  qed simp
  from this [of "n - j0"] show ?thesis
    using assms by (simp add: pair_loop_def)
qed


lemma all_hashes_append [simp]: "all_hashes (xs @ ys) \<longleftrightarrow> all_hashes xs \<and> all_hashes ys"
  by (auto simp: all_hashes_def)

lemma all_hashes_take_drop [simp]: "all_hashes xs \<Longrightarrow> all_hashes (take n xs)" "all_hashes xs \<Longrightarrow> all_hashes (drop n xs)"
  by (auto simp: all_hashes_def dest: in_set_takeD in_set_dropD)

lemma reduce_loop_eq:
  assumes "all_hashes ints" and "i0 + 2 * n \<le> length ints"
  shows "reduce_loop i0 n ints = Some (pair_level (take (2 * n) (drop i0 ints)) @ drop n ints)"
proof -
  have "m \<le> n \<Longrightarrow>
      for_each [0..<m] (\<lambda>j (i, ints). do { h \<leftarrow> hash_pair ints i; ints \<leftarrow> wr ints j h; Some (i + 2, ints) })
        (i0, ints)
      = Some (i0 + 2 * m, pair_level (take (2 * m) (drop i0 ints)) @ drop m ints)" for m
  proof (induction m)
    case (Suc m)
    let ?st = "pair_level (take (2 * m) (drop i0 ints)) @ drop m ints"
    have len: "i0 + 2 * m + 1 < length ints" using assms Suc.prems by simp
    have lp: "length (pair_level (take (2 * m) (drop i0 ints))) = m" using len by simp
    have lv: "pair_level (take (2 * Suc m) (drop i0 ints))
        = pair_level (take (2 * m) (drop i0 ints)) @ [SHA3_256 (ints ! (i0 + 2 * m) @ ints ! (i0 + 2 * m + 1))]"
      using len by (intro nth_equalityI) (auto simp: nth_pair_level nth_append less_Suc_eq)
    have dr: "drop m ints = ints ! m # drop (Suc m) ints"
      using len by (simp add: Cons_nth_drop_Suc)
    have idx: "m + (m + i0) = i0 + 2 * m" by simp
    have "?st ! (i0 + 2 * m) = ints ! (i0 + 2 * m)" "?st ! (i0 + 2 * m + 1) = ints ! (i0 + 2 * m + 1)"
      using len lp by (simp_all add: nth_append idx)
    moreover have "hash_pair ?st (i0 + 2 * m)
        = Some (SHA3_256 (?st ! (i0 + 2 * m) @ ?st ! (i0 + 2 * m + 1)))"
      using assms len by (intro hash_pair_eq) auto
    ultimately have hp: "hash_pair ?st (i0 + 2 * m)
        = Some (SHA3_256 (ints ! (i0 + 2 * m) @ ints ! (i0 + 2 * m + 1)))" by simp
    have "wr ?st m h = Some (pair_level (take (2 * m) (drop i0 ints)) @ h # drop (Suc m) ints)" for h
      using len lp by (simp add: dr list_update_append)
    with hp Suc show ?case by (simp add: for_each_append lv [simplified])
  qed simp
  from this [of n] show ?thesis by (simp add: reduce_loop_def)
qed

lemma tree_hash_levels_eq:
  assumes "all_hashes ints" and "2 ^ Suc d \<le> length ints"
  shows "\<exists>ints'. tree_hash_levels (2 ^ Suc d) ints = Some ints' \<and> all_hashes ints' \<and> 2 \<le> length ints'
           \<and> merkle_root (Suc d) (take (2 ^ Suc d) ints) = SHA3_256 (ints' ! 0 @ ints' ! 1)"
  using assms
proof (induction d arbitrary: ints)
  case 0
  have "take 2 ints = [ints ! 0, ints ! 1]"
    using 0 by (intro nth_equalityI) (auto simp: less_2_cases_iff)
  with 0 show ?case by (simp add: tree_hash_levels.simps)
next
  case (Suc d)
  let ?ints = "pair_level (take (2 ^ Suc (Suc d)) ints) @ drop (2 ^ Suc d) ints"
  have "reduce_loop 0 (2 ^ Suc d) ints = Some ?ints"
    using Suc.prems reduce_loop_eq [of ints 0 "2 ^ Suc d"] by simp
  moreover have "2 < (2::nat) ^ Suc (Suc d)"
    using one_less_power [of "2::nat" "Suc d"] by simp
  moreover have dv: "(2::nat) ^ Suc (Suc d) div 2 = 2 ^ Suc d" by simp
  ultimately have "tree_hash_levels (2 ^ Suc (Suc d)) ints = tree_hash_levels (2 ^ Suc d) ?ints"
    by (subst tree_hash_levels.simps) (simp only: dv if_True bind.bind_lunit)
  moreover have "take (2 ^ Suc d) ?ints = pair_level (take (2 ^ Suc (Suc d)) ints)"
    using Suc.prems by simp
  moreover have "all_hashes ?ints" "2 ^ Suc d \<le> length ?ints"
    using Suc.prems by auto
  ultimately show ?case
    using Suc.IH [of ?ints] by (simp del: power_Suc)
qed

section \<open>The powers of two\<close>

lemma smear_window:
  assumes "\<And>j. bit c' j \<longleftrightarrow> (\<exists>m<w. bit c (j + m))"
  shows "bit (c' OR drop_bit w c' :: u64) j \<longleftrightarrow> (\<exists>m<2 * w. bit c (j + m))"
proof -
  have "bit (c' OR drop_bit w c') j \<longleftrightarrow> (\<exists>m<w. bit c (j + m)) \<or> (\<exists>m<w. bit c (j + (w + m)))"
    by (simp add: bit_simps assms add.commute add.left_commute)
  also have "\<dots> \<longleftrightarrow> (\<exists>m<2 * w. bit c (j + m))"
  proof (intro iffI)
    assume "(\<exists>m<w. bit c (j + m)) \<or> (\<exists>m<w. bit c (j + (w + m)))"
    then show "\<exists>m<2 * w. bit c (j + m)"
    proof (elim disjE exE conjE)
      fix m assume "m < w" "bit c (j + m)"
      then show ?thesis by (intro exI [of _ m]) simp
    next
      fix m assume "m < w" "bit c (j + (w + m))"
      then show ?thesis by (intro exI [of _ "w + m"]) simp
    qed
  next
    assume "\<exists>m<2 * w. bit c (j + m)"
    then obtain m where m: "m < 2 * w" "bit c (j + m)" by blast
    show "(\<exists>m<w. bit c (j + m)) \<or> (\<exists>m<w. bit c (j + (w + m)))"
    proof (cases "m < w")
      case False
      with m have "m - w < w" "bit c (j + (w + (m - w)))" by auto
      then show ?thesis by blast
    qed (use m in blast)
  qed
  finally show ?thesis .
qed

lemma top_bit:
  assumes "c \<noteq> (0 :: u64)"
  obtains k where "k < 64" "bit c k" "\<And>j. k < j \<Longrightarrow> \<not> bit c j" "2 ^ k \<le> unat c" "unat c < 2 ^ Suc k"
proof -
  have fin: "finite {j. bit c j}"
    by (rule finite_subset [of _ "{..<64}"]) (auto dest: bit_imp_le_length)
  have "{j. bit c j} \<noteq> {}"
    using assms by (auto simp: bit_eq_iff)
  define k where "k = Max {j. bit c j}"
  have k: "bit c k" using Max_in [OF fin \<open>{j. bit c j} \<noteq> {}\<close>] by (simp add: k_def)
  have above: "\<not> bit c j" if "k < j" for j
  proof
    assume "bit c j"
    then have "j \<le> k" unfolding k_def by (intro Max_ge [OF fin]) simp
    with that show False by simp
  qed
  have "k < 64" using k by (auto dest: bit_imp_le_length)
  have "take_bit (Suc k) c = c"
    by (rule bit_eqI) (auto simp: bit_simps not_less_eq [symmetric] dest: above)
  then have "unat c < 2 ^ Suc k"
    by (metis take_bit_nat_less_exp unsigned_take_bit_eq)
  moreover have "2 ^ k \<le> unat c"
  proof (rule ccontr)
    assume "\<not> 2 ^ k \<le> unat c"
    then have "\<not> bit (unat c) k" by (simp add: bit_iff_odd)
    with k \<open>k < 64\<close> show False by (simp add: bit_simps)
  qed
  ultimately show thesis using that k above \<open>k < 64\<close> by blast
qed

lemma tree_hash_cnt_spec:
  assumes "2 \<le> unat count"
  obtains d where "d < 64" "unat (tree_hash_cnt count) = 2 ^ d" "2 ^ d < unat count" "unat count \<le> 2 ^ Suc d"
proof -
  let ?c = "count - 1"
  have c: "unat ?c = unat count - 1"
    using assms by (simp add: unat_sub_if')
  then have "?c \<noteq> 0" using assms by auto
  then obtain k where k: "k < 64" "bit ?c k" "\<And>j. k < j \<Longrightarrow> \<not> bit ?c j"
      "2 ^ k \<le> unat ?c" "unat ?c < 2 ^ Suc k"
    using top_bit by blast
  define c1 where "c1 = ?c OR drop_bit 1 ?c"
  define c2 where "c2 = c1 OR drop_bit 2 c1"
  define c4 where "c4 = c2 OR drop_bit 4 c2"
  define c8 where "c8 = c4 OR drop_bit 8 c4"
  define c16 where "c16 = c8 OR drop_bit 16 c8"
  define c32 where "c32 = c16 OR drop_bit 32 c16"
  have "bit c1 j \<longleftrightarrow> (\<exists>m<2. bit ?c (j + m))" for j
    unfolding c1_def using smear_window [of ?c 1 ?c] by simp
  from smear_window [OF this] have "bit c2 j \<longleftrightarrow> (\<exists>m<4. bit ?c (j + m))" for j
    unfolding c2_def by simp
  from smear_window [OF this] have "bit c4 j \<longleftrightarrow> (\<exists>m<8. bit ?c (j + m))" for j
    unfolding c4_def by simp
  from smear_window [OF this] have "bit c8 j \<longleftrightarrow> (\<exists>m<16. bit ?c (j + m))" for j
    unfolding c8_def by simp
  from smear_window [OF this] have "bit c16 j \<longleftrightarrow> (\<exists>m<32. bit ?c (j + m))" for j
    unfolding c16_def by simp
  from smear_window [OF this] have w: "bit c32 j \<longleftrightarrow> (\<exists>m<64. bit ?c (j + m))" for j
    unfolding c32_def by simp
  have sm: "bit c32 j \<longleftrightarrow> j \<le> k" for j
  proof
    assume "j \<le> k"
    with k show "bit c32 j" unfolding w by (intro exI [of _ "k - j"]) auto
  next
    assume "bit c32 j"
    then obtain m where "bit ?c (j + m)" unfolding w by blast
    with k(3) [of "j + m"] show "j \<le> k" by fastforce
  qed
  have "tree_hash_cnt count = c32 AND NOT (drop_bit 1 c32)"
    by (simp add: tree_hash_cnt_def c32_def c16_def c8_def c4_def c2_def c1_def)
  also have "\<dots> = 2 ^ k"
    by (rule bit_word_eqI) (use k(1) in \<open>auto simp: bit_simps sm bit_exp_iff\<close>)
  finally have "unat (tree_hash_cnt count) = 2 ^ k"
    using k(1) by (simp add: unat_2p)
  with k c assms show thesis by (intro that [of k]) auto
qed


lemma ceil_log_eq: "2 ^ d < n \<Longrightarrow> n \<le> 2 ^ Suc d \<Longrightarrow> ceil_log n = Suc d"
proof (induction d arbitrary: n)
  case 0
  then have "n = 2" by simp
  then show ?case by (simp add: ceil_log.simps)
next
  case (Suc d)
  then have "2 ^ d < (n + 1) div 2" "(n + 1) div 2 \<le> 2 ^ Suc d" by auto
  then have "ceil_log ((n + 1) div 2) = Suc d" by (rule Suc.IH)
  moreover have "1 < n"
    using one_less_power [of "2::nat" "Suc d"] Suc.prems(1) by (simp del: power_Suc)
  ultimately show ?case by (subst ceil_log.simps) simp
qed

lemma ceil_log_1 [simp]: "ceil_log (Suc 0) = 0"
  by (simp add: ceil_log.simps)

text \<open>One step of the two binary searches for the highest bit, on the numbers behind the words.\<close>

lemma push_step:
  assumes "unat (cnt :: u64) = 2 ^ e" and "2 ^ e \<le> unat n" and "unat n < 2 ^ (e + 2 * i)"
    and "e + i < 64"
  shows "\<exists>cnt' e'. tree_branch_step n i (cnt, e) = (cnt', e')
     \<and> unat cnt' = 2 ^ e' \<and> 2 ^ e' \<le> unat n \<and> unat n < 2 ^ (e' + i) \<and> e' \<le> e + i"
proof -
  have "unat (push_bit i cnt) = 2 ^ (e + i)"
  proof -
    have "unat cnt = unat (2 ^ e :: u64)" using assms(1,4) by (simp add: unat_2p)
    then have "cnt = 2 ^ e" by (rule unsigned_word_eqI)
    then have "push_bit i cnt = 2 ^ (e + i)" by (simp add: push_bit_eq_mult power_add mult.commute)
    with assms(4) show ?thesis by (simp add: unat_2p)
  qed
  with assms show ?thesis
    by (cases "push_bit i cnt \<le> n") (auto simp: tree_branch_step_def word_le_nat_alt add.assoc mult_2)
qed

lemma drop_step:
  assumes "unat (c :: u64) = unat n div 2 ^ e" and "2 ^ e \<le> unat n" and "unat n < 2 ^ (e + 2 * i)"
  shows "\<exists>c' e'. tree_depth_step i (c, e) = (c', e')
     \<and> unat c' = unat n div 2 ^ e' \<and> 2 ^ e' \<le> unat n \<and> unat n < 2 ^ (e' + i)"
proof -
  have d: "unat (drop_bit i c) = unat n div 2 ^ (e + i)"
    using assms(1) by (simp add: unat_drop_bit div_mult2_eq power_add)
  show ?thesis
  proof (cases "0 < drop_bit i c")
    case True
    then have "0 < unat n div 2 ^ (e + i)" using d by (simp add: word_less_nat_alt)
    then have "2 ^ (e + i) \<le> unat n" by (metis div_less less_nat_zero_code not_le)
    with True d assms show ?thesis by (simp add: tree_depth_step_def add.assoc mult_2)
  next
    case False
    then have "unat n div 2 ^ (e + i) = 0" using d by (simp add: word_less_nat_alt)
    then have "unat n < 2 ^ (e + i)" by (simp add: div_eq_0_iff)
    moreover have "tree_depth_step i (c, e) = (c, e)" using False by (simp add: tree_depth_step_def)
    ultimately show ?thesis using assms by (intro exI [of _ c] exI [of _ e]) (simp only: simp_thms)
  qed
qed


lemma pow2_bracket_unique:
  "2 ^ d \<le> (n::nat) \<Longrightarrow> n < 2 ^ Suc d \<Longrightarrow> 2 ^ e \<le> n \<Longrightarrow> n < 2 ^ Suc e \<Longrightarrow> d = e"
  by (metis le_less_trans less_Suc_eq_le linorder_neqE_nat not_less_eq power_less_imp_less_exp one_less_numeral_iff
      semiring_norm(76) less_irrefl)

lemma tree_branch_cnt_spec:
  assumes "count \<noteq> 0"
  obtains c e where "tree_branch_cnt count = (c, e)" "unat c = 2 ^ e" "2 ^ e \<le> unat count"
    "unat count < 2 ^ Suc e"
proof -
  have n: "1 \<le> unat count" using assms by (simp add: Suc_le_eq unat_gt_0)
  have lt: "unat count < 2 ^ 64" using unsigned_less [of count, where ?'a = nat] by simp
  obtain c1 e1 where 1: "tree_branch_step count 32 (1, 0) = (c1, e1)" "unat c1 = 2 ^ e1" "2 ^ e1 \<le> unat count"
      "unat count < 2 ^ (e1 + 32)" "e1 \<le> 32"
    using push_step [of 1 0 count 32] n lt by auto
  obtain c2 e2 where 2: "tree_branch_step count 16 (c1, e1) = (c2, e2)" "unat c2 = 2 ^ e2" "2 ^ e2 \<le> unat count"
      "unat count < 2 ^ (e2 + 16)" "e2 \<le> 48"
    using push_step [of c1 e1 count 16] 1 by auto
  obtain c3 e3 where 3: "tree_branch_step count 8 (c2, e2) = (c3, e3)" "unat c3 = 2 ^ e3" "2 ^ e3 \<le> unat count"
      "unat count < 2 ^ (e3 + 8)" "e3 \<le> 56"
    using push_step [of c2 e2 count 8] 2 by auto
  obtain c4 e4 where 4: "tree_branch_step count 4 (c3, e3) = (c4, e4)" "unat c4 = 2 ^ e4" "2 ^ e4 \<le> unat count"
      "unat count < 2 ^ (e4 + 4)" "e4 \<le> 60"
    using push_step [of c3 e3 count 4] 3 by auto
  obtain c5 e5 where 5: "tree_branch_step count 2 (c4, e4) = (c5, e5)" "unat c5 = 2 ^ e5" "2 ^ e5 \<le> unat count"
      "unat count < 2 ^ (e5 + 2)" "e5 \<le> 62"
    using push_step [of c4 e4 count 2] 4 by auto
  obtain c6 e6 where 6: "tree_branch_step count 1 (c5, e5) = (c6, e6)" "unat c6 = 2 ^ e6" "2 ^ e6 \<le> unat count"
      "unat count < 2 ^ (e6 + 1)" "e6 \<le> 63"
    using push_step [of c5 e5 count 1] 5 by auto
  have "tree_branch_cnt count = (c6, e6)"
    unfolding tree_branch_cnt_def using 1(1) 2(1) 3(1) 4(1) 5(1) 6(1) by simp
  with 6 show thesis by (intro that) auto
qed

lemma tree_depth_spec:
  assumes "count \<noteq> 0"
  obtains e where "tree_depth count = Some e" "2 ^ e \<le> unat count" "unat count < 2 ^ Suc e"
proof -
  have n: "1 \<le> unat count" using assms by (simp add: Suc_le_eq unat_gt_0)
  have lt: "unat count < 2 ^ 64" using unsigned_less [of count, where ?'a = nat] by simp
  obtain c1 e1 where 1: "tree_depth_step 32 (count, 0) = (c1, e1)" "unat c1 = unat count div 2 ^ e1"
      "2 ^ e1 \<le> unat count" "unat count < 2 ^ (e1 + 32)"
    using drop_step [of count count 0 32] n lt by auto
  obtain c2 e2 where 2: "tree_depth_step 16 (c1, e1) = (c2, e2)" "unat c2 = unat count div 2 ^ e2"
      "2 ^ e2 \<le> unat count" "unat count < 2 ^ (e2 + 16)"
    using drop_step [of c1 count e1 16] 1 by auto
  obtain c3 e3 where 3: "tree_depth_step 8 (c2, e2) = (c3, e3)" "unat c3 = unat count div 2 ^ e3"
      "2 ^ e3 \<le> unat count" "unat count < 2 ^ (e3 + 8)"
    using drop_step [of c2 count e2 8] 2 by auto
  obtain c4 e4 where 4: "tree_depth_step 4 (c3, e3) = (c4, e4)" "unat c4 = unat count div 2 ^ e4"
      "2 ^ e4 \<le> unat count" "unat count < 2 ^ (e4 + 4)"
    using drop_step [of c3 count e3 4] 3 by auto
  obtain c5 e5 where 5: "tree_depth_step 2 (c4, e4) = (c5, e5)" "unat c5 = unat count div 2 ^ e5"
      "2 ^ e5 \<le> unat count" "unat count < 2 ^ (e5 + 2)"
    using drop_step [of c4 count e4 2] 4 by auto
  obtain c6 e6 where 6: "tree_depth_step 1 (c5, e5) = (c6, e6)" "unat c6 = unat count div 2 ^ e6"
      "2 ^ e6 \<le> unat count" "unat count < 2 ^ (e6 + 1)"
    using drop_step [of c5 count e5 1] 5 by auto
  have "tree_depth count = Some e6"
    unfolding tree_depth_def using assms 1(1) 2(1) 3(1) 4(1) 5(1) 6(1) by simp
  with 6 show thesis by (intro that) auto
qed

section \<open>tree_hash computes the root\<close>

lemma all_hashes_zero [simp]: "all_hashes (replicate n (replicate 32 0))"
  by (auto simp: all_hashes_def)

lemma pair_of_two: "length xs = 2 \<Longrightarrow> pair_level xs = [SHA3_256 (xs ! 0 @ xs ! 1)]"
  by (cases xs rule: pair_level.cases) auto

lemma tree_hash_eq_root:
  assumes "all_hashes hs" and "length hs = unat count" and "count \<noteq> 0"
  shows "tree_hash hs count = Some (tree_root hs)"
proof -
  have n: "0 < length hs" using assms by (simp add: unat_gt_0)
  consider "length hs = 1" | "length hs = 2" | "2 < length hs" using n by linarith
  then show ?thesis
  proof cases
    case 1
    then have "count = 1" using assms(2) by (intro unsigned_word_eqI [where ?'a = nat]) simp
    moreover have "hs \<noteq> []" using 1 by auto
    ultimately show ?thesis using 1 by (simp add: tree_hash_def tree_root_def hd_conv_nth [of hs])
  next
    case 2
    then have c: "count = 2" using assms(2) by (intro unsigned_word_eqI [where ?'a = nat]) simp
    have "ceil_log 2 = Suc 0" using ceil_log_eq [of 0 2] by simp
    with 2 c show ?thesis
      using assms by (simp add: tree_hash_def tree_root_def hash_pair_eq pair_of_two Let_def)
  next
    case 3
    then have ne: "count \<noteq> 1" "count \<noteq> 2" using assms(2) by auto
    have "2 \<le> unat count" using 3 assms(2) by simp
    then obtain d where d: "unat (tree_hash_cnt count) = 2 ^ d" "2 ^ d < length hs" "length hs \<le> 2 ^ Suc d"
      using assms(2) by (metis tree_hash_cnt_spec)
    have "d \<noteq> 0" using d(3) 3 by (intro notI) simp
    then obtain e where e: "d = Suc e" by (cases d) auto
    let ?k = "2 * 2 ^ d - length hs"
    let ?L = "take ?k hs @ pair_level (drop ?k hs)"
    have k: "?k \<le> 2 ^ d" "?k \<le> length hs" "?k + 2 * (2 ^ d - ?k) = length hs" using d by auto
    have L: "length ?L = 2 ^ d" "all_hashes ?L" using k assms(1) by auto
    have pl: "pair_loop hs ?k ?k (2 ^ d) (memcpy_at (replicate (2 ^ d) (replicate 32 0)) 0 (take ?k hs))
        = Some (length hs, ?L)"
      using pair_loop_eq [OF assms(1), of "memcpy_at (replicate (2 ^ d) (replicate 32 0)) 0 (take ?k hs)" "2 ^ d" ?k ?k] k
      by (simp add: memcpy_at_def)
    have Le: "2 ^ Suc e \<le> length ?L" using L e by simp
    obtain ints where ints: "tree_hash_levels (2 ^ Suc e) ?L = Some ints" "all_hashes ints" "2 \<le> length ints"
        "merkle_root (Suc e) (take (2 ^ Suc e) ?L) = SHA3_256 (ints ! 0 @ ints ! 1)"
      using tree_hash_levels_eq [OF L(2) Le] by blast
    have "tree_hash hs count = Some (SHA3_256 (ints ! 0 @ ints ! 1))"
      using ne assms d(1) k pl ints e
      by (simp add: tree_hash_def Let_def hash_pair_eq del: power_Suc)
    moreover have "tree_root hs = merkle_root d ?L"
      using ceil_log_eq [OF d(2,3)] by (simp add: tree_root_def Let_def)
    moreover have "take (2 ^ Suc e) ?L = ?L" using L(1) unfolding e by (intro take_all) (simp only: order_refl)
    ultimately show ?thesis using ints(4) unfolding e by (simp only:)
  qed
qed

section \<open>The branch of the first leaf\<close>

primrec proof_root :: "bytes list \<Rightarrow> nat \<Rightarrow> bytes \<Rightarrow> bytes" where
  "proof_root br 0 x = x"
| "proof_root br (Suc d) x = proof_root br d (SHA3_256 (x @ br ! d))"

lemma branch_loop_buffer:
  assumes "d \<le> length br" and "\<And>i. i < d \<Longrightarrow> length (br ! i) = 32" and "length l = 32" and "length r = 32"
  shows "branch_loop br None d leaf (Some (l, r)) = Some (proof_root br d (SHA3_256 (l @ r)))"
  using assms
proof (induction d arbitrary: l r)
  case (Suc d)
  then show ?case
    by (simp add: path_bit_def cn_fast_hash_sponge length_SHA3)
qed (simp add: cn_fast_hash_sponge)

lemma tree_hash_from_branch_eq:
  assumes "d \<le> length br" and "\<And>i. i < d \<Longrightarrow> length (br ! i) = 32" and "length leaf = 32"
  shows "tree_hash_from_branch br d leaf None = Some (proof_root br d leaf)"
proof (cases d)
  case (Suc e)
  with assms have "branch_loop br None e leaf (Some (leaf, br ! e)) = Some (proof_root br e (SHA3_256 (leaf @ br ! e)))"
    by (intro branch_loop_buffer) auto
  with Suc assms show ?thesis by (simp add: tree_hash_from_branch_def path_bit_def)
qed (simp add: tree_hash_from_branch_def)

lemma tl_pair_level: "2 \<le> length xs \<Longrightarrow> tl (pair_level xs) = pair_level (drop 2 xs)"
  by (cases xs rule: pair_level.cases) auto

lemma hd_pair_level: "2 \<le> length xs \<Longrightarrow> pair_level xs ! 0 = SHA3_256 (xs ! 0 @ xs ! 1)"
  by (cases xs rule: pair_level.cases) auto

lemma tree_branch_levels_eq:
  assumes "length L = 2 ^ d" and "all_hashes L" and "all_hashes ints" and "take (2 ^ d - 1) ints = tl L"
    and "d \<le> length br"
  shows "\<exists>br'. tree_branch_levels d (2 ^ d) ints br = Some br' \<and> length br' = length br
           \<and> (\<forall>i \<ge> d. br' ! i = br ! i) \<and> (\<forall>i < d. length (br' ! i) = 32)
           \<and> proof_root br' d (L ! 0) = merkle_root d L"
  using assms
proof (induction d arbitrary: L ints br)
  case 0
  then show ?case by (cases L) auto
next
  case (Suc d)
  let ?L = "pair_level L" and ?br = "br[d := L ! 1]"
  have two: "2 \<le> length L" using Suc.prems(1) by simp
  have tlL: "tl L = L ! 1 # drop 2 L"
    using two by (cases L rule: pair_level.cases) auto
  have len: "2 ^ Suc d - 1 \<le> length ints"
    using arg_cong [OF Suc.prems(4), of length] Suc.prems(1) by simp
  have pos: "0 < (2::nat) ^ Suc d - 1" using one_less_power [of "2::nat" "Suc d"] by linarith
  have h: "rd ints 0 = Some (L ! 1)"
  proof -
    have "rd ints 0 = Some (ints ! 0)" using len pos by (intro rd_Some) linarith
    moreover have "ints ! 0 = take (2 ^ Suc d - 1) ints ! 0" using pos by (intro nth_take [symmetric])
    ultimately show ?thesis unfolding Suc.prems(4) tlL by simp
  qed
  have dv: "(2::nat) ^ Suc d div 2 = 2 ^ d" by simp
  let ?n = "(2::nat) ^ d - 1"
  have n2: "1 + 2 * ?n = 2 ^ Suc d - 1" using pos by (cases "(2::nat) ^ d") auto
  have "take (2 * ?n) (drop 1 ints) = drop 1 (take (2 ^ Suc d - 1) ints)"
    unfolding n2 [symmetric] by (simp add: take_drop add.commute)
  also have "\<dots> = drop 2 L" unfolding Suc.prems(4) tlL by simp
  finally have td: "take (2 * ?n) (drop 1 ints) = drop 2 L" .
  let ?ints = "pair_level (drop 2 L) @ drop ?n ints"
  have red: "reduce_loop 1 (2 ^ Suc d div 2 - 1) ints = Some ?ints"
    unfolding dv using reduce_loop_eq [of ints 1 ?n, OF Suc.prems(3)] len n2 unfolding td by linarith
  have step: "tree_branch_levels (Suc d) (2 ^ Suc d) ints br = tree_branch_levels d (2 ^ d) ?ints ?br"
    using Suc.prems(5) by (simp add: h red [unfolded dv One_nat_def] dv del: power_Suc)
  have "length ?L = 2 ^ d" "all_hashes ?L" "all_hashes ?ints" "d \<le> length ?br"
    using Suc.prems by auto
  moreover have "take ?n ?ints = tl ?L"
    using Suc.prems(1) by (simp add: tl_pair_level [OF two] diff_mult_distrib2)
  ultimately obtain br' where br': "tree_branch_levels d (2 ^ d) ?ints ?br = Some br'" "length br' = length ?br"
      "\<forall>i \<ge> d. br' ! i = ?br ! i" "\<forall>i < d. length (br' ! i) = 32" "proof_root br' d (?L ! 0) = merkle_root d ?L"
    using Suc.IH [of ?L ?ints ?br] by blast
  have d': "br' ! d = L ! 1" using br'(3) Suc.prems(5) by simp
  moreover have "length (L ! 1) = 32" using Suc.prems(2) two by (intro all_hashes_nth) auto
  moreover have "\<forall>i \<ge> Suc d. br' ! i = br ! i" using br'(3) by simp
  ultimately show ?case
    using br' two unfolding step by (simp add: hd_pair_level less_Suc_eq del: power_Suc)
qed

lemma tree_root_alt:
  assumes "2 ^ e \<le> length hs" and "length hs < 2 ^ Suc e"
  shows "tree_root hs = merkle_root e (let k = 2 * 2 ^ e - length hs in take k hs @ pair_level (drop k hs))"
proof (cases "length hs = 2 ^ e")
  case False
  with assms show ?thesis using ceil_log_eq [of e "length hs"] by (simp add: tree_root_def Let_def)
next
  case True
  show ?thesis
  proof (cases e)
    case 0
    with True show ?thesis by (simp add: tree_root_def)
  next
    case (Suc d)
    with True have "ceil_log (length hs) = Suc d" by (intro ceil_log_eq) auto
    with True Suc show ?thesis by (simp add: tree_root_def)
  qed
qed

lemma tree_branch_eq:
  assumes "all_hashes hs" and "length hs = unat count" and "count \<noteq> 0" and "64 \<le> length br"
  shows "\<exists>br' depth. tree_depth count = Some depth \<and> tree_branch hs count br = Some br'
    \<and> tree_hash_from_branch br' depth (hs ! 0) None = Some (tree_root hs)"
proof -
  obtain c e where c: "tree_branch_cnt count = (c, e)" "unat c = 2 ^ e" "2 ^ e \<le> unat count"
      "unat count < 2 ^ Suc e" using tree_branch_cnt_spec [OF assms(3)] by blast
  obtain e' where e': "tree_depth count = Some e'" "2 ^ e' \<le> unat count" "unat count < 2 ^ Suc e'"
    using tree_depth_spec [OF assms(3)] by blast
  have td: "tree_depth count = Some e" using e' pow2_bracket_unique [OF c(3,4) e'(2,3)] by simp
  have "unat c < 2 ^ 64" using unsigned_less [of c, where ?'a = nat] by simp
  then have e64: "e < 64" unfolding c(2) by (rule power_less_imp_less_exp [rotated]) simp
  then have c2: "c = 2 ^ e" using c(2) by (intro unsigned_word_eqI [where ?'a = nat]) (simp add: unat_2p)
  let ?n = "(2::nat) ^ e - 1"
  define k where "k = 2 * 2 ^ e - unat count - 1"
  let ?L = "take (Suc k) hs @ pair_level (drop (Suc k) hs)"
  have sk: "2 * 2 ^ e - unat count = Suc k" using c(4) by (simp add: k_def)
  have k: "k \<le> ?n" "Suc k \<le> length hs" "Suc k + 2 * (?n - k) = unat count"
    using c(3,4) assms(2) by (auto simp: k_def)
  have "Suc k + (unat count - Suc k) div 2 = Suc k + (?n - k)" using k(3) by linarith
  also have "\<dots> = 2 ^ e" using k(1) one_le_power [of "2::nat" e] by linarith
  finally have len: "Suc k + (unat count - Suc k) div 2 = 2 ^ e" .
  have "length ?L = Suc k + (unat count - Suc k) div 2" using k(2) assms(2) by simp
  then have L: "length ?L = 2 ^ e" unfolding len .
  have aL: "all_hashes ?L" using assms(1) by simp
  have tlL: "tl ?L = take k (drop 1 hs) @ pair_level (drop (Suc k) hs)"
    using k(2) by (cases hs) auto
  let ?dst = "memcpy_at (replicate ?n (replicate 32 0)) 0 (take k (drop 1 hs))"
  have "length ?dst = ?n" "take k ?dst = take k (drop 1 hs)"
    using k by (auto simp: memcpy_at_def)
  moreover have ends: "Suc k + 2 * (?n - k) \<le> length hs" using k(3) assms(2) by simp
  have "take (2 * (?n - k)) (drop (Suc k) hs) = drop (Suc k) hs"
    using k(3) assms(2) by (intro take_all) simp
  ultimately have pl: "pair_loop hs (Suc k) k ?n ?dst = Some (unat count, tl ?L)"
    using pair_loop_eq [OF assms(1) _ k(1) ends, of ?dst] unfolding tlL k(3) by simp
  have tk: "take ?n (tl ?L) = tl ?L" by (intro take_all) (simp only: length_tl L order_refl)
  have "all_hashes (tl ?L)" unfolding tlL using assms(1) by simp
  then obtain br' where br': "tree_branch_levels e (2 ^ e) (tl ?L) br = Some br'" "length br' = length br"
      "\<forall>i < e. length (br' ! i) = 32" "proof_root br' e (?L ! 0) = merkle_root e ?L"
    using tree_branch_levels_eq [OF L aL _ tk, of br] e64 assms(4) by auto
  have "\<not> length hs < Suc k" using k(2) by linarith
  then have "tree_branch hs count br = tree_branch_levels e (2 ^ e) (tl ?L) br"
    unfolding tree_branch_def c(1) Let_def prod.case c(2) sk
    using assms(3) c2 td pl by (simp only: if_False simp_thms bind.bind_lunit prod.case diff_Suc_1 Suc_eq_plus1 [symmetric])
  then have "tree_branch hs count br = Some br'" using br'(1) by simp
  moreover have "?L ! 0 = hs ! 0" using k(2) by (cases hs) auto
  moreover have "length (hs ! 0) = 32" using assms(1) k(2) by (intro all_hashes_nth) auto
  then have "tree_hash_from_branch br' e (hs ! 0) None = Some (proof_root br' e (hs ! 0))"
    using br' e64 assms(4) by (intro tree_hash_from_branch_eq) auto
  moreover have "tree_root hs = merkle_root e ?L"
    using tree_root_alt [of e hs] c(3,4) assms(2) sk by (simp add: Let_def)
  ultimately show ?thesis using td br'(4) by simp
qed

section \<open>Properties\<close>

text \<open>
  Property C23: \<open>tree_hash\<close> computes the Merkle root of every non-empty list of transaction hashes:
  none of its reads and writes is out of bounds, its assertions hold, and the result is the root
  of the tree whose first level pairs just the hashes beyond the largest smaller power of two.
\<close>

theorem tree_hash_is_root:
  assumes "all_hashes hs" and "length hs = unat count" and "count \<noteq> 0"
  shows "tree_hash hs count = Some (tree_root hs)"
  using assms by (rule tree_hash_eq_root)

theorem tree_hash_is_root_witness:
  "tree_hash [replicate 32 1, replicate 32 2, replicate 32 3] 3
   = Some (SHA3_256 (replicate 32 1 @ SHA3_256 (replicate 32 2 @ replicate 32 3)))"
proof -
  have "tree_hash [replicate 32 1, replicate 32 2, replicate 32 3] 3
      = Some (tree_root [replicate 32 1, replicate 32 2, replicate 32 3])"
    by (rule tree_hash_is_root) (auto simp: all_hashes_def)
  moreover have "ceil_log 3 = Suc (Suc 0)" using ceil_log_eq [of 1 3] by simp
  ultimately show ?thesis
    by (simp add: tree_root_def Let_def numeral_2_eq_2 numeral_3_eq_3)
qed

text \<open>
  Property C24: the branch \<open>tree_branch\<close> computes for the first leaf (the coinbase transaction)
  proves the root: \<open>tree_hash_from_branch\<close> of that leaf over the branch of depth \<open>tree_depth\<close>
  returns what \<open>tree_hash\<close> returns.
\<close>

theorem tree_branch_proves_root:
  assumes "all_hashes hs" and "length hs = unat count" and "count \<noteq> 0" and "64 \<le> length br"
  shows "\<exists>br' depth. tree_depth count = Some depth \<and> tree_branch hs count br = Some br'
    \<and> tree_hash_from_branch br' depth (hs ! 0) None = tree_hash hs count"
  using tree_branch_eq [OF assms] tree_hash_eq_root [OF assms(1-3)] by auto

theorem tree_branch_proves_root_witness:
  "\<exists>br' depth. tree_depth 5 = Some depth
    \<and> tree_branch (replicate 5 (replicate 32 9)) 5 (replicate 64 []) = Some br'
    \<and> tree_hash_from_branch br' depth (replicate 32 9) None = tree_hash (replicate 5 (replicate 32 9)) 5"
  using tree_branch_proves_root [of "replicate 5 (replicate 32 9)" 5 "replicate 64 []"]
  by (auto simp: all_hashes_def)

end
