(* ===== verification/X16.thy ===== *)
theory X16
  imports Chains "HOL-Library.Multiset"
begin

text \<open>
  The X16 family of \<open>libmultihash\<close>: \<open>x16r.c\<close>, \<open>x16rv2.c\<close>, \<open>x16s.c\<close> and \<open>x21s.c\<close>. The bytes 4 to
  11 of the block header (the start of the previous block's hash) select the order of sixteen
  digests. The theorems: X16R visits the digests that the hex digits name, X16S and X21S visit each
  digest once, and what the shorter digests of X21S and X16Rv2 leave in the buffer.
\<close>

section \<open>The order of the digests\<close>

text \<open>\<open>enum Algo\<close>, in its order.\<close>

definition algo_table :: "sph list" where
  "algo_table = [BLAKE512, BMW512, GROESTL512, JH512, KECCAK512, SKEIN512, LUFFA512, CUBEHASH512, SHAVITE512,
     SIMD512, ECHO512, HAMSI512, FUGUE512, SHABAL512, WHIRLPOOL, SHA512]"

text \<open>\<open>b = (15 - i) >> 1\<close>, and the high digit of the byte for an even \<open>i\<close>, the low one otherwise.\<close>

definition algo_digit :: "bytes \<Rightarrow> nat \<Rightarrow> u8" where
  "algo_digit prevblock i =
     (let b = (15 - i) div 2 in if odd i then prevblock ! b AND 0xF else drop_bit 4 (prevblock ! b))"

definition digit_char :: "u8 \<Rightarrow> u8" where
  "digit_char d = (if 10 \<le> d then 65 + (d - 10) else 48 + d)"

definition x16r_getAlgoString :: "bytes \<Rightarrow> bytes" where
  "x16r_getAlgoString prevblock = map (\<lambda>j. digit_char (algo_digit prevblock j)) [0..<16]"

text \<open>\<open>x16s.c\<close>: the character at the offset moves to the front.\<close>

definition move_front :: "nat \<Rightarrow> bytes \<Rightarrow> bytes" where
  "move_front offset output =
     (let oldVal = output ! offset;
          output = fold (\<lambda>j output. output[j + 1 := output ! j]) (rev [0..<offset]) output
      in output[0 := oldVal])"

text \<open>The string \<open>"0123456789ABCDEF"\<close>.\<close>

definition hex_chars :: bytes where
  "hex_chars = [48, 49, 50, 51, 52, 53, 54, 55, 56, 57, 65, 66, 67, 68, 69, 70]"

definition x16s_getAlgoString :: "bytes \<Rightarrow> bytes" where
  "x16s_getAlgoString prevblock =
     fold (\<lambda>i output. move_front (unat (algo_digit prevblock i)) output) [0..<16] hex_chars"

definition elem_algo :: "u8 \<Rightarrow> nat" where
  "elem_algo e = (if 65 \<le> e then unat (e - 65 + 10) else unat (e - 48))"

section \<open>The loops\<close>

text \<open>The state of the loop is where \<open>in\<close> points to, with its size, and the buffer \<open>hash\<close>.\<close>

definition x16r_step :: "prims \<Rightarrow> u8 \<Rightarrow> bytes \<times> nat \<times> bytes \<Rightarrow> bytes \<times> nat \<times> bytes" where
  "x16r_step P e = (\<lambda>(inp, sz, hash).
     let algo = elem_algo e;
         hash = (if algo < 16 then sph_run P (algo_table ! algo) inp sz hash else hash)
     in (hash, 64, hash))"

definition x16r_hash :: "prims \<Rightarrow> bytes \<Rightarrow> nat \<Rightarrow> bytes \<Rightarrow> bytes" where
  "x16r_hash P input len hash =
     (let (inp, sz, hash) = fold (x16r_step P) (x16r_getAlgoString (drop 4 input)) (input, len, hash)
      in take 32 hash)"

definition x16s_hash :: "prims \<Rightarrow> bytes \<Rightarrow> nat \<Rightarrow> bytes \<Rightarrow> bytes" where
  "x16s_hash P input len hash =
     (let (inp, sz, hash) = fold (x16r_step P) (x16s_getAlgoString (drop 4 input)) (input, len, hash)
      in take 32 hash)"

text \<open>
  \<open>x21s.c\<close> goes on with Haval, Tiger, Lyra2 in place, Gost and SHA-256 over the same buffer, without
  clearing the bytes that the shorter digests do not reach.
\<close>

definition x21s_hash :: "prims \<Rightarrow> bytes \<Rightarrow> nat \<Rightarrow> bytes \<Rightarrow> bytes" where
  "x21s_hash P input len hash =
     (let (inp, sz, hash) = fold (x16r_step P) (x16s_getAlgoString (drop 4 input)) (input, len, hash);
          hash = sph_run P HAVAL256_5 hash 64 hash;
          hash = sph_run P TIGER hash 64 hash;
          hash = memcpy_at hash 0 (lyra2 P (take 32 hash) (take 32 hash) 4 4);
          hash = sph_run P GOST512 hash 64 hash;
          hash = sph_run P SHA256 hash 64 hash
      in take 32 hash)"

text \<open>\<open>x16rv2.c\<close>: Keccak, Luffa and SHA-512 hash the Tiger digest, padded with zeros.\<close>

definition x16rv2_step :: "prims \<Rightarrow> u8 \<Rightarrow> bytes \<times> nat \<times> bytes \<Rightarrow> bytes \<times> nat \<times> bytes" where
  "x16rv2_step P e = (\<lambda>(inp, sz, hash).
     let algo = elem_algo e;
         hash =
           (if algo = 4 \<or> algo = 6 \<or> algo = 15 then
              let hash = sph_run P TIGER inp sz hash;
                  hash = fold (\<lambda>j hash. hash[j := 0]) [24..<64] hash
              in sph_run P (algo_table ! algo) hash 64 hash
            else if algo < 16 then sph_run P (algo_table ! algo) inp sz hash
            else hash)
     in (hash, 64, hash))"

definition x16rv2_hash :: "prims \<Rightarrow> bytes \<Rightarrow> nat \<Rightarrow> bytes \<Rightarrow> bytes" where
  "x16rv2_hash P input len hash =
     (let (inp, sz, hash) = fold (x16rv2_step P) (x16r_getAlgoString (drop 4 input)) (input, len, hash)
      in take 32 hash)"

section \<open>The order\<close>

lemma algo_digit_less: "unat (algo_digit prevblock i) < 16"
proof -
  have "unat (x AND 0xF) < 16" for x :: u8
  proof -
    have "unat (x AND 0xF) = unat x mod 16"
      using arg_cong [OF take_bit_eq_mask [of 4 x], of unat]
      by (simp add: take_bit_eq_mod mask_eq_exp_minus_1 unat_mod_distrib)
    then show ?thesis by simp
  qed
  moreover have "unat (drop_bit 4 x) < 16" for x :: u8
  proof -
    have "unat x div 16 < 16" by (rule less_mult_imp_div_less) (rule order_less_le_trans [OF unat_u8_less], simp)
    then show ?thesis by (simp add: unat_drop_bit)
  qed
  ultimately show ?thesis by (simp add: algo_digit_def Let_def)
qed

lemma elem_algo_digit_char:
  assumes "unat d < 16"
  shows "elem_algo (digit_char d) = unat d"
proof -
  define k where "k = unat d"
  have d: "d = of_nat k" by (simp add: k_def)
  have "k \<in> set [0..<16]" using assms by (simp add: k_def)
  then have "elem_algo (digit_char (of_nat k)) = k"
    by (auto simp: upt_rec elem_algo_def digit_char_def word_le_nat_alt)
  then show ?thesis by (simp add: d [symmetric] k_def [symmetric])
qed

lemma shift_up:
  "k < length xs \<Longrightarrow>
   fold (\<lambda>j xs. xs[j + 1 := xs ! j]) (rev [0..<k]) xs = take 1 xs @ take k xs @ drop (Suc k) (xs :: bytes)"
proof (induction k arbitrary: xs)
  case 0
  then show ?case by (cases xs) auto
next
  case (Suc k)
  let ?xs = "xs[Suc k := xs ! k]"
  have "fold (\<lambda>j xs. xs[j + 1 := xs ! j]) (rev [0..<Suc k]) xs
      = take 1 ?xs @ take k ?xs @ drop (Suc k) ?xs"
    using Suc.IH [of ?xs] Suc.prems by simp
  moreover have "drop (Suc k) ?xs = xs ! k # drop (Suc (Suc k)) xs"
    using Suc.prems by (subst Cons_nth_drop_Suc [symmetric]) auto
  moreover have "take (Suc k) xs = take k xs @ [xs ! k]"
    using Suc.prems by (simp add: take_Suc_conv_app_nth)
  ultimately show ?case by simp
qed

lemma move_front_eq:
  assumes "k < length xs"
  shows "move_front k xs = xs ! k # take k xs @ drop (Suc k) xs"
proof -
  have "take 1 xs = [xs ! 0]" using assms by (cases xs) auto
  then show ?thesis using shift_up [OF assms] by (simp add: move_front_def Let_def)
qed

lemma mset_move_front:
  assumes "k < length xs"
  shows "mset (move_front k xs) = mset xs" and "length (move_front k xs) = length xs"
proof -
  have "xs = take k xs @ xs ! k # drop (Suc k) xs" using assms by (rule id_take_nth_drop)
  then have "mset xs = mset (take k xs @ xs ! k # drop (Suc k) xs)" by simp
  then show "mset (move_front k xs) = mset xs" by (simp add: move_front_eq [OF assms])
  show "length (move_front k xs) = length xs" using assms by (simp add: move_front_eq)
qed

lemma mset_x16s_order: "mset (x16s_getAlgoString prevblock) = mset hex_chars"
proof -
  have "mset (x16s_getAlgoString prevblock) = mset hex_chars \<and> length (x16s_getAlgoString prevblock) = 16"
    unfolding x16s_getAlgoString_def
  proof (rule fold_invariant [where P = "\<lambda>xs. mset xs = mset hex_chars \<and> length xs = 16"])
    fix i xs
    assume "mset xs = mset hex_chars \<and> length xs = (16 :: nat)"
    then show "mset (move_front (unat (algo_digit prevblock i)) xs) = mset hex_chars
        \<and> length (move_front (unat (algo_digit prevblock i)) xs) = 16"
      using mset_move_front [of "unat (algo_digit prevblock i)" xs] algo_digit_less by simp
  qed (simp add: hex_chars_def)
  then show ?thesis by simp
qed

lemma hex_chars_algos: "map elem_algo hex_chars = [0..<16]"
  by (simp add: hex_chars_def elem_algo_def upt_rec)

definition order_sphs :: "bytes \<Rightarrow> sph list" where
  "order_sphs order = map (\<lambda>e. algo_table ! elem_algo e) order"

lemma x16s_order_perm: "mset (order_sphs (x16s_getAlgoString prevblock)) = mset algo_table"
proof -
  have "mset (order_sphs (x16s_getAlgoString prevblock))
      = image_mset (\<lambda>e. algo_table ! elem_algo e) (mset (x16s_getAlgoString prevblock))"
    by (simp add: order_sphs_def)
  also have "\<dots> = mset (map (\<lambda>i. algo_table ! i) (map elem_algo hex_chars))"
    by (simp add: mset_x16s_order comp_def flip: mset_map)
  also have "map (\<lambda>i. algo_table ! i) (map elem_algo hex_chars) = algo_table"
    unfolding hex_chars_algos by (simp add: algo_table_def upt_rec)
  finally show ?thesis .
qed

section \<open>The loops are chains\<close>

lemma algo_table_64: "algo < 16 \<Longrightarrow> digest_size (algo_table ! algo) = 64"
proof -
  have "list_all (\<lambda>h. digest_size h = 64) algo_table" by (simp add: algo_table_def)
  then show "algo < 16 \<Longrightarrow> ?thesis" by (simp add: list_all_length) (simp add: algo_table_def)
qed

text \<open>The state after at least one digest: the buffer is the input of the next one.\<close>

lemma x16r_fold:
  assumes "prims_ok P" and "\<forall>e \<in> set order. elem_algo e < 16" and "order \<noteq> []" and "length hash = 64"
  shows "\<exists>hash'. fold (x16r_step P) order (inp, sz, hash) = (hash', 64, hash') \<and> length hash' = 64
    \<and> hash' = chain P (order_sphs order) (take sz inp)"
  using assms(2-4)
proof (induction order arbitrary: inp sz hash)
  case (Cons e order)
  let ?h = "digest P (algo_table ! elem_algo e) (take sz inp)"
  have e: "elem_algo e < 16" using Cons.prems by simp
  have step: "x16r_step P e (inp, sz, hash) = (?h, 64, ?h)"
    using e assms(1) Cons.prems(3) by (simp add: x16r_step_def sph_run_all algo_table_64 Let_def)
  have len: "length ?h = 64" using e assms(1) by (simp add: length_digest algo_table_64)
  show ?case
  proof (cases "order = []")
    case True
    with step len show ?thesis by (simp add: order_sphs_def)
  next
    case False
    from Cons.IH [where inp = ?h and sz = 64 and hash = ?h] Cons.prems False len step show ?thesis by (simp add: order_sphs_def)
  qed
qed simp

lemma x16s_elems:
  assumes "e \<in> set (x16s_getAlgoString prevblock)"
  shows "elem_algo e < 16"
proof -
  have "set (x16s_getAlgoString prevblock) = set hex_chars"
    using mset_x16s_order [of prevblock] by (metis set_mset_mset)
  then have "elem_algo e \<in> set (map elem_algo hex_chars)" using assms by auto
  then show ?thesis by (simp add: hex_chars_algos)
qed

lemma x16s_order_nonempty: "x16s_getAlgoString prevblock \<noteq> []"
  using mset_x16s_order [of prevblock] by (auto simp: hex_chars_def)

lemma x16r_elems: "e \<in> set (x16r_getAlgoString prevblock) \<Longrightarrow> elem_algo e < 16"
  by (auto simp: x16r_getAlgoString_def elem_algo_digit_char algo_digit_less)

definition header_digits :: "bytes \<Rightarrow> nat list" where
  "header_digits prevblock = concat (map (\<lambda>b. [unat b div 16, unat b mod 16]) (rev (take 8 prevblock)))"

lemma unat_low_digit: "unat (x AND 0xF :: u8) = unat x mod 16"
  using arg_cong [OF take_bit_eq_mask [of 4 x], of unat]
  by (simp add: take_bit_eq_mod mask_eq_exp_minus_1 unat_mod_distrib)

lemma x16r_digits:
  assumes "8 \<le> length prevblock"
  shows "map elem_algo (x16r_getAlgoString prevblock) = header_digits prevblock"
proof -
  have "map elem_algo (x16r_getAlgoString prevblock) = map (\<lambda>j. unat (algo_digit prevblock j)) [0..<16]"
    by (simp add: x16r_getAlgoString_def elem_algo_digit_char algo_digit_less)
  also have "\<dots> = concat (map (\<lambda>k. [unat (prevblock ! k) div 16, unat (prevblock ! k) mod 16]) (rev [0..<8]))"
    by (simp add: upt_numeral upt_one_numeral algo_digit_def unat_drop_bit unat_low_digit Let_def)
  also have "\<dots> = concat (map (\<lambda>b. [unat b div 16, unat b mod 16]) (rev (map ((!) prevblock) [0..<8])))"
    by (simp add: rev_map comp_def)
  also have "map ((!) prevblock) [0..<8] = take 8 prevblock"
    using assms by (intro nth_equalityI) auto
  finally show ?thesis by (simp add: header_digits_def)
qed

section \<open>X16Rv2\<close>

definition x16rv2_stage :: "prims \<Rightarrow> nat \<Rightarrow> bytes \<Rightarrow> bytes" where
  "x16rv2_stage P algo m =
     digest P (algo_table ! algo) (if algo \<in> {4, 6, 15} then padded P TIGER m else m)"

lemma fold_zero:
  assumes "k \<le> m" and "m \<le> length xs"
  shows "fold (\<lambda>j xs. xs[j := 0]) [k..<m] xs = take k xs @ replicate (m - k) 0 @ drop m (xs :: bytes)"
  using assms
proof (induction m)
  case (Suc m)
  show ?case
  proof (cases "k = Suc m")
    case False
    then have "k \<le> m" using Suc.prems by simp
    moreover have "drop m xs = xs ! m # drop (Suc m) xs" using Suc.prems by (simp add: Cons_nth_drop_Suc)
    moreover have "replicate (Suc m - k) (0 :: u8) = replicate (m - k) 0 @ [0]"
      using \<open>k \<le> m\<close> by (simp add: Suc_diff_le replicate_append_same)
    ultimately show ?thesis using Suc by (simp add: list_update_append)
  qed simp
qed simp

lemma x16rv2_step_eq:
  assumes "prims_ok P" and "elem_algo e < 16" and "length hash = 64"
  shows "x16rv2_step P e (inp, sz, hash)
    = (x16rv2_stage P (elem_algo e) (take sz inp), 64, x16rv2_stage P (elem_algo e) (take sz inp))"
proof -
  let ?t = "digest P TIGER (take sz inp) @ drop 24 hash"
  have l: "length ?t = 64" using assms by (simp add: length_digest)
  have "fold (\<lambda>j hash. hash[j := 0]) [24..<64] ?t = take 24 ?t @ replicate (64 - 24) 0 @ drop 64 ?t"
    using l by (intro fold_zero) simp_all
  also have "\<dots> = padded P TIGER (take sz inp)"
    using l assms(1) by (simp add: padded_def length_digest)
  finally have "fold (\<lambda>j hash. hash[j := 0]) [24..<64] ?t = padded P TIGER (take sz inp)" .
  then show ?thesis
    using assms
    by (auto simp: x16rv2_step_def x16rv2_stage_def sph_run_all sph_run_part [OF assms(1), of TIGER]
        algo_table_64 Let_def)
qed

lemma x16rv2_fold:
  assumes "prims_ok P" and "\<forall>e \<in> set order. elem_algo e < 16" and "order \<noteq> []" and "length hash = 64"
  shows "\<exists>hash'. fold (x16rv2_step P) order (inp, sz, hash) = (hash', 64, hash') \<and> length hash' = 64
    \<and> hash' = fold (x16rv2_stage P) (map elem_algo order) (take sz inp)"
  using assms(2-4)
proof (induction order arbitrary: inp sz hash)
  case (Cons e order)
  let ?h = "x16rv2_stage P (elem_algo e) (take sz inp)"
  have e: "elem_algo e < 16" using Cons.prems by simp
  note step = x16rv2_step_eq [OF assms(1) e Cons.prems(3), of inp sz]
  have len: "length ?h = 64" using e assms(1) by (simp add: x16rv2_stage_def length_digest algo_table_64)
  show ?case
  proof (cases "order = []")
    case True
    with step len show ?thesis by simp
  next
    case False
    from Cons.IH [where inp = ?h and sz = 64 and hash = ?h] Cons.prems False len step show ?thesis by simp
  qed
qed simp

section \<open>Properties\<close>

text \<open>
  X16R runs the sixteen digests that the hex digits of the bytes 4 to 11 of the header
  name, read from the last byte to the first, the high digit before the low one.
\<close>

theorem x16r_follows_header_digits:
  assumes "prims_ok P" and "12 \<le> length input" and "length hash = 64"
  shows "x16r_hash P input len hash
    = take 32 (chain P (map (\<lambda>d. algo_table ! d) (header_digits (drop 4 input))) (take len input))"
proof -
  let ?o = "x16r_getAlgoString (drop 4 input)"
  have "?o \<noteq> []" by (simp add: x16r_getAlgoString_def)
  from x16r_fold [OF assms(1) _ this assms(3), of input len] x16r_elems
  have "x16r_hash P input len hash = take 32 (chain P (order_sphs ?o) (take len input))"
    by (auto simp: x16r_hash_def)
  moreover have "order_sphs ?o = map (\<lambda>d. algo_table ! d) (map elem_algo ?o)"
    by (simp add: order_sphs_def)
  ultimately show ?thesis using x16r_digits [of "drop 4 input"] assms(2) by simp
qed

theorem x16r_follows_header_digits_witness:
  "x16r_hash sample_prims (replicate 80 0) 80 (replicate 64 9)
   = take 32 (chain sample_prims (replicate 16 BLAKE512) (replicate 80 0))"
  using x16r_follows_header_digits [OF sample_prims_ok, of "replicate 80 0" "replicate 64 9" 80]
  by (simp add: header_digits_def replicate_numeral algo_table_def)

text \<open>
  Property C39: X16S runs each of the sixteen digests exactly once, in an order that only depends on
  the header, whatever its buffer held.
\<close>

theorem x16s_runs_each_digest_once:
  assumes "prims_ok P" and "12 \<le> length input" and "length hash = 64"
  shows "\<exists>order. mset order = mset algo_table \<and> x16s_hash P input len hash = take 32 (chain P order (take len input))
    \<and> order = order_sphs (x16s_getAlgoString (drop 4 input))"
  using x16r_fold [OF assms(1) _ x16s_order_nonempty assms(3), of "drop 4 input" input len]
    x16s_elems x16s_order_perm [of "drop 4 input"]
  by (auto simp: x16s_hash_def)

theorem x16s_runs_each_digest_once_witness:
  "\<exists>order. mset order = mset algo_table
    \<and> x16s_hash sample_prims (replicate 80 5) 80 (replicate 64 9) = take 32 (chain sample_prims order (replicate 80 5))"
  using x16s_runs_each_digest_once [OF sample_prims_ok, of "replicate 80 5" "replicate 64 9" 80] by auto

text \<open>
  X21S is the X16S chain and then Haval, Tiger, Lyra2, Gost and SHA-256, but Tiger reads
  the second half of the sixteenth digest behind Haval's, Lyra2 reads the end of Haval's digest
  behind Tiger's, and Gost reads that second half again: the buffer is never cleared.
\<close>

theorem x21s_reuses_stale_bytes:
  assumes "prims_ok P" and "12 \<le> length input" and "length hash = 64"
  shows "x21s_hash P input len hash =
    (let s = chain P (order_sphs (x16s_getAlgoString (drop 4 input))) (take len input);
         h = digest P HAVAL256_5 s;
         t = digest P TIGER (h @ drop 32 s) @ drop 24 h;
         l = lyra2 P t t 4 4
     in digest P SHA256 (digest P GOST512 (l @ drop 32 s)))"
proof -
  let ?o = "x16s_getAlgoString (drop 4 input)"
  have elems: "\<forall>e \<in> set ?o. elem_algo e < 16" by (auto intro: x16s_elems)
  obtain s where s: "fold (x16r_step P) ?o (input, len, hash) = (s, 64, s)" "length s = 64"
      "s = chain P (order_sphs ?o) (take len input)"
    using x16r_fold [OF assms(1) elems x16s_order_nonempty assms(3)] by blast
  have "length (lyra2 P p q r c) = 32" for p q r c using assms(1) by (simp add: prims_ok_def)
  with assms(1) s(2) show ?thesis
    unfolding x21s_hash_def s(1) s(3) [symmetric]
    by (simp add: Let_def run_simps memcpy_at_def)
qed

theorem x21s_reuses_stale_bytes_witness:
  "length (x21s_hash sample_prims (replicate 80 5) 80 (replicate 64 9)) = 32"
  using x21s_reuses_stale_bytes [OF sample_prims_ok, of "replicate 80 5" "replicate 64 9" 80]
  by (simp add: Let_def length_digest [OF sample_prims_ok])

text \<open>
  X16Rv2 is X16R with a Tiger digest, padded with zeros to 64 bytes, in front of
  Keccak, Luffa and SHA-512.
\<close>

theorem x16rv2_adds_tiger:
  assumes "prims_ok P" and "12 \<le> length input" and "length hash = 64"
  shows "x16rv2_hash P input len hash
    = take 32 (fold (x16rv2_stage P) (header_digits (drop 4 input)) (take len input))"
proof -
  let ?o = "x16r_getAlgoString (drop 4 input)"
  have "?o \<noteq> []" by (simp add: x16r_getAlgoString_def)
  from x16rv2_fold [OF assms(1) _ this assms(3), of input len] x16r_elems
  have "x16rv2_hash P input len hash = take 32 (fold (x16rv2_stage P) (map elem_algo ?o) (take len input))"
    by (auto simp: x16rv2_hash_def)
  with x16r_digits [of "drop 4 input"] assms(2) show ?thesis by simp
qed

theorem x16rv2_adds_tiger_witness:
  "x16rv2_hash sample_prims (replicate 80 0x44) 80 (replicate 64 9)
   = take 32 (fold (x16rv2_stage sample_prims) (replicate 16 4) (replicate 80 0x44))"
  using x16rv2_adds_tiger [OF sample_prims_ok, of "replicate 80 0x44" "replicate 64 9" 80]
  by (simp add: header_digits_def replicate_numeral)

end
