(* ===== verification/Ethash.thy ===== *)
theory Ethash
  imports Keccak DataSizes
begin

text \<open>
  Ethash, \<open>libethhash/internal.c\<close> with \<open>internal.h\<close>, \<open>fnv.h\<close> and \<open>ethash.h\<close>: the cache, the
  items of the data set, the data set in memory and the two ways to hash a header, from the light
  client's cache and from the full data set. The operations are parametrised by the hash
  functions they call, because the forks of the library differ just there; the interfaces
  \<open>node_hash\<close> and \<open>ethash_hashes\<close> state what the operations need of the functions. \<open>None\<close> is undefined
  behaviour: an access out of bounds or a division by zero. The host is little endian, so the
  \<open>fix_endian\<close> macros of \<open>endian.h\<close> do nothing.
\<close>

section \<open>Nodes\<close>

text \<open>
  \<open>union node\<close>: 16 words, which are also 64 bytes. \<open>NODE_WORDS\<close> is 16, \<open>MIX_WORDS\<close> 32 and
  \<open>MIX_NODES\<close> 2.
\<close>

type_synonym node = "u32 list"

definition FNV_PRIME :: u32 where
  "FNV_PRIME = 0x01000193"

definition fnv_hash :: "u32 \<Rightarrow> u32 \<Rightarrow> u32" where
  "fnv_hash x y = (x * FNV_PRIME) XOR y"

text \<open>A hash of the 64 bytes of a node, written over the bytes of a node.\<close>

definition hash_node :: "(bytes \<Rightarrow> bytes) \<Rightarrow> node \<Rightarrow> node" where
  "hash_node h512 nd = words_of_bytes (h512 (bytes_of_words nd))"

text \<open>The values of \<open>i\<close> in \<open>for (uint32_t i = a; i != b; ++i)\<close>, which wraps when \<open>b < a\<close>.\<close>

definition u32_steps :: "u32 \<Rightarrow> u32 \<Rightarrow> nat list" where
  "u32_steps a b = (if a \<le> b then [unat a..<unat b] else [unat a..<2 ^ 32] @ [0..<unat b])"

section \<open>The cache\<close>

definition cache_fill :: "(bytes \<Rightarrow> bytes) \<Rightarrow> u32 \<Rightarrow> node list \<Rightarrow> node list option" where
  "cache_fill h512 num_nodes =
     for_each (u32_steps 1 num_nodes)
       (\<lambda>i nodes. do { p \<leftarrow> rd nodes (i - 1); wr nodes i (hash_node h512 p) })"

definition cache_mix :: "(bytes \<Rightarrow> bytes) \<Rightarrow> u32 \<Rightarrow> nat \<Rightarrow> node list \<Rightarrow> node list option" where
  "cache_mix h512 num_nodes i nodes =
     do {
       cur \<leftarrow> rd nodes i;
       w \<leftarrow> rd cur 0;
       idx \<leftarrow> umod w num_nodes;
       prev \<leftarrow> umod (num_nodes - 1 + of_nat i) num_nodes;
       data \<leftarrow> rd nodes (unat prev);
       other \<leftarrow> rd nodes (unat idx);
       wr nodes i (hash_node h512 (map2 (XOR) data other))
     }"

definition ethash_compute_cache_nodes ::
  "(bytes \<Rightarrow> bytes) \<Rightarrow> node list \<Rightarrow> u64 \<Rightarrow> bytes \<Rightarrow> (bool \<times> node list) option" where
  "ethash_compute_cache_nodes h512 nodes csize seed =
     (if csize mod 64 \<noteq> 0 then Some (False, nodes)
      else let num_nodes = ucast (csize div 64) in
        do {
          nodes \<leftarrow> wr nodes 0 (words_of_bytes (h512 seed));
          nodes \<leftarrow> cache_fill h512 num_nodes nodes;
          nodes \<leftarrow> for_each [0..<3] (\<lambda>j. for_each (u32_steps 0 num_nodes) (cache_mix h512 num_nodes)) nodes;
          Some (True, nodes)
        })"

section \<open>The light client\<close>

record ethash_light =
  cache :: "node list"
  cache_size :: u64
  block_number :: u64

definition ethash_calculate_dag_item :: "(bytes \<Rightarrow> bytes) \<Rightarrow> u32 \<Rightarrow> ethash_light \<Rightarrow> node option" where
  "ethash_calculate_dag_item h512 node_index light =
     (let num_parent_nodes = ucast (cache_size light div 64) :: u32 in
      do {
        k \<leftarrow> umod node_index num_parent_nodes;
        init \<leftarrow> rd (cache light) (unat k);
        w \<leftarrow> rd init 0;
        ret \<leftarrow> for_each [0..<256]
          (\<lambda>i ret. do {
             w \<leftarrow> rd ret (i mod 16);
             p \<leftarrow> umod (fnv_hash (node_index XOR of_nat i) w) num_parent_nodes;
             parent \<leftarrow> rd (cache light) (unat p);
             Some (map2 fnv_hash ret parent)
           }) (hash_node h512 (init[0 := w XOR node_index]));
        Some (hash_node h512 ret)
      })"

text \<open>
  The callback is a parameter: \<open>callback n\<close> is what it returns when it is called before node
  \<open>n\<close>. Its argument, a percentage summed up in a \<open>double\<close>, is not modelled. Without a callback
  the pointer is \<open>NULL\<close>. With fewer than 100 nodes \<open>max_n / 100\<close> is zero and the test divides
  by it.
\<close>

definition callback_stops :: "(u32 \<Rightarrow> int) option \<Rightarrow> u32 \<Rightarrow> u32 \<Rightarrow> bool option" where
  "callback_stops callback max_n n =
     (case callback of None \<Rightarrow> Some False
      | Some f \<Rightarrow> do { r \<leftarrow> umod n (max_n div 100); Some (r = 0 \<and> f n \<noteq> 0) })"

primrec full_loop :: "(bytes \<Rightarrow> bytes) \<Rightarrow> ethash_light \<Rightarrow> (u32 \<Rightarrow> int) option \<Rightarrow> u32 \<Rightarrow> nat list \<Rightarrow> node list
    \<Rightarrow> (bool \<times> node list) option" where
  "full_loop h512 light callback max_n [] mem = Some (True, mem)"
| "full_loop h512 light callback max_n (n # ns) mem =
     do {
       stop \<leftarrow> callback_stops callback max_n (of_nat n);
       if stop then Some (False, mem)
       else do {
         item \<leftarrow> ethash_calculate_dag_item h512 (of_nat n) light;
         mem \<leftarrow> wr mem n item;
         full_loop h512 light callback max_n ns mem
       }
     }"

definition ethash_compute_full_data ::
  "(bytes \<Rightarrow> bytes) \<Rightarrow> node list \<Rightarrow> u64 \<Rightarrow> ethash_light \<Rightarrow> (u32 \<Rightarrow> int) option \<Rightarrow> (bool \<times> node list) option" where
  "ethash_compute_full_data h512 mem full_size light callback =
     (if full_size mod 128 \<noteq> 0 \<or> full_size mod 64 \<noteq> 0 then Some (False, mem)
      else let max_n = ucast (full_size div 64) in
        full_loop h512 light callback max_n (u32_steps 0 max_n) mem)"

section \<open>Hashing a header\<close>

record ethash_return_value =
  result :: bytes
  mix_hash :: bytes
  success :: bool

text \<open>
  The main loop. \<open>dag\<close> reads an item of the data set. The mix is 32 words; \<open>mix[n]\<close> is its
  \<open>n\<close>th half.
\<close>

definition mix_in :: "nat \<Rightarrow> node \<Rightarrow> u32 list \<Rightarrow> u32 list" where
  "mix_in n nd mix =
     take (16 * n) mix @ map2 fnv_hash (take 16 (drop (16 * n) mix)) nd @ drop (16 * n + 16) mix"

definition hash_access :: "(u32 \<Rightarrow> node option) \<Rightarrow> u32 list \<Rightarrow> u32 \<Rightarrow> nat \<Rightarrow> u32 list \<Rightarrow> u32 list option" where
  "hash_access dag s num_full_pages i mix =
     do {
       s0 \<leftarrow> rd s 0;
       m \<leftarrow> rd mix (i mod 32);
       index \<leftarrow> umod (fnv_hash (s0 XOR of_nat i) m) num_full_pages;
       for_each [0..<2] (\<lambda>n mix. do { nd \<leftarrow> dag (2 * index + of_nat n); Some (mix_in n nd mix) }) mix
     }"

text \<open>\<open>for (w = 0; w != MIX_WORDS; w += 4)\<close>, in place.\<close>

definition compress_step :: "nat \<Rightarrow> u32 list \<Rightarrow> u32 list" where
  "compress_step k mix =
     (let w = 4 * k;
          reduction = mix ! w;
          reduction = (reduction * FNV_PRIME) XOR mix ! (w + 1);
          reduction = (reduction * FNV_PRIME) XOR mix ! (w + 2);
          reduction = (reduction * FNV_PRIME) XOR mix ! (w + 3)
      in mix[w div 4 := reduction])"

definition compress_mix :: "u32 list \<Rightarrow> u32 list" where
  "compress_mix mix = fold compress_step [0..<8] mix"

definition ethash_hash ::
  "(bytes \<Rightarrow> bytes) \<Rightarrow> (bytes \<Rightarrow> bytes) \<Rightarrow> (u32 \<Rightarrow> node option) \<Rightarrow> u64 \<Rightarrow> bytes \<Rightarrow> u64
   \<Rightarrow> ethash_return_value \<Rightarrow> (bool \<times> ethash_return_value) option" where
  "ethash_hash h512 h256 dag full_size header_hash nonce ret =
     (if full_size mod 32 \<noteq> 0 then Some (False, ret)
      else let
          s = words_of_bytes (h512 (header_hash @ bytes_of_word nonce)) :: u32 list;
          mix = map (\<lambda>w. s ! (w mod 16)) [0..<32];
          num_full_pages = ucast (full_size div 128) :: u32
        in do {
          mix \<leftarrow> for_each [0..<64] (hash_access dag s num_full_pages) mix;
          let cmix = bytes_of_words (take 8 (compress_mix mix));
          Some (True, ret\<lparr> mix_hash := cmix, result := h256 (bytes_of_words s @ cmix) \<rparr>)
        })"

definition ethash_quick_hash ::
  "(bytes \<Rightarrow> bytes) \<Rightarrow> (bytes \<Rightarrow> bytes) \<Rightarrow> bytes \<Rightarrow> u64 \<Rightarrow> bytes \<Rightarrow> bytes" where
  "ethash_quick_hash h512 h256 header_hash nonce mixh =
     (let buf = memcpy_at (replicate 96 0) 0 header_hash;
          buf = memcpy_at buf 32 (bytes_of_word nonce);
          buf = memcpy_at buf 0 (h512 (take 40 buf));
          buf = memcpy_at buf 64 mixh
      in h256 buf)"

text \<open>\<open>ethash_check_difficulty\<close>: the loop over the bytes, from the byte \<open>i\<close> on.\<close>

fun check_bytes :: "bytes \<Rightarrow> bytes \<Rightarrow> bool" where
  "check_bytes (h # hs) (b # bs) = (if h = b then check_bytes hs bs else h < b)"
| "check_bytes _ _ = True"

definition ethash_check_difficulty :: "bytes \<Rightarrow> bytes \<Rightarrow> bool" where
  "ethash_check_difficulty h boundary = check_bytes (take 32 h) (take 32 boundary)"

definition ethash_quick_check_difficulty ::
  "(bytes \<Rightarrow> bytes) \<Rightarrow> (bytes \<Rightarrow> bytes) \<Rightarrow> bytes \<Rightarrow> u64 \<Rightarrow> bytes \<Rightarrow> bytes \<Rightarrow> bool" where
  "ethash_quick_check_difficulty h512 h256 header_hash nonce mixh boundary =
     ethash_check_difficulty (ethash_quick_hash h512 h256 header_hash nonce mixh) boundary"

definition ethash_light_compute_internal ::
  "(bytes \<Rightarrow> bytes) \<Rightarrow> (bytes \<Rightarrow> bytes) \<Rightarrow> (bytes \<Rightarrow> bytes) \<Rightarrow> ethash_light \<Rightarrow> u64 \<Rightarrow> bytes \<Rightarrow> u64
   \<Rightarrow> ethash_return_value \<Rightarrow> ethash_return_value option" where
  "ethash_light_compute_internal dag512 h512 h256 light full_size header_hash nonce uninit =
     map_option (\<lambda>(ok, ret). ret\<lparr> success := ok \<rparr>)
       (ethash_hash h512 h256 (\<lambda>k. ethash_calculate_dag_item dag512 k light) full_size header_hash nonce
          (uninit\<lparr> success := True \<rparr>))"

definition ethash_full_compute_internal ::
  "(bytes \<Rightarrow> bytes) \<Rightarrow> (bytes \<Rightarrow> bytes) \<Rightarrow> node list \<Rightarrow> u64 \<Rightarrow> bytes \<Rightarrow> u64
   \<Rightarrow> ethash_return_value \<Rightarrow> ethash_return_value option" where
  "ethash_full_compute_internal h512 h256 data full_size header_hash nonce uninit =
     map_option (\<lambda>(ok, ret). ret\<lparr> success := ok \<rparr>)
       (ethash_hash h512 h256 (\<lambda>k. rd data (unat k)) full_size header_hash nonce
          (uninit\<lparr> success := True \<rparr>))"

section \<open>Epochs, allocation and deletion\<close>

text \<open>
  \<open>ETHASH_EPOCH_LENGTH\<close> is 30000. The \<open>assert\<close> of the table lookups is a read within bounds.
\<close>

definition ETHASH_EPOCH_LENGTH :: u64 where
  "ETHASH_EPOCH_LENGTH = 30000"

definition ethash_get_datasize :: "u64 \<Rightarrow> u64 option" where
  "ethash_get_datasize bn = map_option of_nat (rd dag_sizes (unat (bn div ETHASH_EPOCH_LENGTH)))"

definition ethash_get_cachesize :: "u64 \<Rightarrow> u64 option" where
  "ethash_get_cachesize bn = map_option of_nat (rd cache_sizes (unat (bn div ETHASH_EPOCH_LENGTH)))"

text \<open>
  \<open>for (uint32_t i = 0; i < epochs; ++i)\<close> with a 64-bit \<open>epochs\<close>: the counter wraps, so the loop
  need not end.
\<close>

partial_function (option) seed_loop :: "u64 \<Rightarrow> u32 \<Rightarrow> bytes \<Rightarrow> bytes option" where
  "seed_loop epochs i ret =
     (if ucast i < epochs then seed_loop epochs (i + 1) (SHA3_256 ret) else Some ret)"

definition ethash_get_seedhash :: "u64 \<Rightarrow> bytes option" where
  "ethash_get_seedhash bn = seed_loop (bn div ETHASH_EPOCH_LENGTH) 0 (replicate 32 0)"

text \<open>
  The allocator is a parameter: whether \<open>calloc\<close> of the handler succeeds, and the uninitialised
  nodes \<open>malloc\<close> returns, or \<open>NULL\<close>. The result \<open>Some None\<close> is \<open>NULL\<close>.
\<close>

record allocator =
  calloc_ok :: bool
  malloc :: "u64 \<Rightarrow> node list option"

definition malloc_ok :: "allocator \<Rightarrow> bool" where
  "malloc_ok a \<longleftrightarrow> (\<forall>n nodes. malloc a n = Some nodes \<longrightarrow> length nodes = unat n div 64)"

definition ethash_light_new_internal ::
  "(bytes \<Rightarrow> bytes) \<Rightarrow> allocator \<Rightarrow> u64 \<Rightarrow> bytes \<Rightarrow> ethash_light option option" where
  "ethash_light_new_internal h512 a csize seed =
     (if \<not> calloc_ok a then Some None
      else case malloc a csize of
        None \<Rightarrow> Some None
      | Some nodes \<Rightarrow> do {
          (ok, nodes) \<leftarrow> ethash_compute_cache_nodes h512 nodes csize seed;
          Some (if ok then Some \<lparr> cache = nodes, cache_size = csize, block_number = 0 \<rparr> else None)
        })"

text \<open>\<open>ret->block_number = block_number\<close> dereferences the result without a test.\<close>

definition set_block_number :: "u64 \<Rightarrow> ethash_light option \<Rightarrow> ethash_light option" where
  "set_block_number bn ret = map_option (\<lambda>light. light\<lparr> block_number := bn \<rparr>) ret"

definition ethash_light_new :: "allocator \<Rightarrow> u64 \<Rightarrow> ethash_light option" where
  "ethash_light_new a bn =
     do {
       seedhash \<leftarrow> ethash_get_seedhash bn;
       csize \<leftarrow> ethash_get_cachesize bn;
       ret \<leftarrow> ethash_light_new_internal SHA3_512 a csize seedhash;
       set_block_number bn ret
     }"

definition ethash_light_compute ::
  "ethash_light \<Rightarrow> bytes \<Rightarrow> u64 \<Rightarrow> ethash_return_value \<Rightarrow> ethash_return_value option" where
  "ethash_light_compute light header_hash nonce uninit =
     do {
       full_size \<leftarrow> ethash_get_datasize (block_number light);
       ethash_light_compute_internal SHA3_512 SHA3_512 SHA3_256 light full_size header_hash nonce uninit
     }"

section \<open>Specification\<close>

definition node_ok :: "node \<Rightarrow> bool" where
  "node_ok nd \<longleftrightarrow> length nd = 16"

text \<open>A light client whose cache holds the nodes its size promises.\<close>

definition light_ok :: "ethash_light \<Rightarrow> bool" where
  "light_ok light \<longleftrightarrow> cache light \<noteq> [] \<and> length (cache light) < 2 ^ 32
     \<and> unat (cache_size light) div 64 = length (cache light) \<and> list_all node_ok (cache light)"

text \<open>The cache is SeqMemoHash of the seed: a chain of hashes, then three rounds of mixing.\<close>

definition memo_step :: "(bytes \<Rightarrow> bytes) \<Rightarrow> nat \<Rightarrow> nat \<Rightarrow> node list \<Rightarrow> node list" where
  "memo_step h512 n i nodes =
     nodes[i := hash_node h512 (map2 (XOR) (nodes ! ((n - 1 + i) mod n)) (nodes ! (unat (nodes ! i ! 0) mod n)))]"

definition memo_hash :: "(bytes \<Rightarrow> bytes) \<Rightarrow> bytes \<Rightarrow> nat \<Rightarrow> node list" where
  "memo_hash h512 seed n =
     (fold (memo_step h512 n) [0..<n] ^^ 3)
       (map (\<lambda>i. (hash_node h512 ^^ i) (words_of_bytes (h512 seed))) [0..<n])"

text \<open>The item \<open>k\<close> of the data set.\<close>

definition dag_item :: "(bytes \<Rightarrow> bytes) \<Rightarrow> ethash_light \<Rightarrow> nat \<Rightarrow> node" where
  "dag_item h512 light k = the (ethash_calculate_dag_item h512 (of_nat k) light)"

section \<open>Interfaces\<close>

text \<open>What the nodes need of the 512-bit hash, and what a header's hash needs of both hashes.\<close>

locale node_hash =
  fixes h512 :: "bytes \<Rightarrow> bytes"
  assumes length_h512 [simp]: "length (h512 m) = 64"

locale ethash_hashes = node_hash +
  fixes h256 :: "bytes \<Rightarrow> bytes"
  assumes length_h256 [simp]: "length (h256 m) = 32"

section \<open>The nodes\<close>

lemma unat_umod_less: "b \<noteq> 0 \<Longrightarrow> unat (a mod b) < unat (b :: 'a::len word)"
  by (simp add: unat_mod_distrib unat_gt_0)

lemma u32_steps_0 [simp]: "u32_steps 0 n = [0..<unat n]"
  by (simp add: u32_steps_def)

lemma u32_steps_1: "n \<noteq> 0 \<Longrightarrow> u32_steps 1 n = [1..<unat n]"
  by (simp add: u32_steps_def word_le_nat_alt Suc_le_eq unat_gt_0)

lemma num_nodes_u32:
  assumes "unat c div 64 = n" and "n < 2 ^ 32"
  shows "unat (ucast (c div 64 :: u64) :: u32) = n"
  using assms by (simp add: unsigned_ucast_eq unat_div_distrib take_bit_nat_eq_self)

context node_hash
begin

lemma node_ok_hash [simp]: "node_ok (hash_node h512 nd)"
  by (simp add: node_ok_def hash_node_def length_words32_of_bytes)

lemma node_ok_seed [simp]: "node_ok (words_of_bytes (h512 m) :: node)"
  by (simp add: node_ok_def length_words32_of_bytes)

lemma fill_eq:
  assumes "0 < n" and "unat num = n" and "length nodes = n"
  shows "cache_fill h512 num (nodes[0 := x]) = Some (map (\<lambda>i. (hash_node h512 ^^ i) x) [0..<n])"
proof -
  have "m \<le> n \<Longrightarrow> 0 < m \<Longrightarrow>
      for_each [1..<m] (\<lambda>i nodes. do { p \<leftarrow> rd nodes (i - 1); wr nodes i (hash_node h512 p) }) (nodes[0 := x])
      = Some (map (\<lambda>i. (hash_node h512 ^^ i) x) [0..<m] @ drop m nodes)" for m
  proof (induction m)
    case (Suc m)
    show ?case
    proof (cases "m = 0")
      case True
      with assms show ?thesis by (cases nodes) auto
    next
      case False
      then obtain k where k: "m = Suc k" by (cases m) auto
      have "drop m nodes = nodes ! m # drop (Suc m) nodes"
        using Suc.prems assms by (simp add: Cons_nth_drop_Suc)
      with Suc k assms show ?thesis
        by (simp add: for_each_append nth_append list_update_append)
    qed
  qed simp
  moreover have "num \<noteq> 0" using assms by auto
  ultimately show ?thesis using assms by (simp add: cache_fill_def u32_steps_1)
qed

lemma mix_eq:
  assumes "unat num = n" and "n \<le> 2 ^ 31" and "i < n" and "length nodes = n" and "list_all node_ok nodes"
  shows "cache_mix h512 num i nodes = Some (memo_step h512 n i nodes)
     \<and> length (memo_step h512 n i nodes) = n \<and> list_all node_ok (memo_step h512 n i nodes)"
proof -
  have num: "num \<noteq> 0" using assms by auto
  have "unat (num - 1) = n - 1" using assms num by (simp add: unat_minus_one)
  moreover have "unat (of_nat i :: u32) = i" using assms by (simp add: unat_of_nat)
  ultimately have "unat (num - 1 + of_nat i) = n - 1 + i"
    using assms by (subst unat_add_lem [THEN iffD1]) auto
  then have prev: "unat ((num - 1 + of_nat i) mod num) = (n - 1 + i) mod n"
    using assms by (simp add: unat_mod_distrib)
  have "length (nodes ! i) = 16" using assms by (simp add: list_all_length node_ok_def)
  moreover have "unat (nodes ! i ! 0 mod num) = unat (nodes ! i ! 0) mod n"
    using assms by (simp add: unat_mod_distrib)
  ultimately have "cache_mix h512 num i nodes = Some (memo_step h512 n i nodes)"
    using assms num by (simp add: cache_mix_def memo_step_def prev)
  moreover have "list_all node_ok (memo_step h512 n i nodes)"
    using assms by (auto simp: memo_step_def list_all_length nth_list_update)
  ultimately show ?thesis using assms by (simp add: memo_step_def)
qed

lemma compute_cache_eq:
  assumes "unat csize = 64 * n" and "0 < n" and "n \<le> 2 ^ 31" and "length nodes = n"
  shows "ethash_compute_cache_nodes h512 nodes csize seed = Some (True, memo_hash h512 seed n)
     \<and> length (memo_hash h512 seed n) = n \<and> list_all node_ok (memo_hash h512 seed n)"
proof -
  let ?num = "ucast (csize div 64) :: u32" and ?x = "words_of_bytes (h512 seed) :: node"
  have num: "unat ?num = n" using assms by (intro num_nodes_u32) auto
  have csize: "csize mod 64 = 0" using assms(1) by (intro unsigned_word_eqI [where ?'a = nat]) (simp add: unat_mod_distrib)
  let ?P = "\<lambda>nodes. length nodes = n \<and> list_all node_ok nodes"
  let ?c0 = "map (\<lambda>i. (hash_node h512 ^^ i) ?x) [0..<n]"
  have nodes_chain: "node_ok ((hash_node h512 ^^ i) ?x)" for i by (cases i) auto
  have P0: "?P ?c0" using nodes_chain by (simp add: list_all_iff)
  have round: "for_each [0..<n] (cache_mix h512 ?num) nd = Some (fold (memo_step h512 n) [0..<n] nd)
      \<and> ?P (fold (memo_step h512 n) [0..<n] nd)" if "?P nd" for nd
    using that mix_eq [OF num assms(3)] by (intro for_each_fold) auto
  define r1 where "r1 = fold (memo_step h512 n) [0..<n] ?c0"
  define r2 where "r2 = fold (memo_step h512 n) [0..<n] r1"
  define r3 where "r3 = fold (memo_step h512 n) [0..<n] r2"
  note r1 = round [OF P0, folded r1_def]
  note r2 = round [OF conjunct2 [OF r1], folded r2_def]
  note r3 = round [OF conjunct2 [OF r2], folded r3_def]
  have "memo_hash h512 seed n = r3"
    by (simp add: memo_hash_def r1_def r2_def r3_def numeral_3_eq_3)
  moreover have "[0..<3] = [0, 1, 2 :: nat]" by (simp add: upt_rec)
  ultimately show ?thesis
    using assms csize fill_eq [OF assms(2) num assms(4), of ?x] r1 r2 r3 num
    by (simp add: ethash_compute_cache_nodes_def Let_def)
qed

end

section \<open>The items of the data set\<close>

lemma map2_node_ok: "node_ok a \<Longrightarrow> node_ok b \<Longrightarrow> node_ok (map2 f a b)"
  by (simp add: node_ok_def)

context node_hash
begin

lemma dag_item_total:
  assumes "light_ok light"
  shows "\<exists>nd. ethash_calculate_dag_item h512 k light = Some nd \<and> node_ok nd"
proof -
  let ?n = "ucast (cache_size light div 64) :: u32"
  have n: "unat ?n = length (cache light)"
    using assms by (intro num_nodes_u32) (auto simp: light_ok_def)
  then have nz: "?n \<noteq> 0" using assms by (auto simp: light_ok_def)
  have cell: "\<exists>nd. rd (cache light) (unat (w mod ?n)) = Some nd \<and> node_ok nd" for w
    using assms unat_umod_less [OF nz, of w] n by (auto simp: light_ok_def list_all_length)
  obtain init where init: "rd (cache light) (unat (k mod ?n)) = Some init" "node_ok init"
    using cell by blast
  let ?body = "\<lambda>i ret. do { w \<leftarrow> rd ret (i mod 16);
      p \<leftarrow> umod (fnv_hash (k XOR of_nat i) w) ?n;
      parent \<leftarrow> rd (cache light) (unat p); Some (map2 fnv_hash ret parent) }"
  have "\<exists>ret'. ?body i ret = Some ret' \<and> node_ok ret'" if "node_ok ret" for i :: nat and ret
  proof -
    let ?p = "fnv_hash (k XOR of_nat i) (ret ! (i mod 16)) mod ?n"
    obtain nd where "rd (cache light) (unat ?p) = Some nd" "node_ok nd" using cell by blast
    with that nz show ?thesis by (simp add: node_ok_def)
  qed
  then have "\<exists>ret'. for_each [0..<256] ?body (hash_node h512 (init[0 := init ! 0 XOR k])) = Some ret' \<and> node_ok ret'"
    by (intro for_each_total) auto
  then obtain ret' where "for_each [0..<256] ?body (hash_node h512 (init[0 := init ! 0 XOR k])) = Some ret'" by blast
  moreover have "rd init 0 = Some (init ! 0)" using init(2) by (simp add: node_ok_def)
  ultimately show ?thesis
    using nz init(1) by (simp add: ethash_calculate_dag_item_def Let_def)
qed

lemma dag_item:
  assumes "light_ok light"
  shows "ethash_calculate_dag_item h512 (of_nat k) light = Some (dag_item h512 light k)"
    and "node_ok (dag_item h512 light k)"
  using dag_item_total [OF assms, of "of_nat k"] by (auto simp: dag_item_def)

lemma full_loop_eq:
  assumes "light_ok light" and "m \<le> length mem"
  shows "full_loop h512 light None max_n [j..<m] mem
    = Some (True, take j mem @ map (dag_item h512 light) [j..<m] @ drop (max j m) mem)"
  using assms
proof (induction "m - j" arbitrary: j mem)
  case (Suc d)
  then have j: "j < m" "[j..<m] = j # [Suc j..<m]" by (auto simp: upt_conv_Cons)
  have "d = m - Suc j" "m \<le> length (mem[j := dag_item h512 light j])" using Suc by auto
  note IH = Suc.hyps(1) [OF this(1) Suc.prems(1) this(2)]
  have "take (Suc j) (mem[j := dag_item h512 light j]) = take j mem @ [dag_item h512 light j]"
    using j Suc.prems by (simp add: take_Suc_conv_app_nth)
  with IH j Suc.prems show ?case
    by (simp add: callback_stops_def dag_item(1) max_def)
next
  case 0
  then show ?case by (simp add: max_def)
qed

text \<open>The data set is the list of the items, whatever the memory held before.\<close>

lemma compute_full_data_eq:
  assumes "light_ok light" and "unat full_size = 128 * pages" and "2 * pages < 2 ^ 32"
    and "length mem = 2 * pages"
  shows "ethash_compute_full_data h512 mem full_size light None
    = Some (True, map (dag_item h512 light) [0..<2 * pages])"
proof -
  have "unat (full_size mod 128) = 0" "unat (full_size mod 64) = 0"
    using assms(2) by (simp_all add: unat_mod_distrib mult_mod_right)
  then have "full_size mod 128 = 0" "full_size mod 64 = 0" by (simp_all add: unsigned_eq_0_iff)
  moreover have "unat (ucast (full_size div 64) :: u32) = 2 * pages"
    using assms by (intro num_nodes_u32) auto
  ultimately show ?thesis
    using full_loop_eq [OF assms(1), of "2 * pages" mem _ 0] assms(4)
    by (simp add: ethash_compute_full_data_def Let_def)
qed

end

section \<open>Light and full agree\<close>

lemma hash_access_cong:
  assumes "unat num = pages" and "0 < pages" and "2 * pages < 2 ^ 32"
    and "\<And>k. k < 2 * pages \<Longrightarrow> dag (of_nat k) = dag' (of_nat k)"
  shows "hash_access dag s num i mix = hash_access dag' s num i mix"
proof -
  have nz: "num \<noteq> 0" using assms by auto
  have "dag (2 * (w mod num) + of_nat n) = dag' (2 * (w mod num) + of_nat n)" if "n < 2" for w :: u32 and n
  proof -
    have "unat (w mod num) < pages" using unat_umod_less [OF nz] assms(1) by simp
    moreover have "2 * (w mod num) + of_nat n = of_nat (2 * unat (w mod num) + n)" by simp
    ultimately show ?thesis using assms(4) [of "2 * unat (w mod num) + n"] that by simp
  qed
  then show ?thesis
    using nz unfolding hash_access_def
    by (intro Option.bind_cong refl for_each_cong [where P = "\<lambda>_. True"] TrueI) (auto split: if_splits)
qed

lemma num_pages_u32:
  assumes "unat c = 128 * pages" and "pages < 2 ^ 32"
  shows "unat (ucast (c div 128 :: u64) :: u32) = pages"
  using assms by (simp add: unsigned_ucast_eq unat_div_distrib take_bit_nat_eq_self)

lemma ethash_hash_cong:
  assumes "unat full_size = 128 * pages" and "0 < pages" and "2 * pages < 2 ^ 32"
    and "\<And>k. k < 2 * pages \<Longrightarrow> dag (of_nat k) = dag' (of_nat k)"
  shows "ethash_hash m512 m256 dag full_size h nonce ret = ethash_hash m512 m256 dag' full_size h nonce ret"
proof -
  let ?num = "ucast (full_size div 128) :: u32"
  have "unat ?num = pages" using assms by (intro num_pages_u32) auto
  then have acc: "hash_access dag s ?num = hash_access dag' s ?num" for s
    using assms(2-4) by (intro ext hash_access_cong [of ?num pages]) auto
  show ?thesis unfolding ethash_hash_def Let_def by (simp only: acc)
qed

context node_hash
begin

lemma light_full_agree:
  assumes "light_ok light" and "unat full_size = 128 * pages" and "0 < pages" and "2 * pages < 2 ^ 32"
  shows "ethash_full_compute_internal m512 m256 (map (dag_item h512 light) [0..<2 * pages]) full_size h nonce u
       = ethash_light_compute_internal h512 m512 m256 light full_size h nonce u"
proof -
  have "rd (map (dag_item h512 light) [0..<2 * pages]) (unat (of_nat k :: u32))
      = ethash_calculate_dag_item h512 (of_nat k) light" if "k < 2 * pages" for k
    using that assms(4) dag_item(1) [OF assms(1), of k] by (simp add: unat_of_nat)
  from ethash_hash_cong [OF assms(2-4), of "\<lambda>w. rd (map (dag_item h512 light) [0..<2 * pages]) (unat w)"
      "\<lambda>w. ethash_calculate_dag_item h512 w light", OF this]
  show ?thesis
    unfolding ethash_full_compute_internal_def ethash_light_compute_internal_def by simp
qed

end

section \<open>A header's hash\<close>

lemma length_mix_in: "length mix = 32 \<Longrightarrow> node_ok nd \<Longrightarrow> n < 2 \<Longrightarrow> length (mix_in n nd mix) = 32"
  by (auto simp: mix_in_def node_ok_def)

lemma hash_access_total:
  assumes "\<And>k. \<exists>nd. dag k = Some nd \<and> node_ok nd" and "num \<noteq> 0" and "s \<noteq> []" and "length mix = 32"
  shows "\<exists>mix'. hash_access dag s num i mix = Some mix' \<and> length mix' = 32"
proof -
  let ?f = "\<lambda>index n mix. do { nd \<leftarrow> dag (2 * index + of_nat n); Some (mix_in n nd mix) }"
  have "\<exists>mix'. ?f index n mx = Some mix' \<and> length mix' = 32" if "n \<in> set [0..<2]" "length mx = 32" for index n mx
  proof -
    obtain nd where "dag (2 * index + of_nat n) = Some nd" "node_ok nd" using assms(1) by blast
    with that show ?thesis by (simp add: length_mix_in)
  qed
  then have "\<exists>mix'. for_each [0..<2] (?f index) mix = Some mix' \<and> length mix' = 32" for index
    using assms(4) by (intro for_each_total) auto
  with assms(2-4) show ?thesis by (simp add: hash_access_def)
qed

lemma length_compress_step [simp]: "length (compress_step k mix) = length mix"
  by (simp add: compress_step_def Let_def)

lemma length_compress_mix [simp]: "length (compress_mix mix) = length mix"
  unfolding compress_mix_def by (rule fold_invariant [where P = "\<lambda>m. length m = length mix"]) auto

text \<open>What a header's hash promises: it succeeds, and the quick hash of its mix is its result.\<close>

definition hash_promise :: "(bytes \<Rightarrow> bytes) \<Rightarrow> (bytes \<Rightarrow> bytes) \<Rightarrow> bytes \<Rightarrow> u64 \<Rightarrow> ethash_return_value \<Rightarrow> bool" where
  "hash_promise h512 h256 header nonce ret \<longleftrightarrow>
     success ret \<and> length (mix_hash ret) = 32 \<and> length (result ret) = 32
     \<and> ethash_quick_hash h512 h256 header nonce (mix_hash ret) = result ret"

context ethash_hashes
begin

lemma quick_hash_eq:
  assumes "length header = 32" and "length mixh = 32"
  shows "ethash_quick_hash h512 h256 header nonce mixh = h256 (h512 (header @ bytes_of_word nonce) @ mixh)"
  using assms by (simp add: ethash_quick_hash_def memcpy_at_def len_simps)

lemma ethash_hash_total:
  assumes "\<And>k. \<exists>nd. dag k = Some nd \<and> node_ok nd" and "unat full_size = 128 * pages" and "0 < pages"
    and "pages < 2 ^ 32" and "length header = 32"
  shows "\<exists>ret. ethash_hash h512 h256 dag full_size header nonce u = Some (True, ret)
     \<and> hash_promise h512 h256 header nonce (ret\<lparr> success := True \<rparr>)"
proof -
  let ?m = "h512 (header @ bytes_of_word nonce)"
  let ?s = "words_of_bytes ?m :: u32 list" and ?num = "ucast (full_size div 128) :: u32"
  have "unat (full_size mod 32) = 0"
    using assms(2) by (simp add: unat_mod_distrib mult_mod_right)
  then have z: "full_size mod 32 = 0" by (simp add: unsigned_eq_0_iff)
  have "unat ?num = pages" using assms by (intro num_pages_u32)
  then have num: "?num \<noteq> 0" using assms(3) by auto
  have s: "length ?s = 16" by (simp add: length_words32_of_bytes)
  then have "?s \<noteq> []" by (metis list.size(3) zero_neq_numeral)
  then have "\<exists>mix'. for_each [0..<64] (hash_access dag ?s ?num) (map (\<lambda>w. ?s ! (w mod 16)) [0..<32]) = Some mix'
      \<and> length mix' = 32"
    using hash_access_total [OF assms(1) num] by (intro for_each_total) auto
  then obtain mix where mix: "for_each [0..<64] (hash_access dag ?s ?num) (map (\<lambda>w. ?s ! (w mod 16)) [0..<32]) = Some mix"
      "length mix = 32" by blast
  have "bytes_of_words ?s = ?m"
    by (rule bytes_of_words_of_bytes) (simp_all add: len_simps)
  moreover have "length (bytes_of_words (take 8 (compress_mix mix))) = 32"
    using mix(2) by (simp add: len_simps)
  ultimately show ?thesis
    using z mix(1) assms(5) by (simp add: ethash_hash_def Let_def hash_promise_def quick_hash_eq)
qed

end

interpretation sha3: ethash_hashes SHA3_512 SHA3_256
  by unfold_locales simp_all

lemma compress_mix_prefix:
  assumes "length mix = 32" and "m \<le> 8"
  shows "fold compress_step [0..<m] mix
    = map (\<lambda>k. fnv_hash (fnv_hash (fnv_hash (mix ! (4 * k)) (mix ! (4 * k + 1))) (mix ! (4 * k + 2))) (mix ! (4 * k + 3)))
        [0..<m] @ drop m mix"
  using assms(2)
proof (induction m)
  case (Suc m)
  let ?f = "\<lambda>k. fnv_hash (fnv_hash (fnv_hash (mix ! (4 * k)) (mix ! (4 * k + 1))) (mix ! (4 * k + 2))) (mix ! (4 * k + 3))"
  have "(map ?f [0..<m] @ drop m mix) ! (4 * m + j) = mix ! (4 * m + j)" if "j < 4" for j
    using Suc.prems assms(1) that by (simp add: nth_append)
  from this [of 0] this [of 1] this [of 2] this [of 3]
  have "compress_step m (map ?f [0..<m] @ drop m mix) = (map ?f [0..<m] @ drop m mix)[m := ?f m]"
    by (simp add: compress_step_def Let_def fnv_hash_def)
  moreover have "drop m mix = mix ! m # drop (Suc m) mix"
    using Suc.prems assms(1) by (simp add: Cons_nth_drop_Suc)
  ultimately show ?case using Suc by (simp add: list_update_append)
qed simp

section \<open>Seed hashes\<close>

lemma unat_u32_to_u64: "unat (ucast (i :: u32) :: u64) = unat i"
proof -
  have "unat i < 2 ^ 32" using unsigned_less [of i, where ?'a = nat] by simp
  then show ?thesis by (simp add: unsigned_ucast_eq take_bit_nat_eq_self)
qed

lemma seed_loop_returns:
  assumes "unat epochs < 2 ^ 32" and "unat i \<le> unat epochs"
  shows "seed_loop epochs i ret = Some ((SHA3_256 ^^ (unat epochs - unat i)) ret)"
  using assms(2)
proof (induction "unat epochs - unat i" arbitrary: i ret)
  case 0
  then have "\<not> ucast i < epochs" by (simp add: word_less_nat_alt unat_u32_to_u64)
  with 0 show ?case by (subst seed_loop.simps) simp
next
  case (Suc d)
  have lt: "ucast i < epochs"
    using Suc.hyps(2) by (simp add: word_less_nat_alt unat_u32_to_u64)
  have "unat i + 1 < 2 ^ 32" using Suc.hyps(2) assms(1) by linarith
  then have i: "unat (i + 1) = unat i + 1" by (subst unat_add_lem [THEN iffD1]) auto
  have e: "unat epochs - unat i = Suc (unat epochs - unat (i + 1))" using Suc.hyps(2) i by simp
  have "seed_loop epochs i ret = seed_loop epochs (i + 1) (SHA3_256 ret)"
    using lt by (subst seed_loop.simps) simp
  also have "\<dots> = Some ((SHA3_256 ^^ (unat epochs - unat (i + 1))) (SHA3_256 ret))"
    using Suc.hyps(2) i by (intro Suc.hyps(1)) auto
  finally show ?case by (simp add: e funpow_swap1)
qed

lemma seed_loop_bound:
  assumes "seed_loop epochs i ret = Some y"
  shows "unat epochs < 2 ^ 32"
proof (rule seed_loop.raw_induct [OF _ assms, where P = "\<lambda>epochs i ret y. unat epochs < 2 ^ 32"])
  fix f :: "u64 \<Rightarrow> u32 \<Rightarrow> bytes \<Rightarrow> bytes option" and epochs :: u64 and i :: u32 and ret y
  assume IH: "\<And>epochs i ret y. f epochs i ret = Some y \<Longrightarrow> unat epochs < 2 ^ 32"
    and eq: "(if ucast i < epochs then f epochs (i + 1) (SHA3_256 ret) else Some ret) = Some y"
  have "unat i < 2 ^ 32" using unsigned_less [of i, where ?'a = nat] by simp
  with eq IH [of epochs "i + 1" "SHA3_256 ret" y] show "unat epochs < 2 ^ 32"
    by (cases "ucast i < epochs") (auto simp: word_less_nat_alt unat_u32_to_u64)
qed

lemma seedhash_eq:
  "ethash_get_seedhash bn
   = (if unat bn div 30000 < 2 ^ 32 then Some ((SHA3_256 ^^ (unat bn div 30000)) (replicate 32 0)) else None)"
proof -
  have e: "unat (bn div ETHASH_EPOCH_LENGTH) = unat bn div 30000"
    by (simp add: ETHASH_EPOCH_LENGTH_def unat_div_distrib)
  show ?thesis
  proof (cases "unat bn div 30000 < 2 ^ 32")
    case True
    with seed_loop_returns [of "bn div ETHASH_EPOCH_LENGTH" 0 "replicate 32 0"] show ?thesis
      by (simp add: ethash_get_seedhash_def e)
  next
    case False
    with seed_loop_bound [of "bn div ETHASH_EPOCH_LENGTH" 0 "replicate 32 0"] show ?thesis
      by (cases "ethash_get_seedhash bn") (auto simp: ethash_get_seedhash_def e)
  qed
qed

section \<open>A light client of a block\<close>

text \<open>The tables that the forks share.\<close>

lemma cache_table:
  assumes "e < 2048"
  obtains c :: u64 and n where "map_option of_nat (rd cache_sizes e) = Some c" "unat c = 64 * n" "0 < n" "n < 2 ^ 24"
    "64 * n = cache_sizes ! e"
proof -
  let ?x = "cache_sizes ! e"
  have ok: "cache_size_ok ?x" using cache_sizes_ok assms by (simp add: list_all_length)
  have "map_option of_nat (rd cache_sizes e) = Some (of_nat ?x :: u64)" using assms by simp
  moreover have "unat (of_nat ?x :: u64) = ?x"
    using ok by (simp add: cache_size_ok_def unat_of_nat)
  ultimately show thesis
    using ok by (intro that [of "of_nat ?x" "?x div 64"]) (auto simp: cache_size_ok_def)
qed

lemma dag_table:
  assumes "e < 2048"
  obtains c :: u64 and n where "map_option of_nat (rd dag_sizes e) = Some c" "unat c = 128 * n" "0 < n" "2 * n < 2 ^ 32"
proof -
  let ?x = "dag_sizes ! e"
  have ok: "dag_size_ok ?x" using dag_sizes_ok assms by (simp add: list_all_length)
  have "map_option of_nat (rd dag_sizes e) = Some (of_nat ?x :: u64)" using assms by simp
  moreover have "unat (of_nat ?x :: u64) = ?x"
    using ok by (simp add: dag_size_ok_def unat_of_nat)
  ultimately show thesis
    using ok by (intro that [of "of_nat ?x" "?x div 128"]) (auto simp: dag_size_ok_def)
qed

lemma unat_epoch: "unat (bn div ETHASH_EPOCH_LENGTH) = unat bn div 30000"
  by (simp add: ETHASH_EPOCH_LENGTH_def unat_div_distrib)

context node_hash
begin

lemma light_new_internal_eq:
  assumes "malloc_ok a" and "calloc_ok a" and "malloc a csize = Some nodes"
    and "unat csize = 64 * n" and "0 < n" and "n \<le> 2 ^ 31"
  shows "\<exists>light. ethash_light_new_internal h512 a csize seed = Some (Some light) \<and> light_ok light
     \<and> cache light = memo_hash h512 seed n"
proof -
  have "length nodes = n" using assms by (auto simp: malloc_ok_def)
  note c = compute_cache_eq [OF assms(4-6) this, of seed]
  then have "memo_hash h512 seed n \<noteq> []" using assms(5) by auto
  with c assms show ?thesis
    by (simp add: ethash_light_new_internal_def light_ok_def)
qed

end

context ethash_hashes
begin

lemma light_compute_total:
  assumes "\<And>k. \<exists>nd. ethash_calculate_dag_item dag512 k light = Some nd \<and> node_ok nd"
    and "unat c = 128 * n" and "0 < n" and "2 * n < 2 ^ 32" and "length header = 32"
  shows "\<exists>ret. ethash_light_compute_internal dag512 h512 h256 light c header nonce uninit = Some ret
    \<and> hash_promise h512 h256 header nonce ret"
proof -
  have n: "n < 2 ^ 32" using assms(4) by simp
  from ethash_hash_total [where dag = "\<lambda>k. ethash_calculate_dag_item dag512 k light", OF assms(1-3) n assms(5),
      of nonce "uninit\<lparr> success := True \<rparr>"]
  show ?thesis by (auto simp: ethash_light_compute_internal_def)
qed

end

lemma light_new_eq:
  assumes "malloc_ok a" and "calloc_ok a" and "\<And>csize. malloc a csize \<noteq> None" and "unat bn div 30000 < 2048"
  shows "\<exists>light. ethash_light_new a bn = Some light \<and> light_ok light \<and> block_number light = bn
    \<and> cache light = memo_hash SHA3_512 ((SHA3_256 ^^ (unat bn div 30000)) (replicate 32 0))
         (cache_sizes ! (unat bn div 30000) div 64)"
proof -
  let ?seed = "(SHA3_256 ^^ (unat bn div 30000)) (replicate 32 0)"
  obtain c n where c: "ethash_get_cachesize bn = Some c" "unat c = 64 * n" "0 < n" "n < 2 ^ 24"
      "64 * n = cache_sizes ! (unat bn div 30000)"
    using cache_table [OF assms(4)] unfolding ethash_get_cachesize_def unat_epoch by metis
  obtain nodes where nodes: "malloc a c = Some nodes" using assms(3) by blast
  have n: "n \<le> 2 ^ 31" using c(4) by simp
  obtain light where "ethash_light_new_internal SHA3_512 a c ?seed = Some (Some light)" "light_ok light"
      "cache light = memo_hash SHA3_512 ?seed n"
    using sha3.light_new_internal_eq [OF assms(1,2) nodes c(2,3) n, of ?seed] by blast
  moreover have "n = cache_sizes ! (unat bn div 30000) div 64" using c(5) [symmetric] by simp
  ultimately show ?thesis
    using assms(4) c(1) by (simp add: ethash_light_new_def seedhash_eq set_block_number_def light_ok_def)
qed

lemma be_nat_head_less:
  assumes "h < b" and "length hs = length bs"
  shows "be_nat (h # hs) < be_nat (b # bs)"
proof -
  have "Suc (unat h) * 256 ^ length bs \<le> unat b * 256 ^ length bs"
    using assms(1) by (intro mult_right_mono) (simp_all add: word_less_nat_alt)
  with be_nat_less [of hs] assms(2) show ?thesis by (simp add: be_nat_Cons)
qed

lemma check_bytes_be_nat: "length hs = length bs \<Longrightarrow> check_bytes hs bs \<longleftrightarrow> be_nat hs \<le> be_nat bs"
proof (induction hs bs rule: list_induct2)
  case (Cons h hs b bs)
  show ?case
  proof (cases h b rule: linorder_cases)
    case equal
    with Cons show ?thesis by (simp add: be_nat_Cons)
  next
    case less
    with be_nat_head_less [of h b hs bs] Cons.hyps show ?thesis by auto
  next
    case greater
    with be_nat_head_less [of b h bs hs] Cons.hyps show ?thesis by auto
  qed
qed (simp add: be_nat_def)

section \<open>Properties\<close>

text \<open>
  Property C2: the light client and the full node compute the same hash. For every light client
  with a well-formed cache and every data set size of whole 128-byte pages that 32-bit indices can
  address, \<open>ethash_compute_full_data\<close> fills the memory without undefined behaviour whatever the
  memory held, and hashing over the filled memory gives what hashing over the cache gives, for
  every header and nonce.
\<close>

theorem full_hash_equals_light_hash:
  assumes "light_ok light" and "unat full_size = 128 * pages" and "0 < pages" and "2 * pages < 2 ^ 32"
    and "length mem = 2 * pages"
  shows "\<exists>mem'. ethash_compute_full_data SHA3_512 mem full_size light None = Some (True, mem')
    \<and> (\<forall>header nonce u. ethash_full_compute_internal SHA3_512 SHA3_256 mem' full_size header nonce u
         = ethash_light_compute_internal SHA3_512 SHA3_512 SHA3_256 light full_size header nonce u)"
  using sha3.compute_full_data_eq [OF assms(1,2,4,5)] sha3.light_full_agree [OF assms(1-4)] by simp

theorem full_hash_equals_light_hash_witness:
  "\<exists>mem'. ethash_compute_full_data SHA3_512 [[], []] 128
      \<lparr> cache = [replicate 16 5], cache_size = 64, block_number = 0 \<rparr> None = Some (True, mem')"
  using full_hash_equals_light_hash
    [of "\<lparr> cache = [replicate 16 5], cache_size = 64, block_number = 0 \<rparr>" 128 1 "[[], []]"]
  by (auto simp: light_ok_def node_ok_def)

text \<open>
  Property C3: the light client of every block of the 2048 tabulated epochs. When the two
  allocations succeed, \<open>ethash_light_new\<close> returns, its cache is SeqMemoHash of the epoch's seed
  whatever \<open>malloc\<close> left in the memory, and \<open>ethash_light_compute\<close> over it succeeds for every
  header and nonce with a result that \<open>ethash_quick_hash\<close> recomputes from the mix alone.
\<close>

theorem light_client_of_block:
  assumes "malloc_ok a" and "calloc_ok a" and "\<And>csize. malloc a csize \<noteq> None" and "unat bn div 30000 < 2048"
    and "length header = 32"
  shows "\<exists>light ret. ethash_light_new a bn = Some light
    \<and> cache light = memo_hash SHA3_512 ((SHA3_256 ^^ (unat bn div 30000)) (replicate 32 0))
         (cache_sizes ! (unat bn div 30000) div 64)
    \<and> ethash_light_compute light header nonce uninit = Some ret
    \<and> hash_promise SHA3_512 SHA3_256 header nonce ret"
proof -
  obtain light where light: "ethash_light_new a bn = Some light" "light_ok light" "block_number light = bn"
      "cache light = memo_hash SHA3_512 ((SHA3_256 ^^ (unat bn div 30000)) (replicate 32 0))
         (cache_sizes ! (unat bn div 30000) div 64)"
    using light_new_eq [OF assms(1-4)] by blast
  obtain c n where c: "ethash_get_datasize bn = Some c" "unat c = 128 * n" "0 < n" "2 * n < 2 ^ 32"
    using dag_table [OF assms(4)] unfolding ethash_get_datasize_def unat_epoch by metis
  from sha3.light_compute_total [OF sha3.dag_item_total [OF light(2)] c(2-4) assms(5)]
  obtain ret where "ethash_light_compute_internal SHA3_512 SHA3_512 SHA3_256 light c header nonce uninit = Some ret"
      "hash_promise SHA3_512 SHA3_256 header nonce ret" by blast
  with light c(1) show ?thesis by (auto simp: ethash_light_compute_def)
qed

theorem light_client_of_block_witness:
  "\<exists>light ret. ethash_light_new
       \<lparr> calloc_ok = True, malloc = \<lambda>n. Some (replicate (unat n div 64) []) \<rparr> 30000 = Some light
    \<and> ethash_light_compute light (replicate 32 0) 7 \<lparr> result = [], mix_hash = [], success = False \<rparr> = Some ret
    \<and> success ret"
  using light_client_of_block [of "\<lparr> calloc_ok = True, malloc = \<lambda>n. Some (replicate (unat n div 64) []) \<rparr>"
      30000 "replicate 32 0" 7 "\<lparr> result = [], mix_hash = [], success = False \<rparr>"]
  by (auto simp: malloc_ok_def hash_promise_def)

text \<open>
  The difficulty test compares the 32 bytes of the hash and of the boundary as
  big-endian numbers.
\<close>

theorem check_difficulty_is_big_endian_le:
  assumes "length h = 32" and "length boundary = 32"
  shows "ethash_check_difficulty h boundary \<longleftrightarrow> be_nat h \<le> be_nat boundary"
  using assms by (simp add: ethash_check_difficulty_def check_bytes_be_nat)

theorem check_difficulty_is_big_endian_le_witness:
  "ethash_check_difficulty (0 # replicate 31 255) (1 # replicate 31 0)
   = (be_nat (0 # replicate 31 255) \<le> be_nat (1 # replicate 31 0))"
  using check_difficulty_is_big_endian_le [of "0 # replicate 31 255" "1 # replicate 31 0"] by simp

text \<open>
  Property C34: \<open>ethash_get_seedhash\<close> is the \<open>n\<close>-fold Keccak-256 of 32 zero bytes, \<open>n\<close> the epoch, for
  the blocks whose epoch is below \<open>2 ^ 32\<close>. For every later block it does not return, because
  its 32-bit counter never reaches the 64-bit epoch.
\<close>

theorem seedhash_iterates_or_diverges:
  "ethash_get_seedhash bn
   = (if unat bn div 30000 < 2 ^ 32 then Some ((SHA3_256 ^^ (unat bn div 30000)) (replicate 32 0)) else None)"
  by (rule seedhash_eq)

text \<open>
  \<open>ethash_light_new\<close> dereferences the result of \<open>ethash_light_new_internal\<close> without a
  test. When the handler cannot be allocated it runs into undefined behaviour instead of returning
  \<open>NULL\<close>, for every block.
\<close>

theorem light_new_without_memory:
  assumes "\<not> calloc_ok a"
  shows "ethash_light_new a bn = None"
  using assms
  by (cases "ethash_get_seedhash bn"; cases "ethash_get_cachesize bn")
    (auto simp: ethash_light_new_def ethash_light_new_internal_def set_block_number_def)

theorem light_new_without_memory_witness:
  "ethash_light_new \<lparr> calloc_ok = False, malloc = \<lambda>n. None \<rparr> 0 = None"
  using light_new_without_memory [of "\<lparr> calloc_ok = False, malloc = \<lambda>n. None \<rparr>" 0] by simp

text \<open>
  The mix is compressed in place, each group of four words into one word, and no
  group reads a word that an earlier group has overwritten.
\<close>

theorem compress_mix_in_place:
  assumes "length mix = 32"
  shows "take 8 (compress_mix mix)
    = map (\<lambda>k. fnv_hash (fnv_hash (fnv_hash (mix ! (4 * k)) (mix ! (4 * k + 1))) (mix ! (4 * k + 2))) (mix ! (4 * k + 3)))
        [0..<8]"
  using compress_mix_prefix [OF assms, of 8] by (simp add: compress_mix_def)

theorem compress_mix_in_place_witness:
  "take 8 (compress_mix (replicate 32 1)) = replicate 8 (fnv_hash (fnv_hash (fnv_hash 1 1) 1) 1)"
  using compress_mix_in_place [of "replicate 32 1"] by (simp add: upt_rec replicate_numeral)

text \<open>
  A progress callback needs a data set of at least 100 nodes. Below that the test
  \<open>n % (max_n / 100)\<close> divides by zero at the first node.
\<close>

theorem small_full_data_with_callback:
  assumes "full_size mod 128 = 0" and "0 < full_size" and "full_size < 6400"
  shows "ethash_compute_full_data SHA3_512 mem full_size light (Some f) = None"
proof -
  let ?n = "unat full_size"
  have n: "?n < 6400" "0 < ?n" using assms(2,3) by (simp_all add: word_less_nat_alt)
  have m128: "?n mod 128 = 0" using arg_cong [OF assms(1), of unat] by (simp add: unat_mod_distrib)
  then have "128 dvd ?n" by (rule mod_0_imp_dvd)
  then have "64 dvd ?n" by (rule dvd_trans [rotated]) simp
  then have "unat (full_size mod 64) = 0" by (simp add: unat_mod_distrib)
  then have z: "full_size mod 64 = 0" by (simp add: unsigned_eq_0_iff)
  let ?m = "ucast (full_size div 64) :: u32"
  have um: "unat ?m = ?n div 64" using n by (intro num_nodes_u32) auto
  have "unat (?m div 100) = 0" using um n by (simp add: unat_div_distrib)
  then have d: "?m div 100 = 0" by (simp add: unsigned_eq_0_iff)
  have "0 < ?n div 64" using \<open>64 dvd ?n\<close> n(2) by (auto elim!: dvdE)
  then have "[0..<unat ?m] = 0 # [1..<unat ?m]" by (simp add: um upt_conv_Cons)
  then show ?thesis
    using assms(1) z d by (simp add: ethash_compute_full_data_def Let_def callback_stops_def umod_def)
qed

theorem small_full_data_with_callback_witness:
  "ethash_compute_full_data SHA3_512 [[], []] 128 \<lparr> cache = [], cache_size = 0, block_number = 0 \<rparr>
     (Some (\<lambda>n. 0)) = None"
  using small_full_data_with_callback
    [of 128 "[[], []]" "\<lparr> cache = [], cache_size = 0, block_number = 0 \<rparr>" "\<lambda>n. 0"] by simp

end
