(* ===== verification/EthashFile.thy ===== *)
theory EthashFile
  imports Ethash
begin

text \<open>
  The DAG file of Ethash: \<open>libethhash/io.c\<close>, \<open>io.h\<close>, \<open>io_posix.c\<close> and \<open>ethash_full_new\<close> of
  \<open>internal.c\<close>. The state is the file system, a map from path names to contents. The outcome of
  each library call is a field of an environment. The theorems: only a complete data set is ever
  taken from a file, over any sequence of runs that succeed, fail, are stopped by the callback or
  are killed; and the names of the files.
\<close>

section \<open>Names\<close>

definition hex_digit :: "nat \<Rightarrow> char" where
  "hex_digit n = ''0123456789abcdef'' ! n"

text \<open>\<open>%0<k>x\<close> of a number with at most \<open>k\<close> hex digits, and \<open>%u\<close>.\<close>

primrec hex_pad :: "nat \<Rightarrow> nat \<Rightarrow> string" where
  "hex_pad 0 n = []"
| "hex_pad (Suc k) n = hex_pad k (n div 16) @ [hex_digit (n mod 16)]"

fun dec_str :: "nat \<Rightarrow> string" where
  "dec_str n = (if n < 10 then [hex_digit n] else dec_str (n div 10) @ [hex_digit (n mod 10)])"

declare dec_str.simps [simp del]

definition ethash_swap_u64 :: "u64 \<Rightarrow> u64" where
  "ethash_swap_u64 w = word_of_bytes (rev (bytes_of_word w))"

definition ethash_io_mutable_name :: "u32 \<Rightarrow> bytes \<Rightarrow> string" where
  "ethash_io_mutable_name revision seed_hash =
     take 33 (''full-R'' @ dec_str (unat revision) @ ''-''
       @ hex_pad 16 (unat (ethash_swap_u64 (word_of_bytes (take 8 seed_hash)))))"

definition ethash_strncat :: "string \<Rightarrow> nat \<Rightarrow> string \<Rightarrow> nat \<Rightarrow> string option" where
  "ethash_strncat dest dest_size src count =
     (if length dest + count + 1 \<le> dest_size then Some (dest @ take count src) else None)"

text \<open>\<open>s[i]\<close> of a C string: its terminator is the character at its length.\<close>

definition cstr_at :: "string \<Rightarrow> nat \<Rightarrow> char" where
  "cstr_at s i = (s @ [CHR 0x00]) ! i"

text \<open>A call whose result is ignored leaves the destination as it is when it fails.\<close>

definition strncat_or_same :: "string \<Rightarrow> nat \<Rightarrow> string \<Rightarrow> nat \<Rightarrow> string" where
  "strncat_or_same dest dest_size src count =
     (case ethash_strncat dest dest_size src count of Some d \<Rightarrow> d | None \<Rightarrow> dest)"

definition ethash_io_create_filename :: "string \<Rightarrow> string \<Rightarrow> nat \<Rightarrow> string" where
  "ethash_io_create_filename dirname filename filename_length =
     (let dirlen = length dirname;
          dest_size = dirlen + filename_length + 1;
          dest_size = (if cstr_at dirname dirlen \<noteq> CHR ''/'' then dest_size + 1 else dest_size);
          name = strncat_or_same [] dest_size dirname dirlen;
          name = (if cstr_at dirname dirlen \<noteq> CHR ''/'' then strncat_or_same name dest_size ''/'' 1 else name)
      in strncat_or_same name dest_size filename filename_length)"

text \<open>
  \<open>ethash_get_default_dirname\<close>: \<open>getenv("HOME")\<close> and the home of \<open>getpwuid\<close> are parameters, and so is
  the suffix, which differs in the forks; its \<open>sizeof\<close> counts the terminator. \<open>None\<close> is
  \<open>strlen(NULL)\<close>.
\<close>

definition default_dirname :: "string \<Rightarrow> string option \<Rightarrow> string option \<Rightarrow> nat \<Rightarrow> (bool \<times> string) option" where
  "default_dirname dir_suffix env_home pw_home buffsize =
     (let home_dir = (if env_home = None \<or> env_home = Some [] then
                        (case pw_home of Some d \<Rightarrow> Some d | None \<Rightarrow> env_home)
                      else env_home)
      in case home_dir of
        None \<Rightarrow> None
      | Some home_dir \<Rightarrow>
          let len = length home_dir in
          (case ethash_strncat [] buffsize home_dir len of
             None \<Rightarrow> Some (False, [])
           | Some strbuf \<Rightarrow>
               (case (if cstr_at home_dir len \<noteq> CHR ''/'' then ethash_strncat strbuf buffsize ''/'' 1
                      else Some strbuf) of
                  None \<Rightarrow> Some (False, strbuf)
                | Some strbuf \<Rightarrow>
                    (case ethash_strncat strbuf buffsize dir_suffix (length dir_suffix + 1) of
                       None \<Rightarrow> Some (False, strbuf)
                     | Some strbuf \<Rightarrow> Some (True, strbuf)))))"

definition ethash_get_default_dirname :: "string option \<Rightarrow> string option \<Rightarrow> nat \<Rightarrow> (bool \<times> string) option" where
  "ethash_get_default_dirname = default_dirname ''.ethash/''"

section \<open>Preparing the file\<close>

datatype ethash_io_rc =
  ETHASH_IO_FAIL | ETHASH_IO_MEMO_SIZE_MISMATCH | ETHASH_IO_MEMO_MISMATCH | ETHASH_IO_MEMO_MATCH

type_synonym fs = "string \<rightharpoonup> bytes"

text \<open>
  The outcomes of \<open>mkdir\<close>, the allocation of the name, \<open>fopen(..., "rb+")\<close> on an existing file,
  \<open>fstat\<close>, \<open>fread\<close>, \<open>fopen(..., "wb+")\<close>, \<open>fseek\<close>, \<open>fputc\<close> and \<open>fflush\<close>; and whether the byte
  written reaches the file although \<open>fflush\<close> reports a failure.
\<close>

record io_env =
  mkdir_ok :: bool
  name_ok :: bool
  reopen_ok :: bool
  stat_ok :: bool
  read_ok :: bool
  create_ok :: bool
  seek_ok :: bool
  putc_ok :: bool
  flush_ok :: bool
  lands :: bool

definition ETHASH_DAG_MAGIC_NUM :: u64 where
  "ETHASH_DAG_MAGIC_NUM = 0xFEE1DEADBADDCAFE"

definition ETHASH_DAG_MAGIC_NUM_SIZE :: nat where
  "ETHASH_DAG_MAGIC_NUM_SIZE = 8"

text \<open>An empty file after a seek to \<open>file_size + 8 - 1\<close> and one byte written there.\<close>

definition fresh_content :: "u64 \<Rightarrow> bytes" where
  "fresh_content file_size = replicate (unat (file_size + of_nat ETHASH_DAG_MAGIC_NUM_SIZE - 1)) 0 @ [10]"

definition create_dag :: "io_env \<Rightarrow> string \<Rightarrow> u64 \<Rightarrow> fs \<Rightarrow> ethash_io_rc \<times> string option \<times> fs" where
  "create_dag e path file_size fs =
     (if \<not> create_ok e then (ETHASH_IO_FAIL, None, fs)
      else if \<not> seek_ok e \<or> \<not> putc_ok e then (ETHASH_IO_FAIL, None, fs(path \<mapsto> []))
      else if \<not> flush_ok e then
        (ETHASH_IO_FAIL, None, fs(path \<mapsto> (if lands e then fresh_content file_size else [])))
      else (ETHASH_IO_MEMO_MISMATCH, Some path, fs(path \<mapsto> fresh_content file_size)))"

definition dag_path :: "string \<Rightarrow> bytes \<Rightarrow> string" where
  "dag_path dirname seedhash =
     (let mutable_name = ethash_io_mutable_name 23 seedhash
      in ethash_io_create_filename dirname mutable_name (length mutable_name))"

definition ethash_io_prepare ::
  "io_env \<Rightarrow> string \<Rightarrow> bytes \<Rightarrow> u64 \<Rightarrow> bool \<Rightarrow> fs \<Rightarrow> ethash_io_rc \<times> string option \<times> fs" where
  "ethash_io_prepare e dirname seedhash file_size force_create fs =
     (if \<not> mkdir_ok e \<or> \<not> name_ok e then (ETHASH_IO_FAIL, None, fs)
      else let tmpfile = dag_path dirname seedhash in
        case (if \<not> force_create \<and> reopen_ok e then fs tmpfile else None) of
          Some content \<Rightarrow>
            let found_size = of_nat (length content) :: u64 in
            if \<not> stat_ok e then (ETHASH_IO_FAIL, None, fs)
            else if file_size \<noteq> found_size - of_nat ETHASH_DAG_MAGIC_NUM_SIZE then
              (ETHASH_IO_MEMO_SIZE_MISMATCH, None, fs)
            else if \<not> read_ok e \<or> length content < ETHASH_DAG_MAGIC_NUM_SIZE then
              (ETHASH_IO_MEMO_SIZE_MISMATCH, None, fs)
            else if word_of_bytes (take ETHASH_DAG_MAGIC_NUM_SIZE content) \<noteq> ETHASH_DAG_MAGIC_NUM then
              (ETHASH_IO_MEMO_SIZE_MISMATCH, None, fs)
            else (ETHASH_IO_MEMO_MATCH, Some tmpfile, fs)
        | None \<Rightarrow> create_dag e tmpfile file_size fs)"

section \<open>The full data set\<close>

text \<open>
  The mapping of the file is shared: \<open>data\<close> is the file's content from byte 8 on as an array of
  nodes, and what is written to it is written to the file.
\<close>

definition data_view :: "bytes \<Rightarrow> node list" where
  "data_view content =
     (let bs = drop ETHASH_DAG_MAGIC_NUM_SIZE content
      in map words_of_bytes (chunks 64 (take (64 * (length bs div 64)) bs)))"

definition put_view :: "node list \<Rightarrow> bytes \<Rightarrow> bytes" where
  "put_view nodes content =
     take ETHASH_DAG_MAGIC_NUM_SIZE content @ concat (map bytes_of_words nodes)
       @ drop (ETHASH_DAG_MAGIC_NUM_SIZE + 64 * length nodes) content"

record ethash_full =
  dag_file :: "string option"
  file_size :: u64
  data :: "node list"

text \<open>
  The outcomes of \<open>calloc\<close>, the two calls of \<open>ethash_io_prepare\<close>, \<open>ethash_mmap\<close> and the calls
  that write the magic number; \<open>magic_lands\<close> tells whether the number reaches the file although
  \<open>fwrite\<close> succeeds and \<open>fflush\<close> fails.
\<close>

record full_env =
  full_calloc_ok :: bool
  io1 :: io_env
  io2 :: io_env
  mmap_ok :: bool
  rewind_ok :: bool
  fwrite_ok :: bool
  fflush_ok :: bool
  magic_lands :: bool

definition put_magic :: "bytes \<Rightarrow> bytes" where
  "put_magic content = bytes_of_word ETHASH_DAG_MAGIC_NUM @ drop ETHASH_DAG_MAGIC_NUM_SIZE content"

definition ethash_mmap :: "full_env \<Rightarrow> string \<Rightarrow> u64 \<Rightarrow> fs \<Rightarrow> ethash_full option" where
  "ethash_mmap e path full_size fs =
     (if \<not> mmap_ok e then None
      else map_option (\<lambda>content. \<lparr> dag_file = Some path, file_size = full_size, data = data_view content \<rparr>) (fs path))"

text \<open>From the mapping of a new file on: compute the data, then write the magic number.\<close>

definition fill_dag ::
  "full_env \<Rightarrow> string \<Rightarrow> u64 \<Rightarrow> ethash_light \<Rightarrow> (u32 \<Rightarrow> int) option \<Rightarrow> fs \<Rightarrow> (ethash_full option \<times> fs) option" where
  "fill_dag e path full_size light callback fs =
     (case (ethash_mmap e path full_size fs, fs path) of
        (Some ret, Some content) \<Rightarrow> do {
          (ok, mem) \<leftarrow> ethash_compute_full_data SHA3_512 (data ret) full_size light callback;
          let content = put_view mem content;
          Some (if \<not> ok then (None, fs(path \<mapsto> content))
                else if \<not> rewind_ok e \<or> \<not> fwrite_ok e then (None, fs(path \<mapsto> content))
                else if \<not> fflush_ok e then
                  (None, fs(path \<mapsto> (if magic_lands e then put_magic content else content)))
                else (Some (ret\<lparr> data := mem \<rparr>), fs(path \<mapsto> put_magic content)))
        }
      | _ \<Rightarrow> Some (None, fs))"

definition ethash_full_new_internal ::
  "full_env \<Rightarrow> string \<Rightarrow> bytes \<Rightarrow> u64 \<Rightarrow> ethash_light \<Rightarrow> (u32 \<Rightarrow> int) option \<Rightarrow> fs
   \<Rightarrow> (ethash_full option \<times> fs) option" where
  "ethash_full_new_internal e dirname seed_hash full_size light callback fs =
     (if \<not> full_calloc_ok e then Some (None, fs)
      else case ethash_io_prepare (io1 e) dirname seed_hash full_size False fs of
        (ETHASH_IO_FAIL, _, fs) \<Rightarrow> Some (None, fs)
      | (ETHASH_IO_MEMO_MATCH, f, fs) \<Rightarrow> Some (f \<bind> (\<lambda>path. ethash_mmap e path full_size fs), fs)
      | (ETHASH_IO_MEMO_SIZE_MISMATCH, _, fs) \<Rightarrow>
          (case ethash_io_prepare (io2 e) dirname seed_hash full_size True fs of
             (ETHASH_IO_MEMO_MISMATCH, Some path, fs) \<Rightarrow> fill_dag e path full_size light callback fs
           | (_, _, fs) \<Rightarrow> Some (None, fs))
      | (ETHASH_IO_MEMO_MISMATCH, f, fs) \<Rightarrow>
          (case f of Some path \<Rightarrow> fill_dag e path full_size light callback fs | None \<Rightarrow> Some (None, fs)))"

definition ethash_full_compute ::
  "ethash_full \<Rightarrow> bytes \<Rightarrow> u64 \<Rightarrow> ethash_return_value \<Rightarrow> ethash_return_value option" where
  "ethash_full_compute full header_hash nonce uninit =
     ethash_full_compute_internal SHA3_512 SHA3_256 (data full) (file_size full) header_hash nonce uninit"

definition ethash_full_new ::
  "full_env \<Rightarrow> string option \<Rightarrow> string option \<Rightarrow> ethash_light \<Rightarrow> (u32 \<Rightarrow> int) option \<Rightarrow> fs
   \<Rightarrow> (ethash_full option \<times> fs) option" where
  "ethash_full_new e env_home pw_home light callback fs =
     do {
       (ok, strbuf) \<leftarrow> ethash_get_default_dirname env_home pw_home 256;
       if \<not> ok then Some (None, fs)
       else do {
         full_size \<leftarrow> ethash_get_datasize (block_number light);
         seedhash \<leftarrow> ethash_get_seedhash (block_number light);
         ethash_full_new_internal e strbuf seedhash full_size light callback fs
       }
     }"

definition ethash_full_dag :: "ethash_full \<Rightarrow> node list" where
  "ethash_full_dag full = data full"

definition ethash_full_dag_size :: "ethash_full \<Rightarrow> u64" where
  "ethash_full_dag_size full = file_size full"

section \<open>Names of the files\<close>

lemma unat_u8_div16: "unat (b :: u8) div 16 < 16"
  by (rule less_mult_imp_div_less) (rule order_less_le_trans [OF unat_u8_less], simp)

lemma hex_pad_bytes:
  "hex_pad (2 * length bs) (le_nat (rev bs))
   = concat (map (\<lambda>b. [hex_digit (unat b div 16), hex_digit (unat b mod 16)]) bs)"
proof (induction bs rule: rev_induct)
  case (snoc b bs)
  have "unat b div 16 < 16" by (rule unat_u8_div16)
  moreover have "(unat b + 256 * n) div 16 = unat b div 16 + 16 * n"
    "(unat b + 256 * n) mod 16 = unat b mod 16" for n
    using mod_mult_self2 [of "unat b" 16 "16 * n"] by auto
  ultimately show ?case using snoc by simp
qed simp

lemma mutable_name_eq:
  assumes "length seed = 32"
  shows "ethash_io_mutable_name 23 seed = ''full-R23-''
    @ concat (map (\<lambda>b. [hex_digit (unat b div 16), hex_digit (unat b mod 16)]) (take 8 seed))"
proof -
  have d: "dec_str 23 = ''23''" by (simp add: dec_str.simps hex_digit_def)
  have l: "length (take 8 seed) = 8" using assms by simp
  have w: "bytes_of_word (word_of_bytes (take 8 seed) :: u64) = take 8 seed"
    using l by simp
  have "le_nat (rev (take 8 seed)) < 256 ^ 8"
    using le_nat_less [of "rev (take 8 seed)"] l by simp
  then have u: "unat (ethash_swap_u64 (word_of_bytes (take 8 seed))) = le_nat (rev (take 8 seed))"
    unfolding ethash_swap_u64_def w by (simp add: word_of_bytes_def unat_of_nat)
  have h: "hex_pad 16 (le_nat (rev (take 8 seed)))
      = concat (map (\<lambda>b. [hex_digit (unat b div 16), hex_digit (unat b mod 16)]) (take 8 seed))"
    using hex_pad_bytes [of "take 8 seed"] l by simp
  have "length (concat (map (\<lambda>b. [hex_digit (unat b div 16), hex_digit (unat b mod 16)]) (take 8 seed))) = 16"
    using l by (simp add: length_concat comp_def sum_list_triv)
  then show ?thesis by (simp add: ethash_io_mutable_name_def d u h)
qed

lemma hex_digit_inj: "a < 16 \<Longrightarrow> b < 16 \<Longrightarrow> hex_digit a = hex_digit b \<Longrightarrow> a = b"
  unfolding hex_digit_def by (rule nth_eq_iff_index_eq [THEN iffD1]) simp_all

lemma hex_bytes_inj:
  "length xs = length ys \<Longrightarrow>
   concat (map (\<lambda>b. [hex_digit (unat b div 16), hex_digit (unat b mod 16)]) xs)
   = concat (map (\<lambda>b. [hex_digit (unat b div 16), hex_digit (unat b mod 16)]) ys) \<Longrightarrow> xs = (ys :: bytes)"
proof (induction xs ys rule: list_induct2)
  case (Cons x xs y ys)
  have lt: "unat x div 16 < 16" "unat y div 16 < 16" by (rule unat_u8_div16)+
  have "unat x div 16 = unat y div 16" "unat x mod 16 = unat y mod 16"
    using Cons.prems by (auto intro!: hex_digit_inj [of "unat x div 16"] hex_digit_inj [of "unat x mod 16"] lt)
  then have "unat x = unat y" by (metis div_mult_mod_eq)
  then have "x = y" by (rule unsigned_word_eqI)
  with Cons show ?case by simp
qed simp

lemma create_filename_eq:
  "ethash_io_create_filename dirname filename (length filename) = dirname @ ''/'' @ filename"
  by (simp add: ethash_io_create_filename_def cstr_at_def strncat_or_same_def ethash_strncat_def nth_append Let_def)

section \<open>The file as a mapping\<close>

lemma take_concat_same:
  "\<forall>x \<in> set xss. length x = n \<Longrightarrow> take (n * length xss) (concat xss @ ys) = concat xss"
  by (induction xss) auto

lemma length_concat_same: "\<forall>x \<in> set xss. length x = n \<Longrightarrow> length (concat xss) = n * length xss"
  by (induction xss) auto

lemma words_of_bytes_of_node: "node_ok nd \<Longrightarrow> words_of_bytes (bytes_of_words nd) = nd"
  by (rule words_of_bytes_of_words) (simp_all add: node_ok_def)

lemma length_put_view:
  assumes "length content = 8 + 64 * n" and "length nodes = n" and "list_all node_ok nodes"
  shows "length (put_view nodes content) = 8 + 64 * n"
    and "take 8 (put_view nodes content) = take 8 content"
    and "data_view (put_view nodes content) = nodes"
proof -
  have l: "\<forall>x \<in> set (map bytes_of_words nodes). length x = 64"
    using assms(3) by (auto simp: list_all_iff node_ok_def len_simps)
  have lc: "length (concat (map bytes_of_words nodes)) = 64 * n"
    using length_concat_same [OF l] assms(2) by simp
  have pv: "put_view nodes content = take 8 content @ concat (map bytes_of_words nodes)"
    using assms(1,2) by (simp add: put_view_def ETHASH_DAG_MAGIC_NUM_SIZE_def)
  show "length (put_view nodes content) = 8 + 64 * n" using assms(1) lc by (simp add: pv)
  show "take 8 (put_view nodes content) = take 8 content" using assms(1) by (simp add: pv)
  have "chunks 64 (concat (map bytes_of_words nodes)) = map bytes_of_words nodes"
    using l by (intro chunks_concat) auto
  moreover have "map (words_of_bytes \<circ> bytes_of_words) nodes = nodes"
    using assms(3) by (intro map_idI) (auto simp: list_all_iff words_of_bytes_of_node)
  ultimately show "data_view (put_view nodes content) = nodes"
    using assms(1) lc by (simp add: data_view_def pv ETHASH_DAG_MAGIC_NUM_SIZE_def Let_def)
qed

lemma data_view_shape:
  assumes "length content = 8 + 64 * n"
  shows "length (data_view content) = n" and "list_all node_ok (data_view content)"
proof -
  have dv: "data_view content = map words_of_bytes (chunks 64 (drop 8 content))"
    using assms by (simp add: data_view_def ETHASH_DAG_MAGIC_NUM_SIZE_def Let_def)
  have d: "64 dvd length (drop 8 content)" using assms by simp
  then show "length (data_view content) = n" using assms by (simp add: dv length_chunks)
  show "list_all node_ok (data_view content)"
    using chunks_lengths [OF _ d] by (auto simp: dv list_all_iff node_ok_def length_words32_of_bytes)
qed

lemma put_magic:
  assumes "length content = 8 + 64 * n"
  shows "length (put_magic content) = 8 + 64 * n" and "data_view (put_magic content) = data_view content"
  using assms by (simp_all add: put_magic_def data_view_def ETHASH_DAG_MAGIC_NUM_SIZE_def Let_def len_simps)

lemma full_loop_shape:
  assumes "light_ok light" and "full_loop SHA3_512 light callback max_n ns mem = Some (ok, mem')"
    and "list_all node_ok mem"
  shows "length mem' = length mem \<and> list_all node_ok mem'
    \<and> (ok \<longrightarrow> full_loop SHA3_512 light None max_n ns mem = Some (True, mem'))"
  using assms(2,3)
proof (induction ns arbitrary: mem)
  case (Cons n ns)
  obtain nd where nd: "ethash_calculate_dag_item SHA3_512 (of_nat n) light = Some nd" "node_ok nd"
    using sha3.dag_item_total [OF assms(1)] by blast
  show ?case
  proof (cases "callback_stops callback max_n (of_nat n)")
    case None
    with Cons.prems show ?thesis by simp
  next
    case (Some stop)
    show ?thesis
    proof (cases "stop \<or> length mem \<le> n")
      case True
      with Some nd Cons.prems show ?thesis by (auto simp: wr_def split: if_splits)
    next
      case False
      then have "list_all node_ok (mem[n := nd])"
        using nd Cons.prems(2) by (auto simp: list_all_length nth_list_update)
      moreover have "full_loop SHA3_512 light callback max_n ns (mem[n := nd]) = Some (ok, mem')"
        using False Some nd Cons.prems(1) by simp
      ultimately show ?thesis
        using Cons.IH [of "mem[n := nd]"] False nd by (simp add: callback_stops_def)
    qed
  qed
qed auto

lemma compute_full_data_shape:
  assumes "light_ok light" and "unat full_size = 128 * pages" and "2 * pages < 2 ^ 32"
    and "length mem = 2 * pages" and "list_all node_ok mem"
    and "ethash_compute_full_data SHA3_512 mem full_size light callback = Some (ok, mem')"
  shows "length mem' = 2 * pages \<and> list_all node_ok mem'
    \<and> (ok \<longrightarrow> mem' = map (dag_item SHA3_512 light) [0..<2 * pages])"
proof -
  note none = sha3.compute_full_data_eq [OF assms(1-4)]
  show ?thesis
  proof (cases "full_size mod 128 \<noteq> 0 \<or> full_size mod 64 \<noteq> 0")
    case True
    with none show ?thesis by (simp add: ethash_compute_full_data_def)
  next
    case False
    then have "full_loop SHA3_512 light callback (ucast (full_size div 64))
        (u32_steps 0 (ucast (full_size div 64))) mem = Some (ok, mem')"
      using assms(6) by (simp add: ethash_compute_full_data_def Let_def)
    from full_loop_shape [OF assms(1) this assms(5)] none False assms(4) show ?thesis
      by (auto simp: ethash_compute_full_data_def Let_def)
  qed
qed

section \<open>Only complete data sets are taken from a file\<close>

text \<open>A content that the next run would take is the complete data set.\<close>

definition dag_content_ok :: "ethash_light \<Rightarrow> nat \<Rightarrow> bytes \<Rightarrow> bool" where
  "dag_content_ok light pages content \<longleftrightarrow> length content < 2 ^ 64 \<and>
     (length content = 8 + 128 * pages \<and> word_of_bytes (take 8 content) = ETHASH_DAG_MAGIC_NUM
      \<longrightarrow> data_view content = map (dag_item SHA3_512 light) [0..<2 * pages])"

definition dag_fs_ok :: "string \<Rightarrow> ethash_light \<Rightarrow> nat \<Rightarrow> fs \<Rightarrow> bool" where
  "dag_fs_ok path light pages fs \<longleftrightarrow> pred_option (dag_content_ok light pages) (fs path)"

lemma fresh_content:
  assumes "unat full_size = 128 * pages" and "0 < pages" and "2 * pages < 2 ^ 32"
  shows "length (fresh_content full_size) = 8 + 64 * (2 * pages)"
    and "word_of_bytes (take 8 (fresh_content full_size)) \<noteq> ETHASH_DAG_MAGIC_NUM"
proof -
  have "unat (full_size + 7) = unat full_size + 7"
    using assms by (subst unat_add_lem [THEN iffD1]) auto
  then have f: "fresh_content full_size = replicate (128 * pages + 7) 0 @ [10]"
    using assms(1) by (simp add: fresh_content_def ETHASH_DAG_MAGIC_NUM_SIZE_def add.commute)
  then show "length (fresh_content full_size) = 8 + 64 * (2 * pages)" by simp
  have "take 8 (fresh_content full_size) = replicate 8 0"
    using assms(2) by (simp add: f)
  then have "word_of_bytes (take 8 (fresh_content full_size)) = (0 :: u64)"
    by (simp add: word_of_bytes_def replicate_numeral)
  then show "word_of_bytes (take 8 (fresh_content full_size)) \<noteq> ETHASH_DAG_MAGIC_NUM"
    by (simp add: ETHASH_DAG_MAGIC_NUM_def)
qed

text \<open>What \<open>ethash_io_prepare\<close> leaves behind, by its result.\<close>

lemma create_dag_cases:
  assumes "create_dag e path full_size fs = (rc, f, fs')"
  shows "rc = ETHASH_IO_FAIL \<and> (fs' = fs \<or> fs' = fs(path \<mapsto> []) \<or> fs' = fs(path \<mapsto> fresh_content full_size))
    \<or> rc = ETHASH_IO_MEMO_MISMATCH \<and> f = Some path \<and> fs' = fs(path \<mapsto> fresh_content full_size)"
  using assms by (auto simp: create_dag_def split: if_splits)

lemma io_prepare_cases:
  assumes "ethash_io_prepare e dirname seedhash full_size force fs = (rc, f, fs')"
    and "path = dag_path dirname seedhash"
  shows "rc = ETHASH_IO_FAIL \<and> (fs' = fs \<or> fs' = fs(path \<mapsto> []) \<or> fs' = fs(path \<mapsto> fresh_content full_size))
    \<or> rc = ETHASH_IO_MEMO_SIZE_MISMATCH \<and> fs' = fs \<and> \<not> force
    \<or> rc = ETHASH_IO_MEMO_MISMATCH \<and> f = Some path \<and> fs' = fs(path \<mapsto> fresh_content full_size)
    \<or> rc = ETHASH_IO_MEMO_MATCH \<and> \<not> force \<and> f = Some path \<and> fs' = fs
        \<and> (\<exists>content. fs path = Some content \<and> 8 \<le> length content
             \<and> full_size = of_nat (length content) - 8
             \<and> word_of_bytes (take 8 content) = ETHASH_DAG_MAGIC_NUM)"
proof (cases "mkdir_ok e \<and> name_ok e")
  case False
  with assms show ?thesis by (auto simp: ethash_io_prepare_def)
next
  case True
  show ?thesis
  proof (cases "if \<not> force \<and> reopen_ok e then fs path else None")
    case None
    have "create_dag e path full_size fs = (rc, f, fs')"
      using assms(1) True
      unfolding ethash_io_prepare_def Let_def assms(2) [symmetric] None option.case by (simp only: simp_thms if_False)
    from create_dag_cases [OF this] show ?thesis by blast
  next
    case (Some content)
    with True assms show ?thesis
      by (auto simp: ethash_io_prepare_def Let_def ETHASH_DAG_MAGIC_NUM_SIZE_def split: if_splits)
  qed
qed

lemma dag_fs_ok_update:
  "dag_fs_ok path light pages (fs(path \<mapsto> content)) \<longleftrightarrow> dag_content_ok light pages content"
  by (simp add: dag_fs_ok_def)

lemma dag_fs_ok_fresh:
  assumes "unat full_size = 128 * pages" and "0 < pages" and "2 * pages < 2 ^ 32"
    and "dag_fs_ok path light pages fs"
    and "fs' = fs \<or> fs' = fs(path \<mapsto> []) \<or> fs' = fs(path \<mapsto> fresh_content full_size)"
  shows "dag_fs_ok path light pages fs'"
  using assms(3-5) fresh_content [OF assms(1-3)]
  by (auto simp: dag_fs_ok_update dag_content_ok_def)

text \<open>A handle of the full data set: its file is the complete data set, and so is its data.\<close>

definition full_ok :: "ethash_light \<Rightarrow> nat \<Rightarrow> u64 \<Rightarrow> ethash_full \<Rightarrow> bool" where
  "full_ok light pages full_size full \<longleftrightarrow>
     file_size full = full_size \<and> data full = map (dag_item SHA3_512 light) [0..<2 * pages]"

lemma fill_dag_ok:
  assumes "light_ok light" and "unat full_size = 128 * pages" and "0 < pages" and "2 * pages < 2 ^ 32"
    and "fs path = Some (fresh_content full_size)"
    and "fill_dag e path full_size light callback fs = Some (r, fs')"
  shows "dag_fs_ok path light pages fs' \<and> pred_option (full_ok light pages full_size) r"
proof -
  let ?c = "fresh_content full_size"
  note fr = fresh_content [OF assms(2-4)]
  note dv = data_view_shape [OF fr(1)]
  have fs0: "dag_fs_ok path light pages fs"
    using fr assms(4,5) by (simp add: dag_fs_ok_def dag_content_ok_def)
  show ?thesis
  proof (cases "mmap_ok e")
    case False
    with assms(6) fs0 show ?thesis by (simp add: fill_dag_def ethash_mmap_def)
  next
    case True
    with assms(5,6) obtain ok mem where
      c: "ethash_compute_full_data SHA3_512 (data_view ?c) full_size light callback = Some (ok, mem)"
      by (cases "ethash_compute_full_data SHA3_512 (data_view ?c) full_size light callback")
        (auto simp: fill_dag_def ethash_mmap_def)
    note m = compute_full_data_shape [OF assms(1,2,4) dv c]
    then have lm: "length mem = 2 * pages" "list_all node_ok mem" by auto
    note pv = length_put_view [OF fr(1) lm]
    have part: "dag_content_ok light pages (put_view mem ?c)"
      using pv fr(2) assms(4) by (simp add: dag_content_ok_def)
    have whole: "ok \<Longrightarrow> dag_content_ok light pages (put_magic (put_view mem ?c))"
      using m put_magic [OF pv(1)] pv(3) assms(4) by (simp add: dag_content_ok_def)
    show ?thesis
      using assms(5,6) c True part whole m
      by (auto simp: fill_dag_def ethash_mmap_def dag_fs_ok_update full_ok_def Let_def split: if_splits)
  qed
qed

lemma match_length:
  assumes "full_size = of_nat n - (8 :: u64)" and "n < 2 ^ 64" and "8 \<le> n" and "unat full_size = 128 * pages"
  shows "n = 8 + 128 * pages"
proof -
  have "unat (of_nat n :: u64) = n" using assms(2) by (simp add: unat_of_nat)
  moreover from this have "unat (of_nat n - (8 :: u64)) = n - 8"
    using assms(3) by (simp add: unat_sub_if')
  ultimately show ?thesis using assms by simp
qed

lemma full_new_ok:
  assumes "light_ok light" and "unat full_size = 128 * pages" and "0 < pages" and "2 * pages < 2 ^ 32"
    and "path = dag_path dirname seed" and "dag_fs_ok path light pages fs"
    and "ethash_full_new_internal e dirname seed full_size light callback fs = Some (r, fs')"
  shows "dag_fs_ok path light pages fs' \<and> pred_option (full_ok light pages full_size) r"
proof (cases "full_calloc_ok e")
  case False
  with assms(6,7) show ?thesis by (simp add: ethash_full_new_internal_def)
next
  case True
  note fresh = dag_fs_ok_fresh [OF assms(2-4)]
  note fill = fill_dag_ok [OF assms(1-4)]
  obtain rc f fs1 where p: "ethash_io_prepare (io1 e) dirname seed full_size False fs = (rc, f, fs1)"
    by (metis surj_pair)
  from io_prepare_cases [OF p assms(5)] consider
      (fail) "rc = ETHASH_IO_FAIL" "fs1 = fs \<or> fs1 = fs(path \<mapsto> []) \<or> fs1 = fs(path \<mapsto> fresh_content full_size)"
    | (size) "rc = ETHASH_IO_MEMO_SIZE_MISMATCH" "fs1 = fs"
    | (new) "rc = ETHASH_IO_MEMO_MISMATCH" "f = Some path" "fs1 = fs(path \<mapsto> fresh_content full_size)"
    | (match) content where "rc = ETHASH_IO_MEMO_MATCH" "f = Some path" "fs1 = fs" "fs path = Some content"
        "8 \<le> length content" "full_size = of_nat (length content) - 8"
        "word_of_bytes (take 8 content) = ETHASH_DAG_MAGIC_NUM"
    by blast
  then show ?thesis
  proof cases
    case fail
    with True p assms(6,7) fresh show ?thesis by (simp add: ethash_full_new_internal_def)
  next
    case new
    with True p assms(7) have "fill_dag e path full_size light callback fs1 = Some (r, fs')"
      by (simp add: ethash_full_new_internal_def)
    then show ?thesis by (rule fill [rotated]) (simp add: new)
  next
    case match
    have ok: "dag_content_ok light pages content" using assms(6) match(4) by (simp add: dag_fs_ok_def)
    then have "length content = 8 + 128 * pages"
      using match_length [OF match(6) _ match(5) assms(2)] by (simp add: dag_content_ok_def)
    then have "data_view content = map (dag_item SHA3_512 light) [0..<2 * pages]"
      using ok match(7) by (simp add: dag_content_ok_def)
    with True p assms(6,7) match show ?thesis
      by (auto simp: ethash_full_new_internal_def ethash_mmap_def full_ok_def split: if_splits)
  next
    case size
    obtain rc2 f2 fs2 where p2: "ethash_io_prepare (io2 e) dirname seed full_size True fs1 = (rc2, f2, fs2)"
      by (metis surj_pair)
    from io_prepare_cases [OF p2 assms(5)] consider
        (fail2) "rc2 = ETHASH_IO_FAIL" "fs2 = fs1 \<or> fs2 = fs1(path \<mapsto> []) \<or> fs2 = fs1(path \<mapsto> fresh_content full_size)"
      | (new2) "rc2 = ETHASH_IO_MEMO_MISMATCH" "f2 = Some path" "fs2 = fs1(path \<mapsto> fresh_content full_size)"
      by blast
    then show ?thesis
    proof cases
      case fail2
      with True p p2 size assms(6,7) fresh show ?thesis by (simp add: ethash_full_new_internal_def)
    next
      case new2
      with True p p2 size assms(7) have "fill_dag e path full_size light callback fs2 = Some (r, fs')"
        by (simp add: ethash_full_new_internal_def)
      then show ?thesis by (rule fill [rotated]) (simp add: new2)
    qed
  qed
qed

section \<open>Sequences of runs\<close>

text \<open>
  The file systems that any sequence of runs for one data set can leave, starting without the
  file. A run ends, with or without success, or the process is killed while it computes the data:
  then the nodes computed so far are in the file and the magic number is not.
\<close>

inductive dag_runs :: "string \<Rightarrow> bytes \<Rightarrow> u64 \<Rightarrow> ethash_light \<Rightarrow> fs \<Rightarrow> bool"
  for dirname seed full_size light where
  no_file: "fs (dag_path dirname seed) = None \<Longrightarrow> dag_runs dirname seed full_size light fs"
| run: "dag_runs dirname seed full_size light fs \<Longrightarrow>
    ethash_full_new_internal e dirname seed full_size light callback fs = Some (r, fs') \<Longrightarrow>
    dag_runs dirname seed full_size light fs'"
| killed: "dag_runs dirname seed full_size light fs \<Longrightarrow>
    ethash_io_prepare e dirname seed full_size force fs = (ETHASH_IO_MEMO_MISMATCH, Some path, fs1) \<Longrightarrow>
    fs1 path = Some content \<Longrightarrow>
    full_loop SHA3_512 light callback max_n (take k (u32_steps 0 max_n)) (data_view content) = Some (ok, mem) \<Longrightarrow>
    dag_runs dirname seed full_size light (fs1(path \<mapsto> put_view mem content))"

inductive_cases no_file_cases: "dag_runs dirname seed full_size light fs"

lemma dag_runs_ok:
  assumes "dag_runs dirname seed full_size light fs" and "light_ok light" and "unat full_size = 128 * pages"
    and "0 < pages" and "2 * pages < 2 ^ 32"
  shows "dag_fs_ok (dag_path dirname seed) light pages fs"
  using assms(1)
proof (induction rule: dag_runs.induct)
  case (no_file fs)
  then show ?case by (simp add: dag_fs_ok_def)
next
  case (run fs e callback r fs')
  from full_new_ok [OF assms(2-5) refl run.IH run.hyps(2)] show ?case by simp
next
  case (killed fs e force path fs1 content callback max_n k ok mem)
  from io_prepare_cases [OF killed.hyps(2) refl] killed.hyps(3)
  have c: "path = dag_path dirname seed" "content = fresh_content full_size" by auto
  note fr = fresh_content [OF assms(3-5)]
  from full_loop_shape [OF assms(2) killed.hyps(4)] data_view_shape [OF fr(1)]
  have "length mem = 2 * pages" "list_all node_ok mem" by (simp_all add: c(2))
  from length_put_view [OF fr(1) this] fr(2) assms(5) show ?case
    by (simp add: c dag_fs_ok_def dag_content_ok_def)
qed

definition all_io_ok :: "io_env \<Rightarrow> bool" where
  "all_io_ok e \<longleftrightarrow> mkdir_ok e \<and> name_ok e \<and> reopen_ok e \<and> stat_ok e \<and> read_ok e \<and> create_ok e \<and> seek_ok e
     \<and> putc_ok e \<and> flush_ok e"

definition all_full_ok :: "full_env \<Rightarrow> bool" where
  "all_full_ok e \<longleftrightarrow> full_calloc_ok e \<and> all_io_ok (io1 e) \<and> all_io_ok (io2 e) \<and> mmap_ok e \<and> rewind_ok e
     \<and> fwrite_ok e \<and> fflush_ok e"

lemma fill_dag_succeeds:
  assumes "light_ok light" and "unat full_size = 128 * pages" and "0 < pages" and "2 * pages < 2 ^ 32"
    and "fs path = Some (fresh_content full_size)" and "all_full_ok e"
  shows "\<exists>full fs'. fill_dag e path full_size light None fs = Some (Some full, fs')"
  using assms(5,6) sha3.compute_full_data_eq [OF assms(1,2,4) data_view_shape(1) [OF fresh_content(1) [OF assms(2-4)]]]
  by (simp add: fill_dag_def ethash_mmap_def all_full_ok_def)

lemma io_prepare_force:
  assumes "all_io_ok e"
  shows "ethash_io_prepare e dirname seed full_size True fs
    = (ETHASH_IO_MEMO_MISMATCH, Some (dag_path dirname seed), fs(dag_path dirname seed \<mapsto> fresh_content full_size))"
  using assms by (simp add: ethash_io_prepare_def create_dag_def all_io_ok_def Let_def)

lemma io_prepare_no_fail:
  assumes "all_io_ok e"
  shows "fst (ethash_io_prepare e dirname seed full_size force fs) \<noteq> ETHASH_IO_FAIL"
  using assms
  by (auto simp: ethash_io_prepare_def create_dag_def all_io_ok_def Let_def split: option.splits)

lemma full_new_succeeds:
  assumes "light_ok light" and "unat full_size = 128 * pages" and "0 < pages" and "2 * pages < 2 ^ 32"
    and "all_full_ok e"
  shows "\<exists>full fs'. ethash_full_new_internal e dirname seed full_size light None fs = Some (Some full, fs')"
proof -
  let ?path = "dag_path dirname seed"
  have e: "full_calloc_ok e" "all_io_ok (io1 e)" "all_io_ok (io2 e)" "mmap_ok e"
    using assms(5) by (simp_all add: all_full_ok_def)
  have fill: "\<exists>full fs'. fill_dag e ?path full_size light None (g(?path \<mapsto> fresh_content full_size)) = Some (Some full, fs')" for g
    using fill_dag_succeeds [OF assms(1-4) _ assms(5)] by simp
  obtain rc f fs1 where p: "ethash_io_prepare (io1 e) dirname seed full_size False fs = (rc, f, fs1)"
    by (metis surj_pair)
  have nf: "rc \<noteq> ETHASH_IO_FAIL" using io_prepare_no_fail [OF e(2), of dirname seed full_size False fs] p by simp
  from io_prepare_cases [OF p refl] nf consider
      (size) "rc = ETHASH_IO_MEMO_SIZE_MISMATCH" "fs1 = fs"
    | (new) "rc = ETHASH_IO_MEMO_MISMATCH" "f = Some ?path" "fs1 = fs(?path \<mapsto> fresh_content full_size)"
    | (match) content where "rc = ETHASH_IO_MEMO_MATCH" "f = Some ?path" "fs1 = fs" "fs ?path = Some content"
    by blast
  then show ?thesis
  proof cases
    case size
    with e p fill show ?thesis by (simp add: ethash_full_new_internal_def io_prepare_force)
  next
    case new
    with e p fill show ?thesis by (simp add: ethash_full_new_internal_def)
  next
    case match
    with e p show ?thesis by (simp add: ethash_full_new_internal_def ethash_mmap_def)
  qed
qed

section \<open>Properties\<close>

text \<open>
  Property C1: over every sequence of runs that succeed, fail at any library call, are stopped by
  the callback or are killed while they compute, a run that returns a handle returns the complete
  data set. So a full node never hashes over a partial file: its hash is the light client's for
  every header and nonce.
\<close>

theorem full_node_has_complete_data:
  assumes "light_ok light" and "unat full_size = 128 * pages" and "0 < pages" and "2 * pages < 2 ^ 32"
    and "dag_runs dirname seed full_size light fs"
    and "ethash_full_new_internal e dirname seed full_size light callback fs = Some (Some full, fs')"
  shows "data full = map (dag_item SHA3_512 light) [0..<2 * pages]
    \<and> (\<forall>header nonce u. ethash_full_compute full header nonce u
         = ethash_light_compute_internal SHA3_512 SHA3_512 SHA3_256 light full_size header nonce u)"
proof -
  from full_new_ok [OF assms(1-4) refl dag_runs_ok [OF assms(5,1-4)] assms(6)]
  have "file_size full = full_size" "data full = map (dag_item SHA3_512 light) [0..<2 * pages]"
    by (simp_all add: full_ok_def)
  then show ?thesis
    using sha3.light_full_agree [OF assms(1-4)] by (simp add: ethash_full_compute_def)
qed

definition sample_light :: ethash_light where
  "sample_light = \<lparr> cache = [replicate 16 5], cache_size = 64, block_number = 0 \<rparr>"

definition sample_io :: io_env where
  "sample_io = \<lparr> mkdir_ok = True, name_ok = True, reopen_ok = True, stat_ok = True, read_ok = True,
     create_ok = True, seek_ok = True, putc_ok = True, flush_ok = True, lands = True \<rparr>"

definition sample_env :: full_env where
  "sample_env = \<lparr> full_calloc_ok = True, io1 = sample_io, io2 = sample_io, mmap_ok = True, rewind_ok = True,
     fwrite_ok = True, fflush_ok = True, magic_lands = True \<rparr>"

lemma sample_ok: "light_ok sample_light" "all_full_ok sample_env"
  by (simp_all add: light_ok_def node_ok_def sample_light_def all_full_ok_def all_io_ok_def sample_env_def sample_io_def)

theorem full_node_has_complete_data_witness:
  "\<exists>full fs'. ethash_full_new_internal sample_env ''/dag'' (replicate 32 1) 128 sample_light None Map.empty
      = Some (Some full, fs') \<and> data full = map (dag_item SHA3_512 sample_light) [0..<2]"
proof -
  obtain full fs' where f: "ethash_full_new_internal sample_env ''/dag'' (replicate 32 1) 128 sample_light None
      Map.empty = Some (Some full, fs')"
    using full_new_succeeds [OF sample_ok(1) _ _ _ sample_ok(2), of 128 1 "''/dag''" "replicate 32 1" Map.empty]
    by auto
  have "dag_runs ''/dag'' (replicate 32 1) 128 sample_light Map.empty" by (rule no_file) simp
  from full_node_has_complete_data [OF sample_ok(1) _ _ _ this f, of 1] f show ?thesis by auto
qed



text \<open>
  The DAG file of a seed is the directory, a slash and \<open>full-R23-\<close> with the first
  eight bytes of the seed in hex, first byte first. The slash is there even when the directory
  already ends with one, because the code tests the terminator of the string instead of its last
  character. Two seeds share a file just when their first eight bytes agree.
\<close>

theorem dag_path_of_seed:
  assumes "length seed = 32" and "length seed' = 32"
  shows "dag_path dirname seed = dirname @ ''/full-R23-''
       @ concat (map (\<lambda>b. [hex_digit (unat b div 16), hex_digit (unat b mod 16)]) (take 8 seed))
    \<and> (dag_path dirname seed = dag_path dirname seed' \<longleftrightarrow> take 8 seed = take 8 seed')"
  using assms hex_bytes_inj [of "take 8 seed" "take 8 seed'"]
  by (auto simp: dag_path_def mutable_name_eq create_filename_eq Let_def)

theorem dag_path_of_seed_witness:
  "dag_path ''/d/'' (replicate 32 0) \<noteq> dag_path ''/d/'' (replicate 32 1)"
proof -
  have "length (replicate 32 (0 :: u8)) = 32" "length (replicate 32 (1 :: u8)) = 32" by simp_all
  from dag_path_of_seed [OF this, of "''/d/''", THEN conjunct2] show ?thesis by simp
qed

end
