(* ===== verification/Blake2.thy ===== *)
theory Blake2
  imports Prelude
begin

text \<open>
  BLAKE2b, \<open>libubqhash/blake2.c\<close> with \<open>blake2.h\<close>: the parameter block, the streaming state and the
  one-shot functions. The specification is the hash function of RFC 7693: the padded key block and
  the message, cut into blocks of 128 bytes, each compressed with the number of bytes before its
  end, the last one with the final flag. The theorems: the streaming interface computes it however
  the message is cut, and the 128-bit counter of two words is the number of bytes.
\<close>

section \<open>State and parameters\<close>

definition blake2b_IV :: "u64 list" where
  "blake2b_IV =
     [0x6a09e667f3bcc908, 0xbb67ae8584caa73b, 0x3c6ef372fe94f82b, 0xa54ff53a5f1d36f1,
      0x510e527fade682d1, 0x9b05688c2b3e6c1f, 0x1f83d9abfb41bd6b, 0x5be0cd19137e2179]"

definition blake2b_sigma :: "nat list list" where
  "blake2b_sigma =
     [[ 0,  1,  2,  3,  4,  5,  6,  7,  8,  9, 10, 11, 12, 13, 14, 15],
      [14, 10,  4,  8,  9, 15, 13,  6,  1, 12,  0,  2, 11,  7,  5,  3],
      [11,  8, 12,  0,  5,  2, 15, 13, 10, 14,  3,  6,  7,  1,  9,  4],
      [ 7,  9,  3,  1, 13, 12, 11, 14,  2,  6,  5, 10,  4,  0, 15,  8],
      [ 9,  0,  5,  7,  2,  4, 10, 15, 14,  1, 11, 12,  6,  8,  3, 13],
      [ 2, 12,  6, 10,  0, 11,  8,  3,  4, 13,  7,  5, 15, 14,  1,  9],
      [12,  5,  1, 15, 14, 13,  4, 10,  0,  7,  6,  3,  9,  2,  8, 11],
      [13, 11,  7, 14, 12,  1,  3,  9,  5,  0, 15,  4,  8,  6,  2, 10],
      [ 6, 15, 14,  9, 11,  3,  0,  8, 12,  2, 13,  7,  1,  4, 10,  5],
      [10,  2,  8,  4,  7,  6,  1,  5, 15, 11,  9, 14,  3, 12, 13,  0],
      [ 0,  1,  2,  3,  4,  5,  6,  7,  8,  9, 10, 11, 12, 13, 14, 15],
      [14, 10,  4,  8,  9, 15, 13,  6,  1, 12,  0,  2, 11,  7,  5,  3]]"

text \<open>\<open>t\<close> is the counter, \<open>f\<close> the flags; \<open>BLAKE2B_BLOCKBYTES\<close> is 128, \<open>BLAKE2B_OUTBYTES\<close> and \<open>BLAKE2B_KEYBYTES\<close> are 64.\<close>

record blake2b_state =
  b2_h :: "u64 list"
  b2_t0 :: u64
  b2_t1 :: u64
  b2_f0 :: u64
  b2_f1 :: u64
  b2_buf :: bytes
  b2_buflen :: nat
  b2_outlen :: nat
  b2_last_node :: u8

record blake2b_param =
  digest_length :: u8
  key_length :: u8
  fanout :: u8
  depth :: u8
  leaf_length :: u32
  node_offset :: u32
  xof_length :: u32
  node_depth :: u8
  inner_length :: u8
  reserved :: bytes
  salt :: bytes
  personal :: bytes

text \<open>The packed struct read as bytes.\<close>

definition param_bytes :: "blake2b_param \<Rightarrow> bytes" where
  "param_bytes P =
     [digest_length P, key_length P, fanout P, depth P] @ bytes_of_word (leaf_length P)
     @ bytes_of_word (node_offset P) @ bytes_of_word (xof_length P) @ [node_depth P, inner_length P]
     @ reserved P @ salt P @ personal P"

definition blake2b_set_lastnode :: "blake2b_state \<Rightarrow> blake2b_state" where
  "blake2b_set_lastnode S = S\<lparr> b2_f1 := - 1 \<rparr>"

definition blake2b_is_lastblock :: "blake2b_state \<Rightarrow> bool" where
  "blake2b_is_lastblock S \<longleftrightarrow> b2_f0 S \<noteq> 0"

definition blake2b_set_lastblock :: "blake2b_state \<Rightarrow> blake2b_state" where
  "blake2b_set_lastblock S =
     (let S = (if b2_last_node S \<noteq> 0 then blake2b_set_lastnode S else S) in S\<lparr> b2_f0 := - 1 \<rparr>)"

definition blake2b_increment_counter :: "blake2b_state \<Rightarrow> u64 \<Rightarrow> blake2b_state" where
  "blake2b_increment_counter S inc =
     (let S = S\<lparr> b2_t0 := b2_t0 S + inc \<rparr>
      in S\<lparr> b2_t1 := b2_t1 S + (if b2_t0 S < inc then 1 else 0) \<rparr>)"

definition blake2b_init0 :: blake2b_state where
  "blake2b_init0 =
     \<lparr> b2_h = blake2b_IV, b2_t0 = 0, b2_t1 = 0, b2_f0 = 0, b2_f1 = 0, b2_buf = replicate 128 0, b2_buflen = 0,
       b2_outlen = 0, b2_last_node = 0 \<rparr>"

definition blake2b_init_param :: "blake2b_param \<Rightarrow> blake2b_state" where
  "blake2b_init_param P =
     (let S = blake2b_init0;
          p = param_bytes P;
          S = S\<lparr> b2_h := map (\<lambda>i. b2_h S ! i XOR word_of_bytes (take 8 (drop (8 * i) p))) [0..<8] \<rparr>
      in S\<lparr> b2_outlen := unat (digest_length P) \<rparr>)"

text \<open>The parameter block of both initialisations.\<close>

definition sequential_param :: "nat \<Rightarrow> nat \<Rightarrow> blake2b_param" where
  "sequential_param outlen keylen =
     \<lparr> digest_length = of_nat outlen, key_length = of_nat keylen, fanout = 1, depth = 1, leaf_length = 0,
       node_offset = 0, xof_length = 0, node_depth = 0, inner_length = 0, reserved = replicate 14 0,
       salt = replicate 16 0, personal = replicate 16 0 \<rparr>"

text \<open>\<open>None\<close> is the result -1.\<close>

definition blake2b_init :: "nat \<Rightarrow> blake2b_state option" where
  "blake2b_init outlen =
     (if outlen = 0 \<or> 64 < outlen then None else Some (blake2b_init_param (sequential_param outlen 0)))"

section \<open>Compression\<close>

definition rotr64 :: "u64 \<Rightarrow> nat \<Rightarrow> u64" where
  "rotr64 w c = drop_bit c w OR push_bit (64 - c) w"

definition blake2b_G :: "u64 list \<Rightarrow> nat \<Rightarrow> nat \<Rightarrow> nat \<Rightarrow> nat \<Rightarrow> nat \<Rightarrow> nat \<Rightarrow> u64 list \<Rightarrow> u64 list" where
  "blake2b_G m r i a b c d v =
     (let v = v[a := v ! a + v ! b + m ! (blake2b_sigma ! r ! (2 * i + 0))];
          v = v[d := rotr64 (v ! d XOR v ! a) 32];
          v = v[c := v ! c + v ! d];
          v = v[b := rotr64 (v ! b XOR v ! c) 24];
          v = v[a := v ! a + v ! b + m ! (blake2b_sigma ! r ! (2 * i + 1))];
          v = v[d := rotr64 (v ! d XOR v ! a) 16];
          v = v[c := v ! c + v ! d];
          v = v[b := rotr64 (v ! b XOR v ! c) 63]
      in v)"

definition blake2b_ROUND :: "u64 list \<Rightarrow> nat \<Rightarrow> u64 list \<Rightarrow> u64 list" where
  "blake2b_ROUND m r v =
     (let v = blake2b_G m r 0 0 4 8 12 v;
          v = blake2b_G m r 1 1 5 9 13 v;
          v = blake2b_G m r 2 2 6 10 14 v;
          v = blake2b_G m r 3 3 7 11 15 v;
          v = blake2b_G m r 4 0 5 10 15 v;
          v = blake2b_G m r 5 1 6 11 12 v;
          v = blake2b_G m r 6 2 7 8 13 v;
          v = blake2b_G m r 7 3 4 9 14 v
      in v)"

definition blake2b_compress :: "blake2b_state \<Rightarrow> bytes \<Rightarrow> blake2b_state" where
  "blake2b_compress S block =
     (let m = map (\<lambda>i. word_of_bytes (take 8 (drop (8 * i) block))) [0..<16];
          v = take 8 (b2_h S) @ take 4 blake2b_IV
              @ [blake2b_IV ! 4 XOR b2_t0 S, blake2b_IV ! 5 XOR b2_t1 S, blake2b_IV ! 6 XOR b2_f0 S,
                 blake2b_IV ! 7 XOR b2_f1 S];
          v = fold (blake2b_ROUND m) [0..<12] v
      in S\<lparr> b2_h := map (\<lambda>i. b2_h S ! i XOR v ! i XOR v ! (i + 8)) [0..<8] \<rparr>)"

section \<open>Update and final\<close>

text \<open>The loop over the whole blocks of the input; at least one byte stays.\<close>

function b2_blocks :: "blake2b_state \<Rightarrow> bytes \<Rightarrow> blake2b_state \<times> bytes" where
  "b2_blocks S input =
     (if 128 < length input then
        b2_blocks (blake2b_compress (blake2b_increment_counter S 128) (take 128 input)) (drop 128 input)
      else (S, input))"
  by pat_completeness auto
termination
  by (relation "measure (\<lambda>(S, input). length input)") auto

declare b2_blocks.simps [simp del]

definition b2_fill :: "blake2b_state \<Rightarrow> bytes \<Rightarrow> blake2b_state \<times> bytes" where
  "b2_fill S input =
     (let left = b2_buflen S;
          fill = 128 - left
      in if fill < length input then
           let S = S\<lparr> b2_buflen := 0 \<rparr>;
               S = S\<lparr> b2_buf := memcpy_at (b2_buf S) left (take fill input) \<rparr>;
               S = blake2b_increment_counter S 128;
               S = blake2b_compress S (b2_buf S)
           in b2_blocks S (drop fill input)
         else (S, input))"

text \<open>\<open>buflen\<close> above 128, for which \<open>fill\<close> wraps, is undefined.\<close>

definition blake2b_update :: "blake2b_state \<Rightarrow> bytes \<Rightarrow> blake2b_state option" where
  "blake2b_update S input =
     (if input = [] then Some S
      else if 128 < b2_buflen S then None
      else let (S, input) = b2_fill S input;
               S = S\<lparr> b2_buf := memcpy_at (b2_buf S) (b2_buflen S) input \<rparr>
        in Some (S\<lparr> b2_buflen := b2_buflen S + length input \<rparr>))"

text \<open>The output buffer and its length; \<open>None\<close> is the result -1.\<close>

definition blake2b_final :: "blake2b_state \<Rightarrow> bytes \<Rightarrow> nat \<Rightarrow> (blake2b_state \<times> bytes) option" where
  "blake2b_final S out outlen =
     (if outlen < b2_outlen S then None
      else if blake2b_is_lastblock S then None
      else let S = blake2b_increment_counter S (of_nat (b2_buflen S));
               S = blake2b_set_lastblock S;
               S = S\<lparr> b2_buf := memcpy_at (b2_buf S) (b2_buflen S) (replicate (128 - b2_buflen S) 0) \<rparr>;
               S = blake2b_compress S (b2_buf S);
               buffer = bytes_of_words (b2_h S)
        in Some (S, memcpy_at out 0 (take (b2_outlen S) buffer)))"

text \<open>\<open>blake2b_update\<close> after the initialisation cannot fail, so its result is used as it is.\<close>

definition blake2b_init_key :: "nat \<Rightarrow> bytes option \<Rightarrow> nat \<Rightarrow> blake2b_state option" where
  "blake2b_init_key outlen key keylen =
     (if outlen = 0 \<or> 64 < outlen then None
      else case key of
        None \<Rightarrow> None
      | Some k \<Rightarrow>
        if keylen = 0 \<or> 64 < keylen then None
        else blake2b_update (blake2b_init_param (sequential_param outlen keylen))
               (memcpy_at (replicate 128 0) 0 (take keylen k)))"

text \<open>Pointers that may be \<open>NULL\<close> are options. The result is -1 or 0 and the output buffer.\<close>

definition blake2b :: "bytes option \<Rightarrow> nat \<Rightarrow> bytes option \<Rightarrow> nat \<Rightarrow> bytes option \<Rightarrow> nat \<Rightarrow> (int \<times> bytes option) option" where
  "blake2b out outlen input inlen key keylen =
     (if input = None \<and> 0 < inlen then Some (- 1, out)
      else case out of
        None \<Rightarrow> Some (- 1, None)
      | Some buf \<Rightarrow>
        if key = None \<and> 0 < keylen then Some (- 1, out)
        else if outlen = 0 \<or> 64 < outlen then Some (- 1, out)
        else if 64 < keylen then Some (- 1, out)
        else case (if 0 < keylen then blake2b_init_key outlen key keylen else blake2b_init outlen) of
          None \<Rightarrow> Some (- 1, out)
        | Some S \<Rightarrow> do {
            S \<leftarrow> blake2b_update S (take inlen (case input of None \<Rightarrow> [] | Some bs \<Rightarrow> bs));
            Some (0, (case blake2b_final S buf outlen of None \<Rightarrow> Some buf | Some (S, buf) \<Rightarrow> Some buf))
          })"

text \<open>The alias of \<open>blake2.h\<close> that the cache of Ubqhash calls; \<open>ret\<close> is what it overwrites.\<close>

definition BLAKE2B_512 :: "bytes \<Rightarrow> bytes \<Rightarrow> bytes option" where
  "BLAKE2B_512 ret data =
     Option.bind (blake2b (Some ret) 64 (Some data) (length data) None 0) snd"

section \<open>Specification\<close>

text \<open>
  The compression function of RFC 7693: the state, a block, the number of bytes up to the end of the
  block and the final flag.
\<close>

definition rfc_F :: "u64 list \<Rightarrow> bytes \<Rightarrow> nat \<Rightarrow> bool \<Rightarrow> u64 list" where
  "rfc_F h block t final =
     (let m = words_of_bytes block;
          v = h @ take 4 blake2b_IV
              @ [blake2b_IV ! 4 XOR of_nat t, blake2b_IV ! 5 XOR of_nat (t div 2 ^ 64),
                 (if final then NOT (blake2b_IV ! 6) else blake2b_IV ! 6), blake2b_IV ! 7];
          v = fold (blake2b_ROUND m) [0..<12] v
      in map (\<lambda>i. h ! i XOR v ! i XOR v ! (i + 8)) [0..<8])"

text \<open>The state after \<open>n\<close> blocks of the bytes \<open>b\<close>, and the hash of them; the last block is padded with zeros.\<close>

primrec rfc_chain :: "u64 list \<Rightarrow> bytes \<Rightarrow> nat \<Rightarrow> u64 list" where
  "rfc_chain h0 b 0 = h0"
| "rfc_chain h0 b (Suc n) = rfc_F (rfc_chain h0 b n) (take 128 (drop (128 * n) b)) (128 * Suc n) False"

definition rfc_init :: "nat \<Rightarrow> nat \<Rightarrow> u64 list" where
  "rfc_init outlen keylen = blake2b_IV[0 := hd blake2b_IV XOR of_nat (0x01010000 + 2 ^ 8 * keylen + outlen)]"

definition key_block :: "bytes \<Rightarrow> bytes" where
  "key_block key = (if key = [] then [] else key @ replicate (128 - length key) 0)"

definition rfc_blake2b :: "nat \<Rightarrow> bytes \<Rightarrow> bytes \<Rightarrow> bytes" where
  "rfc_blake2b outlen key msg =
     (let b = key_block key @ msg;
          n = (length b - 1) div 128;
          final = drop (128 * n) b @ replicate (128 - (length b - 128 * n)) 0
      in take outlen (bytes_of_words
           (rfc_F (rfc_chain (rfc_init outlen (length key)) b n) final (length b) True)))"

section \<open>The state while it absorbs\<close>

definition counter_is :: "blake2b_state \<Rightarrow> nat \<Rightarrow> bool" where
  "counter_is S n \<longleftrightarrow> b2_t0 S = of_nat n \<and> b2_t1 S = of_nat (n div 2 ^ 64)"

lemma increment_counter:
  assumes "counter_is S n" and "inc < 2 ^ 64"
  shows "counter_is (blake2b_increment_counter S (of_nat inc)) (n + inc)"
proof -
  have u: "unat (of_nat n + of_nat inc :: u64) = (n mod 2 ^ 64 + inc) mod 2 ^ 64"
    by (simp add: unat_word_ariths unat_of_nat mod_simps)
  have i: "unat (of_nat inc :: u64) = inc" using assms(2) by (simp add: unat_of_nat)
  have "n mod 2 ^ 64 < 2 ^ 64" by simp
  then have "(n mod 2 ^ 64 + inc) mod 2 ^ 64 < inc \<longleftrightarrow> 2 ^ 64 \<le> n mod 2 ^ 64 + inc"
    using assms(2) by (cases "n mod 2 ^ 64 + inc < 2 ^ 64") (auto simp: not_less le_mod_geq)
  then have carry: "(of_nat n + of_nat inc :: u64) < of_nat inc \<longleftrightarrow> 2 ^ 64 \<le> n mod 2 ^ 64 + inc"
    by (simp only: word_less_nat_alt u i)
  have "(n + inc) div 2 ^ 64 = n div 2 ^ 64 + (n mod 2 ^ 64 + inc) div 2 ^ 64"
    using assms(2) by (simp add: div_add1_eq [of n inc])
  also have "(n mod 2 ^ 64 + inc) div 2 ^ 64 = (if 2 ^ 64 \<le> n mod 2 ^ 64 + inc then 1 else 0)"
    using assms(2) \<open>n mod 2 ^ 64 < 2 ^ 64\<close> by (auto intro!: div_nat_eqI)
  finally show ?thesis
    using assms(1) carry by (simp add: counter_is_def blake2b_increment_counter_def del: of_nat_add)
      (simp add: ac_simps)
qed

text \<open>The state that has compressed \<open>n\<close> blocks of the bytes \<open>b\<close>, and the one that has absorbed all of \<open>b\<close>.\<close>

definition blocks_done :: "u64 list \<Rightarrow> nat \<Rightarrow> bytes \<Rightarrow> nat \<Rightarrow> blake2b_state \<Rightarrow> bool" where
  "blocks_done h0 ol b n S \<longleftrightarrow>
     b2_h S = rfc_chain h0 b n \<and> counter_is S (128 * n) \<and> b2_f0 S = 0 \<and> b2_f1 S = 0 \<and> length (b2_buf S) = 128
     \<and> b2_outlen S = ol \<and> b2_last_node S = 0"

definition absorbed2 :: "u64 list \<Rightarrow> nat \<Rightarrow> bytes \<Rightarrow> blake2b_state \<Rightarrow> bool" where
  "absorbed2 h0 ol b S \<longleftrightarrow>
     (let n = (length b - 1) div 128 in
        blocks_done h0 ol b n S \<and> b2_buflen S = length b - 128 * n \<and> take (b2_buflen S) (b2_buf S) = drop (128 * n) b)"

lemma words_of_block:
  "length block = 128 \<Longrightarrow> (words_of_bytes block :: u64 list) = map (\<lambda>i. word_of_bytes (take 8 (drop (8 * i) block))) [0..<16]"
  by (rule nth_equalityI) (simp_all add: nth_words_of_bytes)

lemma length_rfc_F [simp]: "length (rfc_F h block t final) = 8"
  by (simp add: rfc_F_def Let_def)

lemma length_rfc_chain [simp]: "length h0 = 8 \<Longrightarrow> length (rfc_chain h0 b n) = 8"
  by (cases n) auto

lemma rfc_chain_append: "128 * n \<le> length b \<Longrightarrow> rfc_chain h0 (b @ x) n = rfc_chain h0 b n"
  by (induction n) auto

lemma compress_eq_F:
  assumes "length (b2_h S) = 8" and "length block = 128" and "counter_is S t" and "b2_f1 S = 0"
    and "b2_f0 S = (if final then - 1 else 0)"
  shows "b2_h (blake2b_compress S block) = rfc_F (b2_h S) block t final"
proof -
  have "blake2b_IV ! 6 XOR b2_f0 S = (if final then NOT (blake2b_IV ! 6) else blake2b_IV ! 6)"
    using assms(5) by simp
  then show ?thesis
    using assms unfolding blake2b_compress_def rfc_F_def Let_def
    by (simp only: words_of_block counter_is_def xor.right_neutral) simp
qed

lemma compress_done:
  assumes "length h0 = 8" and "blocks_done h0 ol b n S" and "128 * n + 128 \<le> length b"
    and "block = take 128 (drop (128 * n) b)"
  shows "blocks_done h0 ol b (Suc n) (blake2b_compress (blake2b_increment_counter S 128) block)"
proof -
  let ?S = "blake2b_increment_counter S 128"
  have cnt: "counter_is ?S (128 * Suc n)"
    using increment_counter [of S "128 * n" 128] assms(2) by (simp add: blocks_done_def add.commute)
  have same: "b2_h ?S = b2_h S" "b2_f0 ?S = b2_f0 S" "b2_f1 ?S = b2_f1 S" "b2_buf ?S = b2_buf S"
    "b2_outlen ?S = b2_outlen S" "b2_last_node ?S = b2_last_node S"
    by (simp_all add: blake2b_increment_counter_def)
  have "b2_h (blake2b_compress ?S block) = rfc_chain h0 b (Suc n)"
    using compress_eq_F [of ?S block "128 * Suc n" False] cnt same assms by (simp add: blocks_done_def)
  moreover have "counter_is (blake2b_compress ?S block) (128 * Suc n)"
    using cnt by (simp add: counter_is_def blake2b_compress_def Let_def)
  ultimately show ?thesis
    using assms(2) same by (simp add: blocks_done_def blake2b_compress_def Let_def)
qed

lemma blocks_done_append:
  "128 * n \<le> length b \<Longrightarrow> blocks_done h0 ol (b @ x) n S = blocks_done h0 ol b n S"
  by (simp add: blocks_done_def rfc_chain_append)

lemma last_block_index: "128 * n < m \<Longrightarrow> m \<le> 128 * n + 128 \<Longrightarrow> (m - 1) div 128 = (n :: nat)"
  by (rule div_nat_eqI) auto

text \<open>The loop compresses all but the last block, which may be full.\<close>

lemma b2_blocks_done:
  assumes "length h0 = 8" and "blocks_done h0 ol b n S" and "drop (128 * n) b = input" and "input \<noteq> []"
  shows "\<exists>S' rest. b2_blocks S input = (S', rest) \<and> blocks_done h0 ol b ((length b - 1) div 128) S'
     \<and> rest = drop (128 * ((length b - 1) div 128)) b \<and> b2_buf S' = b2_buf S \<and> b2_buflen S' = b2_buflen S"
  using assms(2-)
proof (induction "length input" arbitrary: n S input rule: less_induct)
  case less
  have len: "length b = 128 * n + length input"
  proof -
    have "length b - 128 * n = length input" "0 < length input" using less.prems by auto
    then show ?thesis by linarith
  qed
  show ?case
  proof (cases "128 < length input")
    case True
    let ?S = "blake2b_compress (blake2b_increment_counter S 128) (take 128 input)"
    have "blocks_done h0 ol b (Suc n) ?S"
      using True len less.prems by (intro compress_done [OF assms(1)]) auto
    moreover have "drop (128 * Suc n) b = drop 128 input"
      using less.prems(2) by (simp add: drop_drop [symmetric] add.commute)
    moreover have "b2_buf ?S = b2_buf S" "b2_buflen ?S = b2_buflen S"
      by (simp_all add: blake2b_compress_def blake2b_increment_counter_def Let_def)
    ultimately show ?thesis
      using less.hyps [of "drop 128 input" "Suc n" ?S] True by (subst b2_blocks.simps) auto
  next
    case False
    have "0 < length input" using less.prems by simp
    then have "(length b - 1) div 128 = n" using False len by (intro last_block_index) linarith+
    with False less.prems show ?thesis by (simp add: b2_blocks.simps)
  qed
qed

lemma absorbed2D:
  assumes "absorbed2 h0 ol b S" and "n = (length b - 1) div 128"
  shows "blocks_done h0 ol b n S" and "b2_buflen S = length b - 128 * n"
    and "take (length b - 128 * n) (b2_buf S) = drop (128 * n) b" and "length (b2_buf S) = 128"
  using assms(1) unfolding absorbed2_def Let_def assms(2) [symmetric] by (auto simp: blocks_done_def)

lemma absorbed2I:
  assumes "n = (length b - 1) div 128" and "blocks_done h0 ol b n S" and "b2_buflen S = length b - 128 * n"
    and "take (length b - 128 * n) (b2_buf S) = drop (128 * n) b"
  shows "absorbed2 h0 ol b S"
  using assms unfolding absorbed2_def by simp

lemma b2_fill_done:
  assumes h0: "length h0 = 8" and abs: "absorbed2 h0 ol b S" and x: "x \<noteq> []" and over: "128 - b2_buflen S < length x"
  shows "\<exists>S' rest. b2_fill S x = (S', rest) \<and> blocks_done h0 ol (b @ x) ((length (b @ x) - 1) div 128) S'
     \<and> rest = drop (128 * ((length (b @ x) - 1) div 128)) (b @ x) \<and> b2_buflen S' = 0"
proof -
  define n where "n = (length b - 1) div 128"
  define fill where "fill = 128 - (length b - 128 * n)"
  have n: "128 * n \<le> length b" "length b \<le> 128 * n + 128" unfolding n_def by linarith+
  have dn: "blocks_done h0 ol b n S" and len: "b2_buflen S = length b - 128 * n"
    and buf: "take (length b - 128 * n) (b2_buf S) = drop (128 * n) b" and lbuf: "length (b2_buf S) = 128"
    using absorbed2D [OF abs n_def] by simp_all
  have fill: "fill < length x" "length b + fill = 128 * n + 128" using over n by (auto simp: len fill_def)
  define buf' where "buf' = memcpy_at (b2_buf S) (length b - 128 * n) (take fill x)"
  have buf': "buf' = take 128 (drop (128 * n) (b @ x))"
  proof -
    have "128 - (length b - 128 * n) = fill" "128 + 128 * n - length b = fill" using fill n by linarith+
    with n fill lbuf show ?thesis by (simp add: buf'_def memcpy_at_def buf)
  qed
  define S1 where "S1 = S\<lparr> b2_buflen := 0, b2_buf := buf' \<rparr>"
  have "blocks_done h0 ol (b @ x) n S1"
    using dn n lbuf fill by (simp add: blocks_done_append) (simp add: S1_def blocks_done_def counter_is_def buf')
  then have S2: "blocks_done h0 ol (b @ x) (Suc n) (blake2b_compress (blake2b_increment_counter S1 128) buf')"
    using fill by (intro compress_done [OF h0]) (auto simp: buf')
  have rest: "drop (128 * Suc n) (b @ x) = drop fill x"
  proof -
    have "128 + 128 * n - length b = fill" using fill(2) by linarith
    with fill(2) n show ?thesis by simp
  qed
  have eq: "b2_fill S x = b2_blocks (blake2b_compress (blake2b_increment_counter S1 128) buf') (drop fill x)"
    using fill(1) by (simp add: b2_fill_def Let_def len fill_def [symmetric] buf'_def [symmetric] S1_def
        blake2b_increment_counter_def)
  have "drop fill x \<noteq> []" using fill by simp
  from b2_blocks_done [OF h0 S2 rest this] show ?thesis
    unfolding eq by (auto simp: S1_def blake2b_compress_def blake2b_increment_counter_def Let_def)
qed

lemma blake2b_update_absorbed:
  assumes h0: "length h0 = 8" and abs: "absorbed2 h0 ol b S"
  shows "\<exists>S'. blake2b_update S x = Some S' \<and> absorbed2 h0 ol (b @ x) S'"
proof (cases "x = []")
  case True
  with abs show ?thesis by (simp add: blake2b_update_def)
next
  case x: False
  define n where "n = (length b - 1) div 128"
  have n: "128 * n \<le> length b" "length b \<le> 128 * n + 128" unfolding n_def by linarith+
  have dn: "blocks_done h0 ol b n S" and len: "b2_buflen S = length b - 128 * n"
    and buf: "take (length b - 128 * n) (b2_buf S) = drop (128 * n) b" and lbuf: "length (b2_buf S) = 128"
    using absorbed2D [OF abs n_def] by simp_all
  define k where "k = (length (b @ x) - 1) div 128"
  have k: "128 * k \<le> length (b @ x)" "length (b @ x) \<le> 128 * k + 128" unfolding k_def by linarith+
  show ?thesis
  proof (cases "128 - b2_buflen S < length x")
    case True
    obtain S' where S': "b2_fill S x = (S', drop (128 * k) (b @ x))" "blocks_done h0 ol (b @ x) k S'" "b2_buflen S' = 0"
      using b2_fill_done [OF h0 abs x True] by (auto simp: k_def)
    then have lbuf': "length (b2_buf S') = 128" by (simp add: blocks_done_def)
    let ?rest = "drop (128 * k) (b @ x)"
    let ?S = "S'\<lparr> b2_buf := memcpy_at (b2_buf S') 0 ?rest, b2_buflen := length ?rest \<rparr>"
    have lr: "length ?rest = length (b @ x) - 128 * k" by (rule length_drop)
    have "length (memcpy_at (b2_buf S') 0 ?rest) = 128" using lbuf' k lr by (subst length_memcpy_at) simp_all
    then have "blocks_done h0 ol (b @ x) k ?S"
      using S'(2) by (simp add: blocks_done_def counter_is_def)
    moreover have "take (length ?rest) (memcpy_at (b2_buf S') 0 ?rest) = ?rest" by (simp add: memcpy_at_def)
    ultimately have "absorbed2 h0 ol (b @ x) ?S" by (intro absorbed2I [OF k_def]) (simp_all only: lr, simp_all)
    moreover have "blake2b_update S x = Some ?S"
      using x n len S' by (simp add: blake2b_update_def)
    ultimately show ?thesis by blast
  next
    case False
    have "length x > 0" using x by simp
    then have "k = n" unfolding k_def using False n len
      by (intro last_block_index; unfold length_append len) linarith+
    moreover have "blocks_done h0 ol (b @ x) n (S\<lparr> b2_buf := memcpy_at (b2_buf S) (b2_buflen S) x,
        b2_buflen := b2_buflen S + length x \<rparr>)"
      using dn n lbuf len False
      by (simp add: blocks_done_append) (simp add: blocks_done_def counter_is_def memcpy_at_def)
    moreover have "take (length b - 128 * n + length x) (memcpy_at (b2_buf S) (length b - 128 * n) x) = drop (128 * n) (b @ x)"
      using n len lbuf buf by (simp add: memcpy_at_def)
    ultimately have "absorbed2 h0 ol (b @ x) (S\<lparr> b2_buf := memcpy_at (b2_buf S) (b2_buflen S) x,
        b2_buflen := b2_buflen S + length x \<rparr>)"
      using n len by (intro absorbed2I [OF k_def]) simp_all
    moreover have "blake2b_update S x = Some (S\<lparr> b2_buf := memcpy_at (b2_buf S) (b2_buflen S) x,
        b2_buflen := b2_buflen S + length x \<rparr>)"
      using x n False len by (simp add: blake2b_update_def b2_fill_def)
    ultimately show ?thesis by blast
  qed
qed

lemma length_rfc_init [simp]: "length (rfc_init ol kl) = 8"
  by (simp add: rfc_init_def blake2b_IV_def)

lemma param_word0:
  assumes "ol \<le> 64" and "kl \<le> 64"
  shows "word_of_bytes [of_nat ol, of_nat kl, 1, 1, 0, 0, 0, 0] = (of_nat (0x01010000 + 2 ^ 8 * kl + ol) :: u64)"
proof -
  have "unat (of_nat ol :: u8) = ol" "unat (of_nat kl :: u8) = kl" using assms by (simp_all add: unat_of_nat)
  then have "le_nat [of_nat ol, of_nat kl, 1, 1, 0, 0, 0, 0] = 0x01010000 + 2 ^ 8 * kl + ol" by simp
  then show ?thesis unfolding word_of_bytes_def by (rule arg_cong)
qed

lemma zero_word_bytes: "bytes_of_word (0 :: u32) = replicate 4 0"
proof -
  have "le_bytes k 0 = replicate k 0" for k by (induction k) auto
  then show ?thesis by (simp add: bytes_of_word_def)
qed

lemma word_of_zero_bytes: "word_of_bytes (replicate k 0) = (0 :: u64)"
proof -
  have "le_nat (replicate k 0) = 0" by (induction k) auto
  then show ?thesis by (simp add: word_of_bytes_def)
qed

lemma param_words:
  assumes "i < 8" and "length A = 8"
  shows "word_of_bytes (take 8 (drop (8 * i) (A @ replicate 56 0))) = (if i = 0 then word_of_bytes A else 0 :: u64)"
  using assms by (cases i) (auto simp: word_of_zero_bytes)

lemma absorbed2_init:
  assumes "ol \<le> 64" and "kl \<le> 64"
  shows "absorbed2 (rfc_init ol kl) ol [] (blake2b_init_param (sequential_param ol kl))"
proof -
  have p: "param_bytes (sequential_param ol kl) = [of_nat ol, of_nat kl, 1, 1, 0, 0, 0, 0] @ replicate 56 0"
    by (simp add: param_bytes_def sequential_param_def zero_word_bytes numeral_eq_Suc)
  have "unat (of_nat ol :: u8) = ol" using assms by (simp add: unat_of_nat)
  moreover have "b2_h (blake2b_init_param (sequential_param ol kl)) = rfc_init ol kl"
  proof (rule nth_equalityI)
    fix i
    assume "i < length (b2_h (blake2b_init_param (sequential_param ol kl)))"
    then have i: "i < 8" by (simp add: blake2b_init_param_def Let_def)
    have hd: "hd blake2b_IV = blake2b_IV ! 0" and len: "length blake2b_IV = 8" by (simp_all add: blake2b_IV_def)
    have A: "length [of_nat ol, of_nat kl, 1, 1, 0, 0, 0, 0 :: u8] = 8" by simp
    have "b2_h (blake2b_init_param (sequential_param ol kl)) ! i
        = blake2b_IV ! i XOR word_of_bytes (take 8 (drop (8 * i) (param_bytes (sequential_param ol kl))))"
      using i by (simp add: blake2b_init_param_def Let_def blake2b_init0_def)
    also have "\<dots> = rfc_init ol kl ! i"
      unfolding p param_words [OF i A] param_word0 [OF assms] rfc_init_def hd
      using i len by (simp add: nth_list_update)
    finally show "b2_h (blake2b_init_param (sequential_param ol kl)) ! i = rfc_init ol kl ! i" .
  qed (simp add: blake2b_init_param_def Let_def)
  moreover have "digest_length (sequential_param ol kl) = of_nat ol" by (simp add: sequential_param_def)
  ultimately show ?thesis
    by (simp add: absorbed2_def blocks_done_def counter_is_def blake2b_init_param_def Let_def blake2b_init0_def)
qed

lemma blake2b_final_absorbed:
  assumes h0: "length h0 = 8" and abs: "absorbed2 h0 ol b S" and "ol \<le> outlen" and n: "n = (length b - 1) div 128"
  shows "\<exists>S'. blake2b_final S out outlen = Some (S', memcpy_at out 0 (take ol (bytes_of_words
           (rfc_F (rfc_chain h0 b n) (drop (128 * n) b @ replicate (128 - (length b - 128 * n)) 0) (length b) True))))
         \<and> blake2b_is_lastblock S'"
proof -
  have bl: "128 * n \<le> length b" "length b \<le> 128 * n + 128" unfolding n by linarith+
  let ?final = "drop (128 * n) b @ replicate (128 - (length b - 128 * n)) 0"
  define S1 where "S1 = (blake2b_set_lastblock (blake2b_increment_counter S (of_nat (b2_buflen S))))\<lparr> b2_buf := ?final \<rparr>"
  have pad: "memcpy_at (b2_buf S) (b2_buflen S) (replicate (128 - b2_buflen S) 0) = ?final"
    using absorbed2D [OF abs n] bl by (simp add: memcpy_at_def)
  have h: "b2_h S = rfc_chain h0 b n" and ls: "b2_last_node S = 0" "b2_f0 S = 0" "b2_f1 S = 0" "b2_outlen S = ol"
    and cnt: "counter_is S (128 * n)"
    using absorbed2D(1) [OF abs n] by (simp_all add: blocks_done_def)
  have "b2_buflen S < 2 ^ 64" using absorbed2D(2) [OF abs n] bl by simp
  from increment_counter [OF cnt this] have "counter_is S1 (length b)"
    using absorbed2D(2) [OF abs n] bl
    by (simp add: S1_def counter_is_def blake2b_set_lastblock_def Let_def blake2b_set_lastnode_def)
  then have F: "b2_h (blake2b_compress S1 ?final) = rfc_F (rfc_chain h0 b n) ?final (length b) True"
    using compress_eq_F [of S1 ?final "length b" True] bl h h0 ls
    by (simp add: S1_def blake2b_set_lastblock_def Let_def blake2b_increment_counter_def)
  have "blake2b_final S out outlen
      = Some (blake2b_compress S1 ?final, memcpy_at out 0 (take ol (bytes_of_words (b2_h (blake2b_compress S1 ?final)))))"
    using ls assms(3) pad
    by (simp add: blake2b_final_def blake2b_is_lastblock_def Let_def S1_def blake2b_set_lastblock_def
        blake2b_increment_counter_def blake2b_compress_def)
  moreover have "blake2b_is_lastblock (blake2b_compress S1 ?final)"
    by (simp add: blake2b_is_lastblock_def blake2b_compress_def S1_def blake2b_set_lastblock_def Let_def)
  ultimately show ?thesis by (simp add: F)
qed

lemma blake2b_final_rfc:
  assumes "absorbed2 (rfc_init ol (length key)) ol (key_block key @ msg) S" and "ol \<le> space"
  shows "\<exists>S'. blake2b_final S out space = Some (S', memcpy_at out 0 (rfc_blake2b ol key msg))
         \<and> blake2b_final S' out space = None"
proof -
  obtain S' where S': "blake2b_final S out space = Some (S', memcpy_at out 0 (rfc_blake2b ol key msg))" "blake2b_is_lastblock S'"
    using blake2b_final_absorbed [OF length_rfc_init assms refl, of out] unfolding rfc_blake2b_def Let_def by blast
  from S'(2) have "blake2b_final S' out space = None" by (simp add: blake2b_final_def)
  with S'(1) show ?thesis by blast
qed

text \<open>The initialised state, keyed or not.\<close>

definition start_state :: "nat \<Rightarrow> bytes \<Rightarrow> blake2b_state option" where
  "start_state outlen key =
     (if key = [] then blake2b_init outlen else blake2b_init_key outlen (Some key) (length key))"

lemma start_state_absorbed:
  assumes "0 < outlen" and "outlen \<le> 64" and "length key \<le> 64"
  shows "\<exists>S. start_state outlen key = Some S \<and> absorbed2 (rfc_init outlen (length key)) outlen
           (key_block key) S"
proof (cases "key = []")
  case True
  with assms absorbed2_init [of outlen 0] show ?thesis by (simp add: start_state_def blake2b_init_def key_block_def)
next
  case False
  have "memcpy_at (replicate 128 0) 0 key = key @ replicate (128 - length key) 0"
    by (simp add: memcpy_at_def)
  with False have "memcpy_at (replicate 128 0) 0 key = [] @ key_block key" by (simp add: key_block_def)
  then show ?thesis
    using False assms blake2b_update_absorbed [OF length_rfc_init absorbed2_init [OF assms(2,3)]]
    by (simp add: start_state_def blake2b_init_key_def)
qed

lemma updates_absorbed2:
  assumes "length h0 = 8" and "absorbed2 h0 ol b S"
  shows "\<exists>S'. for_each pieces (\<lambda>p S. blake2b_update S p) S = Some S' \<and> absorbed2 h0 ol (b @ concat pieces) S'"
  using assms(2)
proof (induction pieces arbitrary: b S)
  case (Cons p pieces)
  obtain S1 where "blake2b_update S p = Some S1" "absorbed2 h0 ol (b @ p) S1"
    using blake2b_update_absorbed [OF assms(1) Cons.prems] by blast
  with Cons.IH show ?case by fastforce
qed simp

section \<open>Properties\<close>

text \<open>
  Property C26: the streaming BLAKE2b. For every output length from 1 to 64, every key of at most 64
  bytes and every cut of a message into pieces, initialising, updating with the pieces and
  finalising succeeds, and the first bytes of the output buffer are the hash of RFC 7693 of the key
  and the whole message; a finalised state refuses to be finalised again.
\<close>

theorem blake2b_streaming:
  assumes "0 < outlen" and "outlen \<le> 64" and "length key \<le> 64" and "outlen \<le> space"
  shows "\<exists>S0 S S'. start_state outlen key = Some S0
    \<and> for_each pieces (\<lambda>p S. blake2b_update S p) S0 = Some S
    \<and> blake2b_final S out space = Some (S', memcpy_at out 0 (rfc_blake2b outlen key (concat pieces)))
    \<and> blake2b_final S' out space = None"
proof -
  obtain S0 where S0: "start_state outlen key = Some S0" "absorbed2 (rfc_init outlen (length key)) outlen
      (key_block key) S0"
    using start_state_absorbed [OF assms(1-3)] by blast
  obtain S where S: "for_each pieces (\<lambda>p S. blake2b_update S p) S0 = Some S"
    "absorbed2 (rfc_init outlen (length key)) outlen
      (key_block key @ concat pieces) S"
    using updates_absorbed2 [OF length_rfc_init S0(2)] by blast
  show ?thesis
    using S0(1) S(1) blake2b_final_rfc [OF S(2) assms(4), of out] by blast
qed

theorem blake2b_streaming_witness:
  "\<exists>S. for_each [[1, 2], [], [3]] (\<lambda>p S. blake2b_update S p) (the (start_state 32 [9])) = Some S"
  using blake2b_streaming [of 32 "[9]" 64 "[[1, 2], [], [3]]" "replicate 64 0"] by auto

text \<open>
  The one-shot \<open>blake2b\<close> and its error codes. It returns -1 and leaves the output
  alone exactly when the output is \<open>NULL\<close>, the input or the key is \<open>NULL\<close> with a length above
  zero, the output length is not between 1 and 64 or the key is longer than 64 bytes; else it
  returns 0 and writes the hash of RFC 7693.
\<close>

theorem blake2b_result:
  assumes "\<And>bs. input = Some bs \<Longrightarrow> inlen \<le> length bs" and "\<And>bs. key = Some bs \<Longrightarrow> keylen \<le> length bs"
  shows "blake2b out outlen input inlen key keylen =
    (if out = None \<or> (input = None \<and> 0 < inlen) \<or> (key = None \<and> 0 < keylen) \<or> outlen = 0 \<or> 64 < outlen \<or> 64 < keylen
     then Some (- 1, out)
     else Some (0, Some (memcpy_at (the out) 0
            (rfc_blake2b outlen (take keylen (case_option [] id key)) (take inlen (case_option [] id input))))))"
proof (cases "out = None \<or> (input = None \<and> 0 < inlen) \<or> (key = None \<and> 0 < keylen) \<or> outlen = 0 \<or> 64 < outlen \<or> 64 < keylen")
  case True
  then show ?thesis by (auto simp: blake2b_def split: option.splits)
next
  case False
  then obtain buf where out: "out = Some buf" by auto
  let ?key = "take keylen (case_option [] id key)" and ?in = "take inlen (case_option [] id input)"
  have lk: "length ?key = keylen" using False assms(2) by (cases key) auto
  have init: "(if 0 < keylen then blake2b_init_key outlen key keylen else blake2b_init outlen) = start_state outlen ?key"
  proof (cases "keylen = 0")
    case True
    with lk show ?thesis by (simp add: start_state_def)
  next
    case nz: False
    then obtain k where "key = Some k" using False by (cases key) auto
    with nz lk show ?thesis
      by (auto simp: start_state_def blake2b_init_key_def simp del: length_take split: if_splits)
  qed
  obtain S0 where S0: "start_state outlen ?key = Some S0" "absorbed2 (rfc_init outlen (length ?key)) outlen
      (key_block ?key) S0"
    using start_state_absorbed [of outlen ?key] False lk by auto
  obtain S where S: "blake2b_update S0 ?in = Some S"
    "absorbed2 (rfc_init outlen (length ?key)) outlen
      (key_block ?key @ ?in) S"
    using blake2b_update_absorbed [OF length_rfc_init S0(2)] by blast
  have "\<exists>S'. blake2b_final S buf outlen = Some (S', memcpy_at buf 0 (rfc_blake2b outlen ?key ?in))"
    using blake2b_final_rfc [OF S(2) order_refl, of buf] by blast
  moreover have "(case input of None \<Rightarrow> [] | Some bs \<Rightarrow> bs) = case_option [] id input" by (cases input) auto
  ultimately show ?thesis
    using False S0(1) S(1) unfolding blake2b_def init out by auto
qed

theorem blake2b_result_witness:
  "blake2b None 64 None 0 None 0 = Some (- 1, None)
   \<and> blake2b (Some (replicate 64 0)) 64 (Some [1, 2, 3]) 2 None 0
     = Some (0, Some (memcpy_at (replicate 64 0) 0 (rfc_blake2b 64 [] [1, 2])))"
  using blake2b_result [of None 0 None 0 None 64]
    blake2b_result [of "Some [1, 2, 3]" 2 None 0 "Some (replicate 64 0)" 64] by simp

lemma length_rfc_blake2b [simp]: "ol \<le> 64 \<Longrightarrow> length (rfc_blake2b ol key msg) = ol"
  by (simp add: rfc_blake2b_def Let_def len_simps)

lemma BLAKE2B_512_eq:
  assumes "length ret = 64"
  shows "BLAKE2B_512 ret data = Some (rfc_blake2b 64 [] data)"
proof -
  have "\<exists>S. start_state 64 [] = Some S \<and> absorbed2 (rfc_init 64 0) 64 [] S"
    using start_state_absorbed [of 64 "[]"] by (simp add: key_block_def)
  then obtain S0 where S0: "blake2b_init 64 = Some S0" "absorbed2 (rfc_init 64 0) 64 [] S0"
    by (auto simp: start_state_def)
  obtain S where S: "blake2b_update S0 data = Some S" "absorbed2 (rfc_init 64 0) 64 ([] @ data) S"
    using blake2b_update_absorbed [OF length_rfc_init S0(2)] by blast
  obtain S' where "blake2b_final S ret 64 = Some (S', memcpy_at ret 0 (rfc_blake2b 64 [] data))"
    using blake2b_final_rfc [of 64 "[]" data S 64 ret] S(2) by (auto simp: key_block_def)
  with S0(1) S(1) assms show ?thesis
    by (simp add: BLAKE2B_512_def blake2b_def memcpy_at_def)
qed

text \<open>What the cache of Ubqhash hashes with; what the output held before does not matter.\<close>

definition blake2b_512 :: "bytes \<Rightarrow> bytes" where
  "blake2b_512 msg = the (BLAKE2B_512 (replicate 64 0) msg)"

lemma blake2b_512_rfc: "blake2b_512 msg = rfc_blake2b 64 [] msg"
  by (simp add: blake2b_512_def BLAKE2B_512_eq)

lemma length_blake2b_512 [simp]: "length (blake2b_512 m) = 64"
  by (simp add: blake2b_512_rfc)

end
