(* ===== verification/Blake3.thy ===== *)
theory Blake3
  imports Prelude
begin

text \<open>
  The BLAKE3 hasher of \<open>libethhashb3/internal.c\<close>: the compression function, the chunk state, the
  stack of subtree chaining values and the finalisation. The specification is the tree of the
  BLAKE3 paper: a message is cut into chunks of 1024 bytes and the left subtree of a node takes the
  largest power of two of chunks that leaves the right one non-empty. The theorems: however the
  message is split over calls of \<open>blake3_hasher_update\<close>, the hasher computes the tree's root, and no
  counter or stack leaves its range.
\<close>

section \<open>The compression function\<close>

definition IV :: "u32 list" where
  "IV = [0x6A09E667, 0xBB67AE85, 0x3C6EF372, 0xA54FF53A, 0x510E527F, 0x9B05688C, 0x1F83D9AB, 0x5BE0CD19]"

definition MSG_PERMUTATION :: "nat list" where
  "MSG_PERMUTATION = [2, 6, 3, 10, 7, 0, 4, 13, 1, 11, 12, 5, 9, 14, 15, 8]"

text \<open>The flags; \<open>1 << i\<close> binds tighter than the \<open>|\<close> of their uses.\<close>

definition CHUNK_START :: u32 where "CHUNK_START = 1"
definition CHUNK_END :: u32 where "CHUNK_END = 2"
definition PARENT :: u32 where "PARENT = 4"
definition ROOT :: u32 where "ROOT = 8"
definition KEYED_HASH :: u32 where "KEYED_HASH = 16"
definition DERIVE_KEY_CONTEXT :: u32 where "DERIVE_KEY_CONTEXT = 32"
definition DERIVE_KEY_MATERIAL :: u32 where "DERIVE_KEY_MATERIAL = 64"

definition BLAKE3_BLOCK_LEN :: nat where "BLAKE3_BLOCK_LEN = 64"
definition BLAKE3_CHUNK_LEN :: nat where "BLAKE3_CHUNK_LEN = 1024"

definition rotate_right :: "u32 \<Rightarrow> nat \<Rightarrow> u32" where
  "rotate_right x n = drop_bit n x OR push_bit (32 - n) x"

definition blake3_g :: "u32 list \<Rightarrow> nat \<Rightarrow> nat \<Rightarrow> nat \<Rightarrow> nat \<Rightarrow> u32 \<Rightarrow> u32 \<Rightarrow> u32 list" where
  "blake3_g state a b c d mx my =
     (let state = state[a := state ! a + state ! b + mx];
          state = state[d := rotate_right (state ! d XOR state ! a) 16];
          state = state[c := state ! c + state ! d];
          state = state[b := rotate_right (state ! b XOR state ! c) 12];
          state = state[a := state ! a + state ! b + my];
          state = state[d := rotate_right (state ! d XOR state ! a) 8];
          state = state[c := state ! c + state ! d];
          state = state[b := rotate_right (state ! b XOR state ! c) 7]
      in state)"

definition round_function :: "u32 list \<Rightarrow> u32 list \<Rightarrow> u32 list" where
  "round_function state m =
     (let state = blake3_g state 0 4 8 12 (m ! 0) (m ! 1);
          state = blake3_g state 1 5 9 13 (m ! 2) (m ! 3);
          state = blake3_g state 2 6 10 14 (m ! 4) (m ! 5);
          state = blake3_g state 3 7 11 15 (m ! 6) (m ! 7);
          state = blake3_g state 0 5 10 15 (m ! 8) (m ! 9);
          state = blake3_g state 1 6 11 12 (m ! 10) (m ! 11);
          state = blake3_g state 2 7 8 13 (m ! 12) (m ! 13);
          state = blake3_g state 3 4 9 14 (m ! 14) (m ! 15)
      in state)"

definition blake3_permute :: "u32 list \<Rightarrow> u32 list" where
  "blake3_permute m = map (\<lambda>i. m ! (MSG_PERMUTATION ! i)) [0..<16]"

text \<open>Seven rounds with six permutations between them, then the feed-forward, in place.\<close>

definition blake3_compress :: "u32 list \<Rightarrow> u32 list \<Rightarrow> u64 \<Rightarrow> u32 \<Rightarrow> u32 \<Rightarrow> u32 list" where
  "blake3_compress cv block_words counter block_len flags =
     (let state = take 8 cv @ take 4 IV @ [ucast counter, ucast (drop_bit 32 counter), block_len, flags];
          block = block_words;
          state = round_function state block;
          (state, block) = fold (\<lambda>_ (state, block). let block = blake3_permute block in (round_function state block, block))
            [2..<8] (state, block)
      in fold (\<lambda>i state. let state = state[i := state ! i XOR state ! (i + 8)]
                 in state[i + 8 := state ! (i + 8) XOR cv ! i]) [0..<8] state)"

text \<open>Four bytes are added up, shifted.\<close>

definition words_from_little_endian_bytes :: "bytes \<Rightarrow> u32 list" where
  "words_from_little_endian_bytes bs =
     map (\<lambda>i. ucast (bs ! (4 * i)) + push_bit 8 (ucast (bs ! (4 * i + 1)))
              + push_bit 16 (ucast (bs ! (4 * i + 2))) + push_bit 24 (ucast (bs ! (4 * i + 3))))
       [0..<length bs div 4]"

section \<open>Outputs\<close>

record b3_output =
  input_chaining_value :: "u32 list"
  block_words :: "u32 list"
  out_counter :: u64
  out_block_len :: u32
  out_flags :: u32

definition output_chaining_value :: "b3_output \<Rightarrow> u32 list" where
  "output_chaining_value self =
     take 8 (blake3_compress (input_chaining_value self) (block_words self) (out_counter self) (out_block_len self)
       (out_flags self))"

definition word_out :: "u32 \<Rightarrow> bytes" where
  "word_out w = map (\<lambda>b. ucast (drop_bit (8 * b) w)) [0..<4]"

function root_bytes_from :: "b3_output \<Rightarrow> u64 \<Rightarrow> nat \<Rightarrow> bytes" where
  "root_bytes_from self output_block_counter out_len =
     (if out_len = 0 then []
      else let words = blake3_compress (input_chaining_value self) (block_words self) output_block_counter
                 (out_block_len self) (out_flags self OR ROOT)
        in take out_len (concat (map word_out words))
           @ root_bytes_from self (output_block_counter + 1) (out_len - 64))"
  by pat_completeness auto
termination
  by (relation "measure (\<lambda>(self, c, n). n)") auto

declare root_bytes_from.simps [simp del]

definition output_root_bytes :: "b3_output \<Rightarrow> nat \<Rightarrow> bytes" where
  "output_root_bytes self out_len = root_bytes_from self 0 out_len"

section \<open>The chunk state\<close>

text \<open>
  \<open>block_len\<close> and \<open>blocks_compressed\<close> are \<open>uint8_t\<close>; the invariants below keep them within 64 and
  16, so they are numbers here.
\<close>

record chunk_state =
  chaining_value :: "u32 list"
  chunk_counter :: u64
  block :: bytes
  block_len :: nat
  blocks_compressed :: nat
  chunk_flags :: u32

definition chunk_state_init :: "u32 list \<Rightarrow> u64 \<Rightarrow> u32 \<Rightarrow> chunk_state" where
  "chunk_state_init key_words counter flags =
     \<lparr> chaining_value = key_words, chunk_counter = counter, block = replicate 64 0, block_len = 0,
       blocks_compressed = 0, chunk_flags = flags \<rparr>"

definition chunk_state_len :: "chunk_state \<Rightarrow> nat" where
  "chunk_state_len self = BLAKE3_BLOCK_LEN * blocks_compressed self + block_len self"

definition chunk_state_start_flag :: "chunk_state \<Rightarrow> u32" where
  "chunk_state_start_flag self = (if blocks_compressed self = 0 then CHUNK_START else 0)"

text \<open>A full block is compressed and cleared when more input comes.\<close>

definition compress_full_block :: "chunk_state \<Rightarrow> chunk_state" where
  "compress_full_block self =
     (if block_len self = BLAKE3_BLOCK_LEN then
        self\<lparr> chaining_value := take 8 (blake3_compress (chaining_value self) (words_from_little_endian_bytes (block self))
                (chunk_counter self) (of_nat BLAKE3_BLOCK_LEN) (chunk_flags self OR chunk_state_start_flag self)),
              blocks_compressed := blocks_compressed self + 1, block := replicate 64 0, block_len := 0 \<rparr>
      else self)"

text \<open>\<open>None\<close> is a block length above 64, for which \<open>want\<close> wraps.\<close>

function chunk_state_update :: "chunk_state \<Rightarrow> bytes \<Rightarrow> chunk_state option" where
  "chunk_state_update self input =
     (if input = [] then Some self
      else if BLAKE3_BLOCK_LEN < block_len self then None
      else let self = compress_full_block self;
               want = BLAKE3_BLOCK_LEN - block_len self;
               tk = (if length input < want then length input else want)
        in chunk_state_update
             (self\<lparr> block := memcpy_at (block self) (block_len self) (take tk input),
                    block_len := block_len self + tk \<rparr>) (drop tk input))"
  by pat_completeness auto
termination
  by (relation "measure (\<lambda>(self, input). length input)")
    (auto simp: compress_full_block_def BLAKE3_BLOCK_LEN_def)

declare chunk_state_update.simps [simp del]

definition chunk_state_output :: "chunk_state \<Rightarrow> b3_output" where
  "chunk_state_output self =
     \<lparr> input_chaining_value = chaining_value self,
       block_words = words_from_little_endian_bytes (block self),
       out_counter = chunk_counter self, out_block_len = of_nat (block_len self),
       out_flags = chunk_flags self OR chunk_state_start_flag self OR CHUNK_END \<rparr>"

definition parent_output :: "u32 list \<Rightarrow> u32 list \<Rightarrow> u32 list \<Rightarrow> u32 \<Rightarrow> b3_output" where
  "parent_output left_child_cv right_child_cv key_words flags =
     \<lparr> input_chaining_value = key_words, block_words = left_child_cv @ right_child_cv,
       out_counter = 0, out_block_len = of_nat BLAKE3_BLOCK_LEN, out_flags = PARENT OR flags \<rparr>"

definition parent_cv :: "u32 list \<Rightarrow> u32 list \<Rightarrow> u32 list \<Rightarrow> u32 \<Rightarrow> u32 list" where
  "parent_cv left_child_cv right_child_cv key_words flags =
     output_chaining_value (parent_output left_child_cv right_child_cv key_words flags)"

section \<open>The hasher\<close>

text \<open>\<open>cv_stack\<close> holds 54 chaining values of 8 words.\<close>

record blake3_hasher =
  chunk_st :: chunk_state
  key_words :: "u32 list"
  cv_stack :: "u32 list list"
  cv_stack_len :: nat
  hasher_flags :: u32

definition hasher_init_internal :: "u32 list list \<Rightarrow> u32 list \<Rightarrow> u32 \<Rightarrow> blake3_hasher" where
  "hasher_init_internal uninit key flags =
     \<lparr> chunk_st = chunk_state_init key 0 flags, key_words = key, cv_stack = uninit, cv_stack_len = 0,
       hasher_flags = flags \<rparr>"

definition blake3_hasher_init :: "u32 list list \<Rightarrow> blake3_hasher" where
  "blake3_hasher_init uninit = hasher_init_internal uninit IV 0"

definition blake3_hasher_init_keyed :: "u32 list list \<Rightarrow> bytes \<Rightarrow> blake3_hasher" where
  "blake3_hasher_init_keyed uninit key = hasher_init_internal uninit (words_from_little_endian_bytes key) KEYED_HASH"

definition hasher_push_stack :: "blake3_hasher \<Rightarrow> u32 list \<Rightarrow> blake3_hasher option" where
  "hasher_push_stack self cv =
     do {
       st \<leftarrow> wr (cv_stack self) (cv_stack_len self) cv;
       Some (self\<lparr> cv_stack := st, cv_stack_len := cv_stack_len self + 1 \<rparr>)
     }"

text \<open>The loop pops while the number of chunks is even; \<open>n\<close> is the height of the stack.\<close>

fun add_chunk_cv_from :: "nat \<Rightarrow> blake3_hasher \<Rightarrow> u32 list \<Rightarrow> u64 \<Rightarrow> blake3_hasher option" where
  "add_chunk_cv_from 0 self new_cv total_chunks =
     (if total_chunks AND 1 = 0 then None else hasher_push_stack (self\<lparr> cv_stack_len := 0 \<rparr>) new_cv)"
| "add_chunk_cv_from (Suc n) self new_cv total_chunks =
     (if total_chunks AND 1 = 0 then
        do {
          top \<leftarrow> rd (cv_stack self) n;
          add_chunk_cv_from n self (parent_cv top new_cv (key_words self) (hasher_flags self)) (drop_bit 1 total_chunks)
        }
      else hasher_push_stack (self\<lparr> cv_stack_len := Suc n \<rparr>) new_cv)"

definition hasher_add_chunk_cv :: "blake3_hasher \<Rightarrow> u32 list \<Rightarrow> u64 \<Rightarrow> blake3_hasher option" where
  "hasher_add_chunk_cv self new_cv total_chunks = add_chunk_cv_from (cv_stack_len self) self new_cv total_chunks"

text \<open>A full chunk is finalised when more input comes.\<close>

definition finish_full_chunk :: "blake3_hasher \<Rightarrow> blake3_hasher option" where
  "finish_full_chunk self =
     (if chunk_state_len (chunk_st self) = BLAKE3_CHUNK_LEN then
        let chunk_cv = output_chaining_value (chunk_state_output (chunk_st self));
            total_chunks = chunk_counter (chunk_st self) + 1
        in map_option (\<lambda>self. self\<lparr> chunk_st := chunk_state_init (key_words self) total_chunks (hasher_flags self) \<rparr>)
             (hasher_add_chunk_cv self chunk_cv total_chunks)
      else Some self)"

definition take_input :: "blake3_hasher \<Rightarrow> bytes \<Rightarrow> (blake3_hasher \<times> nat) option" where
  "take_input self input =
     do {
       self \<leftarrow> finish_full_chunk self;
       let want = BLAKE3_CHUNK_LEN - chunk_state_len (chunk_st self);
       let tk = (if length input < want then length input else want);
       if tk = 0 then None
       else do {
         st \<leftarrow> chunk_state_update (chunk_st self) (take tk input);
         Some (self\<lparr> chunk_st := st \<rparr>, tk)
       }
     }"

function blake3_hasher_update :: "blake3_hasher \<Rightarrow> bytes \<Rightarrow> blake3_hasher option" where
  "blake3_hasher_update self input =
     (if input = [] then Some self
      else case take_input self input of
        None \<Rightarrow> None
      | Some (self, tk) \<Rightarrow> blake3_hasher_update self (drop tk input))"
  by pat_completeness auto
termination
  by (relation "measure (\<lambda>(self, input). length input)")
    (auto simp: take_input_def Let_def split: bind_splits if_splits)

declare blake3_hasher_update.simps [simp del]

definition final_step :: "blake3_hasher \<Rightarrow> nat \<Rightarrow> b3_output \<Rightarrow> b3_output" where
  "final_step self i current_output =
     parent_output (cv_stack self ! i) (output_chaining_value current_output) (key_words self) (hasher_flags self)"

definition blake3_hasher_finalize :: "blake3_hasher \<Rightarrow> nat \<Rightarrow> bytes" where
  "blake3_hasher_finalize self out_len =
     output_root_bytes
       (fold (final_step self) (rev [0..<cv_stack_len self]) (chunk_state_output (chunk_st self))) out_len"

definition blake3_hash_256 :: "u32 list list \<Rightarrow> bytes \<Rightarrow> bytes option" where
  "blake3_hash_256 uninit input =
     map_option (\<lambda>hasher. blake3_hasher_finalize hasher 32)
       (blake3_hasher_update (blake3_hasher_init uninit) input)"

definition blake3_hash_512 :: "u32 list list \<Rightarrow> bytes \<Rightarrow> bytes option" where
  "blake3_hash_512 uninit input =
     map_option (\<lambda>hasher. blake3_hasher_finalize hasher 64)
       (blake3_hasher_update (blake3_hasher_init uninit) input)"

text \<open>
  \<open>blake3_hasher_init_derive_key\<close>: the context string is hashed into the key. Its arguments are the
  uninitialised stacks of the two hashers.
\<close>

definition blake3_hasher_init_derive_key :: "u32 list list \<Rightarrow> u32 list list \<Rightarrow> bytes \<Rightarrow> blake3_hasher option" where
  "blake3_hasher_init_derive_key uninit uninit' context_string =
     do {
       context_hasher \<leftarrow> blake3_hasher_update (hasher_init_internal uninit' IV DERIVE_KEY_CONTEXT) context_string;
       let context_key = blake3_hasher_finalize context_hasher 32;
       Some (hasher_init_internal uninit (words_from_little_endian_bytes context_key) DERIVE_KEY_MATERIAL)
     }"

section \<open>A chunk, whatever pieces it comes in\<close>

text \<open>The chaining value after \<open>n\<close> blocks of a chunk, and the state that has absorbed the bytes \<open>b\<close>.\<close>

primrec block_chain :: "u32 list \<Rightarrow> u64 \<Rightarrow> u32 \<Rightarrow> bytes \<Rightarrow> nat \<Rightarrow> u32 list" where
  "block_chain key ctr fl b 0 = key"
| "block_chain key ctr fl b (Suc n) =
     take 8 (blake3_compress (block_chain key ctr fl b n) (words_from_little_endian_bytes (take 64 (drop (64 * n) b)))
       ctr 64 (fl OR (if n = 0 then CHUNK_START else 0)))"

definition chunk_at :: "u32 list \<Rightarrow> u64 \<Rightarrow> u32 \<Rightarrow> bytes \<Rightarrow> nat \<Rightarrow> chunk_state" where
  "chunk_at key ctr fl b n =
     \<lparr> chaining_value = block_chain key ctr fl b n, chunk_counter = ctr,
       block = drop (64 * n) b @ replicate (64 - (length b - 64 * n)) 0, block_len = length b - 64 * n,
       blocks_compressed = n, chunk_flags = fl \<rparr>"

definition chunk_state_of :: "u32 list \<Rightarrow> u64 \<Rightarrow> u32 \<Rightarrow> bytes \<Rightarrow> chunk_state" where
  "chunk_state_of key ctr fl b = chunk_at key ctr fl b ((length b - 1) div 64)"

lemma chunk_state_of_nil: "chunk_state_of key ctr fl [] = chunk_state_init key ctr fl"
  by (simp add: chunk_state_of_def chunk_at_def chunk_state_init_def)

lemma block_chain_append:
  "64 * n \<le> length b \<Longrightarrow> block_chain key ctr fl (b @ x) n = block_chain key ctr fl b n"
  by (induction n) auto

lemma compress_full_block_at:
  assumes "64 * n \<le> length b"
  shows "compress_full_block (chunk_at key ctr fl b n)
         = chunk_at key ctr fl b (if length b = 64 * n + 64 then n + 1 else n)"
  using assms
  by (auto simp: compress_full_block_def chunk_at_def BLAKE3_BLOCK_LEN_def chunk_state_start_flag_def)

lemma fill_block_at:
  assumes "64 * n \<le> length b" and "length b + length x \<le> 64 * n + 64"
  shows "(chunk_at key ctr fl b n)\<lparr> block := memcpy_at (block (chunk_at key ctr fl b n)) (block_len (chunk_at key ctr fl b n)) x,
           block_len := block_len (chunk_at key ctr fl b n) + length x \<rparr> = chunk_at key ctr fl (b @ x) n"
  using assms by (auto simp: chunk_at_def block_chain_append memcpy_at_def)

lemma chunk_state_update_of:
  "chunk_state_update (chunk_state_of key ctr fl b) x = Some (chunk_state_of key ctr fl (b @ x))"
proof (induction "length x" arbitrary: b x rule: less_induct)
  case less
  show ?case
  proof (cases "x = []")
    case True
    then show ?thesis by (simp add: chunk_state_update.simps)
  next
    case False
    define j where "j = (length b - 1) div 64"
    define n where "n = (if length b = 64 * j + 64 then j + 1 else j)"
    define tk where "tk = (if length x < 64 - (length b - 64 * n) then length x else 64 - (length b - 64 * n))"
    have j: "64 * j \<le> length b" "length b \<le> 64 * j + 64" unfolding j_def by linarith+
    then have n: "64 * n \<le> length b" "length b < 64 * n + 64" by (auto simp: n_def)
    have tk: "0 < tk" "tk \<le> length x" "length b + tk \<le> 64 * n + 64"
      using n False by (auto simp: tk_def)
    have idx: "(length (b @ take tk x) - 1) div 64 = n"
      using n tk by (intro div_nat_eqI) auto
    have full: "compress_full_block (chunk_at key ctr fl b j) = chunk_at key ctr fl b n"
      using compress_full_block_at [OF j(1), of key ctr fl] by (simp add: n_def)
    have len: "block_len (chunk_at key ctr fl b n) = length b - 64 * n" by (simp add: chunk_at_def)
    have fill: "(chunk_at key ctr fl b n)\<lparr> block := memcpy_at (block (chunk_at key ctr fl b n)) (length b - 64 * n) (take tk x),
           block_len := length b - 64 * n + tk \<rparr> = chunk_state_of key ctr fl (b @ take tk x)"
      using fill_block_at [OF n(1), of "take tk x" key ctr fl] tk idx
      by (simp add: chunk_state_of_def len min_absorb2)
    have small: "\<not> BLAKE3_BLOCK_LEN < block_len (chunk_at key ctr fl b j)"
      using j by (simp add: chunk_at_def BLAKE3_BLOCK_LEN_def)
    have "chunk_state_update (chunk_state_of key ctr fl b) x = chunk_state_update (chunk_at key ctr fl b j) x"
      by (simp add: chunk_state_of_def j_def)
    also have "\<dots> = chunk_state_update (chunk_state_of key ctr fl (b @ take tk x)) (drop tk x)"
      using False small
      by (subst chunk_state_update.simps)
        (simp only: full len Let_def if_False BLAKE3_BLOCK_LEN_def tk_def [symmetric] fill)
    also have "\<dots> = Some (chunk_state_of key ctr fl (b @ x))"
      using less [of "drop tk x" "b @ take tk x"] tk False by simp
    finally show ?thesis .
  qed
qed

lemma chunk_state_len_of: "chunk_state_len (chunk_state_of key ctr fl b) = length b"
proof -
  have "64 * ((length b - 1) div 64) \<le> length b" by linarith
  then show ?thesis by (simp add: chunk_state_len_def chunk_state_of_def chunk_at_def BLAKE3_BLOCK_LEN_def)
qed

lemma chunk_counter_of [simp]: "chunk_counter (chunk_state_of key ctr fl b) = ctr"
  by (simp add: chunk_state_of_def chunk_at_def)

lemma chunk_state_of_bounds:
  assumes "length b \<le> 1024"
  shows "block_len (chunk_state_of key ctr fl b) \<le> 64"
    and "blocks_compressed (chunk_state_of key ctr fl b) < 16"
    and "length (block (chunk_state_of key ctr fl b)) = 64"
proof -
  have "(length b - 1) div 64 < 16" "length b - 64 * ((length b - 1) div 64) \<le> 64" using assms by linarith+
  then show "block_len (chunk_state_of key ctr fl b) \<le> 64"
    and "blocks_compressed (chunk_state_of key ctr fl b) < 16"
    and "length (block (chunk_state_of key ctr fl b)) = 64"
    by (simp_all add: chunk_state_of_def chunk_at_def)
qed

section \<open>The tree\<close>

text \<open>The chaining value of the perfect subtree of \<open>2 ^ d\<close> chunks that starts at chunk \<open>s\<close>.\<close>

primrec subtree_cv :: "u32 list \<Rightarrow> u32 \<Rightarrow> (nat \<Rightarrow> b3_output) \<Rightarrow> nat \<Rightarrow> nat \<Rightarrow> u32 list" where
  "subtree_cv key fl f 0 s = output_chaining_value (f s)"
| "subtree_cv key fl f (Suc d) s = parent_cv (subtree_cv key fl f d s) (subtree_cv key fl f d (s + 2 ^ d)) key fl"

text \<open>The finished subtrees of \<open>c\<close> groups of \<open>2 ^ d\<close> chunks from chunk \<open>s\<close> on, the smallest first: one per bit of \<open>c\<close>.\<close>

fun finished :: "u32 list \<Rightarrow> u32 \<Rightarrow> (nat \<Rightarrow> b3_output) \<Rightarrow> nat \<Rightarrow> nat \<Rightarrow> nat \<Rightarrow> u32 list list" where
  "finished key fl f d c s =
     (if c = 0 then []
      else (if odd c then [subtree_cv key fl f d (s + 2 ^ d * (c - 1))] else [])
           @ finished key fl f (Suc d) (c div 2) s)"

declare finished.simps [simp del]

lemma finished_0 [simp]: "finished key fl f d 0 s = []"
  by (simp add: finished.simps)

lemma finished_double: "even c \<Longrightarrow> finished key fl f d c s = finished key fl f (Suc d) (c div 2) s"
  by (cases "c = 0") (simp_all add: finished.simps [of _ _ _ d c])

lemma length_finished: "c < 2 ^ n \<Longrightarrow> length (finished key fl f d c s) \<le> n"
proof (induction n arbitrary: d c)
  case (Suc n)
  then have "length (finished key fl f (Suc d) (c div 2) s) \<le> n" by (intro Suc.IH) simp
  then show ?case by (subst finished.simps) simp
qed simp

lemma finished_top_bit:
  "c < 2 ^ k \<Longrightarrow> finished key fl f d (2 ^ k + c) s
     = finished key fl f d c (s + 2 ^ (d + k)) @ [subtree_cv key fl f (d + k) s]"
proof (induction k arbitrary: d c)
  case 0
  then show ?case by (simp add: finished.simps)
next
  case (Suc k)
  have half: "c div 2 < 2 ^ k" "(2 ^ Suc k + c) div 2 = 2 ^ k + c div 2" using Suc.prems by auto
  have IH: "finished key fl f (Suc d) (2 ^ k + c div 2) s
     = finished key fl f (Suc d) (c div 2) (s + 2 ^ (d + Suc k)) @ [subtree_cv key fl f (d + Suc k) s]"
    using Suc.IH [OF half(1), of "Suc d"] by simp
  show ?case
  proof (cases "odd c")
    case True
    then obtain e where e: "c = Suc e" by (cases c) auto
    have "s + 2 ^ d * (2 ^ Suc k + c - 1) = s + 2 ^ (d + Suc k) + 2 ^ d * (c - 1)"
      by (simp add: e power_add algebra_simps)
    with True IH half show ?thesis
      by (subst finished.simps, subst (2) finished.simps) (simp add: e add.assoc)
  next
    case False
    then show ?thesis using IH half by (simp add: finished_double)
  qed
qed

text \<open>The largest power of two below \<open>n\<close>, for \<open>n\<close> from 2 on.\<close>

fun left_len :: "nat \<Rightarrow> nat" where
  "left_len n = (if n \<le> 2 then 1 else 2 * left_len ((n + 1) div 2))"

declare left_len.simps [simp del]

lemma left_len_pow: "2 ^ k < n \<Longrightarrow> n \<le> 2 ^ Suc k \<Longrightarrow> left_len n = 2 ^ k"
proof (induction k arbitrary: n)
  case 0
  then show ?case by (simp add: left_len.simps)
next
  case (Suc k)
  have "(1::nat) \<le> 2 ^ k" by (rule one_le_power) simp
  with Suc.prems have "2 ^ k < (n + 1) div 2" "(n + 1) div 2 \<le> 2 ^ Suc k" and n: "2 < n"
    unfolding power_Suc by linarith+
  with Suc.IH show ?case by (subst left_len.simps) simp
qed

lemma ex_pow_below: "2 \<le> n \<Longrightarrow> \<exists>k. 2 ^ k < (n::nat) \<and> n \<le> 2 ^ Suc k"
proof (induction n rule: dec_induct)
  case base
  then show ?case by (intro exI [of _ 0]) simp
next
  case (step n)
  then obtain k where "2 ^ k < n" "n \<le> 2 ^ Suc k" by auto
  then show ?case by (cases "n = 2 ^ Suc k") (auto intro: exI [of _ "Suc k"] exI [of _ k])
qed

lemma left_len_bounds: "2 \<le> n \<Longrightarrow> 0 < left_len n \<and> left_len n < n"
  using ex_pow_below [of n] left_len_pow by fastforce

text \<open>The tree over the chunk outputs \<open>os\<close>, in order.\<close>

function tree_out :: "u32 list \<Rightarrow> u32 \<Rightarrow> b3_output list \<Rightarrow> b3_output" where
  "tree_out key fl os =
     (if length os \<le> 1 then hd os
      else parent_output (output_chaining_value (tree_out key fl (take (left_len (length os)) os)))
             (output_chaining_value (tree_out key fl (drop (left_len (length os)) os))) key fl)"
  by pat_completeness auto
termination
proof (relation "measure (\<lambda>(key, fl, os). length os)", goal_cases)
  case (2 key fl os)
  then show ?case using left_len_bounds [of "length os"] by auto
next
  case (3 key fl os)
  then show ?case using left_len_bounds [of "length os"] by auto
qed auto

declare tree_out.simps [simp del]

lemma tree_out_perfect:
  "output_chaining_value (tree_out key fl (map f [s..<s + 2 ^ d])) = subtree_cv key fl f d s"
proof (induction d arbitrary: s)
  case 0
  then show ?case by (simp add: tree_out.simps)
next
  case (Suc d)
  have l: "left_len (2 ^ Suc d) = 2 ^ d" by (intro left_len_pow) simp_all
  have "take (2 ^ d) (map f [s..<s + 2 ^ Suc d]) = map f [s..<s + 2 ^ d]"
    and "drop (2 ^ d) (map f [s..<s + 2 ^ Suc d]) = map f [s + 2 ^ d..<s + 2 ^ d + 2 ^ d]"
    by (simp_all add: take_map drop_map mult_2 add.assoc)
  then show ?case
    using Suc.IH [of s] Suc.IH [of "s + 2 ^ d"] l one_less_power [of "2::nat" "Suc d"]
    by (subst tree_out.simps) (simp add: parent_cv_def)
qed

text \<open>The right edge: the last chunk is merged with the finished subtrees, from the smallest up.\<close>

lemma tree_out_right_edge:
  "tree_out key fl (map f [s..<s + Suc c])
   = fold (\<lambda>cv out. parent_output cv (output_chaining_value out) key fl) (finished key fl f 0 c s) (f (s + c))"
proof (induction c arbitrary: s rule: less_induct)
  case (less c)
  show ?case
  proof (cases "c = 0")
    case True
    then show ?thesis by (simp add: tree_out.simps)
  next
    case False
    then obtain k where k: "2 ^ k < Suc c" "Suc c \<le> 2 ^ Suc k" using ex_pow_below [of "Suc c"] by auto
    define e where "e = c - 2 ^ k"
    have e: "c = 2 ^ k + e" "e < 2 ^ k" "e < c" using k by (auto simp: e_def)
    have "take (2 ^ k) (map f [s..<s + Suc c]) = map f [s..<s + 2 ^ k]"
      and "drop (2 ^ k) (map f [s..<s + Suc c]) = map f [s + 2 ^ k..<s + 2 ^ k + Suc e]"
      using e by (simp_all add: take_map drop_map algebra_simps del: upt_Suc)
    then have "tree_out key fl (map f [s..<s + Suc c])
        = parent_output (subtree_cv key fl f k s)
            (output_chaining_value (tree_out key fl (map f [s + 2 ^ k..<s + 2 ^ k + Suc e]))) key fl"
      using left_len_pow [OF k] False tree_out_perfect [of key fl f s k]
      by (subst tree_out.simps) (simp del: upt_Suc)
    also have "\<dots> = fold (\<lambda>cv out. parent_output cv (output_chaining_value out) key fl)
        (finished key fl f 0 c s) (f (s + c))"
      unfolding less.IH [OF e(3)] using finished_top_bit [OF e(2), of key fl f 0 s]
      by (simp add: e(1) add.assoc)
    finally show ?thesis .
  qed
qed

section \<open>The hasher computes the tree\<close>

text \<open>The output of chunk \<open>i\<close> of a message; an empty message has one empty chunk.\<close>

definition leaf :: "u32 list \<Rightarrow> u32 \<Rightarrow> bytes \<Rightarrow> nat \<Rightarrow> b3_output" where
  "leaf key fl m i = chunk_state_output (chunk_state_of key (of_nat i) fl (take 1024 (drop (1024 * i) m)))"

definition leaves :: "u32 list \<Rightarrow> u32 \<Rightarrow> bytes \<Rightarrow> b3_output list" where
  "leaves key fl m = map (leaf key fl m) [0..<Suc ((length m - 1) div 1024)]"

definition blake3_tree :: "u32 list \<Rightarrow> u32 \<Rightarrow> bytes \<Rightarrow> nat \<Rightarrow> bytes" where
  "blake3_tree key fl m out_len = output_root_bytes (tree_out key fl (leaves key fl m)) out_len"

text \<open>The hasher with the stack \<open>st\<close>, top first.\<close>

definition with_stack :: "u32 list \<Rightarrow> u32 \<Rightarrow> u32 list list \<Rightarrow> blake3_hasher \<Rightarrow> bool" where
  "with_stack key fl st self \<longleftrightarrow>
     key_words self = key \<and> hasher_flags self = fl \<and> length (cv_stack self) = 54 \<and> cv_stack_len self \<le> 54 \<and>
     rev (take (cv_stack_len self) (cv_stack self)) = st"

text \<open>The hasher that has absorbed the first \<open>n\<close> bytes of \<open>m\<close>: the last chunk stays open, even a full one.\<close>

definition absorbing :: "u32 list \<Rightarrow> u32 \<Rightarrow> bytes \<Rightarrow> nat \<Rightarrow> nat \<Rightarrow> blake3_hasher \<Rightarrow> bool" where
  "absorbing key fl m n c self \<longleftrightarrow>
     with_stack key fl (finished key fl (leaf key fl m) 0 c 0) self \<and>
     chunk_st self = chunk_state_of key (of_nat c) fl (take (n - 1024 * c) (drop (1024 * c) m))"

definition absorbed :: "u32 list \<Rightarrow> u32 \<Rightarrow> bytes \<Rightarrow> nat \<Rightarrow> blake3_hasher \<Rightarrow> bool" where
  "absorbed key fl m n self \<longleftrightarrow> absorbing key fl m n ((n - 1) div 1024) self"

lemma push_with_stack:
  assumes "with_stack key fl st self" and "length st < 54"
  shows "\<exists>self'. hasher_push_stack self cv = Some self' \<and> with_stack key fl (cv # st) self' \<and> chunk_st self' = chunk_st self"
proof -
  have "cv_stack_len self < 54" using assms by (auto simp: with_stack_def)
  then show ?thesis
    using assms by (auto simp: hasher_push_stack_def with_stack_def take_Suc_conv_app_nth)
qed

lemma even_word_of_nat: "(of_nat n :: u64) AND 1 = 0 \<longleftrightarrow> even n"
  by (simp add: and_one_eq odd_iff_mod_2_eq_one [symmetric] flip: even_iff_mod_2_eq_zero)

lemma even_word_of_Suc: "(1 + of_nat n :: u64) AND 1 = 0 \<longleftrightarrow> odd n"
  using even_word_of_nat [of "Suc n"] by simp

lemma half_word_of_nat:
  assumes "n < 2 ^ 64"
  shows "drop_bit 1 (of_nat n :: u64) = of_nat (n div 2)"
proof -
  have "n mod 2 ^ 64 = n" "n div 2 mod 2 ^ 64 = n div 2" using assms by simp_all
  then show ?thesis
    by (intro word_unat_eq_iff [THEN iffD2]) (simp add: unsigned_drop_bit_eq unsigned_of_nat take_bit_eq_mod drop_bit_eq_div unat_div)
qed

lemma with_stack_length: "with_stack key fl st self \<Longrightarrow> length st = cv_stack_len self"
  by (auto simp: with_stack_def)

lemma pop_with_stack:
  assumes "with_stack key fl (cv # st) (self\<lparr> cv_stack_len := Suc n \<rparr>)"
  shows "rd (cv_stack self) n = Some cv \<and> with_stack key fl st (self\<lparr> cv_stack_len := n \<rparr>)"
  using assms by (auto simp: with_stack_def take_Suc_conv_app_nth)

lemma finished_Suc_even:
  assumes "even c"
  shows "finished key fl f d (Suc c) s = subtree_cv key fl f d (s + 2 ^ d * c) # finished key fl f d c s"
  using assms by (subst finished.simps) (simp add: finished_double [OF assms])

lemma add_chunk_cv_from_finished:
  assumes "with_stack key fl (finished key fl f d c s) (self\<lparr> cv_stack_len := n \<rparr>)" and "c + 1 < 2 ^ 54"
  shows "\<exists>self'. add_chunk_cv_from n self (subtree_cv key fl f d (s + 2 ^ d * c)) (of_nat (c + 1)) = Some self' \<and>
           with_stack key fl (finished key fl f d (c + 1) s) self' \<and> chunk_st self' = chunk_st self"
  using assms
proof (induction n arbitrary: d c)
  case 0
  then have "finished key fl f d c s = []" using with_stack_length by fastforce
  then have "even c" by (auto simp: finished.simps [of _ _ _ d c] split: if_splits)
  then have fin: "finished key fl f d (c + 1) s = subtree_cv key fl f d (s + 2 ^ d * c) # finished key fl f d c s"
    using finished_Suc_even by simp
  have "length (finished key fl f d c s) < 54" using 0 with_stack_length by fastforce
  from push_with_stack [OF "0.prems"(1) this] show ?case
    using \<open>even c\<close> fin by (auto simp: even_word_of_Suc)
next
  case (Suc n)
  show ?case
  proof (cases "even c")
    case True
    then have fin: "finished key fl f d (c + 1) s = subtree_cv key fl f d (s + 2 ^ d * c) # finished key fl f d c s"
      using finished_Suc_even by simp
    have "length (finished key fl f d (c + 1) s) \<le> 54" using Suc.prems by (intro length_finished) simp
    then have "length (finished key fl f d c s) < 54" using fin by simp
    from push_with_stack [OF Suc.prems(1) this] show ?thesis
      using True fin by (auto simp: even_word_of_Suc)
  next
    case False
    then obtain e where e: "c = 2 * e + 1" by (elim oddE)
    have fin: "finished key fl f d c s = subtree_cv key fl f d (s + 2 ^ Suc d * e) # finished key fl f (Suc d) e s"
      by (subst finished.simps) (simp add: e mult.assoc mult.left_commute)
    from Suc.prems(1) have pop: "rd (cv_stack self) n = Some (subtree_cv key fl f d (s + 2 ^ Suc d * e))"
      and rest: "with_stack key fl (finished key fl f (Suc d) e s) (self\<lparr> cv_stack_len := n \<rparr>)"
      using pop_with_stack unfolding fin by blast+
    have keys: "key_words self = key" "hasher_flags self = fl" using Suc.prems(1) by (auto simp: with_stack_def)
    have sum: "s + 2 ^ d * c = s + 2 ^ Suc d * e + 2 ^ d" by (simp add: e algebra_simps)
    have half: "drop_bit 1 (of_nat (c + 1) :: u64) = of_nat (e + 1)"
      using Suc.prems(2) half_word_of_nat [of "c + 1"] by (simp add: e)
    have "finished key fl f d (c + 1) s = finished key fl f (Suc d) (e + 1) s"
      by (subst finished_double) (simp_all add: e)
    moreover have "add_chunk_cv_from (Suc n) self (subtree_cv key fl f d (s + 2 ^ d * c)) (of_nat (c + 1))
        = add_chunk_cv_from n self (subtree_cv key fl f (Suc d) (s + 2 ^ Suc d * e)) (of_nat (e + 1))"
      using False half by (simp add: even_word_of_nat pop keys sum del: of_nat_Suc of_nat_add)
    ultimately show ?thesis using Suc.IH [OF rest] Suc.prems(2) by (simp add: e)
  qed
qed

lemma finish_full_chunk_absorbing:
  assumes "absorbing key fl m n c self" and "1024 * c \<le> n" and "n \<le> length m" and "length m < 2 ^ 64"
  shows "\<exists>self'. finish_full_chunk self = Some self' \<and>
           absorbing key fl m n (if n = 1024 * c + 1024 then c + 1 else c) self'"
proof -
  let ?f = "leaf key fl m"
  have st: "chunk_st self = chunk_state_of key (of_nat c) fl (take (n - 1024 * c) (drop (1024 * c) m))"
    and ws: "with_stack key fl (finished key fl ?f 0 c 0) self"
    using assms(1) by (simp_all add: absorbing_def)
  have len: "chunk_state_len (chunk_st self) = n - 1024 * c"
    using assms by (simp add: st chunk_state_len_of)
  show ?thesis
  proof (cases "n = 1024 * c + 1024")
    case True
    have cv: "output_chaining_value (chunk_state_output (chunk_st self)) = subtree_cv key fl ?f 0 (0 + 2 ^ 0 * c)"
      by (simp add: st leaf_def True)
    have "c + 1 < 2 ^ 54" using True assms(3,4) by simp
    moreover have "with_stack key fl (finished key fl ?f 0 c 0) (self\<lparr> cv_stack_len := cv_stack_len self \<rparr>)"
      using ws by simp
    ultimately obtain self' where
      "hasher_add_chunk_cv self (subtree_cv key fl ?f 0 (0 + 2 ^ 0 * c)) (of_nat (c + 1)) = Some self'"
      and ws': "with_stack key fl (finished key fl ?f 0 (c + 1) 0) self'"
      using add_chunk_cv_from_finished [where n = "cv_stack_len self", OF _ \<open>c + 1 < 2 ^ 54\<close>]
      unfolding hasher_add_chunk_cv_def by blast
    moreover have "with_stack key fl st' (self'\<lparr> chunk_st := x \<rparr>) = with_stack key fl st' self'" for st' x
      by (simp add: with_stack_def)
    moreover have "key_words self' = key" "hasher_flags self' = fl" using ws' by (simp_all add: with_stack_def)
    ultimately show ?thesis
      using True len ws' cv
      by (simp add: finish_full_chunk_def BLAKE3_CHUNK_LEN_def absorbing_def chunk_state_of_nil st add.commute)
  next
    case False
    then show ?thesis
      using assms(1,2) len by (auto simp: finish_full_chunk_def BLAKE3_CHUNK_LEN_def)
  qed
qed

lemma take_input_absorbed:
  assumes "absorbed key fl m n self" and "drop n m = x @ y" and "x \<noteq> []" and "length m < 2 ^ 64"
  shows "\<exists>self' tk. take_input self x = Some (self', tk) \<and> 0 < tk \<and> tk \<le> length x \<and> absorbed key fl m (n + tk) self'"
proof -
  define j where "j = (n - 1) div 1024"
  define c where "c = (if n = 1024 * j + 1024 then j + 1 else j)"
  have "length (drop n m) = length x + length y" using assms(2) by simp
  then have n: "n + length x \<le> length m" using assms(3) by (cases "n \<le> length m") auto
  have j: "1024 * j \<le> n" "n \<le> 1024 * j + 1024" unfolding j_def by linarith+
  then have c: "1024 * c \<le> n" "n < 1024 * c + 1024" by (auto simp: c_def)
  obtain h where h: "finish_full_chunk self = Some h" "absorbing key fl m n c h"
    using finish_full_chunk_absorbing [OF assms(1) [unfolded absorbed_def, folded j_def]] assms(4) j n
    unfolding c_def by (meson add_leD1)
  then have st: "chunk_st h = chunk_state_of key (of_nat c) fl (take (n - 1024 * c) (drop (1024 * c) m))"
    by (simp add: absorbing_def)
  have len: "chunk_state_len (chunk_st h) = n - 1024 * c"
    using n c by (simp add: st chunk_state_len_of)
  define tk where "tk = (if length x < 1024 - (n - 1024 * c) then length x else 1024 - (n - 1024 * c))"
  have tk: "0 < tk" "tk \<le> length x" "n + tk \<le> 1024 * c + 1024" using c assms(3) by (auto simp: tk_def)
  have "n + tk - 1024 * c = n - 1024 * c + tk" "n - 1024 * c + 1024 * c = n" using c by simp_all
  then have "take (n + tk - 1024 * c) (drop (1024 * c) m)
        = take (n - 1024 * c) (drop (1024 * c) m) @ take tk (drop n m)"
    by (simp only: take_add drop_drop)
  then have bytes: "take (n - 1024 * c) (drop (1024 * c) m) @ take tk x = take (n + tk - 1024 * c) (drop (1024 * c) m)"
    using tk assms(2) by simp
  have idx: "(n + tk - 1) div 1024 = c" using c tk by (intro div_nat_eqI) auto
  have upd: "chunk_state_update (chunk_st h) (take tk x)
      = Some (chunk_state_of key (of_nat c) fl (take (n + tk - 1024 * c) (drop (1024 * c) m)))"
    by (simp add: st chunk_state_update_of bytes)
  have "take_input self x = Some (h\<lparr> chunk_st := chunk_state_of key (of_nat c) fl (take (n + tk - 1024 * c) (drop (1024 * c) m)) \<rparr>, tk)"
    using tk(1) by (simp only: take_input_def h(1) bind.bind_lunit Let_def len BLAKE3_CHUNK_LEN_def tk_def [symmetric] upd) simp
  moreover have "absorbed key fl m (n + tk) (h\<lparr> chunk_st := chunk_state_of key (of_nat c) fl (take (n + tk - 1024 * c) (drop (1024 * c) m)) \<rparr>)"
    unfolding absorbed_def idx using h(2) by (simp add: absorbing_def with_stack_def)
  ultimately show ?thesis using tk by blast
qed

lemma update_absorbed:
  assumes "absorbed key fl m n self" and "drop n m = x @ y" and "length m < 2 ^ 64"
  shows "\<exists>self'. blake3_hasher_update self x = Some self' \<and> absorbed key fl m (n + length x) self'"
  using assms
proof (induction "length x" arbitrary: n self x rule: less_induct)
  case less
  show ?case
  proof (cases "x = []")
    case True
    then show ?thesis using less.prems by (simp add: blake3_hasher_update.simps)
  next
    case False
    then obtain h tk where h: "take_input self x = Some (h, tk)" "0 < tk" "tk \<le> length x" "absorbed key fl m (n + tk) h"
      using take_input_absorbed less.prems by blast
    have "drop (n + tk) m = drop tk x @ y"
      using less.prems(2) h(3) by (simp add: drop_drop [symmetric] add.commute [of n])
    with less.hyps [OF _ h(4)] less.prems(3) h(2,3) False
    obtain self' where "blake3_hasher_update h (drop tk x) = Some self'" "absorbed key fl m (n + tk + length (drop tk x)) self'"
      by fastforce
    with h False show ?thesis by (subst blake3_hasher_update.simps) simp
  qed
qed

lemma absorbed_init:
  assumes "length uninit = 54"
  shows "absorbed key fl m 0 (hasher_init_internal uninit key fl)"
  using assms by (simp add: absorbed_def absorbing_def with_stack_def hasher_init_internal_def chunk_state_of_nil)

lemma updates_absorbed:
  "absorbed key fl m n self \<Longrightarrow> drop n m = concat ps \<Longrightarrow> n \<le> length m \<Longrightarrow> length m < 2 ^ 64 \<Longrightarrow>
   \<exists>self'. for_each ps (\<lambda>p h. blake3_hasher_update h p) self = Some self' \<and> absorbed key fl m (length m) self'"
proof (induction ps arbitrary: n self)
  case (Cons p ps)
  then obtain h where h: "blake3_hasher_update self p = Some h" "absorbed key fl m (n + length p) h"
    using update_absorbed [of key fl m n self p "concat ps"] by auto
  have "length (drop n m) = length p + length (concat ps)" using Cons.prems by simp
  then have "n + length p \<le> length m" using Cons.prems(3) by simp
  moreover have "drop (n + length p) m = concat ps"
    using Cons.prems(2) by (simp add: drop_drop [symmetric] add.commute [of n])
  ultimately show ?case using Cons.IH [OF h(2)] Cons.prems h(1) by auto
qed auto

lemma fold_final_step:
  "k \<le> length (cv_stack self) \<Longrightarrow>
   fold (final_step self) (rev [0..<k]) out
   = fold (\<lambda>cv out. parent_output cv (output_chaining_value out) (key_words self) (hasher_flags self))
       (rev (take k (cv_stack self))) out"
  by (induction k arbitrary: out) (simp_all add: take_Suc_conv_app_nth final_step_def)

lemma finalize_absorbed:
  assumes "absorbed key fl m (length m) self"
  shows "blake3_hasher_finalize self n = blake3_tree key fl m n"
proof -
  define c where "c = (length m - 1) div 1024"
  have c: "length m - 1024 * c \<le> 1024" unfolding c_def by linarith
  have ws: "with_stack key fl (finished key fl (leaf key fl m) 0 c 0) self"
    and st: "chunk_state_output (chunk_st self) = leaf key fl m c"
    using assms c unfolding absorbed_def absorbing_def c_def [symmetric] by (simp_all add: leaf_def)
  from ws have "fold (final_step self) (rev [0..<cv_stack_len self]) (leaf key fl m c) = tree_out key fl (leaves key fl m)"
    using tree_out_right_edge [of key fl "leaf key fl m" 0 c]
    by (simp add: with_stack_def fold_final_step leaves_def c_def del: upt_Suc)
  then show ?thesis by (simp add: blake3_hasher_finalize_def blake3_tree_def st)
qed

section \<open>Properties\<close>

text \<open>
  Property C25: however a message below 2 to the 64 bytes is cut into pieces, initialising the
  hasher, updating it with the pieces and finalising it never leaves the stack of 54 chaining
  values nor a block, and the bytes it writes are the root of the BLAKE3 tree over the chunks of
  the whole message, for every key and flags and every length of output; what the stack held
  before does not matter.
\<close>

theorem blake3_streaming:
  assumes "length uninit = 54" and "length (concat pieces) < 2 ^ 64"
  shows "\<exists>hasher. for_each pieces (\<lambda>p h. blake3_hasher_update h p) (hasher_init_internal uninit key flags) = Some hasher
           \<and> blake3_hasher_finalize hasher out_len = blake3_tree key flags (concat pieces) out_len"
  using updates_absorbed [OF absorbed_init [OF assms(1)], of "concat pieces" pieces key flags] assms(2)
    finalize_absorbed by fastforce

theorem blake3_streaming_witness:
  "\<exists>hasher. for_each [[1], [], [2, 3]] (\<lambda>p h. blake3_hasher_update h p)
       (hasher_init_internal (replicate 54 []) IV 0) = Some hasher
     \<and> blake3_hasher_finalize hasher 32 = blake3_tree IV 0 [1, 2, 3] 32"
  using blake3_streaming [of "replicate 54 []" "[[1], [], [2, 3]]" IV 0 32] by simp

text \<open>
  After any updates of at most 2 to the 64 minus 1 bytes in all the counters of the
  hasher are in range: the open chunk holds at most 64 bytes in its buffer and has compressed fewer
  than 16 blocks (both fit their bytes), its counter is the number of finished chunks, and the
  stack holds one chaining value per one bit of that number.
\<close>

theorem blake3_counters_in_range:
  assumes "length uninit = 54" and "length (concat pieces) < 2 ^ 64"
    and "for_each pieces (\<lambda>p h. blake3_hasher_update h p) (hasher_init_internal uninit key flags) = Some hasher"
  shows "block_len (chunk_st hasher) \<le> 64 \<and> blocks_compressed (chunk_st hasher) < 16
    \<and> chunk_counter (chunk_st hasher) = of_nat ((length (concat pieces) - 1) div 1024)
    \<and> cv_stack_len hasher = length (finished key flags (leaf key flags (concat pieces)) 0 ((length (concat pieces) - 1) div 1024) 0)
    \<and> cv_stack_len hasher \<le> 54"
proof -
  have a: "absorbed key flags (concat pieces) (length (concat pieces)) hasher"
    using updates_absorbed [OF absorbed_init [OF assms(1)], of "concat pieces" pieces key flags] assms(2,3) by simp
  then have ws: "with_stack key flags (finished key flags (leaf key flags (concat pieces)) 0
      ((length (concat pieces) - 1) div 1024) 0) hasher"
    by (simp add: absorbed_def absorbing_def)
  have "length (concat pieces) - 1024 * ((length (concat pieces) - 1) div 1024) \<le> 1024" by linarith
  then have "length (take (length (concat pieces) - 1024 * ((length (concat pieces) - 1) div 1024))
      (drop (1024 * ((length (concat pieces) - 1) div 1024)) (concat pieces))) \<le> 1024" by simp
  from chunk_state_of_bounds [OF this] a with_stack_length [OF ws] ws show ?thesis
    by (simp add: absorbed_def absorbing_def with_stack_def)
qed

theorem blake3_counters_in_range_witness:
  "cv_stack_len (the (for_each [[1], [2, 3]] (\<lambda>p h. blake3_hasher_update h p)
     (hasher_init_internal (replicate 54 []) IV 0))) \<le> 54"
proof -
  obtain hasher where "for_each [[1], [2, 3]] (\<lambda>p h. blake3_hasher_update h p)
      (hasher_init_internal (replicate 54 []) IV 0) = Some hasher"
    using updates_absorbed [OF absorbed_init, of "replicate 54 []" "[1, 2, 3]" "[[1], [2, 3]]" IV 0] by auto
  from this blake3_counters_in_range [OF _ _ this] show ?thesis by simp
qed

text \<open>
  The 256 bit hash is the first half of the 512 bit hash of the same bytes; both are
  defined on every message below 2 to the 64 bytes and are the root of its tree.
\<close>

theorem blake3_256_is_prefix:
  assumes "length uninit = 54" and "length input < 2 ^ 64"
  shows "blake3_hash_512 uninit input = Some (blake3_tree IV 0 input 64)
    \<and> blake3_hash_256 uninit input = Some (take 32 (blake3_tree IV 0 input 64))"
proof -
  obtain h where h: "blake3_hasher_update (blake3_hasher_init uninit) input = Some h" "absorbed IV 0 input (length input) h"
    using update_absorbed [OF absorbed_init [OF assms(1)], where m = input and x = input and y = "[]" and key = IV and fl = 0] assms(2)
    by (auto simp: blake3_hasher_init_def)
  have "blake3_tree IV 0 input 32 = take 32 (blake3_tree IV 0 input 64)"
    by (simp add: blake3_tree_def output_root_bytes_def root_bytes_from.simps Let_def)
  with h finalize_absorbed [OF h(2)] show ?thesis
    by (simp add: blake3_hash_256_def blake3_hash_512_def)
qed

theorem blake3_256_is_prefix_witness:
  "blake3_hash_256 (replicate 54 []) [] = Some (take 32 (blake3_tree IV 0 [] 64))"
  using blake3_256_is_prefix [of "replicate 54 []" "[]"] by simp

end
