(* ===== verification/Forks.thy ===== *)
theory Forks
  imports EthashFile Blake2 Blake3
begin

text \<open>
  The three forks of the Ethash library, \<open>libetchash\<close>, \<open>libubqhash\<close> and \<open>libethhashb3\<close>. Their
  \<open>internal.c\<close>, \<open>io.c\<close> and \<open>io_posix.c\<close> are copies of the ones in \<open>libethhash\<close>, so the operations are
  the definitions of \<open>Ethash\<close> and \<open>EthashFile\<close> at the hash functions, epoch lengths and directories of
  the fork; what a fork changes is written out. The theorems: the light client and the full node
  of each fork agree, which cache a block has, and where the forks differ from Ethash.
\<close>

section \<open>Etchash: epochs of two lengths\<close>

definition ETHASH_EPOCH_LENGTH_NEW :: u64 where
  "ETHASH_EPOCH_LENGTH_NEW = 60000"

definition etchash_calc_epoch :: "u64 \<Rightarrow> u64 \<Rightarrow> u64" where
  "etchash_calc_epoch bn fork_block =
     (let epochLen = (if fork_block \<le> bn then ETHASH_EPOCH_LENGTH_NEW else ETHASH_EPOCH_LENGTH)
      in bn div epochLen)"

text \<open>The tables are read without the \<open>assert\<close> of Ethash; \<open>None\<close> is a read behind their ends.\<close>

definition etc_get_datasize :: "u64 \<Rightarrow> u64 \<Rightarrow> u64 option" where
  "etc_get_datasize bn fork_block = map_option of_nat (rd dag_sizes (unat (etchash_calc_epoch bn fork_block)))"

definition etc_get_cachesize :: "u64 \<Rightarrow> u64 \<Rightarrow> u64 option" where
  "etc_get_cachesize bn fork_block = map_option of_nat (rd cache_sizes (unat (etchash_calc_epoch bn fork_block)))"

definition etc_get_seedhash :: "u64 \<Rightarrow> bytes option" where
  "etc_get_seedhash bn = seed_loop (bn div ETHASH_EPOCH_LENGTH) 0 (replicate 32 0)"

definition etc_compute_cache_nodes :: "node list \<Rightarrow> u64 \<Rightarrow> bytes \<Rightarrow> (bool \<times> node list) option" where
  "etc_compute_cache_nodes = ethash_compute_cache_nodes SHA3_512"

definition etc_calculate_dag_item :: "u32 \<Rightarrow> ethash_light \<Rightarrow> node option" where
  "etc_calculate_dag_item = ethash_calculate_dag_item SHA3_512"

definition etc_compute_full_data :: "node list \<Rightarrow> u64 \<Rightarrow> ethash_light \<Rightarrow> (u32 \<Rightarrow> int) option \<Rightarrow> (bool \<times> node list) option" where
  "etc_compute_full_data = ethash_compute_full_data SHA3_512"

definition etc_hash ::
  "(u32 \<Rightarrow> node option) \<Rightarrow> u64 \<Rightarrow> bytes \<Rightarrow> u64 \<Rightarrow> ethash_return_value \<Rightarrow> (bool \<times> ethash_return_value) option" where
  "etc_hash = ethash_hash SHA3_512 SHA3_256"

definition etc_quick_hash :: "bytes \<Rightarrow> u64 \<Rightarrow> bytes \<Rightarrow> bytes" where
  "etc_quick_hash = ethash_quick_hash SHA3_512 SHA3_256"

definition etc_quick_check_difficulty :: "bytes \<Rightarrow> u64 \<Rightarrow> bytes \<Rightarrow> bytes \<Rightarrow> bool" where
  "etc_quick_check_difficulty header_hash nonce mixh boundary =
     ethash_check_difficulty (etc_quick_hash header_hash nonce mixh) boundary"

definition etc_light_new_internal :: "allocator \<Rightarrow> u64 \<Rightarrow> bytes \<Rightarrow> ethash_light option option" where
  "etc_light_new_internal = ethash_light_new_internal SHA3_512"

definition etc_light_new :: "allocator \<Rightarrow> u64 \<Rightarrow> u64 \<Rightarrow> ethash_light option" where
  "etc_light_new a bn fork_block =
     do {
       seedhash \<leftarrow> etc_get_seedhash bn;
       csize \<leftarrow> etc_get_cachesize bn fork_block;
       ret \<leftarrow> etc_light_new_internal a csize seedhash;
       set_block_number bn ret
     }"

definition etc_light_compute_internal ::
  "ethash_light \<Rightarrow> u64 \<Rightarrow> bytes \<Rightarrow> u64 \<Rightarrow> ethash_return_value \<Rightarrow> ethash_return_value option" where
  "etc_light_compute_internal = ethash_light_compute_internal SHA3_512 SHA3_512 SHA3_256"

definition etc_light_compute ::
  "ethash_light \<Rightarrow> bytes \<Rightarrow> u64 \<Rightarrow> u64 \<Rightarrow> ethash_return_value \<Rightarrow> ethash_return_value option" where
  "etc_light_compute light header_hash nonce fork_block uninit =
     do {
       full_size \<leftarrow> etc_get_datasize (block_number light) fork_block;
       etc_light_compute_internal light full_size header_hash nonce uninit
     }"

definition etc_get_default_dirname :: "string option \<Rightarrow> string option \<Rightarrow> nat \<Rightarrow> (bool \<times> string) option" where
  "etc_get_default_dirname = default_dirname ''.etchash/''"

definition etc_full_new_internal ::
  "full_env \<Rightarrow> string \<Rightarrow> bytes \<Rightarrow> u64 \<Rightarrow> ethash_light \<Rightarrow> (u32 \<Rightarrow> int) option \<Rightarrow> fs
   \<Rightarrow> (ethash_full option \<times> fs) option" where
  "etc_full_new_internal = ethash_full_new_internal"

definition etc_full_new ::
  "full_env \<Rightarrow> string option \<Rightarrow> string option \<Rightarrow> ethash_light \<Rightarrow> u64 \<Rightarrow> (u32 \<Rightarrow> int) option \<Rightarrow> fs
   \<Rightarrow> (ethash_full option \<times> fs) option" where
  "etc_full_new e env_home pw_home light fork_block callback fs =
     do {
       (ok, strbuf) \<leftarrow> etc_get_default_dirname env_home pw_home 256;
       if \<not> ok then Some (None, fs)
       else do {
         full_size \<leftarrow> etc_get_datasize (block_number light) fork_block;
         seedhash \<leftarrow> etc_get_seedhash (block_number light);
         etc_full_new_internal e strbuf seedhash full_size light callback fs
       }
     }"

definition etc_full_compute :: "ethash_full \<Rightarrow> bytes \<Rightarrow> u64 \<Rightarrow> ethash_return_value \<Rightarrow> ethash_return_value option" where
  "etc_full_compute full header_hash nonce uninit =
     map_option (\<lambda>(ok, ret). ret\<lparr> success := ok \<rparr>)
       (etc_hash (\<lambda>k. rd (data full) (unat k)) (file_size full) header_hash nonce (uninit\<lparr> success := True \<rparr>))"

section \<open>Ubqhash: the cache of later blocks is hashed with BLAKE2b\<close>

definition UBQHASH_UIP1_EPOCH :: u64 where
  "UBQHASH_UIP1_EPOCH = 22"

definition ubq_get_datasize :: "u64 \<Rightarrow> u64 option" where
  "ubq_get_datasize bn = map_option of_nat (rd dag_sizes (unat (bn div ETHASH_EPOCH_LENGTH)))"

definition ubq_get_cachesize :: "u64 \<Rightarrow> u64 option" where
  "ubq_get_cachesize bn = map_option of_nat (rd cache_sizes (unat (bn div ETHASH_EPOCH_LENGTH)))"

definition ubq_get_seedhash :: "u64 \<Rightarrow> bytes option" where
  "ubq_get_seedhash bn = seed_loop (bn div ETHASH_EPOCH_LENGTH) 0 (replicate 32 0)"

definition ubq_compute_cache_nodes :: "node list \<Rightarrow> u64 \<Rightarrow> bytes \<Rightarrow> (bool \<times> node list) option" where
  "ubq_compute_cache_nodes = ethash_compute_cache_nodes SHA3_512"

definition ethash_compute_cache_nodes_uip1 :: "node list \<Rightarrow> u64 \<Rightarrow> bytes \<Rightarrow> (bool \<times> node list) option" where
  "ethash_compute_cache_nodes_uip1 = ethash_compute_cache_nodes blake2b_512"

definition ubq_light_new_internal :: "allocator \<Rightarrow> u64 \<Rightarrow> bytes \<Rightarrow> bool \<Rightarrow> ethash_light option option" where
  "ubq_light_new_internal a csize seed uip1 =
     (if \<not> calloc_ok a then Some None
      else case malloc a csize of
        None \<Rightarrow> Some None
      | Some nodes \<Rightarrow> do {
          (ok, nodes) \<leftarrow> (if uip1 then ethash_compute_cache_nodes_uip1 nodes csize seed
                          else ubq_compute_cache_nodes nodes csize seed);
          Some (if ok then Some \<lparr> cache = nodes, cache_size = csize, block_number = 0 \<rparr> else None)
        })"

definition ubq_light_new :: "allocator \<Rightarrow> u64 \<Rightarrow> ethash_light option" where
  "ubq_light_new a bn =
     do {
       seedhash \<leftarrow> ubq_get_seedhash bn;
       csize \<leftarrow> ubq_get_cachesize bn;
       ret \<leftarrow> (if ETHASH_EPOCH_LENGTH * UBQHASH_UIP1_EPOCH \<le> bn then ubq_light_new_internal a csize seedhash True
               else ubq_light_new_internal a csize seedhash False);
       set_block_number bn ret
     }"

text \<open>The items of the data set and the header are hashed with Keccak in every epoch.\<close>

definition ubq_calculate_dag_item :: "u32 \<Rightarrow> ethash_light \<Rightarrow> node option" where
  "ubq_calculate_dag_item = ethash_calculate_dag_item SHA3_512"

definition ubq_compute_full_data :: "node list \<Rightarrow> u64 \<Rightarrow> ethash_light \<Rightarrow> (u32 \<Rightarrow> int) option \<Rightarrow> (bool \<times> node list) option" where
  "ubq_compute_full_data = ethash_compute_full_data SHA3_512"

definition ubq_hash ::
  "(u32 \<Rightarrow> node option) \<Rightarrow> u64 \<Rightarrow> bytes \<Rightarrow> u64 \<Rightarrow> ethash_return_value \<Rightarrow> (bool \<times> ethash_return_value) option" where
  "ubq_hash = ethash_hash SHA3_512 SHA3_256"

definition ubq_quick_hash :: "bytes \<Rightarrow> u64 \<Rightarrow> bytes \<Rightarrow> bytes" where
  "ubq_quick_hash = ethash_quick_hash SHA3_512 SHA3_256"

definition ubq_light_compute_internal ::
  "ethash_light \<Rightarrow> u64 \<Rightarrow> bytes \<Rightarrow> u64 \<Rightarrow> ethash_return_value \<Rightarrow> ethash_return_value option" where
  "ubq_light_compute_internal = ethash_light_compute_internal SHA3_512 SHA3_512 SHA3_256"

definition ubq_light_compute ::
  "ethash_light \<Rightarrow> bytes \<Rightarrow> u64 \<Rightarrow> ethash_return_value \<Rightarrow> ethash_return_value option" where
  "ubq_light_compute light header_hash nonce uninit =
     do {
       full_size \<leftarrow> ubq_get_datasize (block_number light);
       ubq_light_compute_internal light full_size header_hash nonce uninit
     }"

definition ubq_get_default_dirname :: "string option \<Rightarrow> string option \<Rightarrow> nat \<Rightarrow> (bool \<times> string) option" where
  "ubq_get_default_dirname = default_dirname ''.ubqhash/''"

definition ubq_full_new_internal ::
  "full_env \<Rightarrow> string \<Rightarrow> bytes \<Rightarrow> u64 \<Rightarrow> ethash_light \<Rightarrow> (u32 \<Rightarrow> int) option \<Rightarrow> fs
   \<Rightarrow> (ethash_full option \<times> fs) option" where
  "ubq_full_new_internal = ethash_full_new_internal"

definition ubq_full_new ::
  "full_env \<Rightarrow> string option \<Rightarrow> string option \<Rightarrow> ethash_light \<Rightarrow> (u32 \<Rightarrow> int) option \<Rightarrow> fs
   \<Rightarrow> (ethash_full option \<times> fs) option" where
  "ubq_full_new e env_home pw_home light callback fs =
     do {
       (ok, strbuf) \<leftarrow> ubq_get_default_dirname env_home pw_home 256;
       if \<not> ok then Some (None, fs)
       else do {
         full_size \<leftarrow> ubq_get_datasize (block_number light);
         seedhash \<leftarrow> ubq_get_seedhash (block_number light);
         ubq_full_new_internal e strbuf seedhash full_size light callback fs
       }
     }"

definition ubq_full_compute :: "ethash_full \<Rightarrow> bytes \<Rightarrow> u64 \<Rightarrow> ethash_return_value \<Rightarrow> ethash_return_value option" where
  "ubq_full_compute full header_hash nonce uninit =
     map_option (\<lambda>(ok, ret). ret\<lparr> success := ok \<rparr>)
       (ubq_hash (\<lambda>k. rd (data full) (unat k)) (file_size full) header_hash nonce (uninit\<lparr> success := True \<rparr>))"

section \<open>EthashB3: the header is hashed with BLAKE3\<close>

definition B3_EPOCH_LENGTH :: u64 where
  "B3_EPOCH_LENGTH = 32000"

text \<open>The one-shot hashes, on a stack whose content does not matter.\<close>

definition b3_512 :: "bytes \<Rightarrow> bytes" where
  "b3_512 m = the (blake3_hash_512 (replicate 54 []) m)"

definition b3_256 :: "bytes \<Rightarrow> bytes" where
  "b3_256 m = the (blake3_hash_256 (replicate 54 []) m)"

definition b3_get_datasize :: "u64 \<Rightarrow> u64 option" where
  "b3_get_datasize bn = map_option of_nat (rd dag_sizes (unat (bn div B3_EPOCH_LENGTH)))"

definition b3_get_cachesize :: "u64 \<Rightarrow> u64 option" where
  "b3_get_cachesize bn = map_option of_nat (rd cache_sizes (unat (bn div B3_EPOCH_LENGTH)))"

definition b3_get_seedhash :: "u64 \<Rightarrow> bytes option" where
  "b3_get_seedhash bn = seed_loop (bn div B3_EPOCH_LENGTH) 0 (replicate 32 0)"

text \<open>The cache and the items are hashed with Keccak.\<close>

definition b3_compute_cache_nodes :: "node list \<Rightarrow> u64 \<Rightarrow> bytes \<Rightarrow> (bool \<times> node list) option" where
  "b3_compute_cache_nodes = ethash_compute_cache_nodes SHA3_512"

definition b3_calculate_dag_item :: "u32 \<Rightarrow> ethash_light \<Rightarrow> node option" where
  "b3_calculate_dag_item = ethash_calculate_dag_item SHA3_512"

definition b3_compute_full_data :: "node list \<Rightarrow> u64 \<Rightarrow> ethash_light \<Rightarrow> (u32 \<Rightarrow> int) option \<Rightarrow> (bool \<times> node list) option" where
  "b3_compute_full_data = ethash_compute_full_data SHA3_512"

definition b3_hash ::
  "(u32 \<Rightarrow> node option) \<Rightarrow> u64 \<Rightarrow> bytes \<Rightarrow> u64 \<Rightarrow> ethash_return_value \<Rightarrow> (bool \<times> ethash_return_value) option" where
  "b3_hash = ethash_hash b3_512 b3_256"

text \<open>The quick hash was not changed with \<open>ethash_hash\<close>.\<close>

definition b3_quick_hash :: "bytes \<Rightarrow> u64 \<Rightarrow> bytes \<Rightarrow> bytes" where
  "b3_quick_hash = ethash_quick_hash SHA3_512 SHA3_256"

definition b3_light_new_internal :: "allocator \<Rightarrow> u64 \<Rightarrow> bytes \<Rightarrow> ethash_light option option" where
  "b3_light_new_internal = ethash_light_new_internal SHA3_512"

definition b3_light_new :: "allocator \<Rightarrow> u64 \<Rightarrow> ethash_light option" where
  "b3_light_new a bn =
     do {
       seedhash \<leftarrow> b3_get_seedhash bn;
       csize \<leftarrow> b3_get_cachesize bn;
       ret \<leftarrow> b3_light_new_internal a csize seedhash;
       set_block_number bn ret
     }"

definition b3_light_compute_internal ::
  "ethash_light \<Rightarrow> u64 \<Rightarrow> bytes \<Rightarrow> u64 \<Rightarrow> ethash_return_value \<Rightarrow> ethash_return_value option" where
  "b3_light_compute_internal light full_size header_hash nonce uninit =
     map_option (\<lambda>(ok, ret). ret\<lparr> success := ok \<rparr>)
       (b3_hash (\<lambda>k. b3_calculate_dag_item k light) full_size header_hash nonce (uninit\<lparr> success := True \<rparr>))"

definition b3_light_compute ::
  "ethash_light \<Rightarrow> bytes \<Rightarrow> u64 \<Rightarrow> ethash_return_value \<Rightarrow> ethash_return_value option" where
  "b3_light_compute light header_hash nonce uninit =
     do {
       full_size \<leftarrow> b3_get_datasize (block_number light);
       b3_light_compute_internal light full_size header_hash nonce uninit
     }"

definition b3_get_default_dirname :: "string option \<Rightarrow> string option \<Rightarrow> nat \<Rightarrow> (bool \<times> string) option" where
  "b3_get_default_dirname = default_dirname ''.Ethash-B3/''"

definition b3_full_new_internal ::
  "full_env \<Rightarrow> string \<Rightarrow> bytes \<Rightarrow> u64 \<Rightarrow> ethash_light \<Rightarrow> (u32 \<Rightarrow> int) option \<Rightarrow> fs
   \<Rightarrow> (ethash_full option \<times> fs) option" where
  "b3_full_new_internal = ethash_full_new_internal"

definition b3_full_new ::
  "full_env \<Rightarrow> string option \<Rightarrow> string option \<Rightarrow> ethash_light \<Rightarrow> (u32 \<Rightarrow> int) option \<Rightarrow> fs
   \<Rightarrow> (ethash_full option \<times> fs) option" where
  "b3_full_new e env_home pw_home light callback fs =
     do {
       (ok, strbuf) \<leftarrow> b3_get_default_dirname env_home pw_home 256;
       if \<not> ok then Some (None, fs)
       else do {
         full_size \<leftarrow> b3_get_datasize (block_number light);
         seedhash \<leftarrow> b3_get_seedhash (block_number light);
         b3_full_new_internal e strbuf seedhash full_size light callback fs
       }
     }"

definition b3_full_compute :: "ethash_full \<Rightarrow> bytes \<Rightarrow> u64 \<Rightarrow> ethash_return_value \<Rightarrow> ethash_return_value option" where
  "b3_full_compute full header_hash nonce uninit =
     map_option (\<lambda>(ok, ret). ret\<lparr> success := ok \<rparr>)
       (b3_hash (\<lambda>k. rd (data full) (unat k)) (file_size full) header_hash nonce (uninit\<lparr> success := True \<rparr>))"

section \<open>The lengths of the BLAKE3 outputs\<close>

lemma length_blake3_g [simp]: "length (blake3_g s a b c d mx my) = length s"
  by (simp add: blake3_g_def Let_def)

lemma length_round_function [simp]: "length (round_function s m) = length s"
  by (simp add: round_function_def Let_def)

lemma length_blake3_compress:
  assumes "8 \<le> length cv"
  shows "length (blake3_compress cv bw ctr bl fl) = 16"
proof -
  let ?s0 = "take 8 cv @ take 4 IV @ [ucast ctr, ucast (drop_bit 32 ctr), bl, fl]"
  have "length ?s0 = 16" using assms by (simp add: IV_def)
  then have "length (fst (fold (\<lambda>_ (state, block). let block = blake3_permute block in (round_function state block, block))
      [2..<8] (round_function ?s0 bw, bw))) = 16"
    by (intro fold_invariant [where P = "\<lambda>p. length (fst p) = 16"]) (auto simp: Let_def)
  then show ?thesis
    unfolding blake3_compress_def Let_def
    by (auto split: prod.splits intro!: fold_invariant [where P = "\<lambda>s. length s = 16"])
qed

lemma length_word_out [simp]: "length (word_out w) = 4"
  by (simp add: word_out_def)

lemma length_root_bytes:
  assumes "8 \<le> length (input_chaining_value self)"
  shows "length (root_bytes_from self c n) = n"
proof (induction n arbitrary: c rule: less_induct)
  case (less n)
  let ?w = "blake3_compress (input_chaining_value self) (block_words self) c (out_block_len self) (out_flags self OR ROOT)"
  have "length (concat (map word_out ws)) = 4 * length ws" for ws by (induction ws) auto
  then have "length (concat (map word_out ?w)) = 64" by (simp add: length_blake3_compress [OF assms])
  with less [of "n - 64"] show ?case by (subst root_bytes_from.simps) (auto simp: Let_def)
qed

lemma length_block_chain: "8 \<le> length key \<Longrightarrow> 8 \<le> length (block_chain key ctr fl b n)"
  by (induction n) (auto simp: length_blake3_compress)

lemma length_blake3_tree:
  assumes "8 \<le> length key"
  shows "length (blake3_tree key fl m n) = n"
proof -
  have "8 \<le> length (input_chaining_value (leaf key fl m i))" for i
    using assms by (simp add: leaf_def chunk_state_output_def chunk_state_of_def chunk_at_def length_block_chain)
  then have "8 \<le> length (input_chaining_value (tree_out key fl (leaves key fl m)))"
    using assms by (subst tree_out.simps) (auto simp: parent_output_def leaves_def hd_map simp del: upt_Suc)
  then show ?thesis by (simp add: blake3_tree_def output_root_bytes_def length_root_bytes)
qed

section \<open>The hash functions of the forks\<close>

interpretation uip1: node_hash blake2b_512
  by unfold_locales simp

interpretation b3_tree: ethash_hashes "\<lambda>m. blake3_tree IV 0 m 64" "\<lambda>m. blake3_tree IV 0 m 32"
  by unfold_locales (simp_all add: length_blake3_tree IV_def)

lemma take_blake3_tree: "take 32 (blake3_tree key fl m 64) = blake3_tree key fl m 32"
  by (simp add: blake3_tree_def output_root_bytes_def root_bytes_from.simps Let_def)

lemma b3_hashes:
  assumes "length m < 2 ^ 64"
  shows "b3_512 m = blake3_tree IV 0 m 64" and "b3_256 m = blake3_tree IV 0 m 32"
proof -
  have len: "length (replicate 54 ([] :: u32 list)) = 54" by simp
  obtain h where "blake3_hasher_update (blake3_hasher_init (replicate 54 [])) m = Some h" "absorbed IV 0 m (length m) h"
    using update_absorbed [OF absorbed_init [OF len], where m = m and x = m and y = "[]" and key = IV and fl = 0] assms
    by (auto simp: blake3_hasher_init_def)
  with finalize_absorbed [OF this(2)]
  show "b3_512 m = blake3_tree IV 0 m 64" and "b3_256 m = blake3_tree IV 0 m 32"
    by (simp_all add: b3_512_def b3_256_def blake3_hash_512_def blake3_hash_256_def)
qed

lemma b3_hash_tree:
  assumes "length header = 32"
  shows "b3_hash dag full_size header nonce ret
    = ethash_hash (\<lambda>m. blake3_tree IV 0 m 64) (\<lambda>m. blake3_tree IV 0 m 32) dag full_size header nonce ret"
proof -
  have h: "b3_512 (header @ bytes_of_word nonce) = blake3_tree IV 0 (header @ bytes_of_word nonce) 64"
    using assms by (intro b3_hashes) (simp add: len_simps)
  have "length (bytes_of_words (take 8 (mix :: u32 list))) \<le> 32" for mix by (simp add: len_simps)
  then have "length (bytes_of_words (words_of_bytes (blake3_tree IV 0 m 64) :: u32 list) @ bytes_of_words (take 8 (mix :: u32 list))) < 2 ^ 64"
    for m mix by (simp add: len_simps)
  then show ?thesis
    unfolding b3_hash_def ethash_hash_def Let_def h by (simp only: b3_hashes(2))
qed

lemma b3_light_compute_tree:
  assumes "length header = 32"
  shows "b3_light_compute_internal light c header nonce u
    = ethash_light_compute_internal SHA3_512 (\<lambda>m. blake3_tree IV 0 m 64) (\<lambda>m. blake3_tree IV 0 m 32) light c header nonce u"
  by (simp only: b3_light_compute_internal_def b3_hash_tree [OF assms] ethash_light_compute_internal_def
      b3_calculate_dag_item_def)

section \<open>Light clients\<close>

lemma unat_calc_epoch:
  "unat (etchash_calc_epoch bn fork_block) = unat bn div (if fork_block \<le> bn then 60000 else 30000)"
  by (simp add: etchash_calc_epoch_def Let_def ETHASH_EPOCH_LENGTH_def ETHASH_EPOCH_LENGTH_NEW_def unat_div_distrib)

lemma seed_loop_eq:
  assumes "unat epochs < 2 ^ 32"
  shows "seed_loop epochs 0 (replicate 32 0) = Some ((SHA3_256 ^^ unat epochs) (replicate 32 0))"
  using seed_loop_returns [of epochs 0 "replicate 32 0"] assms by simp

context node_hash
begin

lemma light_new_tabulated:
  assumes "malloc_ok a" and "calloc_ok a" and "\<And>csize. malloc a csize \<noteq> None" and "e < 2048"
  obtains c light where "map_option of_nat (rd cache_sizes e) = Some c"
    "ethash_light_new_internal h512 a c seed = Some (Some light)" "light_ok light"
    "cache light = memo_hash h512 seed (cache_sizes ! e div 64)"
proof -
  obtain c :: u64 and n where c: "map_option of_nat (rd cache_sizes e) = Some c" "unat c = 64 * n" "0 < n" "n < 2 ^ 24"
      "64 * n = cache_sizes ! e"
    using cache_table [OF assms(4)] by blast
  obtain nodes where nodes: "malloc a c = Some nodes" using assms(3) by blast
  have n: "n \<le> 2 ^ 31" using c(4) by simp
  have "n = cache_sizes ! e div 64" using c(5) [symmetric] by simp
  with light_new_internal_eq [OF assms(1,2) nodes c(2,3) n, of seed] show thesis
    using that c(1) by blast
qed

end

lemma ubq_light_new_internal_eq:
  "ubq_light_new_internal a csize seed uip = ethash_light_new_internal (if uip then blake2b_512 else SHA3_512) a csize seed"
  by (cases uip; cases "malloc a csize")
    (simp_all add: ubq_light_new_internal_def ethash_light_new_internal_def ethash_compute_cache_nodes_uip1_def
      ubq_compute_cache_nodes_def)

lemma light_ok_block_number [simp]: "light_ok (light\<lparr> block_number := bn \<rparr>) = light_ok light"
  by (simp add: light_ok_def)

text \<open>Hashing with the light client, for the forks that hash the header with Keccak.\<close>

lemma sha3_light_compute:
  assumes "light_ok light" and "e < 2048" and "length header = 32"
  shows "\<exists>c ret. map_option of_nat (rd dag_sizes e) = Some c
    \<and> ethash_light_compute_internal SHA3_512 SHA3_512 SHA3_256 light c header nonce uninit = Some ret
    \<and> hash_promise SHA3_512 SHA3_256 header nonce ret"
proof -
  obtain c :: u64 and n where c: "map_option of_nat (rd dag_sizes e) = Some c" "unat c = 128 * n" "0 < n" "2 * n < 2 ^ 32"
    using dag_table [OF assms(2)] by blast
  from sha3.light_compute_total [OF sha3.dag_item_total [OF assms(1)] c(2-4) assms(3), of nonce uninit] c(1)
  show ?thesis by blast
qed

section \<open>Full nodes and their files\<close>

lemma full_node_agrees:
  assumes "light_ok light" and "map_option of_nat (rd dag_sizes e) = Some sz"
    and "dag_runs dir seed sz light fs"
    and "ethash_full_new_internal env dir seed sz light callback fs = Some (Some full, fs')"
  shows "ethash_full_compute_internal m512 m256 (data full) (file_size full) header nonce u
       = ethash_light_compute_internal SHA3_512 m512 m256 light sz header nonce u"
proof -
  have "e < 2048" using assms(2) by (auto simp: rd_def split: if_splits)
  then obtain n where n: "unat sz = 128 * n" "0 < n" "2 * n < 2 ^ 32"
    using dag_table [of e] assms(2) by auto
  from full_new_ok [OF assms(1) n refl dag_runs_ok [OF assms(3,1) n] assms(4)]
  have "file_size full = sz" "data full = map (dag_item SHA3_512 light) [0..<2 * n]"
    by (simp_all add: full_ok_def)
  then show ?thesis using sha3.light_full_agree [OF assms(1) n] by simp
qed

definition home_of :: "string option \<Rightarrow> string option \<Rightarrow> string" where
  "home_of env_home pw_home =
     (if env_home = None \<or> env_home = Some [] then (case pw_home of Some d \<Rightarrow> d | None \<Rightarrow> the env_home) else the env_home)"

lemma default_dirname_eq:
  assumes "default_dirname suffix env_home pw_home n = Some (True, dir)"
  shows "dir = home_of env_home pw_home @ ''/'' @ suffix"
  using assms
  by (auto simp: default_dirname_def home_of_def Let_def cstr_at_def ethash_strncat_def nth_append
      split: option.splits if_splits)

lemma length_mutable_name: "length seed = 32 \<Longrightarrow> length (ethash_io_mutable_name 23 seed) = 25"
proof -
  assume "length seed = 32"
  moreover have "length (concat (map (\<lambda>b :: u8. [hex_digit (unat b div 16), hex_digit (unat b mod 16)]) bs)) = 2 * length bs" for bs
    by (induction bs) auto
  ultimately show ?thesis by (simp add: mutable_name_eq)
qed

lemma dag_path_suffix:
  assumes "length seed1 = 32" and "length seed2 = 32" and "s1 \<noteq> s2"
  shows "dag_path (home @ ''/'' @ s1) seed1 \<noteq> dag_path (home @ ''/'' @ s2) seed2"
proof
  let ?n1 = "''/'' @ ethash_io_mutable_name 23 seed1" and ?n2 = "''/'' @ ethash_io_mutable_name 23 seed2"
  assume "dag_path (home @ ''/'' @ s1) seed1 = dag_path (home @ ''/'' @ s2) seed2"
  then have "s1 @ ?n1 = s2 @ ?n2" by (simp add: dag_path_def create_filename_eq Let_def)
  moreover have "length ?n1 = length ?n2" using assms(1,2) by (simp add: length_mutable_name)
  ultimately have "s1 = s2" using append_eq_append_conv [of s1 s2 ?n1 ?n2] by blast
  then show False using assms(3) by contradiction
qed

section \<open>Properties\<close>

text \<open>
  Property C35: the light client of Etchash. Before the fork block an epoch has 30000 blocks, from it
  on 60000, and the two epoch numbers select the sizes; the seed counts 30000 blocks per hash in
  both. For every block and fork block with a tabulated epoch, when the allocations succeed,
  \<open>ethash_light_new\<close> returns the SeqMemoHash of that seed, and hashing with it succeeds with a
  result that the quick hash recomputes.
\<close>

theorem etchash_client_of_block:
  assumes "malloc_ok a" and "calloc_ok a" and "\<And>csize. malloc a csize \<noteq> None" and "length header = 32"
    and "e = unat bn div (if fork_block \<le> bn then 60000 else 30000)" and "e < 2048"
  shows "\<exists>light ret. etc_light_new a bn fork_block = Some light
    \<and> cache light = memo_hash SHA3_512 ((SHA3_256 ^^ (unat bn div 30000)) (replicate 32 0)) (cache_sizes ! e div 64)
    \<and> etc_light_compute light header nonce fork_block uninit = Some ret
    \<and> success ret \<and> etc_quick_hash header nonce (mix_hash ret) = result ret"
proof -
  let ?seed = "(SHA3_256 ^^ (unat bn div 30000)) (replicate 32 0)"
  have epoch: "unat (etchash_calc_epoch bn fork_block) = e" by (simp add: unat_calc_epoch assms(5))
  have "unat bn div 30000 < 2 ^ 32" using assms(5,6) by (auto split: if_splits)
  then have seed: "etc_get_seedhash bn = Some ?seed"
    unfolding etc_get_seedhash_def by (subst seed_loop_eq) (simp_all only: unat_epoch)
  obtain c l where c: "map_option of_nat (rd cache_sizes e) = Some c"
      "ethash_light_new_internal SHA3_512 a c ?seed = Some (Some l)" "light_ok l"
      "cache l = memo_hash SHA3_512 ?seed (cache_sizes ! e div 64)"
    using sha3.light_new_tabulated [OF assms(1-3,6)] by blast
  have new: "etc_light_new a bn fork_block = Some (l\<lparr> block_number := bn \<rparr>)"
    using seed c(2) c(1) [folded epoch, folded etc_get_cachesize_def]
    by (simp add: etc_light_new_def etc_light_new_internal_def set_block_number_def)
  have "light_ok (l\<lparr> block_number := bn \<rparr>)" using c(3) by simp
  from sha3_light_compute [OF this assms(6,4), of nonce uninit] obtain sz ret where
    ret: "map_option of_nat (rd dag_sizes e) = Some sz"
      "ethash_light_compute_internal SHA3_512 SHA3_512 SHA3_256 (l\<lparr> block_number := bn \<rparr>) sz header nonce uninit = Some ret"
      "hash_promise SHA3_512 SHA3_256 header nonce ret"
    by blast
  then have "etc_light_compute (l\<lparr> block_number := bn \<rparr>) header nonce fork_block uninit = Some ret"
    using ret(1) [folded epoch, folded etc_get_datasize_def]
    by (simp add: etc_light_compute_def etc_light_compute_internal_def)
  with new c(4) ret(3) show ?thesis by (auto simp: hash_promise_def etc_quick_hash_def)
qed

definition sample_allocator :: allocator where
  "sample_allocator = \<lparr> calloc_ok = True, malloc = \<lambda>n. Some (replicate (unat n div 64) []) \<rparr>"

lemma sample_allocator_ok:
  "malloc_ok sample_allocator" "calloc_ok sample_allocator" "malloc sample_allocator csize \<noteq> None"
  by (simp_all add: sample_allocator_def malloc_ok_def)

definition sample_return :: ethash_return_value where
  "sample_return = \<lparr> result = [], mix_hash = [], success = False \<rparr>"

theorem etchash_client_of_block_witness:
  "\<exists>light ret. etc_light_new sample_allocator 11700000 11700000 = Some light
    \<and> etc_light_compute light (replicate 32 0) 7 11700000 sample_return = Some ret \<and> success ret"
  using etchash_client_of_block [OF sample_allocator_ok, of "replicate 32 0" 195 11700000 11700000 7 sample_return]
  by auto

text \<open>
  The light client of Ubqhash. From block 660000 on, epoch 22, the cache is the
  SeqMemoHash of the seed over BLAKE2b-512, before it over Keccak-512; in both cases
  \<open>ethash_light_new\<close> returns it for every tabulated epoch and hashing with it succeeds with a
  result that the quick hash recomputes.
\<close>

theorem ubqhash_client_of_block:
  assumes "malloc_ok a" and "calloc_ok a" and "\<And>csize. malloc a csize \<noteq> None" and "length header = 32"
    and "e = unat bn div 30000" and "e < 2048"
  shows "\<exists>light ret. ubq_light_new a bn = Some light
    \<and> cache light = memo_hash (if 22 \<le> e then blake2b_512 else SHA3_512)
         ((SHA3_256 ^^ e) (replicate 32 0)) (cache_sizes ! e div 64)
    \<and> ubq_light_compute light header nonce uninit = Some ret
    \<and> success ret \<and> ubq_quick_hash header nonce (mix_hash ret) = result ret"
proof -
  let ?seed = "(SHA3_256 ^^ e) (replicate 32 0)"
  define h where "h = (if 22 \<le> e then blake2b_512 else SHA3_512)"
  have "unat (bn div ETHASH_EPOCH_LENGTH) < 2 ^ 32" using assms(6) unfolding unat_epoch assms(5) [symmetric] by simp
  then have seed: "ubq_get_seedhash bn = Some ?seed"
    unfolding ubq_get_seedhash_def by (subst seed_loop_eq) (simp_all only: unat_epoch assms(5) [symmetric])
  have e: "unat (bn div ETHASH_EPOCH_LENGTH) = e" by (simp add: unat_epoch assms(5))
  have "22 \<le> e \<longleftrightarrow> ETHASH_EPOCH_LENGTH * UBQHASH_UIP1_EPOCH \<le> bn"
    unfolding assms(5) by (auto simp: ETHASH_EPOCH_LENGTH_def UBQHASH_UIP1_EPOCH_def word_le_nat_alt)
  then have fork: "(if ETHASH_EPOCH_LENGTH * UBQHASH_UIP1_EPOCH \<le> bn then ubq_light_new_internal a c ?seed True
      else ubq_light_new_internal a c ?seed False) = ethash_light_new_internal h a c ?seed" for c
    by (simp add: h_def ubq_light_new_internal_eq)
  have "node_hash h" by (simp add: h_def uip1.node_hash_axioms sha3.node_hash_axioms)
  then obtain c l where c: "map_option of_nat (rd cache_sizes e) = Some c"
      "ethash_light_new_internal h a c ?seed = Some (Some l)" "light_ok l"
      "cache l = memo_hash h ?seed (cache_sizes ! e div 64)"
    using node_hash.light_new_tabulated [OF _ assms(1-3,6)] by blast
  have new: "ubq_light_new a bn = Some (l\<lparr> block_number := bn \<rparr>)"
    using seed c(2) c(1) [folded e, folded ubq_get_cachesize_def] by (simp add: ubq_light_new_def fork set_block_number_def)
  have "light_ok (l\<lparr> block_number := bn \<rparr>)" using c(3) by simp
  from sha3_light_compute [OF this assms(6,4), of nonce uninit] obtain sz ret where
    ret: "map_option of_nat (rd dag_sizes e) = Some sz"
      "ethash_light_compute_internal SHA3_512 SHA3_512 SHA3_256 (l\<lparr> block_number := bn \<rparr>) sz header nonce uninit = Some ret"
      "hash_promise SHA3_512 SHA3_256 header nonce ret"
    by blast
  then have "ubq_light_compute (l\<lparr> block_number := bn \<rparr>) header nonce uninit = Some ret"
    using ret(1) [folded e, folded ubq_get_datasize_def]
    by (simp add: ubq_light_compute_def ubq_light_compute_internal_def)
  with new c(4) ret(3) show ?thesis by (auto simp: hash_promise_def ubq_quick_hash_def h_def)
qed

theorem ubqhash_client_of_block_witness:
  "\<exists>light ret. ubq_light_new sample_allocator 660000 = Some light
    \<and> ubq_light_compute light (replicate 32 0) 7 sample_return = Some ret \<and> success ret"
  using ubqhash_client_of_block [OF sample_allocator_ok, of "replicate 32 0" 22 660000 7 sample_return] by auto

text \<open>
  Property C36: EthashB3 and its quick hash. For every tabulated epoch of 32000 blocks the light
  client exists and hashing with it succeeds: the result is BLAKE3-256 of BLAKE3-512 of header and
  nonce, followed by the mix. The quick hash of the same header, nonce and mix still is Keccak-256
  of Keccak-512, so the library's quick verification tests another number than the one that is
  mined.
\<close>

theorem ethashb3_client_of_block:
  assumes "malloc_ok a" and "calloc_ok a" and "\<And>csize. malloc a csize \<noteq> None" and "length header = 32"
    and "unat bn div 32000 < 2048"
  shows "\<exists>light ret. b3_light_new a bn = Some light
    \<and> b3_light_compute light header nonce uninit = Some ret
    \<and> success ret \<and> length (mix_hash ret) = 32
    \<and> result ret = b3_256 (b3_512 (header @ bytes_of_word nonce) @ mix_hash ret)
    \<and> b3_quick_hash header nonce (mix_hash ret) = SHA3_256 (SHA3_512 (header @ bytes_of_word nonce) @ mix_hash ret)"
proof -
  define e where "e = unat bn div 32000"
  let ?seed = "(SHA3_256 ^^ e) (replicate 32 0)"
  have e: "unat (bn div B3_EPOCH_LENGTH) = e" by (simp add: e_def B3_EPOCH_LENGTH_def unat_div_distrib)
  have lt: "e < 2048" using assms(5) by (simp add: e_def)
  then have seed: "b3_get_seedhash bn = Some ?seed"
    unfolding b3_get_seedhash_def by (subst seed_loop_eq) (simp_all add: e)
  obtain c l where c: "map_option of_nat (rd cache_sizes e) = Some c"
      "ethash_light_new_internal SHA3_512 a c ?seed = Some (Some l)" "light_ok l"
      "cache l = memo_hash SHA3_512 ?seed (cache_sizes ! e div 64)"
    using sha3.light_new_tabulated [OF assms(1-3) lt] by blast
  have new: "b3_light_new a bn = Some (l\<lparr> block_number := bn \<rparr>)"
    using seed c(2) c(1) [folded e, folded b3_get_cachesize_def]
    by (simp add: b3_light_new_def b3_light_new_internal_def set_block_number_def)
  let ?l = "l\<lparr> block_number := bn \<rparr>"
  have ok: "light_ok ?l" using c(3) by simp
  obtain sz :: u64 and n where sz: "map_option of_nat (rd dag_sizes e) = Some sz" "unat sz = 128 * n" "0 < n" "2 * n < 2 ^ 32"
    using dag_table [OF lt] by blast
  from b3_tree.light_compute_total [OF sha3.dag_item_total [OF ok] sz(2-4) assms(4), of nonce uninit]
  obtain ret where ret: "b3_light_compute_internal ?l sz header nonce uninit = Some ret"
      "hash_promise (\<lambda>m. blake3_tree IV 0 m 64) (\<lambda>m. blake3_tree IV 0 m 32) header nonce ret"
    unfolding b3_light_compute_tree [OF assms(4)] by blast
  from ret(1) have compute: "b3_light_compute ?l header nonce uninit = Some ret"
    unfolding b3_light_compute_def by (simp add: sz(1) [folded e, folded b3_get_datasize_def])
  have m: "success ret" "length (mix_hash ret) = 32"
    and r: "ethash_quick_hash (\<lambda>m. blake3_tree IV 0 m 64) (\<lambda>m. blake3_tree IV 0 m 32) header nonce (mix_hash ret) = result ret"
    using ret(2) by (simp_all only: hash_promise_def)
  let ?m = "header @ bytes_of_word nonce"
  have "b3_512 ?m = blake3_tree IV 0 ?m 64"
    using assms(4) by (intro b3_hashes) (simp add: len_simps)
  moreover have "b3_256 (blake3_tree IV 0 ?m 64 @ mix_hash ret) = blake3_tree IV 0 (blake3_tree IV 0 ?m 64 @ mix_hash ret) 32"
    by (intro b3_hashes) (simp add: m(2) length_blake3_tree IV_def)
  ultimately have "result ret = b3_256 (b3_512 ?m @ mix_hash ret)"
    using r unfolding b3_tree.quick_hash_eq [OF assms(4) m(2)] by simp
  moreover have "b3_quick_hash header nonce (mix_hash ret) = SHA3_256 (SHA3_512 ?m @ mix_hash ret)"
    unfolding b3_quick_hash_def by (rule sha3.quick_hash_eq [OF assms(4) m(2)])
  ultimately show ?thesis using new compute m by blast
qed

theorem ethashb3_client_of_block_witness:
  "\<exists>light ret. b3_light_new sample_allocator 64000 = Some light
    \<and> b3_light_compute light (replicate 32 0) 7 sample_return = Some ret \<and> success ret"
  using ethashb3_client_of_block [OF sample_allocator_ok, of "replicate 32 0" 64000 7 sample_return] by auto

text \<open>A file system after runs of a fork's full node on its DAG file.\<close>

definition after_runs :: "(bool \<times> string) option \<Rightarrow> u64 option \<Rightarrow> bytes option \<Rightarrow> ethash_light \<Rightarrow> fs \<Rightarrow> bool" where
  "after_runs dirname sz seed light fs \<longleftrightarrow>
     (\<exists>dir n s. dirname = Some (True, dir) \<and> sz = Some n \<and> seed = Some s \<and> dag_runs dir s n light fs)"

text \<open>
  Property C37: the full nodes of the three forks. For a light client with a well-formed cache, over
  every sequence of successful, failing, stopped and killed runs on the fork's DAG file, a handle
  that \<open>ethash_full_new\<close> returns hashes every header and nonce as the fork's light client does.
\<close>

theorem fork_full_nodes_agree:
  assumes "light_ok light"
  shows "(after_runs (etc_get_default_dirname env_home pw_home 256) (etc_get_datasize (block_number light) fork_block)
        (etc_get_seedhash (block_number light)) light fs
      \<and> etc_full_new e env_home pw_home light fork_block callback fs = Some (Some full, fs')
      \<longrightarrow> etc_full_compute full header nonce u = etc_light_compute light header nonce fork_block u)
    \<and> (after_runs (ubq_get_default_dirname env_home pw_home 256) (ubq_get_datasize (block_number light))
        (ubq_get_seedhash (block_number light)) light fs
      \<and> ubq_full_new e env_home pw_home light callback fs = Some (Some full, fs')
      \<longrightarrow> ubq_full_compute full header nonce u = ubq_light_compute light header nonce u)
    \<and> (after_runs (b3_get_default_dirname env_home pw_home 256) (b3_get_datasize (block_number light))
        (b3_get_seedhash (block_number light)) light fs
      \<and> b3_full_new e env_home pw_home light callback fs = Some (Some full, fs')
      \<longrightarrow> b3_full_compute full header nonce u = b3_light_compute light header nonce u)"
proof (intro conjI impI; elim conjE)
  assume "after_runs (etc_get_default_dirname env_home pw_home 256) (etc_get_datasize (block_number light) fork_block)
      (etc_get_seedhash (block_number light)) light fs"
    and new: "etc_full_new e env_home pw_home light fork_block callback fs = Some (Some full, fs')"
  then obtain dir n s where d: "etc_get_default_dirname env_home pw_home 256 = Some (True, dir)"
      "etc_get_datasize (block_number light) fork_block = Some n" "etc_get_seedhash (block_number light) = Some s"
      "dag_runs dir s n light fs"
    by (auto simp: after_runs_def)
  have "ethash_full_new_internal e dir s n light callback fs = Some (Some full, fs')"
    using new d(1-3) by (simp add: etc_full_new_def etc_full_new_internal_def)
  from full_node_agrees [OF assms d(2) [unfolded etc_get_datasize_def] d(4) this]
  show "etc_full_compute full header nonce u = etc_light_compute light header nonce fork_block u"
    unfolding etc_full_compute_def etc_hash_def ethash_full_compute_internal_def [symmetric]
    by (simp add: etc_light_compute_def d(2) etc_light_compute_internal_def)
next
  assume "after_runs (ubq_get_default_dirname env_home pw_home 256) (ubq_get_datasize (block_number light))
      (ubq_get_seedhash (block_number light)) light fs"
    and new: "ubq_full_new e env_home pw_home light callback fs = Some (Some full, fs')"
  then obtain dir n s where d: "ubq_get_default_dirname env_home pw_home 256 = Some (True, dir)"
      "ubq_get_datasize (block_number light) = Some n" "ubq_get_seedhash (block_number light) = Some s"
      "dag_runs dir s n light fs"
    by (auto simp: after_runs_def)
  have "ethash_full_new_internal e dir s n light callback fs = Some (Some full, fs')"
    using new d(1-3) by (simp add: ubq_full_new_def ubq_full_new_internal_def)
  from full_node_agrees [OF assms d(2) [unfolded ubq_get_datasize_def] d(4) this]
  show "ubq_full_compute full header nonce u = ubq_light_compute light header nonce u"
    unfolding ubq_full_compute_def ubq_hash_def ethash_full_compute_internal_def [symmetric]
    by (simp add: ubq_light_compute_def d(2) ubq_light_compute_internal_def)
next
  assume "after_runs (b3_get_default_dirname env_home pw_home 256) (b3_get_datasize (block_number light))
      (b3_get_seedhash (block_number light)) light fs"
    and new: "b3_full_new e env_home pw_home light callback fs = Some (Some full, fs')"
  then obtain dir n s where d: "b3_get_default_dirname env_home pw_home 256 = Some (True, dir)"
      "b3_get_datasize (block_number light) = Some n" "b3_get_seedhash (block_number light) = Some s"
      "dag_runs dir s n light fs"
    by (auto simp: after_runs_def)
  have "ethash_full_new_internal e dir s n light callback fs = Some (Some full, fs')"
    using new d(1-3) by (simp add: b3_full_new_def b3_full_new_internal_def)
  from full_node_agrees [OF assms d(2) [unfolded b3_get_datasize_def] d(4) this]
  show "b3_full_compute full header nonce u = b3_light_compute light header nonce u"
    unfolding b3_full_compute_def b3_hash_def ethash_full_compute_internal_def [symmetric]
    by (simp add: b3_light_compute_def d(2) b3_light_compute_internal_def b3_calculate_dag_item_def
        b3_hash_def ethash_light_compute_internal_def [symmetric])
qed

theorem fork_full_nodes_agree_witness:
  "\<exists>full fs'. b3_full_new sample_env (Some ''/home/pool'') None sample_light None Map.empty = Some (Some full, fs')
     \<and> b3_full_compute full (replicate 32 0) 7 sample_return = b3_light_compute sample_light (replicate 32 0) 7 sample_return"
proof -
  have dir: "b3_get_default_dirname (Some ''/home/pool'') None 256 = Some (True, ''/home/pool/.Ethash-B3/'')"
    by (simp add: b3_get_default_dirname_def default_dirname_def cstr_at_def ethash_strncat_def)
  have seed: "b3_get_seedhash (block_number sample_light) = Some (replicate 32 0)"
    using seed_loop_eq [of 0] by (simp add: b3_get_seedhash_def sample_light_def)
  obtain n k where n: "b3_get_datasize (block_number sample_light) = Some n" "unat n = 128 * k" "0 < k" "2 * k < 2 ^ 32"
    using dag_table [of 0] by (auto simp: b3_get_datasize_def sample_light_def)
  obtain full fs' where new: "b3_full_new sample_env (Some ''/home/pool'') None sample_light None Map.empty = Some (Some full, fs')"
    using full_new_succeeds [OF sample_ok(1) n(2-4) sample_ok(2), of "''/home/pool/.Ethash-B3/''" "replicate 32 0" Map.empty]
    by (auto simp: b3_full_new_def dir seed n(1) b3_full_new_internal_def)
  have "after_runs (b3_get_default_dirname (Some ''/home/pool'') None 256) (b3_get_datasize (block_number sample_light))
      (b3_get_seedhash (block_number sample_light)) sample_light Map.empty"
    by (auto simp: after_runs_def dir seed n(1) intro: no_file)
  with new show ?thesis using fork_full_nodes_agree [OF sample_ok(1)] by blast
qed

text \<open>
  The four libraries can share a home directory. The DAG files carry the same names in
  all of them, but the default directories of Ethash, Etchash, Ubqhash and EthashB3 differ, so
  whatever the seeds are no library opens the DAG file of another.
\<close>

theorem fork_dag_files_differ:
  assumes "ethash_get_default_dirname env_home pw_home 256 = Some (True, d1)"
    and "etc_get_default_dirname env_home pw_home 256 = Some (True, d2)"
    and "ubq_get_default_dirname env_home pw_home 256 = Some (True, d3)"
    and "b3_get_default_dirname env_home pw_home 256 = Some (True, d4)"
    and "length s1 = 32" and "length s2 = 32" and "length s3 = 32" and "length s4 = 32"
  shows "distinct [dag_path d1 s1, dag_path d2 s2, dag_path d3 s3, dag_path d4 s4]"
proof -
  let ?home = "home_of env_home pw_home"
  have d: "d1 = ?home @ ''/'' @ ''.ethash/''" "d2 = ?home @ ''/'' @ ''.etchash/''"
    "d3 = ?home @ ''/'' @ ''.ubqhash/''" "d4 = ?home @ ''/'' @ ''.Ethash-B3/''"
    by (rule default_dirname_eq, fact assms(1-4) [unfolded ethash_get_default_dirname_def etc_get_default_dirname_def
          ubq_get_default_dirname_def b3_get_default_dirname_def])+
  have "distinct [''.ethash/'', ''.etchash/'', ''.ubqhash/'', ''.Ethash-B3/'']" by simp
  then show ?thesis
    unfolding d distinct.simps list.set insert_iff empty_iff de_Morgan_disj
    by (intro conjI dag_path_suffix assms(5-8)) simp_all
qed

theorem fork_dag_files_differ_witness:
  "dag_path ''/h/.ethash/'' (replicate 32 0) \<noteq> dag_path ''/h/.etchash/'' (replicate 32 0)"
  using fork_dag_files_differ [of "Some ''/h''" None "''/h/.ethash/''" "''/h/.etchash/''" "''/h/.ubqhash/''" "''/h/.Ethash-B3/''"
      "replicate 32 0" "replicate 32 0" "replicate 32 0" "replicate 32 0"]
  by (simp add: ethash_get_default_dirname_def etc_get_default_dirname_def ubq_get_default_dirname_def
      b3_get_default_dirname_def default_dirname_def cstr_at_def ethash_strncat_def)

end
