(* ===== verification/Varint.thy ===== *)
theory Varint
  imports Prelude
begin

text \<open>
  The variable-length integers of Cryptonote, \<open>libcryptonote/common/varint.h\<close>, for \<open>uint64_t\<close>: seven
  bits per byte, the lowest first, the top bit set on all but the last byte. The theorems: what
  \<open>write_varint\<close> writes \<open>read_varint\<close> reads back, whatever follows, and \<open>read_varint\<close> accepts no
  other encoding of a number, except that input which ends too early is not an error.
\<close>

section \<open>The code\<close>

function write_varint :: "u64 \<Rightarrow> bytes" where
  "write_varint i =
     (if 0x80 \<le> i then ((ucast i AND 0x7f) OR 0x80) # write_varint (drop_bit 7 i) else [ucast i])"
  by pat_completeness auto
termination
  by (relation "measure unat") (auto simp: unat_drop_bit word_le_nat_alt)

declare write_varint.simps [simp del]

definition get_varint_data :: "u64 \<Rightarrow> bytes" where
  "get_varint_data v = write_varint v"

text \<open>
  The loop of \<open>read_varint\<close> at \<open>bits = 64\<close>: the result, the number so far and the rest of the input. The
  result is the number of bytes read, -1 for an overflow and -2 for a non-canonical encoding. The
  first test only shifts by \<open>bits - shift\<close> when \<open>shift\<close> is at least 57.
\<close>

fun read_varint_from :: "bytes \<Rightarrow> nat \<Rightarrow> int \<Rightarrow> u64 \<Rightarrow> int \<times> u64 \<times> bytes" where
  "read_varint_from [] shift n i = (n, i, [])"
| "read_varint_from (byte # rest) shift n i =
     (if 64 \<le> shift + 7 \<and> (1 :: nat) * 2 ^ (64 - shift) \<le> unat byte then (- 1, i, rest)
      else if byte = 0 \<and> shift \<noteq> 0 then (- 2, i, rest)
      else let i = i OR push_bit shift (ucast (byte AND 0x7f)) in
        if byte AND 0x80 = 0 then (n + 1, i, rest)
        else read_varint_from rest (shift + 7) (n + 1) i)"

definition read_varint :: "bytes \<Rightarrow> int \<times> u64 \<times> bytes" where
  "read_varint input = read_varint_from input 0 0 0"

section \<open>Bytes of a varint\<close>

lemma bit_7_byte: "bit (byte :: u8) 7 \<longleftrightarrow> 128 \<le> unat byte"
proof -
  have "bit (unat byte) 7 \<longleftrightarrow> bit byte 7"
    using bit_unsigned_iff [of byte 7, where ?'a = nat] bit_imp_le_length [of byte 7] by auto
  moreover have "bit (unat byte) 7 \<longleftrightarrow> odd (unat byte div 128)" by (simp only: bit_iff_odd) simp
  moreover have "unat byte div 128 = (if 128 \<le> unat byte then 1 else 0)"
    by (auto intro!: div_nat_eqI)
  ultimately show ?thesis by (metis odd_one even_zero)
qed

lemma bit_7f: "bit (0x7f :: 'a::len word) k \<longleftrightarrow> k < 7 \<and> k < LENGTH('a)"
proof -
  have "(0x7f :: 'a word) = mask 7" by (simp add: mask_eq_exp_minus_1)
  then show ?thesis by (simp only: bit_mask_iff) (auto simp: bit_simps)
qed

lemma bit_80: "bit (0x80 :: u8) k \<longleftrightarrow> k = 7"
proof -
  have "(0x80 :: u8) = push_bit 7 1" by (simp add: push_bit_eq_mult)
  then show ?thesis by (simp only: bit_push_bit_iff) (auto simp: bit_1_iff)
qed

lemma byte_top_bit: "byte AND 0x80 = 0 \<longleftrightarrow> unat (byte :: u8) < 128"
proof -
  have "byte AND 0x80 = (if bit byte 7 then 0x80 else 0)"
    by (rule bit_word_eqI) (auto simp: bit_and_iff bit_80 simp del: bit_numeral_word_iff)
  then show ?thesis by (simp add: bit_7_byte not_le)
qed

text \<open>The three facts about a byte that carries seven bits of \<open>i\<close> and announces more.\<close>

lemma more_byte:
  fixes i :: u64
  defines "b \<equiv> (ucast i AND 0x7f) OR (0x80 :: u8)"
  shows "128 \<le> unat b" and "push_bit s (ucast (b AND 0x7f)) = push_bit s (i AND 0x7f)"
proof -
  show "128 \<le> unat b" unfolding bit_7_byte [symmetric] b_def bit_or_iff bit_80 by simp
  have "ucast (b AND 0x7f) = i AND 0x7f"
    by (rule bit_word_eqI) (auto simp: b_def bit_and_iff bit_or_iff bit_unsigned_iff bit_7f bit_80 simp del: bit_numeral_word_iff)
  then show "push_bit s (ucast (b AND 0x7f)) = push_bit s (i AND 0x7f)" by simp
qed

lemma bit_below:
  fixes w :: "'a::len word"
  assumes "bit w k" and "unat w < 2 ^ m"
  shows "k < m"
proof (rule ccontr)
  assume "\<not> k < m"
  then have "(2 :: nat) ^ m \<le> 2 ^ k" by (intro power_increasing) auto
  with assms(2) have "unat w < 2 ^ k" by (rule less_le_trans)
  then have "unat w div 2 ^ k = 0" by simp
  moreover have "bit (unat w) k" using assms(1) bit_imp_le_length [of w k] by (simp add: bit_unsigned_iff)
  ultimately show False by (simp add: bit_iff_odd)
qed

lemma last_byte:
  fixes i :: u64
  assumes "i < 0x80"
  shows "unat (ucast i :: u8) = unat i" and "ucast ((ucast i :: u8) AND 0x7f) = i"
proof -
  have i: "unat i < 128" using assms by (simp add: word_less_nat_alt)
  then show u: "unat (ucast i :: u8) = unat i" by (simp add: unsigned_ucast_eq take_bit_nat_eq_self)
  have lt: "k < 7" if "bit i k" for k
    using bit_below [OF that, of 7] i by simp
  then have "k < 8" if "bit i k" for k
    using lt [OF that] by simp
  with lt show "ucast ((ucast i :: u8) AND 0x7f) = i"
    by (intro bit_word_eqI) (auto simp: bit_and_iff bit_unsigned_iff bit_7f simp del: bit_numeral_word_iff)
qed

lemma or_shifts:
  fixes i :: u64
  shows "(acc OR push_bit s (i AND 0x7f)) OR push_bit (s + 7) (drop_bit 7 i) = acc OR push_bit s i"
proof (rule bit_word_eqI)
  fix n
  assume "n < LENGTH(64)"
  moreover have "7 + (n - (s + 7)) = n - s" if "\<not> n - s < 7" using that by simp
  ultimately show "bit ((acc OR push_bit s (i AND 0x7f)) OR push_bit (s + 7) (drop_bit 7 i)) n = bit (acc OR push_bit s i) n"
    by (cases "n - s < 7")
      (auto simp: bit_and_iff bit_or_iff bit_push_bit_iff bit_drop_bit_eq bit_7f simp del: bit_numeral_word_iff)
qed

section \<open>Reading back\<close>

lemma read_write:
  assumes "s < 64" and "unat v < 2 ^ (64 - s)" and "s \<noteq> 0 \<longrightarrow> v \<noteq> 0"
  shows "read_varint_from (write_varint v @ rest) s n acc = (n + int (length (write_varint v)), acc OR push_bit s v, rest)"
  using assms
proof (induction v arbitrary: s n acc rule: write_varint.induct)
  case (1 v)
  show ?case
  proof (cases "0x80 \<le> v")
    case True
    have v: "128 \<le> unat v" using True by (simp add: word_le_nat_alt)
    have s: "s + 7 < 64"
    proof (rule ccontr)
      assume "\<not> s + 7 < 64"
      then have "(2 :: nat) ^ (64 - s) \<le> 2 ^ 7" by (intro power_increasing) auto
      with v 1 show False by simp
    qed
    have e: "64 - s = (64 - (s + 7)) + 7" using s by simp
    have "unat v < 2 ^ (64 - (s + 7)) * 2 ^ 7" using "1.prems"(2) unfolding e power_add .
    then have d: "unat (drop_bit 7 v) < 2 ^ (64 - (s + 7))"
      by (simp add: unat_drop_bit less_mult_imp_div_less)
    have "unat (drop_bit 7 v) \<noteq> 0" using v by (simp add: unat_drop_bit div_eq_0_iff)
    then have nz: "drop_bit 7 v \<noteq> 0" by auto
    have b: "\<not> unat ((ucast v AND 0x7f) OR 0x80 :: u8) < 128" "(ucast v AND 0x7f) OR (0x80 :: u8) \<noteq> 0"
      using more_byte(1) [of v] by (auto simp del: bit_numeral_word_iff)
    show ?thesis
      using "1.IH" [OF True s d] nz True b s or_shifts [of acc s v] more_byte(2) [of s v]
      by (simp add: write_varint.simps [of v] byte_top_bit Let_def)
  next
    case False
    then have v: "v < 0x80" by simp
    have "unat v < 128" using v by (simp add: word_less_nat_alt)
    moreover have "ucast v = (0 :: u8) \<longrightarrow> v = 0" using last_byte(1) [OF v] by (metis unsigned_0 unsigned_eq_0_iff)
    ultimately show ?thesis
      using False "1.prems" last_byte [OF v]
      by (auto simp: write_varint.simps [of v] byte_top_bit Let_def)
  qed
qed

lemma join_byte:
  fixes w :: u64
  assumes "128 \<le> unat b" and "unat w < 2 ^ (57 - s)" and "s < 57"
  defines "j \<equiv> ucast (b AND 0x7f) OR push_bit 7 w"
  shows "drop_bit 7 j = w" and "(ucast j AND 0x7f) OR 0x80 = (b :: u8)"
    and "(acc OR push_bit s (ucast (b AND 0x7f))) OR push_bit (s + 7) w = acc OR push_bit s j"
proof -
  have lt: "k < 57" if "bit w k" for k
    using bit_below [OF that assms(2)] by simp
  have low: "\<not> bit (b AND 0x7f) (7 + k)" for k by (simp add: bit_and_iff bit_7f del: bit_numeral_word_iff)
  show "drop_bit 7 j = w"
    by (rule bit_word_eqI) (auto simp: j_def bit_drop_bit_eq bit_or_iff bit_unsigned_iff bit_push_bit_iff low dest: lt)
  have b7: "bit b 7" using assms(1) by (simp add: bit_7_byte)
  show "(ucast j AND 0x7f) OR 0x80 = b"
  proof (rule bit_word_eqI)
    fix n
    assume "n < LENGTH(8)"
    then show "bit ((ucast j AND 0x7f) OR 0x80 :: u8) n = bit b n"
      using b7 by (cases "n = 7")
        (auto simp: j_def bit_or_iff bit_and_iff bit_unsigned_iff bit_push_bit_iff bit_7f bit_80 simp del: bit_numeral_word_iff)
  qed
  show "(acc OR push_bit s (ucast (b AND 0x7f))) OR push_bit (s + 7) w = acc OR push_bit s j"
    by (rule bit_word_eqI) (auto simp: j_def bit_or_iff bit_push_bit_iff diff_diff_left)
qed

lemma read_inv:
  assumes "read_varint_from bs s n acc = (r, v, rest)" and "0 \<le> n" and "0 \<le> r" and "s < 64"
  shows "(\<exists>w. bs = write_varint w @ rest \<and> v = acc OR push_bit s w \<and> unat w < 2 ^ (64 - s) \<and> (s \<noteq> 0 \<longrightarrow> w \<noteq> 0))
    \<or> rest = [] \<and> s + 7 * length bs < 64 \<and> (\<forall>b \<in> set bs. 128 \<le> unat b)"
  using assms
proof (induction bs s n acc rule: read_varint_from.induct)
  case (2 b bs s n acc)
  have over: "64 \<le> s + 7 \<Longrightarrow> unat b < 2 ^ (64 - s)" and canon: "s \<noteq> 0 \<Longrightarrow> b \<noteq> 0"
    using "2.prems"(1,3) by (auto split: if_splits)
  have unf: "read_varint_from (b # bs) s n acc
      = (if unat b < 128 then (n + 1, acc OR push_bit s (ucast (b AND 0x7f)), bs)
         else read_varint_from bs (s + 7) (n + 1) (acc OR push_bit s (ucast (b AND 0x7f))))"
    using over canon by (auto simp: byte_top_bit Let_def)
  show ?case
  proof (cases "unat b < 128")
    case True
    let ?w = "ucast b :: u64"
    have "unat b < 2 ^ 64" using True by simp
    then have u: "unat ?w = unat b" by (simp add: unsigned_ucast_eq take_bit_nat_eq_self)
    have lt: "k < 7" if "bit b k" for k using bit_below [OF that, of 7] True by simp
    then have "ucast (b AND 0x7f) = ?w"
      by (intro bit_word_eqI) (auto simp: bit_unsigned_iff bit_and_iff bit_7f simp del: bit_numeral_word_iff dest: bit_imp_le_length)
    moreover have "ucast ?w = b" by (rule bit_word_eqI) (auto simp: bit_unsigned_iff)
    moreover have "\<not> 0x80 \<le> ?w" using True u by (simp add: word_le_nat_alt)
    moreover have "unat ?w < 2 ^ (64 - s)"
    proof (cases "64 \<le> s + 7")
      case False
      then have "(2 :: nat) ^ 7 \<le> 2 ^ (64 - s)" by (intro power_increasing) auto
      with True u show ?thesis by simp
    qed (simp add: u over)
    moreover have "s \<noteq> 0 \<Longrightarrow> ?w \<noteq> 0" using canon u by (metis unsigned_0 unsigned_eq_0_iff)
    ultimately show ?thesis
      using "2.prems"(1) unf True by (intro disjI1 exI [of _ ?w]) (simp add: write_varint.simps [of ?w])
  next
    case False
    have s: "s < 57"
    proof (rule ccontr)
      assume "\<not> s < 57"
      then have "unat b < 2 ^ (64 - s)" using over by simp
      moreover from \<open>\<not> s < 57\<close> have "(2 :: nat) ^ (64 - s) \<le> 2 ^ 7" by (intro power_increasing) auto
      ultimately have "unat b < 128" by simp
      with False show False by simp
    qed
    let ?acc = "acc OR push_bit s (ucast (b AND 0x7f))"
    have rd: "read_varint_from bs (s + 7) (n + 1) ?acc = (r, v, rest)" using "2.prems"(1) unf False by simp
    have c1: "\<not> (64 \<le> s + 7 \<and> 1 * 2 ^ (64 - s) \<le> unat b)" "\<not> (b = 0 \<and> s \<noteq> 0)" "\<not> b AND 0x80 = 0"
      using over canon False by (auto simp: byte_top_bit)
    have ih: "(\<exists>w. bs = write_varint w @ rest \<and> v = ?acc OR push_bit (s + 7) w \<and> unat w < 2 ^ (57 - s) \<and> w \<noteq> 0)
        \<or> rest = [] \<and> s + 7 + 7 * length bs < 64 \<and> (\<forall>b \<in> set bs. 128 \<le> unat b)"
      using "2.IH" [OF c1(1,2) refl c1(3) rd] "2.prems"(2,3) s by auto
    show ?thesis
    proof (cases "rest = [] \<and> s + 7 + 7 * length bs < 64 \<and> (\<forall>b \<in> set bs. 128 \<le> unat b)")
      case True
      with False show ?thesis by auto
    next
      case not_cut_off: False
      with ih obtain w where w: "bs = write_varint w @ rest" "v = ?acc OR push_bit (s + 7) w" "unat w < 2 ^ (57 - s)" "w \<noteq> 0"
        by blast
      define j where "j = ucast (b AND 0x7f) OR push_bit 7 w"
      note jw = join_byte [OF _ w(3) s, of b, folded j_def]
      have b: "128 \<le> unat b" using False by simp
      have div: "unat j div 128 = unat w" using jw(1) [OF b] unat_drop_bit [of 7 j] by simp
      moreover have "unat w \<noteq> 0" using w(4) by (simp add: unsigned_eq_0_iff)
      ultimately have "128 \<le> unat j" by (metis div_less not_le)
      then have "write_varint j = b # write_varint w"
        using jw(1,2) [OF b] by (simp add: write_varint.simps [of j] word_le_nat_alt)
      moreover have "unat j < 2 ^ (64 - s)"
      proof -
        have "unat j < 128 * Suc (unat w)" using div by (simp add: dividend_less_times_div)
        also have "\<dots> \<le> 2 ^ 7 * 2 ^ (57 - s)" using w(3) by simp
        also have "\<dots> = 2 ^ (7 + (57 - s))" by (rule power_add [symmetric])
        also have "7 + (57 - s) = 64 - s" using s by simp
        finally show ?thesis .
      qed
      moreover have "j \<noteq> 0" using \<open>128 \<le> unat j\<close> by auto
      ultimately show ?thesis using w(1,2) jw(3) [OF b, of acc] by (intro disjI1 exI [of _ j]) simp
    qed
  qed
qed simp

lemma read_varint_write: "read_varint (write_varint v @ rest) = (int (length (write_varint v)), v, rest)"
  using read_write [of 0 v rest 0 0] unsigned_less [of v, where ?'a = nat] by (simp add: read_varint_def)

text \<open>What is accepted: an encoding, or input that ends before its varint does.\<close>

lemma read_varint_accepts:
  assumes "read_varint bs = (r, v, rest)" and "0 < r"
  shows "bs = write_varint v @ rest \<or> rest = [] \<and> length bs \<le> 9 \<and> (\<forall>b \<in> set bs. 128 \<le> unat b)"
  using read_inv [of bs 0 0 0 r v rest] assms by (auto simp: read_varint_def)

lemma read_varint_canonical:
  assumes "read_varint bs = (r, v, rest)" and "0 < r" and "rest \<noteq> []"
  shows "bs = write_varint v @ rest"
  using read_varint_accepts [OF assms(1,2)] assms(3) by blast

lemma read_truncated:
  assumes "length bs \<le> 9" and "\<And>b. b \<in> set bs \<Longrightarrow> 128 \<le> unat b"
  shows "fst (read_varint bs) = int (length bs)"
proof -
  have "s + 7 * length bs < 64 \<Longrightarrow> (\<And>b. b \<in> set bs \<Longrightarrow> 128 \<le> unat b) \<Longrightarrow>
      fst (read_varint_from bs s n acc) = n + int (length bs)" for s n acc
  proof (induction bs arbitrary: s n acc)
    case (Cons b bs)
    have b: "128 \<le> unat b" using Cons.prems(2) by simp
    then have "b \<noteq> 0" "\<not> b AND 0x80 = 0" by (auto simp: byte_top_bit)
    moreover have "\<not> 64 \<le> s + 7" using Cons.prems(1) by simp
    ultimately show ?case
      using Cons.IH [of "s + 7" "n + 1"] Cons.prems by (simp add: Let_def)
  qed simp
  from this [of 0 0 0] assms show ?thesis by (simp add: read_varint_def)
qed

lemma read_varint_from_rest:
  "read_varint_from bs s n acc = (r, v, rest) \<Longrightarrow> 0 \<le> n \<Longrightarrow> 0 \<le> r \<Longrightarrow> n \<le> r \<and> rest = drop (nat (r - n)) bs"
proof (induction bs s n acc rule: read_varint_from.induct)
  case (2 b bs s n acc)
  show ?case
  proof (cases "b AND 0x80 = 0")
    case True
    with "2.prems" show ?thesis by (auto simp: Let_def split: if_splits)
  next
    case False
    have c: "\<not> (64 \<le> s + 7 \<and> 1 * 2 ^ (64 - s) \<le> unat b)" "\<not> (b = 0 \<and> s \<noteq> 0)"
      using "2.prems" by (auto split: if_splits)
    have "read_varint_from bs (s + 7) (n + 1) (acc OR push_bit s (ucast (b AND 0x7f))) = (r, v, rest)"
      using "2.prems"(1) c False by (simp add: Let_def split: if_splits)
    with "2.IH" [OF c refl False] "2.prems"(2,3) have "n + 1 \<le> r" "rest = drop (nat (r - (n + 1))) bs" by simp_all
    moreover from this(1) have "nat (r - n) = Suc (nat (r - (n + 1)))" by simp
    ultimately show ?thesis by simp
  qed
qed simp

lemma read_varint_rest:
  "read_varint bs = (r, v, rest) \<Longrightarrow> 0 \<le> r \<Longrightarrow> rest = drop (nat r) bs"
  using read_varint_from_rest [of bs 0 0 0] by (simp add: read_varint_def)

lemma write_varint_not_Nil [simp]: "write_varint v \<noteq> []"
  by (subst write_varint.simps) simp

section \<open>Properties\<close>

text \<open>
  Property C33: the varint round trip. What \<open>write_varint\<close> writes for any 64-bit number
  \<open>read_varint\<close> reads back, whatever bytes follow, and it returns the number of bytes. When
  \<open>read_varint\<close> succeeds, what it consumed is the encoding of its result, with one exception: the whole input
  is up to nine bytes that each announce another one. Every such input is accepted, although the varint is cut off.
\<close>

theorem varint_roundtrip:
  "read_varint (write_varint v @ rest) = (int (length (write_varint v)), v, rest)
   \<and> (read_varint bs = (r, w, bs') \<and> 0 < r
      \<longrightarrow> bs = write_varint w @ bs' \<or> bs' = [] \<and> length bs \<le> 9 \<and> (\<forall>b \<in> set bs. 128 \<le> unat b))
   \<and> (length bs \<le> 9 \<and> (\<forall>b \<in> set bs. 128 \<le> unat b) \<longrightarrow> fst (read_varint bs) = int (length bs))"
  using read_varint_write read_varint_accepts read_truncated by auto

theorem varint_roundtrip_witness:
  "write_varint 300 @ [7] = [172, 2, 7] \<and> fst (read_varint [172]) = 1"
proof -
  have "read_varint [172, 2, 7] = (2, 300, [7])" by code_simp
  with varint_roundtrip [of 0 "[]" "[172, 2, 7]" 2 300 "[7]"] have "write_varint 300 @ [7] = [172, 2, 7]" by simp
  moreover have "fst (read_varint [172]) = 1" using varint_roundtrip [of 0 "[]" "[172]"] by simp
  ultimately show ?thesis by simp
qed

end
