(* ===== verification/Base58.thy ===== *)
theory Base58
  imports Varint Keccak
begin

text \<open>
  Cryptonote addresses: \<open>libcryptonote/common/base58.cpp\<close> with the arithmetic of \<open>int-util.h\<close>, and the
  address checks of \<open>libcryptonote/exports.cpp\<close>. A string is cut into blocks of 8 bytes, each
  written as 11 digits to the base 58, the last block with as many digits as its size needs. An
  address is the base-58 string of a tag, the data and four bytes of their hash. The theorems: encoding
  and decoding are inverse to each other, so a string is accepted exactly if it is the encoding of
  something, and the exported checks accept exactly the encodings of two valid keys.
\<close>

section \<open>128-bit products\<close>

definition hi_dword :: "u64 \<Rightarrow> u64" where
  "hi_dword val = drop_bit 32 val"

definition lo_dword :: "u64 \<Rightarrow> u64" where
  "lo_dword val = val AND 0xFFFFFFFF"

text \<open>The low word of the product and, stored through the pointer, the high word.\<close>

definition mul128 :: "u64 \<Rightarrow> u64 \<Rightarrow> u64 \<times> u64" where
  "mul128 multiplier multiplicand =
     (let a = hi_dword multiplier;
          b = lo_dword multiplier;
          c = hi_dword multiplicand;
          d = lo_dword multiplicand;
          ac = a * c;
          ad = a * d;
          bc = b * c;
          bd = b * d;
          adbc = ad + bc;
          adbc_carry = (if adbc < ad then 1 else 0);
          product_lo = bd + push_bit 32 adbc;
          product_lo_carry = (if product_lo < bd then 1 else 0)
      in (product_lo, ac + drop_bit 32 adbc + push_bit 32 adbc_carry + product_lo_carry))"

definition SWAP64 :: "u64 \<Rightarrow> u64" where
  "SWAP64 x =
     push_bit 56 (x AND 0x00000000000000ff) OR
     push_bit 40 (x AND 0x000000000000ff00) OR
     push_bit 24 (x AND 0x0000000000ff0000) OR
     push_bit 8 (x AND 0x00000000ff000000) OR
     drop_bit 8 (x AND 0x000000ff00000000) OR
     drop_bit 24 (x AND 0x0000ff0000000000) OR
     drop_bit 40 (x AND 0x00ff000000000000) OR
     drop_bit 56 (x AND 0xff00000000000000)"

section \<open>Blocks\<close>

definition alphabet :: bytes where
  "alphabet = map of_char ''123456789ABCDEFGHJKLMNPQRSTUVWXYZabcdefghijkmnopqrstuvwxyz''"

definition encoded_block_sizes :: "nat list" where
  "encoded_block_sizes = [0, 2, 3, 5, 6, 7, 9, 10, 11]"

definition full_block_size :: nat where
  "full_block_size = 8"

definition full_encoded_block_size :: nat where
  "full_encoded_block_size = encoded_block_sizes ! full_block_size"

text \<open>The table of \<open>reverse_alphabet\<close>, filled by its constructor, and its lookup.\<close>

definition reverse_alphabet_data :: "int list" where
  "reverse_alphabet_data =
     fold (\<lambda>i m_data. m_data[unat (alphabet ! i) - unat (alphabet ! 0) := int i]) [0..<58]
       (replicate (unat (alphabet ! 57) - unat (alphabet ! 0) + 1) (- 1))"

definition reverse_alphabet :: "u8 \<Rightarrow> int" where
  "reverse_alphabet letter =
     (if unat letter < unat (alphabet ! 0) then - 1
      else let idx = unat letter - unat (alphabet ! 0) in
        if idx < length reverse_alphabet_data then reverse_alphabet_data ! idx else - 1)"

definition decoded_block_sizes_data :: "int list" where
  "decoded_block_sizes_data =
     fold (\<lambda>i m_data. m_data[encoded_block_sizes ! i := int i]) [0..<Suc full_block_size]
       (replicate (encoded_block_sizes ! full_block_size + 1) (- 1))"

definition decoded_block_sizes :: "nat \<Rightarrow> int option" where
  "decoded_block_sizes encoded_block_size = rd decoded_block_sizes_data encoded_block_size"

text \<open>The bytes go to the end of a zeroed word, which is then swapped.\<close>

definition uint_8be_to_64 :: "bytes \<Rightarrow> u64" where
  "uint_8be_to_64 data = SWAP64 (word_of_bytes (replicate (8 - length data) 0 @ data))"

definition uint_64_to_8be :: "u64 \<Rightarrow> nat \<Rightarrow> bytes" where
  "uint_64_to_8be num n = drop (8 - n) (bytes_of_word (SWAP64 num))"

text \<open>The loop writes downwards from position \<open>i - 1\<close>; \<open>None\<close> is a write in front of the block.\<close>

fun encode_loop :: "u64 \<Rightarrow> nat \<Rightarrow> nat \<Rightarrow> bytes \<Rightarrow> bytes option" where
  "encode_loop num i off res =
     (if num = 0 then Some res
      else case i of
        0 \<Rightarrow> None
      | Suc k \<Rightarrow> do {
          res \<leftarrow> wr res (off + k) (alphabet ! unat (num mod 58));
          encode_loop (num div 58) k off res
        })"

declare encode_loop.simps [simp del]

text \<open>\<open>res\<close> is written from position \<open>off\<close> on. The sizes from 1 to 8 are asserted.\<close>

definition encode_block :: "bytes \<Rightarrow> nat \<Rightarrow> bytes \<Rightarrow> bytes option" where
  "encode_block block off res =
     (if block = [] \<or> full_block_size < length block then None
      else encode_loop (uint_8be_to_64 block) (encoded_block_sizes ! length block) off res)"

text \<open>The loop over the digits from the last one on; the result \<open>None\<close> is \<open>false\<close>.\<close>

fun decode_loop :: "bytes \<Rightarrow> u64 \<Rightarrow> u64 \<Rightarrow> u64 option" where
  "decode_loop [] res_num order = Some res_num"
| "decode_loop (c # cs) res_num order =
     (let digit = reverse_alphabet c in
      if digit < 0 then None
      else let (product_lo, product_hi) = mul128 order (of_int digit);
               tmp = res_num + product_lo
        in if tmp < res_num \<or> product_hi \<noteq> 0 then None else decode_loop cs tmp (order * 58))"

definition decode_block :: "bytes \<Rightarrow> bytes option" where
  "decode_block block =
     do {
       res_size \<leftarrow> decoded_block_sizes (length block);
       if res_size \<le> 0 then None
       else do {
         res_num \<leftarrow> decode_loop (rev block) 0 1;
         let n = nat res_size;
         if n < full_block_size \<and> push_bit (8 * n) 1 \<le> res_num then None
         else Some (uint_64_to_8be res_num n)
       }
     }"

section \<open>Strings\<close>

definition encode :: "bytes \<Rightarrow> bytes option" where
  "encode data =
     (if data = [] then Some []
      else let full_block_count = length data div full_block_size;
               last_block_size = length data mod full_block_size;
               res_size = full_block_count * full_encoded_block_size + encoded_block_sizes ! last_block_size
        in do {
          res \<leftarrow> for_each [0..<full_block_count]
            (\<lambda>i. encode_block (take full_block_size (drop (i * full_block_size) data)) (i * full_encoded_block_size))
            (replicate res_size (alphabet ! 0));
          if 0 < last_block_size
          then encode_block (drop (full_block_count * full_block_size) data) (full_block_count * full_encoded_block_size) res
          else Some res
        })"

definition decode :: "bytes \<Rightarrow> bytes option" where
  "decode enc =
     (if enc = [] then Some []
      else let full_block_count = length enc div full_encoded_block_size;
               last_block_size = length enc mod full_encoded_block_size
        in do {
          last_block_decoded_size \<leftarrow> decoded_block_sizes last_block_size;
          if last_block_decoded_size < 0 then None
          else do {
            let data_size = full_block_count * full_block_size + nat last_block_decoded_size;
            data \<leftarrow> for_each [0..<full_block_count]
              (\<lambda>i data. do {
                 b \<leftarrow> decode_block (take full_encoded_block_size (drop (i * full_encoded_block_size) enc));
                 Some (memcpy_at data (i * full_block_size) b)
               }) (replicate data_size 0);
            if 0 < last_block_size then do {
              b \<leftarrow> decode_block (drop (full_block_count * full_encoded_block_size) enc);
              Some (memcpy_at data (full_block_count * full_block_size) b)
            }
            else Some data
          }
        })"

definition encode_addr :: "u64 \<Rightarrow> bytes \<Rightarrow> bytes option" where
  "encode_addr tag data =
     do {
       let buf = get_varint_data tag @ data;
       hash \<leftarrow> cn_fast_hash buf;
       encode (buf @ take 4 hash)
     }"

text \<open>\<open>None\<close> is \<open>false\<close>.\<close>

definition decode_addr :: "bytes \<Rightarrow> (u64 \<times> bytes) option" where
  "decode_addr addr =
     do {
       addr_data \<leftarrow> decode addr;
       if length addr_data \<le> 4 then None
       else do {
         let checksum = drop (length addr_data - 4) addr_data;
         let addr_data = take (length addr_data - 4) addr_data;
         hash \<leftarrow> cn_fast_hash addr_data;
         if take 4 hash \<noteq> checksum then None
         else let (r, tag, rest) = read_varint addr_data in
           if r \<le> 0 then None else Some (tag, drop (nat r) addr_data)
       }
     }"

section \<open>The exported checks\<close>

text \<open>
  \<open>parse_binary\<close> of two keys, and of two keys and a payment id, reads 32, 32 and 8 bytes and demands the
  end of the input. Whether a key is a point of the curve is a parameter; 0 is the error.
\<close>

definition decode_address_export :: "(bytes \<Rightarrow> bool) \<Rightarrow> bytes \<Rightarrow> u64" where
  "decode_address_export check_key input =
     (case decode_addr input of
        None \<Rightarrow> 0
      | Some (prefix, data) \<Rightarrow>
          if length data = 0 then 0
          else if length data \<noteq> 64 then 0
          else if \<not> check_key (take 32 data) \<or> \<not> check_key (drop 32 data) then 0
          else prefix)"

definition decode_integrated_address_export :: "(bytes \<Rightarrow> bool) \<Rightarrow> bytes \<Rightarrow> u64" where
  "decode_integrated_address_export check_key input =
     (case decode_addr input of
        None \<Rightarrow> 0
      | Some (prefix, data) \<Rightarrow>
          if length data = 0 then 0
          else if length data \<noteq> 72 \<or> \<not> check_key (take 32 data) \<or> \<not> check_key (take 32 (drop 32 data)) then 0
          else prefix)"

section \<open>Arithmetic\<close>

lemma add_carry:
  fixes x y :: u64
  shows "unat x + unat y = unat (x + y) + 2 ^ 64 * (if x + y < x then 1 else 0)"
proof (cases "unat x + unat y < 2 ^ 64")
  case True
  then have "unat (x + y) = unat x + unat y" by (simp add: unat_word_ariths)
  then show ?thesis by (simp add: word_less_nat_alt)
next
  case False
  have "unat x < 2 ^ 64" "unat y < 2 ^ 64"
    using unsigned_less [of x, where ?'a = nat] unsigned_less [of y, where ?'a = nat] by simp_all
  with False have "unat (x + y) = unat x + unat y - 2 ^ 64"
    by (simp add: unat_word_ariths mod_if)
  with False show ?thesis using \<open>unat y < 2 ^ 64\<close> by (simp add: word_less_nat_alt)
qed

lemma dwords:
  fixes w :: u64
  shows "unat w = unat (hi_dword w) * 2 ^ 32 + unat (lo_dword w)"
    and "unat (hi_dword w) < 2 ^ 32" and "unat (lo_dword w) < 2 ^ 32"
proof -
  have h: "unat (hi_dword w) = unat w div 2 ^ 32" by (simp add: hi_dword_def unat_drop_bit)
  have "lo_dword w = take_bit 32 w"
    by (simp add: lo_dword_def take_bit_eq_mask mask_eq_exp_minus_1)
  then have l: "unat (lo_dword w) = unat w mod 2 ^ 32"
    by (simp only: unsigned_take_bit_eq) (simp add: take_bit_eq_mod)
  show "unat w = unat (hi_dword w) * 2 ^ 32 + unat (lo_dword w)" unfolding h l by simp
  show "unat (lo_dword w) < 2 ^ 32" unfolding l by simp
  show "unat (hi_dword w) < 2 ^ 32"
    using unsigned_less [of w, where ?'a = nat] unfolding h by (intro less_mult_imp_div_less) simp
qed

lemma unat_mult_dwords:
  fixes x y :: u64
  assumes "unat x < 2 ^ 32" and "unat y < 2 ^ 32"
  shows "unat (x * y) = unat x * unat y"
proof -
  have "unat x * unat y < 2 ^ 32 * 2 ^ 32" using assms by (intro mult_strict_mono) auto
  then show ?thesis by (simp add: unat_word_ariths)
qed

lemma mul128_nat:
  fixes a b c d :: nat
  assumes "a * d + b * c = s + 2 ^ 64 * c1" and "s = 2 ^ 32 * q + r" and "b * d + 2 ^ 32 * r = lo + 2 ^ 64 * c2"
  shows "lo + 2 ^ 64 * (a * c + q + 2 ^ 32 * c1 + c2) = (a * 2 ^ 32 + b) * (c * 2 ^ 32 + d)"
proof -
  have "(a * 2 ^ 32 + b) * (c * 2 ^ 32 + d) = 2 ^ 64 * (a * c) + 2 ^ 32 * (a * d + b * c) + b * d"
    by (simp add: algebra_simps)
  with assms show ?thesis by (simp add: algebra_simps)
qed

lemma mul128_product:
  assumes "mul128 x y = (lo, hi)"
  shows "unat lo + 2 ^ 64 * unat hi = unat x * unat y"
proof -
  let ?a = "hi_dword x" let ?b = "lo_dword x" let ?c = "hi_dword y" let ?d = "lo_dword y"
  define adbc where "adbc = ?a * ?d + ?b * ?c"
  define c1 :: u64 where "c1 = (if adbc < ?a * ?d then 1 else 0)"
  define sh where "sh = push_bit 32 adbc"
  define c2 :: u64 where "c2 = (if ?b * ?d + sh < ?b * ?d then 1 else 0)"
  note d = dwords [of x] dwords [of y]
  have m: "unat (?a * ?c) = unat ?a * unat ?c" "unat (?a * ?d) = unat ?a * unat ?d"
    "unat (?b * ?c) = unat ?b * unat ?c" "unat (?b * ?d) = unat ?b * unat ?d"
    using d by (simp_all add: unat_mult_dwords)
  have lo: "lo = ?b * ?d + sh" and hi: "hi = ?a * ?c + drop_bit 32 adbc + push_bit 32 c1 + c2"
    using assms unfolding mul128_def Let_def adbc_def [symmetric] sh_def [symmetric] c1_def [symmetric] c2_def [symmetric]
    by (simp_all only: prod.inject)
  have u1: "unat (push_bit 32 c1) = 2 ^ 32 * unat c1" "unat c1 = (if adbc < ?a * ?d then 1 else 0)"
    "unat c2 = (if ?b * ?d + sh < ?b * ?d then 1 else 0)"
    by (auto simp: c1_def c2_def unat_2p push_bit_eq_mult)
  have s1: "unat ?a * unat ?d + unat ?b * unat ?c = unat adbc + 2 ^ 64 * unat c1"
    using add_carry [of "?a * ?d" "?b * ?c"] m u1(2) by (simp add: adbc_def)
  have s2: "unat ?b * unat ?d + unat sh = unat lo + 2 ^ 64 * unat c2"
    using add_carry [of "?b * ?d" sh] m u1(3) lo by simp
  have "unat sh = (2 ^ 32 * unat adbc) mod 2 ^ 64"
    by (simp add: sh_def push_bit_eq_mult unat_word_ariths mult.commute)
  moreover have "(2::nat) ^ 64 = 2 ^ 32 * 2 ^ 32" by simp
  ultimately have sh: "unat sh = 2 ^ 32 * (unat adbc mod 2 ^ 32)" by (simp only: mult_mod_right)
  have u3: "unat (drop_bit 32 adbc) = unat adbc div 2 ^ 32" by (simp add: unat_drop_bit)
  define H where "H = unat ?a * unat ?c + unat adbc div 2 ^ 32 + 2 ^ 32 * unat c1 + unat c2"
  have "hi = word_of_nat (unat (?a * ?c)) + word_of_nat (unat (drop_bit 32 adbc))
      + word_of_nat (unat (push_bit 32 c1)) + word_of_nat (unat c2)" by (simp add: hi)
  then have hiH: "hi = word_of_nat H" unfolding H_def m u3 u1(1) by simp
  have "unat adbc = 2 ^ 32 * (unat adbc div 2 ^ 32) + unat adbc mod 2 ^ 32" by simp
  then have prod: "unat lo + 2 ^ 64 * H = unat x * unat y"
    using mul128_nat [OF s1 _ s2 [unfolded sh]] d(1,4) unfolding H_def by simp
  have "unat x * unat y < 2 ^ 64 * 2 ^ 64"
    using unsigned_less [of x, where ?'a = nat] unsigned_less [of y, where ?'a = nat]
    by (intro mult_strict_mono) auto
  with prod have "H < 2 ^ 64" by simp
  with hiH have "unat hi = H" by (simp add: unat_of_nat)
  with prod show ?thesis by simp
qed

section \<open>Byte order\<close>

lemma bit_le_nat: "bit (le_nat bs) n \<longleftrightarrow> n div 8 < length bs \<and> bit (bs ! (n div 8)) (n mod 8)"
proof (induction bs arbitrary: n)
  case (Cons b bs)
  show ?case
  proof (cases "n < 8")
    case True
    then show ?thesis by (simp add: bit_byte_shift bit_unsigned_iff)
  next
    case False
    then have "n div 8 = Suc ((n - 8) div 8)" "(n - 8) mod 8 = n mod 8"
      by (simp_all add: le_div_geq le_mod_geq)
    with False Cons show ?thesis by (simp add: bit_byte_shift)
  qed
qed simp

lemma bit_SWAP64: "n < 64 \<Longrightarrow> bit (SWAP64 x) n \<longleftrightarrow> bit x (8 * (7 - n div 8) + n mod 8)"
proof -
  assume "n < 64"
  then have "n \<in> set [0..<64]" by simp
  then have "n \<in> {0, 1, 2, 3, 4, 5, 6, 7, 8, 9, 10, 11, 12, 13, 14, 15, 16, 17, 18, 19, 20, 21, 22, 23, 24, 25, 26, 27, 28,
     29, 30, 31, 32, 33, 34, 35, 36, 37, 38, 39, 40, 41, 42, 43, 44, 45, 46, 47, 48, 49, 50, 51, 52, 53, 54, 55, 56, 57, 58,
     59, 60, 61, 62, 63}"
    by (simp add: upt_rec_numeral upt_numeral upt_one_numeral)
  then show ?thesis
    unfolding SWAP64_def
    by (elim insertE emptyE) (simp_all add: bit_or_iff bit_and_iff bit_push_bit_iff bit_drop_bit_eq
        flip: numeral_2_eq_2)
qed

lemma SWAP64_word_of_bytes:
  assumes "length bs = 8"
  shows "SWAP64 (word_of_bytes bs) = word_of_bytes (rev bs)"
proof (rule bit_word_eqI)
  fix n
  assume "n < LENGTH(64)"
  then have n: "n < 64" by simp
  then have b: "n div 8 < 8" by simp
  moreover have "n mod 8 < 8" by simp
  ultimately have "8 * (7 - n div 8) + n mod 8 < 64" by linarith
  moreover have "(8 * (7 - n div 8) + n mod 8) div 8 = 7 - n div 8" "(8 * (7 - n div 8) + n mod 8) mod 8 = n mod 8"
    by simp_all
  ultimately show "bit (SWAP64 (word_of_bytes bs)) n = bit (word_of_bytes (rev bs) :: u64) n"
    using n b assms by (simp add: bit_SWAP64 word_of_bytes_def bit_simps bit_le_nat rev_nth)
qed

lemma SWAP64_SWAP64 [simp]: "SWAP64 (SWAP64 w) = w"
  using SWAP64_word_of_bytes [of "bytes_of_word w"] SWAP64_word_of_bytes [of "rev (bytes_of_word w)"] by simp

lemma le_nat_append: "le_nat (xs @ ys) = le_nat xs + 256 ^ length xs * le_nat ys"
  by (induction xs) (simp_all add: distrib_left)

lemma le_nat_zeros [simp]: "le_nat (replicate n 0) = 0"
  by (induction n) simp_all

lemma uint_8be_to_64_be:
  assumes "length data \<le> 8"
  shows "unat (uint_8be_to_64 data) = be_nat data"
proof -
  have "uint_8be_to_64 data = word_of_bytes (rev data @ replicate (8 - length data) 0)"
    using assms by (simp add: uint_8be_to_64_def SWAP64_word_of_bytes)
  moreover have "be_nat data < 2 ^ 64"
    using be_nat_less [of data] power_increasing [of "length data" 8 "256 :: nat"] assms by simp
  ultimately show ?thesis
    by (simp add: word_of_bytes_def le_nat_append le_nat_rev unat_of_nat)
qed

lemma uint_64_to_8be_bytes:
  assumes "n \<le> 8"
  shows "uint_64_to_8be num n = rev (take n (bytes_of_word num))"
proof -
  have "SWAP64 num = word_of_bytes (rev (bytes_of_word num))"
    using SWAP64_word_of_bytes [of "bytes_of_word num"] by simp
  then have "bytes_of_word (SWAP64 num) = rev (bytes_of_word num)" by simp
  with assms show ?thesis by (simp add: uint_64_to_8be_def rev_take)
qed

lemma take_le_bytes: "n \<le> k \<Longrightarrow> take n (le_bytes k x) = le_bytes n x"
  by (induction k arbitrary: n x) (auto simp: take_Cons split: nat.splits)

lemma uint_64_to_8be_be:
  assumes "n \<le> 8"
  shows "be_nat (uint_64_to_8be num n) = unat num mod 256 ^ n" and "length (uint_64_to_8be num n) = n"
  using assms
  by (simp_all add: uint_64_to_8be_bytes bytes_of_word_def take_le_bytes le_nat_le_bytes flip: le_nat_rev)

lemma be_nat_inject: "be_nat xs = be_nat ys \<Longrightarrow> length xs = length ys \<Longrightarrow> xs = ys"
  using le_bytes_le_nat [of "rev xs"] le_bytes_le_nat [of "rev ys"] by (simp add: le_nat_rev)

section \<open>Digits to the base 58\<close>

fun digits58 :: "nat \<Rightarrow> nat \<Rightarrow> nat list" where
  "digits58 0 n = []"
| "digits58 (Suc k) n = digits58 k (n div 58) @ [n mod 58]"

fun value58 :: "bytes \<Rightarrow> nat" where
  "value58 [] = 0"
| "value58 (c # cs) = nat (reverse_alphabet c) + 58 * value58 cs"

abbreviation letters :: "nat list \<Rightarrow> bytes" where
  "letters ds \<equiv> map (\<lambda>d. alphabet ! d) ds"

lemma length_digits58 [simp]: "length (digits58 k n) = k"
  by (induction k arbitrary: n) auto

lemma digits58_0 [simp]: "digits58 k 0 = replicate k 0"
  by (induction k) (auto simp: replicate_append_same)

lemma digits58_less: "d \<in> set (digits58 k n) \<Longrightarrow> d < 58"
  by (induction k arbitrary: n) auto

lemma alphabet_bytes:
  "alphabet =
   [49, 50, 51, 52, 53, 54, 55, 56, 57, 65, 66, 67, 68, 69, 70, 71, 72, 74, 75, 76, 77, 78, 80, 81, 82,
    83, 84, 85, 86, 87, 88, 89, 90, 97, 98, 99, 100, 101, 102, 103, 104, 105, 106, 107, 109, 110, 111,
    112, 113, 114, 115, 116, 117, 118, 119, 120, 121, 122]"
  by code_simp

lemma length_alphabet [simp]: "length alphabet = 58"
  by (simp add: alphabet_bytes)

lemma reverse_alphabet_table:
  "reverse_alphabet_data =
   [0, 1, 2, 3, 4, 5, 6, 7, 8, - 1, - 1, - 1, - 1, - 1, - 1, - 1, 9, 10, 11, 12, 13, 14, 15, 16, - 1,
    17, 18, 19, 20, 21, - 1, 22, 23, 24, 25, 26, 27, 28, 29, 30, 31, 32, - 1, - 1, - 1, - 1, - 1, - 1,
    33, 34, 35, 36, 37, 38, 39, 40, 41, 42, 43, - 1, 44, 45, 46, 47, 48, 49, 50, 51, 52, 53, 54, 55,
    56, 57]"
  by code_simp

lemma reverse_alphabet_lookup:
  "reverse_alphabet c = (if unat c < 49 \<or> 74 \<le> unat c - 49 then - 1 else reverse_alphabet_data ! (unat c - 49))"
  by (simp add: reverse_alphabet_def alphabet_bytes reverse_alphabet_table Let_def)

lemma reverse_alphabet_nth: "i < 58 \<Longrightarrow> reverse_alphabet (alphabet ! i) = int i"
proof -
  have "list_all (\<lambda>(c, i). 49 \<le> unat c \<and> unat c - 49 < 74 \<and> reverse_alphabet_data ! (unat c - 49) = int i)
      (zip alphabet [0..<58])"
    unfolding alphabet_bytes reverse_alphabet_table by code_simp
  then show "i < 58 \<Longrightarrow> ?thesis"
    by (force simp: list_all_iff set_zip reverse_alphabet_lookup)
qed

lemma reverse_alphabet_inv:
  assumes "0 \<le> reverse_alphabet c"
  shows "nat (reverse_alphabet c) < 58" and "alphabet ! nat (reverse_alphabet c) = c"
proof -
  have all: "list_all (\<lambda>(d, k). 0 \<le> d \<longrightarrow> d < 58 \<and> alphabet ! nat d = word_of_nat (k + 49))
      (zip reverse_alphabet_data [0..<74])"
    unfolding alphabet_bytes reverse_alphabet_table by code_simp
  have len: "length reverse_alphabet_data = 74" by (simp add: reverse_alphabet_table)
  define k where "k = unat c - 49"
  have k: "49 \<le> unat c" "k < 74" "reverse_alphabet c = reverse_alphabet_data ! k"
    using assms by (auto simp: reverse_alphabet_lookup k_def split: if_splits)
  then have "(reverse_alphabet c, k) \<in> set (zip reverse_alphabet_data [0..<74])"
    using len by (auto simp: set_zip)
  moreover have "word_of_nat (k + 49) = c" using k(1) by (simp add: k_def)
  ultimately show "nat (reverse_alphabet c) < 58" and "alphabet ! nat (reverse_alphabet c) = c"
    using all assms by (auto simp: list_all_iff)
qed

lemma value58_letters:
  "n < 58 ^ k \<Longrightarrow> value58 (rev (letters (digits58 k n))) = n"
proof (induction k arbitrary: n)
  case (Suc k)
  then have "n div 58 < 58 ^ k" by (simp add: less_mult_imp_div_less mult.commute)
  with Suc.IH show ?case by (simp add: reverse_alphabet_nth)
qed simp

lemma value58_less: "\<forall>c \<in> set cs. 0 \<le> reverse_alphabet c \<Longrightarrow> value58 cs < 58 ^ length cs"
proof (induction cs)
  case (Cons c cs)
  have "nat (reverse_alphabet c) + 58 * value58 cs < 58 * Suc (value58 cs)"
    using reverse_alphabet_inv(1) [of c] Cons.prems by simp
  also have "\<dots> \<le> 58 * 58 ^ length cs" using Cons by (intro mult_le_mono2 Suc_leI) simp
  finally show ?case by simp
qed simp

lemma letters_value58:
  "\<forall>c \<in> set cs. 0 \<le> reverse_alphabet c \<Longrightarrow> letters (digits58 (length cs) (value58 cs)) = rev cs"
proof (induction cs)
  case (Cons c cs)
  let ?d = "nat (reverse_alphabet c)"
  have d: "?d < 58" "alphabet ! ?d = c" using reverse_alphabet_inv [of c] Cons.prems by simp_all
  then have "(?d + 58 * value58 cs) div 58 = value58 cs" "(?d + 58 * value58 cs) mod 58 = ?d" by simp_all
  with Cons d(2) show ?case by simp
qed simp

lemma encode_loop_digits:
  assumes "unat num < 58 ^ i" and "off + i \<le> length res"
    and "take i (drop off res) = replicate i (alphabet ! 0)"
  shows "encode_loop num i off res = Some (memcpy_at res off (letters (digits58 i (unat num))))"
  using assms
proof (induction i arbitrary: num res)
  case 0
  then have "num = 0" by (simp add: unsigned_eq_0_iff)
  then show ?case by (simp add: encode_loop.simps [of 0] memcpy_at_def)
next
  case (Suc k)
  show ?case
  proof (cases "num = 0")
    case True
    have "res = take off res @ take (Suc k) (drop off res) @ drop (off + Suc k) res"
      by (metis append_take_drop_id drop_drop add.commute)
    with True Suc.prems show ?thesis
      by (simp add: encode_loop.simps [of 0] memcpy_at_def replicate_append_same)
  next
    case False
    let ?x = "alphabet ! unat (num mod 58)"
    let ?res = "res[off + k := ?x]"
    have u: "unat (num div 58) = unat num div 58" "unat (num mod 58) = unat num mod 58"
      by (simp_all add: unat_div unat_mod)
    have "take k (drop off ?res) = take k (take (Suc k) (drop off res))"
      using Suc.prems(2) by (simp add: drop_update_swap take_update_cancel)
    also have "\<dots> = replicate k (alphabet ! 0)" unfolding Suc.prems(3) take_replicate by simp
    finally have "take k (drop off ?res) = replicate k (alphabet ! 0)" .
    moreover have "unat (num div 58) < 58 ^ k"
      using Suc.prems(1) unfolding u by (simp add: less_mult_imp_div_less mult.commute)
    ultimately have "encode_loop (num div 58) k off ?res = Some (memcpy_at ?res off (letters (digits58 k (unat num div 58))))"
      using Suc.IH [of "num div 58" ?res] Suc.prems(2) u by simp
    moreover have "drop (off + k) ?res = ?x # drop (Suc (off + k)) res"
      using Suc.prems(2) by (simp add: drop_update_swap Cons_nth_drop_Suc [symmetric])
    ultimately show ?thesis
      using False Suc.prems(2) u by (simp add: encode_loop.simps [of num] memcpy_at_def)
  qed
qed

lemma decode_loop_value:
  assumes "j + length cs \<le> 11"
  shows "decode_loop cs r (word_of_nat (58 ^ j)) =
     (if (\<forall>c \<in> set cs. 0 \<le> reverse_alphabet c) \<and> unat r + 58 ^ j * value58 cs < 2 ^ 64
      then Some (word_of_nat (unat r + 58 ^ j * value58 cs)) else None)"
  using assms
proof (induction cs arbitrary: r j)
  case Nil
  show ?case using unsigned_less [of r, where ?'a = nat] by simp
next
  case (Cons c cs)
  show ?case
  proof (cases "reverse_alphabet c < 0")
    case False
    define d where "d = nat (reverse_alphabet c)"
    have d: "reverse_alphabet c = int d" "d < 58" using False reverse_alphabet_inv(1) [of c] by (simp_all add: d_def)
    obtain lo hi where m: "mul128 (word_of_nat (58 ^ j)) (word_of_nat d) = (lo, hi)" by fastforce
    have "(58 :: nat) ^ j \<le> 58 ^ 10" using Cons.prems by (intro power_increasing) auto
    then have "58 ^ j < (2 :: nat) ^ 64" by simp
    then have o: "unat (word_of_nat (58 ^ j) :: u64) = 58 ^ j" "unat (word_of_nat d :: u64) = d"
      using d(2) by (simp_all only: unat_of_nat) simp_all
    have p: "unat lo + 2 ^ 64 * unat hi = 58 ^ j * d" using mul128_product [OF m] o by simp
    have c: "unat r + unat lo = unat (r + lo) + 2 ^ 64 * (if r + lo < r then 1 else 0)" by (rule add_carry)
    have ovf: "(r + lo < r \<or> hi \<noteq> 0) \<longleftrightarrow> 2 ^ 64 \<le> unat r + 58 ^ j * d"
    proof (cases "hi = 0")
      case True
      then show ?thesis using p c unsigned_less [of "r + lo", where ?'a = nat] by (auto split: if_splits)
    next
      case nz: False
      then have "1 \<le> unat hi" by (simp add: Suc_le_eq unat_gt_0)
      then have "(2 :: nat) ^ 64 * 1 \<le> 2 ^ 64 * unat hi" by (rule mult_le_mono2)
      with p have "2 ^ 64 \<le> 58 ^ j * d" by linarith
      with nz show ?thesis by simp
    qed
    have step: "word_of_nat (58 ^ j) * 58 = (word_of_nat (58 ^ Suc j) :: u64)" by simp
    have split: "58 ^ j * value58 (c # cs) = 58 ^ j * d + 58 ^ Suc j * value58 cs"
      by (simp add: d(1) distrib_left)
    show ?thesis
    proof (cases "2 ^ 64 \<le> unat r + 58 ^ j * d")
      case True
      then show ?thesis using ovf False m unfolding split by (simp add: d(1))
    next
      case nov: False
      then have z: "\<not> r + lo < r" "hi = 0" using ovf by blast+
      with c p have u: "unat (r + lo) = unat r + 58 ^ j * d" by simp
      have "decode_loop (c # cs) r (word_of_nat (58 ^ j)) = decode_loop cs (r + lo) (word_of_nat (58 ^ Suc j))"
        using False z m by (simp add: d(1) mult.commute)
      then show ?thesis
        unfolding split using Cons.IH [of "Suc j" "r + lo"] Cons.prems False u
        by (simp add: add.assoc)
    qed
  qed simp
qed


section \<open>Blocks\<close>

definition block_letters :: "bytes \<Rightarrow> bytes" where
  "block_letters b = letters (digits58 (encoded_block_sizes ! length b) (be_nat b))"

lemma length_block_letters [simp]: "length (block_letters b) = encoded_block_sizes ! length b"
  by (simp add: block_letters_def)

lemma decoded_block_sizes_table:
  "decoded_block_sizes_data = [0, - 1, 1, 2, - 1, 3, 4, 5, - 1, 6, 7, 8]"
  by code_simp

lemma block_sizes:
  assumes "n \<le> 8"
  shows "(256 :: nat) ^ n \<le> 58 ^ (encoded_block_sizes ! n)" and "encoded_block_sizes ! n \<le> 11"
    and "decoded_block_sizes (encoded_block_sizes ! n) = Some (int n)"
    and "n < 8 \<Longrightarrow> encoded_block_sizes ! n < 11" and "0 < n \<Longrightarrow> 0 < encoded_block_sizes ! n"
proof -
  have "n = 0 \<or> n = 1 \<or> n = 2 \<or> n = 3 \<or> n = 4 \<or> n = 5 \<or> n = 6 \<or> n = 7 \<or> n = 8"
    using assms by linarith
  then show "(256 :: nat) ^ n \<le> 58 ^ (encoded_block_sizes ! n)" and "encoded_block_sizes ! n \<le> 11"
    and "decoded_block_sizes (encoded_block_sizes ! n) = Some (int n)"
    and "n < 8 \<Longrightarrow> encoded_block_sizes ! n < 11" and "0 < n \<Longrightarrow> 0 < encoded_block_sizes ! n"
    by (elim disjE; simp add: encoded_block_sizes_def decoded_block_sizes_def decoded_block_sizes_table)+
qed

lemma decoded_block_sizes_inv:
  assumes "decoded_block_sizes k = Some m" and "0 \<le> m"
  shows "m \<le> 8" and "k = encoded_block_sizes ! nat m"
proof -
  have k: "k < 12" using assms(1) by (auto simp: decoded_block_sizes_def decoded_block_sizes_table rd_def split: if_splits)
  then have "k \<in> set [0..<12]" by simp
  then have "k \<in> {0, 1, 2, 3, 4, 5, 6, 7, 8, 9, 10, 11}"
    by (simp add: upt_rec_numeral upt_numeral upt_one_numeral)
  with assms show "m \<le> 8" and "k = encoded_block_sizes ! nat m"
    by (elim insertE emptyE; simp add: encoded_block_sizes_def decoded_block_sizes_def decoded_block_sizes_table)+
qed

lemma encode_block_letters:
  assumes "b \<noteq> []" and "length b \<le> 8" and "off + encoded_block_sizes ! length b \<le> length res"
    and "take (encoded_block_sizes ! length b) (drop off res) = replicate (encoded_block_sizes ! length b) (alphabet ! 0)"
  shows "encode_block b off res = Some (memcpy_at res off (block_letters b))"
proof -
  have "be_nat b < 58 ^ (encoded_block_sizes ! length b)"
    using be_nat_less [of b] block_sizes(1) [OF assms(2)] by (rule less_le_trans)
  with assms show ?thesis
    using encode_loop_digits [of "uint_8be_to_64 b"]
    by (simp add: encode_block_def full_block_size_def uint_8be_to_64_be block_letters_def)
qed

lemma decode_block_value:
  assumes "n \<le> 8" and "0 < n" and "length e = encoded_block_sizes ! n"
  shows "decode_block e =
    (if (\<forall>c \<in> set e. 0 \<le> reverse_alphabet c) \<and> value58 (rev e) < 256 ^ n
     then Some (uint_64_to_8be (word_of_nat (value58 (rev e))) n) else None)"
proof -
  let ?v = "value58 (rev e)"
  have e: "length e \<le> 11" "decoded_block_sizes (length e) = Some (int n)"
    using block_sizes(2,3) [OF assms(1)] assms(3) by simp_all
  have dl: "decode_loop (rev e) 0 1 =
      (if (\<forall>c \<in> set e. 0 \<le> reverse_alphabet c) \<and> ?v < 2 ^ 64 then Some (word_of_nat ?v) else None)"
    using decode_loop_value [of 0 "rev e" 0] e(1) by simp
  have le: "(256 :: nat) ^ n \<le> 2 ^ 64" using power_increasing [of n 8 "256 :: nat"] assms(1) by simp
  have big: "(n < 8 \<and> push_bit (8 * n) 1 \<le> (word_of_nat ?v :: u64)) \<longleftrightarrow> 256 ^ n \<le> ?v" if v: "?v < 2 ^ 64"
  proof (cases "n < 8")
    case True
    have "push_bit (8 * n) 1 = (2 ^ (8 * n) :: u64)" by (simp add: push_bit_eq_mult)
    moreover have "unat (2 ^ (8 * n) :: u64) = 2 ^ (8 * n)" using True by (intro unat_2p) simp
    moreover have "(2 :: nat) ^ (8 * n) = 256 ^ n" by (simp add: power_mult)
    ultimately show ?thesis using True v by (simp add: word_le_nat_alt unat_of_nat)
  next
    case False
    with assms(1) have "n = 8" by simp
    with v show ?thesis by simp
  qed
  show ?thesis
  proof (cases "(\<forall>c \<in> set e. 0 \<le> reverse_alphabet c) \<and> ?v < 2 ^ 64")
    case True
    then show ?thesis
      using assms(2) big by (simp add: decode_block_def e(2) dl full_block_size_def Let_def)
  next
    case False
    then show ?thesis using le by (auto simp: decode_block_def e(2) dl)
  qed
qed

lemma decode_block_letters:
  assumes "b \<noteq> []" and "length b \<le> 8"
  shows "decode_block (block_letters b) = Some b"
proof -
  have lt: "be_nat b < 58 ^ (encoded_block_sizes ! length b)"
    using be_nat_less [of b] block_sizes(1) [OF assms(2)] by (rule less_le_trans)
  then have v: "value58 (rev (block_letters b)) = be_nat b" by (simp only: block_letters_def value58_letters)
  have "\<forall>c \<in> set (block_letters b). 0 \<le> reverse_alphabet c"
    using digits58_less by (fastforce simp: block_letters_def reverse_alphabet_nth)
  moreover have "uint_64_to_8be (word_of_nat (be_nat b)) (length b) = b"
  proof (rule be_nat_inject)
    have "256 ^ length b \<le> (2 :: nat) ^ 64" using power_increasing [of "length b" 8 "256 :: nat"] assms(2) by simp
    then have "be_nat b < 2 ^ 64" using be_nat_less [of b] by simp
    then show "be_nat (uint_64_to_8be (word_of_nat (be_nat b)) (length b)) = be_nat b"
      using assms(2) be_nat_less [of b] by (simp add: uint_64_to_8be_be unat_of_nat)
  qed (simp add: uint_64_to_8be_be assms(2))
  ultimately show ?thesis
    using decode_block_value [of "length b" "block_letters b"] assms be_nat_less [of b] by (simp add: v)
qed

lemma decode_block_inv:
  assumes "decode_block e = Some b"
  shows "b \<noteq> []" and "length b \<le> 8" and "e = block_letters b"
proof -
  obtain m where m: "decoded_block_sizes (length e) = Some m" "0 < m"
    using assms by (auto simp: decode_block_def split: bind_splits if_splits)
  define n where "n = nat m"
  have n: "n \<le> 8" "0 < n" "length e = encoded_block_sizes ! n"
    using decoded_block_sizes_inv [OF m(1)] m(2) by (auto simp: n_def)
  let ?v = "value58 (rev e)"
  have c: "\<forall>c \<in> set e. 0 \<le> reverse_alphabet c" "?v < 256 ^ n"
    and b: "b = uint_64_to_8be (word_of_nat ?v) n"
    using assms decode_block_value [OF n] by (auto split: if_splits)
  have len: "length b = n" using b n by (simp add: uint_64_to_8be_be)
  have "(256 :: nat) ^ n \<le> 2 ^ 64" using power_increasing [of n 8 "256 :: nat"] n by simp
  with c(2) have "?v < 2 ^ 64" by simp
  then have "be_nat b = ?v" using b n c(2) by (simp add: uint_64_to_8be_be unat_of_nat)
  then have "block_letters b = letters (digits58 (length (rev e)) ?v)"
    using len n by (simp add: block_letters_def)
  also have "\<dots> = e" using letters_value58 [of "rev e"] c(1) by simp
  finally show "e = block_letters b" by simp
  show "b \<noteq> []" "length b \<le> 8" using len n by auto
qed

section \<open>Strings\<close>

text \<open>The specification: the letters of the blocks of eight bytes, one after the other.\<close>

definition base58_letters :: "bytes \<Rightarrow> bytes" where
  "base58_letters data = concat (map block_letters (chunks 8 data))"

lemma encode_blocks:
  assumes "\<And>i. i < q \<Longrightarrow> length (block i) = 8" and "11 * q \<le> n"
  shows "for_each [0..<q] (\<lambda>i. encode_block (block i) (i * 11)) (replicate n (alphabet ! 0))
    = Some (concat (map (\<lambda>i. block_letters (block i)) [0..<q]) @ replicate (n - 11 * q) (alphabet ! 0))"
  using assms
proof (induction q)
  case (Suc q)
  let ?done = "concat (map (\<lambda>i. block_letters (block i)) [0..<q])"
  have len: "length (map (\<lambda>i. block_letters (block i)) [0..<q]) = q" by simp
  have ld: "length ?done = q * 11"
  proof -
    have "length ?done = sum_list (map (\<lambda>i. length (block_letters (block i))) [0..<q])"
      by (simp add: length_concat o_def)
    also have "map (\<lambda>i. length (block_letters (block i))) [0..<q] = map (\<lambda>i. 11) [0..<q]"
      using Suc.prems(1) by (intro map_cong) (auto simp: encoded_block_sizes_def)
    finally show ?thesis by (simp add: map_replicate_const sum_list_replicate)
  qed
  have l8: "length (block q) = 8" using Suc.prems(1) by simp
  then have ne: "block q \<noteq> []" by auto
  have b: "encoded_block_sizes ! length (block q) = 11" using Suc.prems(1) by (simp add: encoded_block_sizes_def)
  have r: "replicate (n - 11 * q) (alphabet ! 0) = replicate 11 (alphabet ! 0) @ replicate (n - 11 * Suc q) (alphabet ! 0)"
    using Suc.prems(2) by (simp flip: replicate_add)
  have "encode_block (block q) (q * 11) (?done @ replicate (n - 11 * q) (alphabet ! 0))
      = Some (memcpy_at (?done @ replicate (n - 11 * q) (alphabet ! 0)) (q * 11) (block_letters (block q)))"
    using Suc.prems(2) ne b ld l8 by (intro encode_block_letters) (auto simp: min_def)
  also have "\<dots> = Some (?done @ block_letters (block q) @ replicate (n - 11 * Suc q) (alphabet ! 0))"
    using b ld by (simp add: memcpy_at_append)
  finally show ?case using Suc by (simp add: for_each_append)
qed simp

lemma decode_blocks:
  assumes "\<And>i b. i < q \<Longrightarrow> g i = Some b \<Longrightarrow> length b = 8" and "8 * q \<le> length data"
  shows "for_each [0..<q] (\<lambda>i data. do { b \<leftarrow> g i; Some (memcpy_at data (i * 8) b) }) data = Some out
    \<longleftrightarrow> (\<exists>bs. length bs = q \<and> (\<forall>i < q. g i = Some (bs ! i)) \<and> out = concat bs @ drop (8 * q) data)"
  using assms
proof (induction q arbitrary: out)
  case (Suc q)
  let ?f = "\<lambda>i data. do { b \<leftarrow> g i; Some (memcpy_at data (i * 8) b) }"
  have len: "length (concat bs) = q * 8" if "length bs = q" "\<forall>i < q. g i = Some (bs ! i)" for bs
  proof -
    have "length (bs ! i) = 8" if "i < q" for i
      using that Suc.prems(1) [of i "bs ! i"] \<open>\<forall>i < q. g i = Some (bs ! i)\<close> by simp
    then have "\<forall>b \<in> set bs. length b = 8" using \<open>length bs = q\<close> by (auto simp: in_set_conv_nth)
    then have "map length bs = map (\<lambda>b. 8) bs" by (intro map_cong refl) auto
    then show ?thesis using \<open>length bs = q\<close> by (simp add: length_concat map_replicate_const sum_list_replicate)
  qed
  have IH: "for_each [0..<q] ?f data = Some mid \<longleftrightarrow>
      (\<exists>bs. length bs = q \<and> (\<forall>i < q. g i = Some (bs ! i)) \<and> mid = concat bs @ drop (8 * q) data)" for mid
  proof (rule Suc.IH)
    show "length b = 8" if "i < q" "g i = Some b" for i b
      using that Suc.prems(1) [of i b] by simp
  qed (use Suc.prems(2) in simp)
  have step: "for_each [0..<Suc q] ?f data = Some out \<longleftrightarrow>
      (\<exists>bs b. length bs = q \<and> (\<forall>i < q. g i = Some (bs ! i)) \<and> g q = Some b \<and>
        out = memcpy_at (concat bs @ drop (8 * q) data) (q * 8) b)"
    by (auto simp: for_each_append IH bind_eq_Some_conv)
  also have "\<dots> \<longleftrightarrow> (\<exists>bs b. length bs = q \<and> (\<forall>i < q. g i = Some (bs ! i)) \<and> g q = Some b \<and>
        out = concat bs @ b @ drop (8 * Suc q) data)"
  proof (intro iff_exI conj_cong refl)
    fix bs b
    assume a: "length bs = q" "\<forall>i < q. g i = Some (bs ! i)" "g q = Some b"
    then have "length b = 8" using Suc.prems(1) [OF lessI a(3)] by simp
    with len [OF a(1,2)]
    show "out = memcpy_at (concat bs @ drop (8 * q) data) (q * 8) b \<longleftrightarrow> out = concat bs @ b @ drop (8 * Suc q) data"
      by (simp add: memcpy_at_append add.commute)
  qed
  also have "\<dots> \<longleftrightarrow> (\<exists>bs. length bs = Suc q \<and> (\<forall>i < Suc q. g i = Some (bs ! i)) \<and> out = concat bs @ drop (8 * Suc q) data)"
  proof safe
    fix bs b
    assume "\<forall>i < length bs. g i = Some (bs ! i)" "g (length bs) = Some b"
    then show "\<exists>bs'. length bs' = Suc (length bs) \<and> (\<forall>i < Suc (length bs). g i = Some (bs' ! i)) \<and>
        concat bs @ b @ drop (8 * Suc (length bs)) data = concat bs' @ drop (8 * Suc (length bs)) data"
      by (intro exI [of _ "bs @ [b]"]) (auto simp: nth_append less_Suc_eq)
  next
    fix bs :: "'a list list"
    assume a: "length bs = Suc q" "\<forall>i < Suc q. g i = Some (bs ! i)"
    then have "bs = butlast bs @ [bs ! q]"
      by (metis append_butlast_last_id diff_Suc_1 last_conv_nth length_0_conv nat.distinct(1))
    then have "concat bs = concat (butlast bs) @ bs ! q" by (metis concat.simps concat_append append_Nil2)
    with a show "\<exists>bs' b. length bs' = q \<and> (\<forall>i < q. g i = Some (bs' ! i)) \<and> g q = Some b \<and>
        concat bs @ drop (8 * Suc q) data = concat bs' @ b @ drop (8 * Suc q) data"
      by (intro exI [of _ "butlast bs"] exI [of _ "bs ! q"]) (auto simp: nth_butlast)
  qed
  finally show ?case .
qed auto

lemma chunks_div:
  assumes "length xs = q * n + l" and "l < n"
  shows "chunks n xs = map (\<lambda>i. take n (drop (i * n) xs)) [0..<q] @ (if l = 0 then [] else [drop (q * n) xs])"
  using assms
proof (induction q arbitrary: xs)
  case 0
  then show ?case by (cases "xs = []") (auto simp: chunks.simps [of n xs])
next
  case (Suc q)
  have "chunks n (drop n xs) = map (\<lambda>i. take n (drop (i * n) (drop n xs))) [0..<q]
      @ (if l = 0 then [] else [drop (q * n) (drop n xs)])"
    using Suc.prems by (intro Suc.IH) auto
  moreover have "map (\<lambda>i. take n (drop (i * n) xs)) [0..<Suc q]
      = take n xs # map (\<lambda>i. take n (drop (i * n) (drop n xs))) [0..<q]"
    by (simp add: upt_conv_Cons map_Suc_upt [symmetric] o_def add.commute del: upt_Suc)
  ultimately show ?case
    using Suc.prems by (auto simp: chunks.simps [of n xs] add.commute simp del: upt_Suc)
qed

lemma encode_letters: "encode data = Some (base58_letters data)"
proof (cases "data = []")
  case False
  define q l where "q = length data div 8" and "l = length data mod 8"
  have ql: "length data = q * 8 + l" "l < 8" by (simp_all add: q_def l_def)
  let ?block = "\<lambda>i. take 8 (drop (i * 8) data)"
  let ?full = "concat (map (\<lambda>i. block_letters (?block i)) [0..<q])"
  let ?last = "drop (q * 8) data"
  have blk: "length (?block i) = 8" if "i < q" for i
  proof -
    have "i * 8 + 8 \<le> q * 8" using that by simp
    with ql show ?thesis by simp
  qed
  have e8: "encoded_block_sizes ! 8 = 11" and e0: "encoded_block_sizes ! 0 = 0" by (simp_all add: encoded_block_sizes_def)
  have fe: "for_each [0..<q] (\<lambda>i. encode_block (?block i) (i * 11)) (replicate (q * 11 + encoded_block_sizes ! l) (alphabet ! 0))
      = Some (?full @ replicate (encoded_block_sizes ! l) (alphabet ! 0))"
    using encode_blocks [of q ?block "q * 11 + encoded_block_sizes ! l"] blk by simp
  have lf: "length ?full = q * 11"
  proof -
    have "map (\<lambda>i. length (block_letters (?block i))) [0..<q] = map (\<lambda>i. 11) [0..<q]"
      using blk by (intro map_cong refl) (simp add: e8)
    then show ?thesis by (simp add: length_concat o_def map_replicate_const sum_list_replicate)
  qed
  have last: "encode_block ?last (q * 11) (?full @ replicate (encoded_block_sizes ! l) (alphabet ! 0))
      = Some (?full @ block_letters ?last)" if "l \<noteq> 0"
  proof -
    have "length ?last = l" using ql by simp
    moreover from this that have "?last \<noteq> []" by auto
    ultimately show ?thesis
      using ql(2) lf by (subst encode_block_letters) (simp_all add: memcpy_at_append)
  qed
  have "base58_letters data = ?full @ (if l = 0 then [] else block_letters ?last)"
    unfolding base58_letters_def chunks_div [OF ql] by (simp add: o_def)
  with False fe last e0 show ?thesis
    by (simp add: encode_def full_block_size_def full_encoded_block_size_def e8 flip: q_def l_def)
qed (simp add: encode_def base58_letters_def)

definition blocked :: "nat \<Rightarrow> 'a list list \<Rightarrow> bool" where
  "blocked n xss \<longleftrightarrow> (\<forall>xs \<in> set xss. xs \<noteq> [] \<and> length xs \<le> n) \<and> (\<forall>xs \<in> set (butlast xss). length xs = n)"

lemma blocked_Cons:
  "blocked n (xs # xss) \<longleftrightarrow> xs \<noteq> [] \<and> length xs \<le> n \<and> (xss \<noteq> [] \<longrightarrow> length xs = n) \<and> blocked n xss"
  by (auto simp: blocked_def)

lemma blocked_chunks: "0 < n \<Longrightarrow> blocked n (chunks n xs)"
proof (induction n xs rule: chunks.induct)
  case (1 n xs)
  show ?case
  proof (cases "xs = []")
    case False
    have "chunks n (drop n xs) \<noteq> [] \<Longrightarrow> length (take n xs) = n"
      by (cases "n \<le> length xs") simp_all
    with False 1 show ?thesis by (simp add: chunks.simps [of n xs] blocked_Cons)
  qed (simp add: blocked_def)
qed

lemma chunks_concat_blocked: "blocked n xss \<Longrightarrow> chunks n (concat xss) = xss"
proof (induction xss)
  case (Cons xs xss)
  then have "0 < n" by (cases xs) (auto simp: blocked_Cons)
  with Cons show ?case by (cases "xss = []") (auto simp: blocked_Cons chunks_append chunks.simps [of n xs])
qed simp

lemma map_Some_conv: "map g [0..<q] = map Some bs \<longleftrightarrow> length bs = q \<and> (\<forall>i < q. g i = Some (bs ! i))"
  by (auto simp: list_eq_iff_nth_eq)

text \<open>The loops of \<open>decode\<close>: all blocks decode, and the data are the blocks.\<close>

lemma decode_chunks:
  assumes "enc \<noteq> []"
  shows "decode enc = Some data \<longleftrightarrow> (\<exists>bs. map decode_block (chunks 11 enc) = map Some bs \<and> data = concat bs)"
proof -
  define q m where "q = length enc div 11" and "m = length enc mod 11"
  have qm: "length enc = q * 11 + m" "m < 11" by (simp_all add: q_def m_def)
  have "length decoded_block_sizes_data = 12" by (simp add: decoded_block_sizes_table)
  then obtain d where d: "decoded_block_sizes m = Some d" using qm(2) by (simp add: decoded_block_sizes_def)
  have e8: "encoded_block_sizes ! 8 = 11" and e0: "encoded_block_sizes ! 0 = 0"
    by (simp_all add: encoded_block_sizes_def)
  have fs: "full_block_size = 8" "full_encoded_block_size = 11"
    by (simp_all add: full_encoded_block_size_def full_block_size_def e8)
  let ?g = "\<lambda>i. decode_block (take 11 (drop (i * 11) enc))"
  let ?last = "drop (q * 11) enc"
  have lst: "length ?last = m" using qm by simp
  have ch: "map decode_block (chunks 11 enc) = map ?g [0..<q] @ (if m = 0 then [] else [decode_block ?last])"
    by (simp add: chunks_div [OF qm])
  show ?thesis
  proof (cases "d < 0")
    case True
    then have "decode enc = None"
      using assms d by (simp add: decode_def full_encoded_block_size_def full_block_size_def e8 flip: q_def m_def)
    moreover have "decode_block ?last = None" using True d lst by (simp add: decode_block_def)
    moreover have "m \<noteq> 0" using True d by (auto simp: decoded_block_sizes_def decoded_block_sizes_table intro: gr0I)
    moreover have "None \<in> set (map decode_block (chunks 11 enc)) \<Longrightarrow> map decode_block (chunks 11 enc) \<noteq> map Some bs" for bs :: "bytes list"
      by (metis ex_map_conv option.distinct(1))
    ultimately show ?thesis unfolding ch by simp
  next
    case False
    define l where "l = nat d"
    have l: "l \<le> 8" "m = encoded_block_sizes ! l" "d = int l"
      using decoded_block_sizes_inv [OF d] False by (simp_all add: l_def)
    have m0: "m = 0 \<longleftrightarrow> l = 0" 
      using block_sizes(5) [OF l(1)] l(2) e0 by (cases "l = 0") auto
    have len: "length b = 8" if "i < q" "?g i = Some b" for i b
    proof -
      have "i * 11 + 11 \<le> q * 11" using that(1) by simp
      then have "length (take 11 (drop (i * 11) enc)) = 11" using qm(1) by simp
      then have "encoded_block_sizes ! length b = 11" using decode_block_inv(3) [OF that(2)] by (metis length_block_letters)
      moreover have "length b \<le> 8" using decode_block_inv(2) [OF that(2)] .
      ultimately show ?thesis using block_sizes(4) [of "length b"] by fastforce
    qed
    have fe: "for_each [0..<q] (\<lambda>i data. do { b \<leftarrow> ?g i; Some (memcpy_at data (i * 8) b) }) (replicate (q * 8 + l) 0) = Some out
        \<longleftrightarrow> (\<exists>bs. map ?g [0..<q] = map Some bs \<and> out = concat bs @ replicate l 0)" for out
      unfolding map_Some_conv
      using decode_blocks [of q ?g "replicate (q * 8 + l) 0" out, OF len] by simp
    have cl: "length (concat bs) = q * 8" if bs: "map ?g [0..<q] = map Some bs" for bs
    proof -
      have "length (bs ! i) = 8" if "i < q" for i
        using that bs by (intro len [OF that]) (simp add: map_Some_conv)
      then have "map length bs = map (\<lambda>b. 8) bs"
        using bs by (simp add: list_eq_iff_nth_eq)
      moreover have "length bs = q" using bs by (simp add: map_Some_conv)
      ultimately show ?thesis by (simp add: length_concat map_replicate_const sum_list_replicate)
    qed
    have lb: "length b = l" if "decode_block ?last = Some b" for b
    proof -
      have e: "encoded_block_sizes ! l = encoded_block_sizes ! length b"
        using arg_cong [OF decode_block_inv(3) [OF that], of length] lst l(2) by simp
      have "Some (int l) = Some (int (length b))"
        using block_sizes(3) [OF l(1)] block_sizes(3) [OF decode_block_inv(2) [OF that]] unfolding e by (rule trans [OF sym])
      then show ?thesis by simp
    qed
    have nb: "decode_block ?last \<noteq> Some []" using decode_block_inv(1) by blast
    have "decode enc = do {
        out \<leftarrow> for_each [0..<q] (\<lambda>i data. do { b \<leftarrow> ?g i; Some (memcpy_at data (i * 8) b) }) (replicate (q * 8 + l) 0);
        if 0 < m then do { b \<leftarrow> decode_block ?last; Some (memcpy_at out (q * 8) b) } else Some out }"
      using assms d l unfolding decode_def fs q_def [symmetric] m_def [symmetric] Let_def by simp
    then have "decode enc = Some data \<longleftrightarrow> (\<exists>bs. map ?g [0..<q] = map Some bs \<and>
        (if m = 0 then data = concat bs else \<exists>b. decode_block ?last = Some b \<and> data = concat bs @ b))"
      using m0 nb by (auto simp: bind_eq_Some_conv fe memcpy_at_append cl lb)
    also have "\<dots> \<longleftrightarrow> (\<exists>bs. map decode_block (chunks 11 enc) = map Some bs \<and> data = concat bs)"
      unfolding ch by (fastforce simp: append_eq_map_conv Cons_eq_map_conv)
    finally show ?thesis .
  qed
qed

lemma blocked_letters:
  assumes "\<And>b. b \<in> set bs \<Longrightarrow> b \<noteq> [] \<and> length b \<le> 8"
  shows "blocked 11 (map block_letters bs) \<longleftrightarrow> blocked 8 bs"
proof -
  have "encoded_block_sizes ! length b = 11 \<longleftrightarrow> length b = 8" "encoded_block_sizes ! length b \<le> 11" "block_letters b \<noteq> []"
    if "b \<in> set bs" for b
  proof -
    have b: "0 < length b" "length b \<le> 8" using assms [OF that] by simp_all
    show "encoded_block_sizes ! length b = 11 \<longleftrightarrow> length b = 8"
      using block_sizes(4) [OF b(2)] b(2) by (cases "length b = 8") (auto simp: encoded_block_sizes_def)
    show "encoded_block_sizes ! length b \<le> 11" by (rule block_sizes(2) [OF b(2)])
    show "block_letters b \<noteq> []" using block_sizes(5) [OF b(2,1)] by (metis length_block_letters list.size(3) less_irrefl)
  qed
  note b = this
  have "(\<forall>b \<in> set (butlast bs). encoded_block_sizes ! length b = 11) \<longleftrightarrow> (\<forall>b \<in> set (butlast bs). length b = 8)"
    by (intro ball_cong refl b(1)) (rule in_set_butlastD)
  with assms b(2,3) show ?thesis by (auto simp: blocked_def map_butlast [symmetric])
qed

lemma decode_iff: "decode enc = Some data \<longleftrightarrow> enc = base58_letters data"
proof (cases "enc = []")
  case True
  have "block_letters b \<noteq> []" if "b \<in> set (chunks 8 data)" for b
  proof -
    have "b \<noteq> []" "length b \<le> 8" using that blocked_chunks [of 8 data] by (auto simp: blocked_def)
    then show ?thesis using block_sizes(5) [of "length b"] by (auto dest: arg_cong [of _ _ length])
  qed
  then have "base58_letters data = [] \<longleftrightarrow> chunks 8 data = []"
    by (cases "chunks 8 data") (auto simp: base58_letters_def)
  moreover have "chunks 8 data = [] \<longleftrightarrow> data = []" by (simp add: chunks.simps [of 8 data])
  ultimately show ?thesis using True by (auto simp: decode_def)
next
  case False
  have e8: "encoded_block_sizes ! 8 = 11" by (simp add: encoded_block_sizes_def)
  show ?thesis unfolding decode_chunks [OF False]
  proof
    assume "\<exists>bs. map decode_block (chunks 11 enc) = map Some bs \<and> data = concat bs"
    then obtain bs where d: "map decode_block (chunks 11 enc) = map Some bs" and data: "data = concat bs" by blast
    have "chunks 11 enc = map block_letters bs"
    proof (rule nth_equalityI)
      show len: "length (chunks 11 enc) = length (map block_letters bs)" using arg_cong [OF d, of length] by simp
      show "chunks 11 enc ! i = map block_letters bs ! i" if "i < length (chunks 11 enc)" for i
      proof -
        have "decode_block (chunks 11 enc ! i) = Some (bs ! i)" using arg_cong [OF d, of "\<lambda>xs. xs ! i"] that len by simp
        with that len show ?thesis using decode_block_inv(3) by simp
      qed
    qed
    moreover have "b \<noteq> [] \<and> length b \<le> 8" if "b \<in> set bs" for b
    proof -
      have "Some b \<in> set (map decode_block (chunks 11 enc))" unfolding d using that by simp
      then show ?thesis using decode_block_inv(1,2) by (metis ex_map_conv)
    qed
    moreover from this have "blocked 11 (map block_letters bs) \<longleftrightarrow> blocked 8 bs" by (rule blocked_letters)
    moreover have "blocked 11 (chunks 11 enc)" by (rule blocked_chunks) simp
    ultimately have "chunks 11 enc = map block_letters bs" "blocked 8 bs" by simp_all
    then show "enc = base58_letters data"
      using data concat_chunks [of 11 enc] by (simp add: base58_letters_def chunks_concat_blocked)
  next
    let ?bs = "chunks 8 data"
    assume "enc = base58_letters data"
    moreover have b: "b \<noteq> [] \<and> length b \<le> 8" if "b \<in> set ?bs" for b
      using that blocked_chunks [of 8 data] by (auto simp: blocked_def)
    moreover have "blocked 11 (map block_letters ?bs)"
      using blocked_letters [OF b] blocked_chunks [of 8 data] by simp
    ultimately have "chunks 11 enc = map block_letters ?bs" by (simp add: base58_letters_def chunks_concat_blocked)
    with b show "\<exists>bs. map decode_block (chunks 11 enc) = map Some bs \<and> data = concat bs"
      by (intro exI [of _ ?bs]) (simp add: decode_block_letters concat_chunks)
  qed
qed

section \<open>Addresses\<close>

lemma decode_addr_iff:
  assumes "data \<noteq> []"
  shows "decode_addr addr = Some (tag, data) \<longleftrightarrow> encode_addr tag data = Some addr"
proof
  assume d: "decode_addr addr = Some (tag, data)"
  obtain all where all: "decode addr = Some all" using d by (auto simp: decode_addr_def bind_eq_Some_conv)
  define buf where "buf = take (length all - 4) all"
  obtain hash r rest where len: "4 < length all" and hash: "cn_fast_hash buf = Some hash"
    and chk: "take 4 hash = drop (length all - 4) all"
    and rd: "read_varint buf = (r, tag, rest)" and r: "0 < r" and data: "data = drop (nat r) buf"
    using d all by (auto simp: decode_addr_def bind_eq_Some_conv buf_def Let_def split: if_splits prod.splits)
  have "rest = data" using read_varint_rest [OF rd] r data by simp
  then have buf: "buf = write_varint tag @ data" using read_varint_canonical [OF rd r] assms by simp
  have "all = buf @ take 4 hash" unfolding chk buf_def by simp
  with hash buf all show "encode_addr tag data = Some addr"
    by (simp add: encode_addr_def get_varint_data_def Let_def encode_letters decode_iff)
next
  assume e: "encode_addr tag data = Some addr"
  let ?buf = "write_varint tag @ data"
  obtain hash where hash: "cn_fast_hash ?buf = Some hash" and addr: "addr = base58_letters (?buf @ take 4 hash)"
    using e by (auto simp: encode_addr_def get_varint_data_def Let_def encode_letters bind_eq_Some_conv)
  have "length (take 4 hash) = 4" using cn_fast_hash_length [OF hash] by simp
  moreover have "decode addr = Some (?buf @ take 4 hash)" by (simp add: decode_iff addr)
  ultimately show "decode_addr addr = Some (tag, data)"
    using hash read_varint_write [of tag data] by (simp add: decode_addr_def)
qed

lemma address_export_iff:
  assumes "tag \<noteq> 0"
  shows "decode_address_export check_key addr = tag \<longleftrightarrow>
    (\<exists>spend view. length spend = 32 \<and> length view = 32 \<and> check_key spend \<and> check_key view \<and>
      encode_addr tag (spend @ view) = Some addr)"
proof
  assume a: "decode_address_export check_key addr = tag"
  obtain data where d: "decode_addr addr = Some (tag, data)" "length data = 64"
    "check_key (take 32 data)" "check_key (drop 32 data)"
    using a assms by (auto simp: decode_address_export_def split: option.splits prod.splits if_splits)
  then have "data \<noteq> []" by auto
  with d have "encode_addr tag (take 32 data @ drop 32 data) = Some addr" by (simp add: decode_addr_iff)
  with d show "\<exists>spend view. length spend = 32 \<and> length view = 32 \<and> check_key spend \<and> check_key view \<and>
      encode_addr tag (spend @ view) = Some addr"
    by (intro exI [of _ "take 32 data"] exI [of _ "drop 32 data"]) simp
next
  assume "\<exists>spend view. length spend = 32 \<and> length view = 32 \<and> check_key spend \<and> check_key view \<and>
      encode_addr tag (spend @ view) = Some addr"
  then obtain spend view where k: "length spend = 32" "length view = 32" "check_key spend" "check_key view"
    and e: "encode_addr tag (spend @ view) = Some addr" by blast
  have "spend @ view \<noteq> []" "spend \<noteq> []" using k(1) by auto
  with e have "decode_addr addr = Some (tag, spend @ view)" by (simp add: decode_addr_iff)
  with k show "decode_address_export check_key addr = tag"
    using \<open>spend \<noteq> []\<close> by (simp add: decode_address_export_def)
qed

lemma integrated_address_export_iff:
  assumes "tag \<noteq> 0"
  shows "decode_integrated_address_export check_key addr = tag \<longleftrightarrow>
    (\<exists>spend view payment_id. length spend = 32 \<and> length view = 32 \<and> length payment_id = 8 \<and>
      check_key spend \<and> check_key view \<and> encode_addr tag (spend @ view @ payment_id) = Some addr)"
proof
  assume a: "decode_integrated_address_export check_key addr = tag"
  obtain data where d: "decode_addr addr = Some (tag, data)" "length data = 72"
    "check_key (take 32 data)" "check_key (take 32 (drop 32 data))"
    using a assms by (auto simp: decode_integrated_address_export_def split: option.splits prod.splits if_splits)
  then have "data \<noteq> []" by auto
  moreover have "take 32 data @ take 32 (drop 32 data) @ drop 32 (drop 32 data) = data" by (simp only: append_take_drop_id)
  ultimately have "encode_addr tag (take 32 data @ take 32 (drop 32 data) @ drop 32 (drop 32 data)) = Some addr"
    using d(1) decode_addr_iff by simp
  with d show "\<exists>spend view payment_id. length spend = 32 \<and> length view = 32 \<and> length payment_id = 8 \<and>
      check_key spend \<and> check_key view \<and> encode_addr tag (spend @ view @ payment_id) = Some addr"
    by (intro exI [of _ "take 32 data"] exI [of _ "take 32 (drop 32 data)"] exI [of _ "drop 32 (drop 32 data)"]) simp
next
  assume "\<exists>spend view payment_id. length spend = 32 \<and> length view = 32 \<and> length payment_id = 8 \<and>
      check_key spend \<and> check_key view \<and> encode_addr tag (spend @ view @ payment_id) = Some addr"
  then obtain spend view payment_id where k: "length spend = 32" "length view = 32" "length payment_id = 8"
    "check_key spend" "check_key view" and e: "encode_addr tag (spend @ view @ payment_id) = Some addr" by blast
  have "spend @ view @ payment_id \<noteq> []" "spend \<noteq> []" using k(1) by auto
  with e have "decode_addr addr = Some (tag, spend @ view @ payment_id)" by (simp add: decode_addr_iff)
  with k show "decode_integrated_address_export check_key addr = tag"
    using \<open>spend \<noteq> []\<close> by (simp add: decode_integrated_address_export_def)
qed

section \<open>Properties\<close>

text \<open>
  Property C31: base-58 strings. Every byte string has an encoding, without a write out of bounds, and
  \<open>encode\<close> and \<open>decode\<close> are inverse to each other: \<open>decode\<close> accepts exactly the strings that
  \<open>encode\<close> writes, so no two strings decode to the same data, and letters outside the alphabet,
  impossible lengths and blocks that are too large are rejected.
\<close>

theorem base58_roundtrip:
  "(\<exists>enc. encode data = Some enc) \<and> (encode data = Some enc \<longleftrightarrow> decode enc = Some data)"
  by (auto simp: encode_letters decode_iff)

text \<open>
  Property C32: the exported address checks. For a tag other than 0, \<open>decode_address_export\<close> returns the
  tag exactly for the base-58 encoding of the tag, two valid keys of 32 bytes and the checksum, and
  \<open>decode_integrated_address_export\<close> exactly for the encoding of two valid keys and a payment id of
  8 bytes.
\<close>

theorem address_checks:
  assumes "tag \<noteq> 0"
  shows "(decode_address_export check_key addr = tag \<longleftrightarrow>
      (\<exists>spend view. length spend = 32 \<and> length view = 32 \<and> check_key spend \<and> check_key view \<and>
        encode_addr tag (spend @ view) = Some addr))
    \<and> (decode_integrated_address_export check_key addr = tag \<longleftrightarrow>
      (\<exists>spend view payment_id. length spend = 32 \<and> length view = 32 \<and> length payment_id = 8 \<and>
        check_key spend \<and> check_key view \<and> encode_addr tag (spend @ view @ payment_id) = Some addr))"
  using address_export_iff [OF assms] integrated_address_export_iff [OF assms] by simp

text \<open>The tag 18 is the one of a Monero address; here every key of which the first byte is not 0 is valid.\<close>

theorem address_checks_witness:
  "\<exists>addr. decode_address_export (\<lambda>k. hd k \<noteq> 0) addr = 18"
proof -
  let ?key = "replicate 32 (7 :: u8)"
  have "write_varint 18 = [18]" by code_simp
  then obtain addr where "encode_addr 18 (?key @ ?key) = Some addr"
    by (simp add: encode_addr_def get_varint_data_def cn_fast_hash_sponge encode_letters Let_def del: replicate_numeral)
  with address_checks [of 18 "\<lambda>k. hd k \<noteq> 0" addr] have "decode_address_export (\<lambda>k. hd k \<noteq> 0) addr = 18"
    by (auto intro!: exI [of _ ?key])
  then show ?thesis by blast
qed

text \<open>
  \<open>mul128\<close> multiplies two 64-bit words into two words that together are the exact
  product: the carries of the partial sums are not lost.
\<close>

theorem mul128_exact:
  "unat (fst (mul128 x y)) + 2 ^ 64 * unat (snd (mul128 x y)) = unat x * unat y"
  by (rule mul128_product) simp

end
