(* ===== verification/KeccakPP.thy ===== *)
theory KeccakPP
  imports Keccak
begin

text \<open>
  The Keccak of the ProgPoW libraries, \<open>libkawpow/keccak/\<close>: the unrolled permutations of
  \<open>keccakf1600.c\<close> and \<open>keccakf800.c\<close> and the word sponge of \<open>keccak.c\<close>. (The sibling libraries hold
  identical copies.) The theorems: the permutations are those of FIPS 202 with 64-bit and 32-bit lanes, and
  \<open>ethash_keccak256\<close> and \<open>ethash_keccak512\<close> are the hash functions of \<open>libethhash\<close>.
\<close>

section \<open>The permutations\<close>

text \<open>
  The second half of the loop body of the sources is the first half with the names \<open>Axx\<close> and
  \<open>Exx\<close> exchanged and the next round constant; both halves are this round.
\<close>

definition round_constants1600 :: "u64 list" where
  "round_constants1600 =
     [0x0000000000000001, 0x0000000000008082, 0x800000000000808a, 0x8000000080008000,
      0x000000000000808b, 0x0000000080000001, 0x8000000080008081, 0x8000000000008009,
      0x000000000000008a, 0x0000000000000088, 0x0000000080008009, 0x000000008000000a,
      0x000000008000808b, 0x800000000000008b, 0x8000000000008089, 0x8000000000008003,
      0x8000000000008002, 0x8000000000000080, 0x000000000000800a, 0x800000008000000a,
      0x8000000080008081, 0x8000000000008080, 0x0000000080000001, 0x8000000080008008]"

definition keccakf1600_round :: "u64 \<Rightarrow> u64 list \<Rightarrow> u64 list" where
  "keccakf1600_round rc A =
     (let Aba = A ! 0; Abe = A ! 1; Abi = A ! 2; Abo = A ! 3; Abu = A ! 4; Aga = A ! 5;
          Age = A ! 6; Agi = A ! 7; Ago = A ! 8; Agu = A ! 9; Aka = A ! 10; Ake = A ! 11;
          Aki = A ! 12; Ako = A ! 13; Aku = A ! 14; Ama = A ! 15; Ame = A ! 16; Ami = A ! 17;
          Amo = A ! 18; Amu = A ! 19; Asa = A ! 20; Ase = A ! 21; Asi = A ! 22; Aso = A ! 23;
          Asu = A ! 24; Ba = Aba XOR Aga XOR Aka XOR Ama XOR Asa;
          Be = Abe XOR Age XOR Ake XOR Ame XOR Ase; Bi = Abi XOR Agi XOR Aki XOR Ami XOR Asi;
          Bo = Abo XOR Ago XOR Ako XOR Amo XOR Aso; Bu = Abu XOR Agu XOR Aku XOR Amu XOR Asu;
          Da = Bu XOR rol Be 1; De = Ba XOR rol Bi 1; Di = Be XOR rol Bo 1; Do = Bi XOR rol Bu 1;
          Du = Bo XOR rol Ba 1; Ba = Aba XOR Da; Be = rol (Age XOR De) 44;
          Bi = rol (Aki XOR Di) 43; Bo = rol (Amo XOR Do) 21; Bu = rol (Asu XOR Du) 14;
          Eba = Ba XOR (NOT Be AND Bi) XOR rc; Ebe = Be XOR (NOT Bi AND Bo);
          Ebi = Bi XOR (NOT Bo AND Bu); Ebo = Bo XOR (NOT Bu AND Ba); Ebu = Bu XOR (NOT Ba AND Be);
          Ba = rol (Abo XOR Do) 28; Be = rol (Agu XOR Du) 20; Bi = rol (Aka XOR Da) 3;
          Bo = rol (Ame XOR De) 45; Bu = rol (Asi XOR Di) 61; Ega = Ba XOR (NOT Be AND Bi);
          Ege = Be XOR (NOT Bi AND Bo); Egi = Bi XOR (NOT Bo AND Bu); Ego = Bo XOR (NOT Bu AND Ba);
          Egu = Bu XOR (NOT Ba AND Be); Ba = rol (Abe XOR De) 1; Be = rol (Agi XOR Di) 6;
          Bi = rol (Ako XOR Do) 25; Bo = rol (Amu XOR Du) 8; Bu = rol (Asa XOR Da) 18;
          Eka = Ba XOR (NOT Be AND Bi); Eke = Be XOR (NOT Bi AND Bo); Eki = Bi XOR (NOT Bo AND Bu);
          Eko = Bo XOR (NOT Bu AND Ba); Eku = Bu XOR (NOT Ba AND Be); Ba = rol (Abu XOR Du) 27;
          Be = rol (Aga XOR Da) 36; Bi = rol (Ake XOR De) 10; Bo = rol (Ami XOR Di) 15;
          Bu = rol (Aso XOR Do) 56; Ema = Ba XOR (NOT Be AND Bi); Eme = Be XOR (NOT Bi AND Bo);
          Emi = Bi XOR (NOT Bo AND Bu); Emo = Bo XOR (NOT Bu AND Ba); Emu = Bu XOR (NOT Ba AND Be);
          Ba = rol (Abi XOR Di) 62; Be = rol (Ago XOR Do) 55; Bi = rol (Aku XOR Du) 39;
          Bo = rol (Ama XOR Da) 41; Bu = rol (Ase XOR De) 2; Esa = Ba XOR (NOT Be AND Bi);
          Ese = Be XOR (NOT Bi AND Bo); Esi = Bi XOR (NOT Bo AND Bu); Eso = Bo XOR (NOT Bu AND Ba);
          Esu = Bu XOR (NOT Ba AND Be)
      in [Eba, Ebe, Ebi, Ebo, Ebu, Ega, Ege, Egi, Ego, Egu, Eka, Eke, Eki,
          Eko, Eku, Ema, Eme, Emi, Emo, Emu, Esa, Ese, Esi, Eso, Esu])"

definition ethash_keccakf1600 :: "u64 list \<Rightarrow> u64 list" where
  "ethash_keccakf1600 state =
     fold (\<lambda>round A. let E = keccakf1600_round (round_constants1600 ! round) A
                      in keccakf1600_round (round_constants1600 ! (round + 1)) E)
       (map (\<lambda>k. 2 * k) [0..<12]) state"

definition round_constants800 :: "u32 list" where
  "round_constants800 =
     [0x00000001, 0x00008082, 0x0000808A, 0x80008000, 0x0000808B, 0x80000001, 0x80008081,
      0x00008009, 0x0000008A, 0x00000088, 0x80008009, 0x8000000A, 0x8000808B, 0x0000008B,
      0x00008089, 0x00008003, 0x00008002, 0x00000080, 0x0000800A, 0x8000000A, 0x80008081,
      0x00008080]"

definition keccakf800_round :: "u32 \<Rightarrow> u32 list \<Rightarrow> u32 list" where
  "keccakf800_round rc A =
     (let Aba = A ! 0; Abe = A ! 1; Abi = A ! 2; Abo = A ! 3; Abu = A ! 4; Aga = A ! 5;
          Age = A ! 6; Agi = A ! 7; Ago = A ! 8; Agu = A ! 9; Aka = A ! 10; Ake = A ! 11;
          Aki = A ! 12; Ako = A ! 13; Aku = A ! 14; Ama = A ! 15; Ame = A ! 16; Ami = A ! 17;
          Amo = A ! 18; Amu = A ! 19; Asa = A ! 20; Ase = A ! 21; Asi = A ! 22; Aso = A ! 23;
          Asu = A ! 24; Ba = Aba XOR Aga XOR Aka XOR Ama XOR Asa;
          Be = Abe XOR Age XOR Ake XOR Ame XOR Ase; Bi = Abi XOR Agi XOR Aki XOR Ami XOR Asi;
          Bo = Abo XOR Ago XOR Ako XOR Amo XOR Aso; Bu = Abu XOR Agu XOR Aku XOR Amu XOR Asu;
          Da = Bu XOR rol Be 1; De = Ba XOR rol Bi 1; Di = Be XOR rol Bo 1; Do = Bi XOR rol Bu 1;
          Du = Bo XOR rol Ba 1; Ba = Aba XOR Da; Be = rol (Age XOR De) 12;
          Bi = rol (Aki XOR Di) 11; Bo = rol (Amo XOR Do) 21; Bu = rol (Asu XOR Du) 14;
          Eba = Ba XOR (NOT Be AND Bi) XOR rc; Ebe = Be XOR (NOT Bi AND Bo);
          Ebi = Bi XOR (NOT Bo AND Bu); Ebo = Bo XOR (NOT Bu AND Ba); Ebu = Bu XOR (NOT Ba AND Be);
          Ba = rol (Abo XOR Do) 28; Be = rol (Agu XOR Du) 20; Bi = rol (Aka XOR Da) 3;
          Bo = rol (Ame XOR De) 13; Bu = rol (Asi XOR Di) 29; Ega = Ba XOR (NOT Be AND Bi);
          Ege = Be XOR (NOT Bi AND Bo); Egi = Bi XOR (NOT Bo AND Bu); Ego = Bo XOR (NOT Bu AND Ba);
          Egu = Bu XOR (NOT Ba AND Be); Ba = rol (Abe XOR De) 1; Be = rol (Agi XOR Di) 6;
          Bi = rol (Ako XOR Do) 25; Bo = rol (Amu XOR Du) 8; Bu = rol (Asa XOR Da) 18;
          Eka = Ba XOR (NOT Be AND Bi); Eke = Be XOR (NOT Bi AND Bo); Eki = Bi XOR (NOT Bo AND Bu);
          Eko = Bo XOR (NOT Bu AND Ba); Eku = Bu XOR (NOT Ba AND Be); Ba = rol (Abu XOR Du) 27;
          Be = rol (Aga XOR Da) 4; Bi = rol (Ake XOR De) 10; Bo = rol (Ami XOR Di) 15;
          Bu = rol (Aso XOR Do) 24; Ema = Ba XOR (NOT Be AND Bi); Eme = Be XOR (NOT Bi AND Bo);
          Emi = Bi XOR (NOT Bo AND Bu); Emo = Bo XOR (NOT Bu AND Ba); Emu = Bu XOR (NOT Ba AND Be);
          Ba = rol (Abi XOR Di) 30; Be = rol (Ago XOR Do) 23; Bi = rol (Aku XOR Du) 7;
          Bo = rol (Ama XOR Da) 9; Bu = rol (Ase XOR De) 2; Esa = Ba XOR (NOT Be AND Bi);
          Ese = Be XOR (NOT Bi AND Bo); Esi = Bi XOR (NOT Bo AND Bu); Eso = Bo XOR (NOT Bu AND Ba);
          Esu = Bu XOR (NOT Ba AND Be)
      in [Eba, Ebe, Ebi, Ebo, Ebu, Ega, Ege, Egi, Ego, Egu, Eka, Eke, Eki,
          Eko, Eku, Ema, Eme, Emi, Emo, Emu, Esa, Ese, Esi, Eso, Esu])"

definition ethash_keccakf800 :: "u32 list \<Rightarrow> u32 list" where
  "ethash_keccakf800 state =
     fold (\<lambda>round A. let E = keccakf800_round (round_constants800 ! round) A
                      in keccakf800_round (round_constants800 ! (round + 1)) E)
       (map (\<lambda>k. 2 * k) [0..<11]) state"

section \<open>The sponge\<close>

text \<open>\<open>for (i = 0; i < n; ++i) { state[i] ^= load_le(data); data += 8; }\<close>\<close>

definition load_le :: "bytes \<Rightarrow> u64" where
  "load_le data = word_of_bytes (take 8 data)"

definition xor_words :: "nat \<Rightarrow> u64 list \<Rightarrow> bytes \<Rightarrow> u64 list" where
  "xor_words n state data = fold (\<lambda>i state. state[i := state ! i XOR load_le (drop (8 * i) data)]) [0..<n] state"

text \<open>
  The loop over the full blocks; it returns the state and the rest of the data. The block size is 136 or 72
  (at 0 the loop of the source would not end, the model stops).
\<close>

function keccak_blocks :: "nat \<Rightarrow> u64 list \<Rightarrow> bytes \<Rightarrow> u64 list \<times> bytes" where
  "keccak_blocks block_size state data =
     (if block_size = 0 \<or> length data < block_size then (state, data)
      else keccak_blocks block_size (ethash_keccakf1600 (xor_words (block_size div 8) state data)) (drop block_size data))"
  by pat_completeness auto
termination
  by (relation "measure (\<lambda>(block_size, state, data). length data)") auto

declare keccak_blocks.simps [simp del]

text \<open>The words of \<open>out\<close>; \<open>bits\<close> is 256 or 512.\<close>

definition keccak :: "nat \<Rightarrow> bytes \<Rightarrow> u64 list" where
  "keccak bits data =
     (let hash_size = bits div 8;
          block_size = (1600 - bits * 2) div 8;
          (state, data) = keccak_blocks block_size (replicate 25 0) data;
          state_iter = length data div 8;
          state = xor_words state_iter state data;
          last_word = memcpy_at (replicate 8 0) 0 (drop (8 * state_iter) data);
          last_word = last_word[length data mod 8 := 0x01];
          state = state[state_iter := state ! state_iter XOR word_of_bytes last_word];
          state = state[block_size div 8 - 1 := state ! (block_size div 8 - 1) XOR 0x8000000000000000];
          state = ethash_keccakf1600 state
      in map (\<lambda>i. state ! i) [0..<hash_size div 8])"

definition ethash_keccak256 :: "bytes \<Rightarrow> bytes" where
  "ethash_keccak256 data = bytes_of_words (keccak 256 data)"

definition ethash_keccak256_32 :: "bytes \<Rightarrow> bytes" where
  "ethash_keccak256_32 data = bytes_of_words (keccak 256 (take 32 data))"

definition ethash_keccak512 :: "bytes \<Rightarrow> bytes" where
  "ethash_keccak512 data = bytes_of_words (keccak 512 data)"

definition ethash_keccak512_64 :: "bytes \<Rightarrow> bytes" where
  "ethash_keccak512_64 data = bytes_of_words (keccak 512 (take 64 data))"

section \<open>The permutations meet the specification\<close>

lemma spec_theta_25:
  fixes A :: "'a::len word list"
  assumes "A = [a0, a1, a2, a3, a4, a5, a6, a7, a8, a9, a10, a11, a12, a13, a14, a15, a16, a17, a18, a19, a20, a21, a22, a23, a24]"
    and "ba = a0 XOR a5 XOR a10 XOR a15 XOR a20" and "be = a1 XOR a6 XOR a11 XOR a16 XOR a21"
    and "bi = a2 XOR a7 XOR a12 XOR a17 XOR a22" and "bo = a3 XOR a8 XOR a13 XOR a18 XOR a23"
    and "bu = a4 XOR a9 XOR a14 XOR a19 XOR a24"
    and "da = bu XOR rol be 1" and "de = ba XOR rol bi 1" and "di = be XOR rol bo 1"
    and "d3 = bi XOR rol bu 1" and "du = bo XOR rol ba 1"
  shows "spec_theta A =
    [a0 XOR da, a1 XOR de, a2 XOR di, a3 XOR d3, a4 XOR du,
     a5 XOR da, a6 XOR de, a7 XOR di, a8 XOR d3, a9 XOR du,
     a10 XOR da, a11 XOR de, a12 XOR di, a13 XOR d3, a14 XOR du,
     a15 XOR da, a16 XOR de, a17 XOR di, a18 XOR d3, a19 XOR du,
     a20 XOR da, a21 XOR de, a22 XOR di, a23 XOR d3, a24 XOR du]"
  unfolding assms by (simp add: spec_theta_def of_lanes_unroll lane_def)

lemma rho_pi_64:
  "spec_pi (spec_rho [x0, x1, x2, x3, x4, x5, x6, x7, x8, x9, x10, x11, x12, x13, x14, x15, x16, x17, x18, x19, x20, x21, x22, x23, x24]) =
    [x0, rol x6 44, rol x12 43, rol x18 21, rol x24 14, rol x3 28, rol x9 20, rol x10 3, rol x16 45, rol x22 61, rol x1 1, rol x7 6, rol x13 25, rol x19 8, rol x20 18, rol x4 27, rol x5 36, rol x11 10, rol x17 15, rol x23 56, rol x2 62, rol x8 55, rol x14 39, rol x15 41, rol x21 2 :: u64]"
  using rho_offsets by (simp add: spec_rho_def spec_pi_def of_lanes_unroll lane_def)

lemma rho_pi_32:
  "spec_pi (spec_rho [x0, x1, x2, x3, x4, x5, x6, x7, x8, x9, x10, x11, x12, x13, x14, x15, x16, x17, x18, x19, x20, x21, x22, x23, x24]) =
    [x0, rol x6 12, rol x12 11, rol x18 21, rol x24 14, rol x3 28, rol x9 20, rol x10 3, rol x16 13, rol x22 29, rol x1 1, rol x7 6, rol x13 25, rol x19 8, rol x20 18, rol x4 27, rol x5 4, rol x11 10, rol x17 15, rol x23 24, rol x2 30, rol x8 23, rol x14 7, rol x15 9, rol x21 2 :: u32]"
  using rho_offsets by (simp add: spec_rho_def spec_pi_def of_lanes_unroll lane_def)

lemma chi_25:
  "spec_chi [b0, b1, b2, b3, b4, b5, b6, b7, b8, b9, b10, b11, b12, b13, b14, b15, b16, b17, b18, b19, b20, b21, b22, b23, b24] =
    [b0 XOR (NOT b1 AND b2),
     b1 XOR (NOT b2 AND b3),
     b2 XOR (NOT b3 AND b4),
     b3 XOR (NOT b4 AND b0),
     b4 XOR (NOT b0 AND b1),
     b5 XOR (NOT b6 AND b7),
     b6 XOR (NOT b7 AND b8),
     b7 XOR (NOT b8 AND b9),
     b8 XOR (NOT b9 AND b5),
     b9 XOR (NOT b5 AND b6),
     b10 XOR (NOT b11 AND b12),
     b11 XOR (NOT b12 AND b13),
     b12 XOR (NOT b13 AND b14),
     b13 XOR (NOT b14 AND b10),
     b14 XOR (NOT b10 AND b11),
     b15 XOR (NOT b16 AND b17),
     b16 XOR (NOT b17 AND b18),
     b17 XOR (NOT b18 AND b19),
     b18 XOR (NOT b19 AND b15),
     b19 XOR (NOT b15 AND b16),
     b20 XOR (NOT b21 AND b22),
     b21 XOR (NOT b22 AND b23),
     b22 XOR (NOT b23 AND b24),
     b23 XOR (NOT b24 AND b20),
     b24 XOR (NOT b20 AND b21) :: 'a::len word]"
  by (simp add: spec_chi_def of_lanes_unroll lane_def)

lemma keccakf1600_round_spec: "length A = 25 \<Longrightarrow> keccakf1600_round rc A = spec_round rc A"
  by (erule list_25_cases)
    (simp add: keccakf1600_round_def spec_round_def spec_iota_def Let_def spec_theta_25 [OF refl refl refl refl refl refl refl refl refl refl refl]
      rho_pi_64 chi_25 xor.assoc)

lemma keccakf800_round_spec: "length A = 25 \<Longrightarrow> keccakf800_round rc A = spec_round rc A"
  by (erule list_25_cases)
    (simp add: keccakf800_round_def spec_round_def spec_iota_def Let_def spec_theta_25 [OF refl refl refl refl refl refl refl refl refl refl refl]
      rho_pi_32 chi_25 xor.assoc)

lemma round_constants1600_spec: "map (spec_RC 6) [0..<24] = round_constants1600"
  by code_simp

lemma round_constants800_spec: "map (spec_RC 5) [0..<22] = round_constants800"
  by code_simp

lemma fold_pairs: "fold (\<lambda>k s. f (k + 1) (f k s)) (map (\<lambda>k. 2 * k) [0..<n]) s = fold f [0..<2 * n] s"
  by (induction n arbitrary: s) simp_all

lemma ethash_keccakf1600_spec:
  assumes "length state = 25"
  shows "ethash_keccakf1600 state = keccak_p1600 24 state"
proof -
  have "ethash_keccakf1600 state = fold (\<lambda>i. keccakf1600_round (round_constants1600 ! i)) [0..<24] state"
    using fold_pairs [of "\<lambda>i. keccakf1600_round (round_constants1600 ! i)" 12] by (simp add: ethash_keccakf1600_def)
  also have "\<dots> = fold (\<lambda>ir. spec_round (spec_RC 6 ir)) [0..<24] state"
    using assms by (intro fold_rounds_eq) (simp_all add: keccakf1600_round_spec flip: round_constants1600_spec)
  finally show ?thesis by (simp add: keccak_p1600_def)
qed

lemma ethash_keccakf800_spec:
  assumes "length state = 25"
  shows "ethash_keccakf800 state = keccak_p800 state"
proof -
  have "ethash_keccakf800 state = fold (\<lambda>i. keccakf800_round (round_constants800 ! i)) [0..<22] state"
    using fold_pairs [of "\<lambda>i. keccakf800_round (round_constants800 ! i)" 11] by (simp add: ethash_keccakf800_def)
  also have "\<dots> = fold (\<lambda>ir. spec_round (spec_RC 5 ir)) [0..<22] state"
    using assms by (intro fold_rounds_eq) (simp_all add: keccakf800_round_spec flip: round_constants800_spec)
  finally show ?thesis by (simp add: keccak_p800_def)
qed

section \<open>The sponge meets the specification\<close>

lemma xor_words_spec:
  assumes "length st = 25" and "n \<le> 25" and "8 * n \<le> length inp"
  shows "xor_words n st inp = map2 (XOR) st (words_of_bytes (take (8 * n) inp)) @ drop n st"
  using cn_xor_block_spec [OF assms] by (simp add: xor_words_def cn_xor_block_def load_le_def)

lemma keccak_blocks_spec:
  assumes "length s = 25" and "8 dvd rate" and "0 < rate" and "rate \<le> 200"
  shows "\<exists>s' rest. keccak_blocks rate s inp = (s', rest) \<and> length s' = 25 \<and> length rest < rate
           \<and> sponge_absorb rate delim s inp = sponge_absorb rate delim s' rest"
  using assms
proof (induction "length inp" arbitrary: inp s rule: less_induct)
  case less
  show ?case
  proof (cases "length inp < rate")
    case True
    with less.prems show ?thesis
      by (intro exI [of _ s] exI [of _ inp]) (simp add: keccak_blocks.simps [of rate _ inp])
  next
    case False
    let ?s = "absorb_block s (take rate inp)"
    have "ethash_keccakf1600 (xor_words (rate div 8) s inp) = ?s"
      using False less.prems by (simp add: xor_words_spec ethash_keccakf1600_spec absorb_block_def)
    then have "keccak_blocks rate s inp = keccak_blocks rate ?s (drop rate inp)"
      using False less.prems by (simp add: keccak_blocks.simps [of rate _ inp])
    moreover have "sponge_absorb rate delim s inp = sponge_absorb rate delim ?s (drop rate inp)"
      using False less.prems by (intro sponge_absorb_step) auto
    moreover have "length (drop rate inp) < length inp" using False less.prems by simp
    ultimately show ?thesis
      using less.hyps [of "drop rate inp" ?s] False less.prems by simp
  qed
qed

lemma words_replicate_0: "(words_of_bytes (replicate (8 * n) 0) :: u64 list) = replicate n 0"
proof -
  have "bytes_of_words (replicate n (0 :: u64)) = replicate (8 * n) 0"
  proof (induction n)
    case (Suc n)
    have "bytes_of_word (0 :: u64) = replicate 8 0" by code_simp
    with Suc show ?case by (simp add: bytes_of_words_def flip: replicate_add)
  qed (simp add: bytes_of_words_def)
  then show ?thesis using words_of_bytes_of_words [of "replicate n (0 :: u64)"] by simp
qed

lemma xor_zeros: "map2 (XOR) xs (replicate (length xs) 0) = (xs :: bytes)"
  by (induction xs) simp_all

text \<open>The padding of the last block is the byte 1 and zeros, xored with the top bit of the block.\<close>

lemma sponge_pad_xor:
  assumes "length rest < r"
  shows "rest @ sponge_pad r 1 (length rest)
    = map2 (XOR) (rest @ 1 # replicate (r - length rest - 1) 0) (replicate (r - 1) 0 @ [0x80])"
proof (cases "r = Suc (length rest)")
  case True
  then show ?thesis using xor_zeros [of rest] by (simp add: sponge_pad_def zip_append)
next
  case False
  define k where "k = r - length rest - 2"
  have r: "r = length rest + k + 2" using assms False by (simp add: k_def)
  define d where "d = rest @ 1 # replicate k (0 :: u8)"
  have lo: "rest @ 1 # replicate (r - length rest - 1) 0 = d @ [0]"
    by (simp add: d_def r replicate_append_same)
  have len: "r - 1 = length d" by (simp add: d_def r)
  have "rest @ sponge_pad r 1 (length rest) = d @ [0x80]" by (simp add: d_def r sponge_pad_def)
  then show ?thesis unfolding lo len using xor_zeros [of d] by (simp add: zip_append)
qed

lemma words_of_bytes_8:
  assumes "length bs = 8"
  shows "(words_of_bytes bs :: u64 list) = [word_of_bytes bs]"
proof -
  have "chunks 8 (bs @ []) = bs # chunks 8 []" using assms by (intro chunks_append) simp_all
  then show ?thesis by (simp add: words_of_bytes_def)
qed

lemma keccak_final_block:
  fixes s :: "u64 list"
  assumes "length s = 25" and "length rest < 8 * n" and "n \<le> 25"
  defines "k \<equiv> length rest div 8"
  defines "st \<equiv> xor_words k s rest"
  defines "w \<equiv> word_of_bytes ((memcpy_at (replicate 8 0) 0 (drop (8 * k) rest))[length rest mod 8 := 0x01])"
  defines "st' \<equiv> st[k := st ! k XOR w]"
  shows "st'[n - 1 := st' ! (n - 1) XOR 0x8000000000000000]
    = map2 (XOR) s (words_of_bytes (rest @ sponge_pad (8 * n) 1 (length rest))) @ drop n s"
proof -
  have k: "k < n" "8 * k \<le> length rest" "length rest = 8 * k + length rest mod 8"
    using assms(2) by (auto simp: k_def)
  let ?tail = "drop (8 * k) rest"
  let ?m = "length rest mod 8"
  have tl: "length ?tail = ?m" "?m < 8" using k by simp_all
  have last: "(memcpy_at (replicate 8 0) 0 ?tail)[?m := 0x01] = ?tail @ 1 # replicate (7 - ?m) 0"
  proof -
    have "memcpy_at (replicate 8 0) 0 ?tail = ?tail @ replicate (8 - ?m) (0 :: u8)"
      using tl by (simp add: memcpy_at_def)
    also have "8 - ?m = Suc (7 - ?m)" using tl by simp
    finally show ?thesis using tl by (simp add: list_update_append)
  qed
  let ?lo = "rest @ 1 # replicate (8 * n - length rest - 1) (0 :: u8)"
  let ?hi = "replicate (8 * n - 1) 0 @ [0x80 :: u8]"
  have e1: "8 * n - length rest - 1 = (7 - ?m) + 8 * (n - k - 1)" using k tl by linarith
  have "?lo = take (8 * k) rest @ (?tail @ 1 # replicate (7 - ?m) 0) @ replicate (8 * (n - k - 1)) 0"
    unfolding e1 replicate_add by (simp add: append_assoc [symmetric] del: append_assoc)
  moreover define a b where "a = take (8 * k) rest" and "b = ?tail @ 1 # replicate (7 - ?m) (0 :: u8)"
  ultimately have lab: "?lo = a @ b @ replicate (8 * (n - k - 1)) 0" by (simp only:)
  have "length a = 8 * k" "length b = 8" using k tl by (simp_all add: a_def b_def)
  then have lo: "words_of_bytes ?lo = words_of_bytes (take (8 * k) rest) @ [w] @ replicate (n - k - 1) (0 :: u64)"
    unfolding w_def last a_def [symmetric] b_def [symmetric] lab
    by (simp add: words_of_bytes_append words_of_bytes_8 words_replicate_0)
  have e2: "8 * n - 1 = 8 * (n - 1) + 7" using k(1) by simp
  define t where "t = replicate 7 0 @ [0x80 :: u8]"
  have t: "length t = 8" "word_of_bytes t = (0x8000000000000000 :: u64)"
    by (simp_all add: t_def word_of_bytes_def replicate_numeral)
  have "?hi = replicate (8 * (n - 1)) 0 @ t" unfolding e2 replicate_add t_def by simp
  then have hi: "words_of_bytes ?hi = replicate (n - 1) 0 @ [0x8000000000000000 :: u64]"
    using t by (simp add: words_of_bytes_append words_of_bytes_8 words_replicate_0)
  have pad: "words_of_bytes (rest @ sponge_pad (8 * n) 1 (length rest)) = map2 (XOR) (words_of_bytes ?lo) (words_of_bytes ?hi :: u64 list)"
    unfolding sponge_pad_xor [OF assms(2)] using assms(2) by (intro words_of_bytes_xor) simp_all
  have st: "st = map2 (XOR) s (words_of_bytes (take (8 * k) rest)) @ drop k s"
    unfolding st_def using k assms(1,3) by (intro xor_words_spec) simp_all
  show ?thesis
  proof (rule nth_equalityI)
    have lens: "length (words_of_bytes (take (8 * k) rest) :: u64 list) = k" using k by simp
    show "length (st'[n - 1 := st' ! (n - 1) XOR 0x8000000000000000])
      = length (map2 (XOR) s (words_of_bytes (rest @ sponge_pad (8 * n) 1 (length rest))) @ drop n s)"
      using k assms(1,3) lens unfolding pad lo hi by (simp add: st'_def st)
    fix i
    assume "i < length (st'[n - 1 := st' ! (n - 1) XOR 0x8000000000000000])"
    then have "i < 25" using k assms(1) lens by (simp add: st'_def st)
    then show "st'[n - 1 := st' ! (n - 1) XOR 0x8000000000000000] ! i
      = (map2 (XOR) s (words_of_bytes (rest @ sponge_pad (8 * n) 1 (length rest))) @ drop n s) ! i"
      using k assms(1,3) lens unfolding pad lo hi
      by (auto simp: st'_def st nth_append nth_list_update nth_Cons' xor.assoc)
  qed
qed

lemma keccak_spec:
  assumes "bits = 256 \<or> bits = 512"
  shows "keccak bits data = take (bits div 64) (keccak_sponge (200 - bits div 4) 1 data)"
proof -
  define n where "n = 25 - bits div 32"
  have n: "(1600 - bits * 2) div 8 = 8 * n" "200 - bits div 4 = 8 * n" "0 < n" "n \<le> 25" "bits div 64 \<le> 8" "bits div 8 div 8 = bits div 64"
    using assms by (auto simp: n_def)
  obtain s rest where b: "keccak_blocks (8 * n) (replicate 25 0) data = (s, rest)" and s: "length s = 25"
    and rest: "length rest < 8 * n" and eq: "keccak_sponge (8 * n) 1 data = sponge_absorb (8 * n) 1 s rest"
    using keccak_blocks_spec [of "replicate 25 0" "8 * n" data 1] n by (auto simp: keccak_sponge_def)
  let ?st = "map2 (XOR) s (words_of_bytes (rest @ sponge_pad (8 * n) 1 (length rest))) @ drop n s"
  have len: "length (rest @ sponge_pad (8 * n) 1 (length rest)) = 8 * n" using rest by (simp add: length_sponge_pad)
  then have l25: "length ?st = 25" using s n by simp
  have "keccak bits data = map (\<lambda>i. ethash_keccakf1600 ?st ! i) [0..<bits div 64]"
    unfolding keccak_def Let_def n(1,6) b using keccak_final_block [OF s rest n(4)] by simp
  also have "ethash_keccakf1600 ?st = keccak_sponge (8 * n) 1 data"
    using l25 len rest unfolding eq by (simp add: ethash_keccakf1600_spec sponge_absorb_last absorb_block_def)
  finally have "keccak bits data = map (\<lambda>i. keccak_sponge (8 * n) 1 data ! i) [0..<bits div 64]" .
  moreover have "length (keccak_sponge (8 * n) 1 data) = 25" using n by simp
  ultimately show ?thesis
    using n(5) unfolding n(2) by (simp add: list_eq_iff_nth_eq)
qed

lemma take_bytes_of_words: "take (8 * n) (bytes_of_words (ws :: u64 list)) = bytes_of_words (take n ws)"
proof (induction ws arbitrary: n)
  case (Cons w ws)
  then show ?case by (cases n) (simp_all add: bytes_of_words_def)
qed (simp add: bytes_of_words_def)

lemma ethash_keccak_SHA3 [simp]:
  "ethash_keccak256 data = SHA3_256 data" "ethash_keccak512 data = SHA3_512 data"
  using take_bytes_of_words [of 4 "keccak_sponge 136 1 data"] take_bytes_of_words [of 8 "keccak_sponge 72 1 data"]
  by (simp_all add: ethash_keccak256_def ethash_keccak512_def keccak_spec SHA3_256_sponge SHA3_512_sponge)

lemma ethash_keccak_fixed:
  "length data = 32 \<Longrightarrow> ethash_keccak256_32 data = SHA3_256 data"
  "length data = 64 \<Longrightarrow> ethash_keccak512_64 data = SHA3_512 data"
  by (simp_all add: ethash_keccak256_32_def ethash_keccak512_64_def flip: ethash_keccak256_def ethash_keccak512_def)

section \<open>Properties\<close>

text \<open>
  Property C28: the Keccak functions of the ProgPoW libraries. The unrolled permutations are Keccak-f[1600]
  and Keccak-f[800] of FIPS 202 on every state of 25 lanes, and \<open>ethash_keccak256\<close> and
  \<open>ethash_keccak512\<close>, which absorb whole words and pad in registers, are the hash functions of
  \<open>libethhash\<close>, that is the padded sponge of rates 136 and 72, for every message.
\<close>

theorem progpow_keccak:
  "(length a = 25 \<longrightarrow> ethash_keccakf1600 a = keccak_p1600 24 a)
   \<and> (length b = 25 \<longrightarrow> ethash_keccakf800 b = keccak_p800 b)
   \<and> ethash_keccak256 data = SHA3_256 data \<and> ethash_keccak512 data = SHA3_512 data"
  by (simp add: ethash_keccakf1600_spec ethash_keccakf800_spec)

theorem progpow_keccak_witness: "ethash_keccakf800 (replicate 25 7) = keccak_p800 (replicate 25 7)"
  using progpow_keccak [of "[]" "replicate 25 7"] by simp

end
