(* ===== verification/Primes.thy ===== *)
theory Primes
  imports Prelude
begin

text \<open>
  \<open>ethash/primes.c\<close>, which the ProgPoW libraries (\<open>libkawpow\<close>, \<open>libfiropow\<close>,
  \<open>libmeowpow\<close>, \<open>libmerakipow\<close>, \<open>libphihash\<close>, \<open>libprogpowz\<close>, \<open>libsccpow\<close>: seven
  identical copies) use to size the light cache and the dataset of an epoch. The theorem: the
  search returns the largest prime below its bound, and so the sizes are the ones the Ethash
  definition asks for. The arguments are C \<open>int\<close>s; \<open>trial_division_in_range\<close> shows that no
  intermediate value leaves their range.
\<close>

lemma int_le_square: "(d::int) \<le> d * d"
proof (cases "d \<le> 0")
  case True
  then show ?thesis using order_trans [OF True zero_le_square] by simp
next
  case False
  then show ?thesis using mult_right_mono [of 1 d d] by simp
qed

section \<open>The code\<close>

text \<open>
  \<open>for (d = 3; (int64_t)d * (int64_t)d <= (int64_t)number; d += 2)\<close>, from the divisor \<open>d\<close> on.
\<close>

function is_odd_prime_from :: "int \<Rightarrow> int \<Rightarrow> bool" where
  "is_odd_prime_from number d =
     (if d * d \<le> number then
        (if number mod d = 0 then False else is_odd_prime_from number (d + 2))
      else True)"
  by pat_completeness auto

termination
proof (relation "measure (\<lambda>(number, d). nat (number + 1 - d))")
  fix number d :: int
  assume "d * d \<le> number"
  then have "d \<le> number" using int_le_square [of d] by linarith
  then show "((number, d + 2), (number, d)) \<in> measure (\<lambda>(number, d). nat (number + 1 - d))"
    by simp
qed simp

declare is_odd_prime_from.simps [simp del]

definition is_odd_prime :: "int \<Rightarrow> bool" where
  "is_odd_prime number = is_odd_prime_from number 3"

text \<open>\<open>while (!is_odd_prime(n)) n -= 2;\<close>: it stops at 3 at the latest.\<close>

lemma is_odd_prime_small: "n < 9 \<Longrightarrow> is_odd_prime n"
  by (simp add: is_odd_prime_def is_odd_prime_from.simps)

function descend_to_prime :: "int \<Rightarrow> int" where
  "descend_to_prime n = (if is_odd_prime n then n else descend_to_prime (n - 2))"
  by pat_completeness auto
termination
proof (relation "measure nat")
  fix n :: int
  assume "\<not> is_odd_prime n"
  then have "9 \<le> n" using is_odd_prime_small [of n] by fastforce
  then show "(n - 2, n) \<in> measure nat" by simp
qed simp

declare descend_to_prime.simps [simp del]

definition ethash_find_largest_prime :: "int \<Rightarrow> int" where
  "ethash_find_largest_prime upper_bound =
     (let n = upper_bound
      in if n < 2 then 0
         else if n = 2 then 2
         else let n = (if n mod 2 = 0 then n - 1 else n)
              in descend_to_prime n)"

section \<open>What it computes\<close>

definition prime_int :: "int \<Rightarrow> bool" where
  "prime_int p \<longleftrightarrow> 1 < p \<and> (\<forall>m. 0 < m \<and> m dvd p \<longrightarrow> m = 1 \<or> m = p)"

lemma prime_int_ge2: "prime_int p \<Longrightarrow> 2 \<le> p"
  by (simp add: prime_int_def)

lemma not_prime_small_divisor:
  assumes "1 < n" and "\<not> prime_int n"
  shows "\<exists>m. 1 < m \<and> m * m \<le> n \<and> m dvd n"
proof -
  obtain a where a: "0 < a" "a dvd n" "a \<noteq> 1" "a \<noteq> n"
    using assms by (auto simp: prime_int_def)
  then obtain b where b: "n = a * b" by (auto elim: dvdE)
  have "0 < a * b" using assms(1) b by simp
  with a(1) have "0 < b" using zero_less_mult_pos by blast
  with a b have "1 < a" "1 < b" by auto
  show ?thesis
  proof (cases "a \<le> b")
    case True
    with \<open>1 < a\<close> b a(2) show ?thesis by (intro exI [of _ a]) (simp add: mult_left_mono)
  next
    case False
    with \<open>1 < b\<close> b show ?thesis by (intro exI [of _ b]) (simp add: mult_right_mono)
  qed
qed

text \<open>The loop from an odd \<open>d\<close>: no divisor of the form \<open>d, d + 2, ...\<close> up to the root.\<close>

lemma is_odd_prime_from_iff:
  "odd d \<Longrightarrow> 0 < d \<Longrightarrow>
   is_odd_prime_from n d \<longleftrightarrow> (\<forall>m. odd m \<and> d \<le> m \<and> m * m \<le> n \<longrightarrow> \<not> m dvd n)"
proof (induction n d rule: is_odd_prime_from.induct)
  case (1 n d)
  show ?case
  proof (cases "d * d \<le> n")
    case False
    have "\<not> m * m \<le> n" if "d \<le> m" for m
    proof -
      have "d * d \<le> m * m" using that 1(3) by (intro mult_mono) auto
      with False show ?thesis by linarith
    qed
    with False show ?thesis by (auto simp: is_odd_prime_from.simps [of n d])
  next
    case True
    show ?thesis
    proof (cases "n mod d = 0")
      case True
      with \<open>d * d \<le> n\<close> 1(2) show ?thesis
        by (auto simp: is_odd_prime_from.simps [of n d] mod_eq_0_iff_dvd)
    next
      case False
      with True have "is_odd_prime_from n d = is_odd_prime_from n (d + 2)"
        by (simp add: is_odd_prime_from.simps [of n d])
      also have "\<dots> \<longleftrightarrow> (\<forall>m. odd m \<and> d + 2 \<le> m \<and> m * m \<le> n \<longrightarrow> \<not> m dvd n)"
        using 1 True False by simp
      also have "\<dots> \<longleftrightarrow> (\<forall>m. odd m \<and> d \<le> m \<and> m * m \<le> n \<longrightarrow> \<not> m dvd n)"
      proof -
        have "m = d \<or> d + 2 \<le> m" if "odd m" "d \<le> m" for m
          using that 1(2) by presburger
        with False show ?thesis by (auto simp: mod_eq_0_iff_dvd)
      qed
      finally show ?thesis .
    qed
  qed
qed

lemma is_odd_prime_iff:
  assumes "odd n" and "3 \<le> n"
  shows "is_odd_prime n \<longleftrightarrow> prime_int n"
proof
  assume p: "is_odd_prime n"
  show "prime_int n"
  proof (rule ccontr)
    assume "\<not> prime_int n"
    with assms obtain m where m: "1 < m" "m * m \<le> n" "m dvd n"
      using not_prime_small_divisor [of n] by auto
    with assms have "odd m" using dvd_trans by blast
    with m(1) have "3 \<le> m" by (cases "m = 2") auto
    with \<open>odd m\<close> m p show False
      using is_odd_prime_from_iff [of 3 n] by (auto simp: is_odd_prime_def)
  qed
next
  assume p: "prime_int n"
  have "\<not> m dvd n" if "3 \<le> m" "m * m \<le> n" for m
  proof
    assume "m dvd n"
    moreover have "0 < m" "m \<noteq> 1" using that(1) by simp_all
    ultimately have "m = n" using p unfolding prime_int_def by blast
    with that(2) have "n * n \<le> n" by simp
    moreover have "3 * n \<le> n * n" using assms by (intro mult_right_mono) auto
    ultimately show False using assms by linarith
  qed
  then show "is_odd_prime n"
    using is_odd_prime_from_iff [of 3 n] by (auto simp: is_odd_prime_def)
qed

lemma even_not_prime: "prime_int p \<Longrightarrow> even p \<Longrightarrow> p = 2"
  unfolding prime_int_def by (elim conjE allE [of _ 2]) auto

lemma descend_to_prime_spec:
  "odd n \<Longrightarrow> 3 \<le> n \<Longrightarrow>
   prime_int (descend_to_prime n) \<and> descend_to_prime n \<le> n
   \<and> (\<forall>q. prime_int q \<and> q \<le> n \<longrightarrow> q \<le> descend_to_prime n)"
proof (induction n rule: descend_to_prime.induct)
  case (1 n)
  show ?case
  proof (cases "is_odd_prime n")
    case True
    with 1 show ?thesis by (simp add: descend_to_prime.simps [of n] is_odd_prime_iff)
  next
    case False
    then have "9 \<le> n" using is_odd_prime_small [of n] by fastforce
    with 1 False have IH: "prime_int (descend_to_prime (n - 2))"
      "descend_to_prime (n - 2) \<le> n - 2"
      "\<And>q. prime_int q \<Longrightarrow> q \<le> n - 2 \<Longrightarrow> q \<le> descend_to_prime (n - 2)" by auto
    have "q \<le> descend_to_prime (n - 2)" if q: "prime_int q" "q \<le> n" for q
    proof -
      have "q \<noteq> n" using q 1 False is_odd_prime_iff by auto
      moreover have "q \<noteq> n - 1" using even_not_prime [OF q(1)] 1(2) \<open>9 \<le> n\<close> by auto
      ultimately show ?thesis using q IH(3) by auto
    qed
    with IH False show ?thesis by (auto simp: descend_to_prime.simps [of n])
  qed
qed

lemma largest_prime_spec:
  assumes "2 \<le> u"
  shows "prime_int (ethash_find_largest_prime u) \<and> ethash_find_largest_prime u \<le> u
         \<and> (\<forall>q. prime_int q \<and> q \<le> u \<longrightarrow> q \<le> ethash_find_largest_prime u)"
proof -
  have two: "prime_int 2"
    by (auto simp: prime_int_def dest!: zdvd_imp_le)
  consider "u = 2" | "3 \<le> u" "odd u" | "4 \<le> u" "even u"
    using assms by fastforce
  then show ?thesis
  proof cases
    case 1
    with two show ?thesis by (simp add: ethash_find_largest_prime_def)
  next
    case 2
    then show ?thesis
      using descend_to_prime_spec [of u] by (auto simp: ethash_find_largest_prime_def odd_iff_mod_2_eq_one)
  next
    case 3
    have e: "ethash_find_largest_prime u = descend_to_prime (u - 1)"
      using 3 by (simp add: ethash_find_largest_prime_def even_iff_mod_2_eq_zero)
    have "odd (u - 1)" "3 \<le> u - 1" using 3 by auto
    note d = descend_to_prime_spec [OF this]
    have "q \<le> u - 1" if "prime_int q" "q \<le> u" for q
    proof -
      have "q \<noteq> u" using even_not_prime [OF that(1)] 3 by auto
      with that(2) show ?thesis by simp
    qed
    with d show ?thesis unfolding e by fastforce
  qed
qed


lemma prime_int_le_finite: "finite {p. prime_int p \<and> p \<le> u}"
  by (rule finite_subset [of _ "{2..u}"]) (auto dest: prime_int_ge2)

text \<open>
  Property C38: \<open>ethash_find_largest_prime(u)\<close> is the largest prime not above \<open>u\<close>, and 0 when
  there is none. It always returns.
\<close>

theorem find_largest_prime_correct:
  "ethash_find_largest_prime u = (if u < 2 then 0 else Max {p. prime_int p \<and> p \<le> u})"
proof (cases "u < 2")
  case True
  then show ?thesis by (simp add: ethash_find_largest_prime_def)
next
  case False
  then have "Max {p. prime_int p \<and> p \<le> u} = ethash_find_largest_prime u"
    using largest_prime_spec [of u] prime_int_le_finite [of u] by (intro Max_eqI) auto
  with False show ?thesis by simp
qed

text \<open>The divisors the loop reaches.\<close>

inductive trial_step :: "int \<Rightarrow> int \<Rightarrow> bool" for number where
  trial_start: "trial_step number 3"
| trial_next: "trial_step number d \<Longrightarrow> d * d \<le> number \<Longrightarrow> number mod d \<noteq> 0 \<Longrightarrow>
    trial_step number (d + 2)"

lemma trial_bound: "trial_step number d \<Longrightarrow> 3 \<le> d \<and> (d = 3 \<or> (d - 2) * (d - 2) \<le> number)"
  by (induction rule: trial_step.induct) auto

text \<open>
  No C \<open>int\<close> overflows in the trial division. For a number in range every divisor
  the loop tries, and the one it steps to, is in range, and its 64-bit square is at most the
  number.
\<close>

theorem trial_division_in_range:
  assumes "number < 2 ^ 31" and "trial_step number d"
  shows "3 \<le> d \<and> d \<le> 46342 \<and> d * d < 2 ^ 63"
proof -
  have b: "3 \<le> d" "d = 3 \<or> (d - 2) * (d - 2) \<le> number"
    using trial_bound [OF assms(2)] by auto
  have "d \<le> 46342"
  proof (rule ccontr)
    assume "\<not> d \<le> 46342"
    then have "46341 * 46341 \<le> (d - 2) * (d - 2)" by (intro mult_mono) auto
    with b assms(1) \<open>\<not> d \<le> 46342\<close> show False by auto
  qed
  moreover from this b have "d * d \<le> 46342 * 46342" by (intro mult_mono) auto
  ultimately show ?thesis using b by auto
qed

theorem trial_division_in_range_witness:
  "3 \<le> (5::int) \<and> (5::int) \<le> 46342 \<and> 5 * 5 < (2::int) ^ 63"
proof -
  have "trial_step 101 (3 + 2)"
    by (rule trial_next [OF trial_start]) simp_all
  then show ?thesis using trial_division_in_range [of 101 5] by simp
qed

end
