(* ===== verification/EthashPP.thy ===== *)
theory EthashPP
  imports KeccakPP Ethash Primes
begin

text \<open>
  The Ethash of the ProgPoW libraries, \<open>ethash/ethash.cpp\<close> with \<open>ethash-internal.hpp\<close> and
  \<open>bit_manipulation.h\<close>. The five libraries (\<open>libkawpow\<close>, \<open>libfiropow\<close>, \<open>libmeowpow\<close>,
  \<open>libmerakipow\<close>, \<open>libprogpowz\<close>) hold the same code with other constants, which are the record
  \<open>ethash_lib\<close>. \<open>None\<close> is undefined behaviour: an access out of bounds, a division by zero, an
  overflow of an \<open>int\<close>. The host is little endian, so \<open>le::\<close> does nothing and \<open>be::\<close> swaps.
\<close>

section \<open>The constants of the libraries\<close>

record ethash_lib =
  full_dataset_init_size :: int
  full_dataset_item_parents :: nat
  num_dataset_accesses :: nat

definition kawpow_ethash :: ethash_lib where
  "kawpow_ethash = \<lparr> full_dataset_init_size = 2 ^ 30, full_dataset_item_parents = 512, num_dataset_accesses = 64 \<rparr>"

definition firopow_ethash :: ethash_lib where
  "firopow_ethash =
     \<lparr> full_dataset_init_size = 2 ^ 30 + 2 ^ 29, full_dataset_item_parents = 512, num_dataset_accesses = 64 \<rparr>"

definition meowpow_ethash :: ethash_lib where
  "meowpow_ethash = \<lparr> full_dataset_init_size = 2 ^ 30, full_dataset_item_parents = 512, num_dataset_accesses = 64 \<rparr>"

definition merakipow_ethash :: ethash_lib where
  "merakipow_ethash = \<lparr> full_dataset_init_size = 2 ^ 30, full_dataset_item_parents = 512, num_dataset_accesses = 32 \<rparr>"

definition progpowz_ethash :: ethash_lib where
  "progpowz_ethash = \<lparr> full_dataset_init_size = 2 ^ 30, full_dataset_item_parents = 256, num_dataset_accesses = 64 \<rparr>"

text \<open>\<open>num_items\<close> and block numbers are of type \<open>int\<close>.\<close>

definition c_int :: "int \<Rightarrow> int option" where
  "c_int x = (if - (2 ^ 31) \<le> x \<and> x < 2 ^ 31 then Some x else None)"

definition calculate_light_cache_num_items :: "int \<Rightarrow> int option" where
  "calculate_light_cache_num_items epoch =
     do {
       growth \<leftarrow> c_int (epoch * (2 ^ 17 div 64));
       num_items_upper_bound \<leftarrow> c_int (2 ^ 24 div 64 + growth);
       Some (ethash_find_largest_prime num_items_upper_bound)
     }"

definition calculate_full_dataset_num_items :: "ethash_lib \<Rightarrow> int \<Rightarrow> int option" where
  "calculate_full_dataset_num_items lib epoch =
     do {
       growth \<leftarrow> c_int (epoch * (2 ^ 23 div 128));
       num_items_upper_bound \<leftarrow> c_int (full_dataset_init_size lib div 128 + growth);
       Some (ethash_find_largest_prime num_items_upper_bound)
     }"

definition calculate_epoch_seed :: "int \<Rightarrow> bytes" where
  "calculate_epoch_seed epoch = fold (\<lambda>_. ethash_keccak256_32) [0..<nat epoch] (replicate 32 0)"

section \<open>The light cache\<close>

definition fnv_prime :: u32 where
  "fnv_prime = 0x01000193"

definition fnv1 :: "u32 \<Rightarrow> u32 \<Rightarrow> u32" where
  "fnv1 u v = (u * fnv_prime) XOR v"

text \<open>A \<open>hash512\<close> is its 16 words \<open>word32s\<close>; \<open>word64s\<close> is another view of the same memory.\<close>

definition word64s :: "u32 list \<Rightarrow> u64 list" where
  "word64s h = words_of_bytes (bytes_of_words h)"

definition fnv1_512 :: "node \<Rightarrow> node \<Rightarrow> node" where
  "fnv1_512 u v = map (\<lambda>i. fnv1 (u ! i) (v ! i)) [0..<16]"

definition bitwise_xor :: "node \<Rightarrow> node \<Rightarrow> node" where
  "bitwise_xor x y = words_of_bytes (bytes_of_words (map (\<lambda>i. word64s x ! i XOR word64s y ! i) [0..<8]))"

definition cache_chain :: "(bytes \<Rightarrow> bytes) \<Rightarrow> nat \<Rightarrow> node \<times> node list \<Rightarrow> (node \<times> node list) option" where
  "cache_chain hash_fn i s =
     (let (item, items) = s; item = hash_node hash_fn item in do { items \<leftarrow> wr items i item; Some (item, items) })"

definition cache_round :: "(bytes \<Rightarrow> bytes) \<Rightarrow> int \<Rightarrow> nat \<Rightarrow> node list \<Rightarrow> node list option" where
  "cache_round hash_fn num_items i items =
     (let index_limit = of_int num_items :: u32 in
      do {
        item \<leftarrow> rd items i;
        t \<leftarrow> rd item 0;
        v \<leftarrow> umod t index_limit;
        sum \<leftarrow> c_int (num_items + (int i - 1));
        w \<leftarrow> umod (of_int sum) index_limit;
        a \<leftarrow> rd items (unat v);
        b \<leftarrow> rd items (unat w);
        wr items i (hash_node hash_fn (bitwise_xor a b))
      })"

definition build_light_cache :: "(bytes \<Rightarrow> bytes) \<Rightarrow> node list \<Rightarrow> int \<Rightarrow> bytes \<Rightarrow> node list option" where
  "build_light_cache hash_fn items num_items seed =
     (let item = words_of_bytes (hash_fn seed) in
      do {
        items \<leftarrow> wr items 0 item;
        (item, items) \<leftarrow> for_each [1..<nat num_items] (cache_chain hash_fn) (item, items);
        for_each [0..<3] (\<lambda>q. for_each [0..<nat num_items] (cache_round hash_fn num_items)) items
      })"

section \<open>Looking for an epoch\<close>

text \<open>
  The loop over the first 30000 epochs, and \<open>find_epoch_number\<close> with its thread-local cache, which is the
  epoch number and the seed of the last epoch found. \<open>None\<close> is the overflow of \<open>e + 1\<close>, an \<open>int\<close>.
\<close>

definition word32_0 :: "bytes \<Rightarrow> u32" where
  "word32_0 h = word_of_bytes (take 4 h)"

fun find_from :: "u32 \<Rightarrow> nat list \<Rightarrow> bytes \<Rightarrow> (nat \<times> bytes) option" where
  "find_from seed_part [] s = None"
| "find_from seed_part (i # is) s =
     (if word32_0 s = seed_part then Some (i, s) else find_from seed_part is (ethash_keccak256_32 s))"

definition find_epoch_number :: "bytes \<Rightarrow> int \<times> bytes \<Rightarrow> (int \<times> (int \<times> bytes)) option" where
  "find_epoch_number seed cached =
     (let seed_part = word32_0 seed; (e, s) = cached in
      if word32_0 s = seed_part then Some (e, cached)
      else let s = ethash_keccak256_32 s in
        if word32_0 s = seed_part then do { e \<leftarrow> c_int (e + 1); Some (e, (e, s)) }
        else case find_from seed_part [0..<30000] (replicate 32 0) of
            Some (i, s) \<Rightarrow> Some (int i, (int i, s))
          | None \<Rightarrow> Some (- 1, cached))"

section \<open>Contexts and items of the data set\<close>

text \<open>
  An epoch context. Its last two pointers are two names of the same memory: \<open>l1_cache\<close> is an array of
  words and \<open>full_dataset\<close>, null in a light context, an array of items of 32 words. \<open>dataset\<close> is that
  memory and \<open>is_full\<close> tells whether \<open>full_dataset\<close> is set.
\<close>

record epoch_context =
  epoch_number :: int
  light_cache_num_items :: int
  light_cache :: "node list"
  full_dataset_num_items :: int
  is_full :: bool
  dataset :: "u32 list"

text \<open>The \<open>seed\<close> and the \<open>mix\<close> of an \<open>item_state\<close>; the other two members are the context's.\<close>

type_synonym item_state = "u32 \<times> node"

definition item_state :: "epoch_context \<Rightarrow> int \<Rightarrow> item_state option" where
  "item_state context index =
     (let seed = of_int index in
      if light_cache_num_items context = 0 then None
      else do {
        mix \<leftarrow> rd (light_cache context) (nat (index mod light_cache_num_items context));
        w \<leftarrow> rd mix 0;
        Some (seed, hash_node ethash_keccak512 (mix[0 := w XOR seed]))
      })"

definition item_update :: "epoch_context \<Rightarrow> nat \<Rightarrow> item_state \<Rightarrow> item_state option" where
  "item_update context round s =
     (let (seed, mix) = s in
      if light_cache_num_items context = 0 then None
      else do {
        w \<leftarrow> rd mix (round mod 16);
        let t = fnv1 (seed XOR of_nat round) w;
        let parent_index = uint t mod light_cache_num_items context;
        parent \<leftarrow> rd (light_cache context) (nat parent_index);
        Some (seed, fnv1_512 mix parent)
      })"

definition item_final :: "item_state \<Rightarrow> node" where
  "item_final s = hash_node ethash_keccak512 (snd s)"

definition calculate_dataset_item_512 :: "ethash_lib \<Rightarrow> epoch_context \<Rightarrow> int \<Rightarrow> node option" where
  "calculate_dataset_item_512 lib context index =
     do {
       item0 \<leftarrow> item_state context index;
       item0 \<leftarrow> for_each [0..<full_dataset_item_parents lib] (item_update context) item0;
       Some (item_final item0)
     }"

definition calculate_dataset_item_1024 :: "ethash_lib \<Rightarrow> epoch_context \<Rightarrow> u32 \<Rightarrow> u32 list option" where
  "calculate_dataset_item_1024 lib context index =
     do {
       item0 \<leftarrow> item_state context (uint index * 2);
       item1 \<leftarrow> item_state context (uint index * 2 + 1);
       (item0, item1) \<leftarrow> for_each [0..<full_dataset_item_parents lib]
         (\<lambda>j (item0, item1). do {
            item0 \<leftarrow> item_update context j item0;
            item1 \<leftarrow> item_update context j item1;
            Some (item0, item1)
          }) (item0, item1);
       Some (item_final item0 @ item_final item1)
     }"

definition calculate_dataset_item_2048 :: "ethash_lib \<Rightarrow> epoch_context \<Rightarrow> u32 \<Rightarrow> u32 list option" where
  "calculate_dataset_item_2048 lib context index =
     do {
       item0 \<leftarrow> item_state context (uint index * 4);
       item1 \<leftarrow> item_state context (uint index * 4 + 1);
       item2 \<leftarrow> item_state context (uint index * 4 + 2);
       item3 \<leftarrow> item_state context (uint index * 4 + 3);
       (item0, item1, item2, item3) \<leftarrow> for_each [0..<full_dataset_item_parents lib]
         (\<lambda>j (item0, item1, item2, item3). do {
            item0 \<leftarrow> item_update context j item0;
            item1 \<leftarrow> item_update context j item1;
            item2 \<leftarrow> item_update context j item2;
            item3 \<leftarrow> item_update context j item3;
            Some (item0, item1, item2, item3)
          }) (item0, item1, item2, item3);
       Some (item_final item0 @ item_final item1 @ item_final item2 @ item_final item3)
     }"

text \<open>
  \<open>generic::create_epoch_context\<close>. The outcome of \<open>calloc\<close> is a parameter; \<open>Some None\<close> is the null pointer.
  The first 16 KiB of the memory behind \<open>l1_cache\<close> are filled, 64 items of 256 bytes. The sizes are
  computed for \<open>size_epoch\<close>, which is the epoch in all libraries but \<open>libmeowpow\<close>.
\<close>

definition fill_l1_item :: "ethash_lib \<Rightarrow> nat \<Rightarrow> epoch_context \<Rightarrow> epoch_context option" where
  "fill_l1_item lib i context =
     do {
       item \<leftarrow> calculate_dataset_item_2048 lib context (of_nat i);
       if 64 * i + 64 \<le> length (dataset context)
       then Some (context\<lparr> dataset := memcpy_at (dataset context) (64 * i) item \<rparr>)
       else None
     }"

definition create_epoch_context_of :: "ethash_lib \<Rightarrow> bool \<Rightarrow> int \<Rightarrow> int \<Rightarrow> bool \<Rightarrow> epoch_context option option" where
  "create_epoch_context_of lib alloc_ok size_epoch epoch full =
     do {
       light_num \<leftarrow> calculate_light_cache_num_items size_epoch;
       full_num \<leftarrow> calculate_full_dataset_num_items lib size_epoch;
       if \<not> alloc_ok then Some None
       else do {
         items \<leftarrow> build_light_cache ethash_keccak512 (replicate (nat light_num) (replicate 16 0)) light_num
           (calculate_epoch_seed epoch);
         let context = \<lparr> epoch_number = epoch, light_cache_num_items = light_num, light_cache = items,
           full_dataset_num_items = full_num, is_full = full,
           dataset = replicate (if full then 32 * nat full_num else 4096) 0 \<rparr>;
         context \<leftarrow> for_each [0..<64] (fill_l1_item lib) context;
         Some (Some context)
       }
     }"

definition create_epoch_context :: "ethash_lib \<Rightarrow> bool \<Rightarrow> int \<Rightarrow> bool \<Rightarrow> epoch_context option option" where
  "create_epoch_context lib alloc_ok epoch full = create_epoch_context_of lib alloc_ok epoch epoch full"

text \<open>\<open>libmeowpow\<close> computes the sizes of later epochs for four times the epoch number.\<close>

definition meowpow_create_epoch_context :: "bool \<Rightarrow> int \<Rightarrow> bool \<Rightarrow> epoch_context option option" where
  "meowpow_create_epoch_context alloc_ok epoch full =
     do {
       meow_epoch \<leftarrow> (if 110 \<le> epoch then c_int (epoch * 4) else Some epoch);
       create_epoch_context_of meowpow_ethash alloc_ok meow_epoch epoch full
     }"

section \<open>Hashing\<close>

text \<open>
  A \<open>hash256\<close> is its 32 bytes. A look-up returns an item of 32 words and the context, which it may
  have changed.
\<close>

type_synonym lookup_fn = "epoch_context \<Rightarrow> u32 \<Rightarrow> (u32 list \<times> epoch_context) option"

definition hash_seed :: "bytes \<Rightarrow> u64 \<Rightarrow> node" where
  "hash_seed header_hash nonce = words_of_bytes (ethash_keccak512 (header_hash @ bytes_of_word nonce))"

definition hash_final :: "node \<Rightarrow> bytes \<Rightarrow> bytes" where
  "hash_final seed mix = ethash_keccak256 (bytes_of_words seed @ mix)"

definition kernel_access :: "lookup_fn \<Rightarrow> u32 \<Rightarrow> u32 \<Rightarrow> nat \<Rightarrow> u32 list \<times> epoch_context \<Rightarrow> (u32 list \<times> epoch_context) option" where
  "kernel_access lookup seed_init index_limit i s =
     (let (mix, context) = s in
      do {
        w \<leftarrow> rd mix (i mod 32);
        p \<leftarrow> umod (fnv1 (of_nat i XOR seed_init) w) index_limit;
        (newdata, context) \<leftarrow> lookup context p;
        Some (map (\<lambda>j. fnv1 (mix ! j) (newdata ! j)) [0..<32], context)
      })"

definition hash_kernel :: "ethash_lib \<Rightarrow> epoch_context \<Rightarrow> node \<Rightarrow> lookup_fn \<Rightarrow> (bytes \<times> epoch_context) option" where
  "hash_kernel lib context seed lookup =
     (let index_limit = of_int (full_dataset_num_items context) in
      do {
        seed_init \<leftarrow> rd seed 0;
        (mix, context) \<leftarrow> for_each [0..<num_dataset_accesses lib] (kernel_access lookup seed_init index_limit)
          (seed @ seed, context);
        let mix_hash = map (\<lambda>k. let i = 4 * k;
                                    h1 = fnv1 (mix ! i) (mix ! (i + 1));
                                    h2 = fnv1 h1 (mix ! (i + 2));
                                    h3 = fnv1 h2 (mix ! (i + 3))
                                in h3) [0..<8];
        Some (bytes_of_words mix_hash, context)
      })"

definition light_lookup :: "ethash_lib \<Rightarrow> lookup_fn" where
  "light_lookup lib context index = map_option (\<lambda>item. (item, context)) (calculate_dataset_item_1024 lib context index)"

text \<open>
  An item of \<open>n\<close> words in the memory of the full data set, computed when its first 64 bits are zero.
\<close>

definition lazy_item ::
  "nat \<Rightarrow> (epoch_context \<Rightarrow> u32 \<Rightarrow> u32 list option) \<Rightarrow> epoch_context \<Rightarrow> u32 \<Rightarrow> (u32 list \<times> epoch_context) option" where
  "lazy_item n calculate context index =
     (if \<not> is_full context \<or> length (dataset context) < n * (unat index + 1) then None
      else let item = take n (drop (n * unat index) (dataset context)) in
        if word64s item ! 0 = 0
        then do {
          item \<leftarrow> calculate context index;
          Some (item, context\<lparr> dataset := memcpy_at (dataset context) (n * unat index) item \<rparr>)
        }
        else Some (item, context))"

definition lazy_lookup :: "ethash_lib \<Rightarrow> lookup_fn" where
  "lazy_lookup lib = lazy_item 32 (calculate_dataset_item_1024 lib)"

text \<open>A \<open>result\<close> is the final hash and the mix hash.\<close>

definition pp_hash_full :: "ethash_lib \<Rightarrow> epoch_context \<Rightarrow> bytes \<Rightarrow> u64 \<Rightarrow> ((bytes \<times> bytes) \<times> epoch_context) option" where
  "pp_hash_full lib context header_hash nonce =
     do {
       let seed = hash_seed header_hash nonce;
       (mix, context) \<leftarrow> hash_kernel lib context seed (lazy_lookup lib);
       Some ((hash_final seed mix, mix), context)
     }"

definition pp_ethash_hash :: "ethash_lib \<Rightarrow> epoch_context \<Rightarrow> bytes \<Rightarrow> u64 \<Rightarrow> ((bytes \<times> bytes) \<times> epoch_context) option" where
  "pp_ethash_hash lib context header_hash nonce =
     do {
       let seed = hash_seed header_hash nonce;
       (mix, context) \<leftarrow> hash_kernel lib context seed (light_lookup lib);
       Some ((hash_final seed mix, mix), context)
     }"

definition bswap64 :: "u64 \<Rightarrow> u64" where
  "bswap64 x = word_of_bytes (rev (bytes_of_word x))"

fun less_or_equal_from :: "u64 list \<Rightarrow> u64 list \<Rightarrow> bool" where
  "less_or_equal_from (a # as) (b # bs) =
     (if bswap64 b < bswap64 a then False
      else if bswap64 a < bswap64 b then True
      else less_or_equal_from as bs)"
| "less_or_equal_from _ _ = True"

definition is_less_or_equal :: "bytes \<Rightarrow> bytes \<Rightarrow> bool" where
  "is_less_or_equal a b = less_or_equal_from (words_of_bytes a) (words_of_bytes b)"

definition is_equal :: "bytes \<Rightarrow> bytes \<Rightarrow> bool" where
  "is_equal a b \<longleftrightarrow> take 32 a = take 32 b"

definition pp_verify_final_hash :: "bytes \<Rightarrow> bytes \<Rightarrow> u64 \<Rightarrow> bytes \<Rightarrow> bool" where
  "pp_verify_final_hash header_hash mix nonce boundary =
     is_less_or_equal (hash_final (hash_seed header_hash nonce) mix) boundary"

definition pp_ethash_verify :: "ethash_lib \<Rightarrow> epoch_context \<Rightarrow> bytes \<Rightarrow> bytes \<Rightarrow> u64 \<Rightarrow> bytes \<Rightarrow> bool option" where
  "pp_ethash_verify lib context header_hash mix nonce boundary =
     (let seed = hash_seed header_hash nonce in
      if \<not> is_less_or_equal (hash_final seed mix) boundary then Some False
      else do {
        (expected_mix_hash, context) \<leftarrow> hash_kernel lib context seed (light_lookup lib);
        Some (is_equal expected_mix_hash mix)
      })"

text \<open>
  The loop of the four search functions: it hashes the nonces in turn and returns the first result below
  the boundary with its nonce, or \<open>None\<close> for the empty \<open>search_result\<close>. \<open>end_nonce\<close> wraps.
\<close>

fun search_from ::
  "('c \<Rightarrow> u64 \<Rightarrow> ((bytes \<times> bytes) \<times> 'c) option) \<Rightarrow> bytes \<Rightarrow> nat list \<Rightarrow> 'c \<Rightarrow> (((bytes \<times> bytes) \<times> u64) option \<times> 'c) option" where
  "search_from hash boundary [] context = Some (None, context)"
| "search_from hash boundary (n # ns) context =
     do {
       (r, context) \<leftarrow> hash context (of_nat n);
       if is_less_or_equal (fst r) boundary then Some (Some (r, of_nat n), context)
       else search_from hash boundary ns context
     }"

definition search_nonces :: "u64 \<Rightarrow> u64 \<Rightarrow> nat list" where
  "search_nonces start_nonce iterations = [unat start_nonce..<unat (start_nonce + iterations)]"

definition pp_ethash_search_light ::
  "ethash_lib \<Rightarrow> epoch_context \<Rightarrow> bytes \<Rightarrow> bytes \<Rightarrow> u64 \<Rightarrow> u64 \<Rightarrow> (((bytes \<times> bytes) \<times> u64) option \<times> epoch_context) option" where
  "pp_ethash_search_light lib context header_hash boundary start_nonce iterations =
     search_from (\<lambda>context. pp_ethash_hash lib context header_hash) boundary (search_nonces start_nonce iterations) context"

definition pp_ethash_search ::
  "ethash_lib \<Rightarrow> epoch_context \<Rightarrow> bytes \<Rightarrow> bytes \<Rightarrow> u64 \<Rightarrow> u64 \<Rightarrow> (((bytes \<times> bytes) \<times> u64) option \<times> epoch_context) option" where
  "pp_ethash_search lib context header_hash boundary start_nonce iterations =
     search_from (\<lambda>context. pp_hash_full lib context header_hash) boundary (search_nonces start_nonce iterations) context"

section \<open>Views of a hash\<close>

lemma length_word64s [simp]: "length x = 16 \<Longrightarrow> length (word64s x) = 8"
  by (simp add: word64s_def)

lemma bitwise_xor_eq:
  assumes "length x = 16" and "length y = 16"
  shows "bitwise_xor x y = map2 (XOR) x y"
proof -
  have w: "map (\<lambda>i. word64s x ! i XOR word64s y ! i) [0..<8] = map2 (XOR) (word64s x) (word64s y)"
    using assms by (intro nth_equalityI) simp_all
  have "bytes_of_words (map2 (XOR) (word64s x) (word64s y)) = map2 (XOR) (bytes_of_words x) (bytes_of_words y)"
  proof -
    have "map2 (XOR) (word64s x) (word64s y) = words_of_bytes (map2 (XOR) (bytes_of_words x) (bytes_of_words y))"
      using assms unfolding word64s_def by (intro words_of_bytes_xor [symmetric]) simp_all
    then show ?thesis using assms by simp
  qed
  then have "bitwise_xor x y = words_of_bytes (map2 (XOR) (bytes_of_words x) (bytes_of_words y))"
    by (simp only: bitwise_xor_def w)
  also have "\<dots> = map2 (XOR) x y"
    using assms by (subst words_of_bytes_xor) simp_all
  finally show ?thesis .
qed

lemma fnv1_hash: "fnv1 = fnv_hash"
  by (intro ext) (simp add: fnv1_def fnv_hash_def fnv_prime_def FNV_PRIME_def)

lemma fnv1_512_eq: "node_ok u \<Longrightarrow> node_ok v \<Longrightarrow> fnv1_512 u v = map2 fnv_hash u v"
  by (auto simp: fnv1_512_def fnv1_hash node_ok_def intro!: nth_equalityI)

section \<open>The light cache\<close>

lemma c_int_Some: "- (2 ^ 31) \<le> x \<Longrightarrow> x < 2 ^ 31 \<Longrightarrow> c_int x = Some x"
  by (simp add: c_int_def)

context node_hash
begin

lemma cache_chain_eq:
  assumes "m \<le> length items" and "0 < m"
  shows "for_each [1..<m] (cache_chain h512) (x, items[0 := x])
    = Some ((hash_node h512 ^^ (m - 1)) x, map (\<lambda>i. (hash_node h512 ^^ i) x) [0..<m] @ drop m items)"
  using assms
proof (induction m)
  case (Suc m)
  show ?case
  proof (cases "m = 0")
    case True
    with Suc.prems show ?thesis by (cases items) auto
  next
    case False
    then obtain k where k: "m = Suc k" by (cases m) auto
    have "drop m items = items ! m # drop (Suc m) items" using Suc.prems by (simp add: Cons_nth_drop_Suc)
    with Suc k show ?thesis by (simp add: for_each_append cache_chain_def list_update_append Let_def)
  qed
qed simp

lemma cache_round_eq:
  assumes "n \<le> 2 ^ 30" and "i < n" and "length items = n" and "list_all node_ok items"
  shows "cache_round h512 (int n) i items = Some (memo_step h512 n i items)
     \<and> length (memo_step h512 n i items) = n \<and> list_all node_ok (memo_step h512 n i items)"
proof -
  have un: "unat (of_nat n :: u32) = n" using assms(1) by (simp add: unat_of_nat)
  have "(of_nat n :: u32) \<noteq> 0" using un assms(2) by auto
  then have nz: "(of_int (int n) :: u32) \<noteq> 0" by simp
  have sum: "int n + (int i - 1) = int (n - 1 + i)" using assms(2) by auto
  have ci: "c_int (int n + (int i - 1)) = Some (int (n - 1 + i))"
    unfolding sum using assms(1,2) by (intro c_int_Some) auto
  have "unat (of_nat (n - 1 + i) :: u32) = n - 1 + i"
    by (simp only: unat_of_nat) (use assms(1,2) in simp)
  then have w: "unat (of_int (int (n - 1 + i)) mod of_int (int n) :: u32) = (n - 1 + i) mod n"
    using un by (simp add: unat_mod_distrib)
  have ok: "length (items ! j) = 16" if "j < n" for j using assms(3,4) that by (simp add: list_all_length node_ok_def)
  have v: "unat (items ! i ! 0 mod of_int (int n) :: u32) = unat (items ! i ! 0) mod n"
    using un by (simp add: unat_mod_distrib)
  have "0 < n" using assms(2) by simp
  then have lt: "unat (items ! i ! 0) mod n < n" "(n - 1 + i) mod n < n" by simp_all
  have "bitwise_xor (items ! (unat (items ! i ! 0) mod n)) (items ! ((n - 1 + i) mod n))
      = map2 (XOR) (items ! ((n - 1 + i) mod n)) (items ! (unat (items ! i ! 0) mod n))"
    using ok lt by (subst bitwise_xor_eq) (auto intro!: nth_equalityI simp: ac_simps)
  then have "cache_round h512 (int n) i items = Some (memo_step h512 n i items)"
    using assms(2,3) ok [OF assms(2)] nz ci w v lt
    by (simp add: cache_round_def memo_step_def Let_def)
  moreover have "list_all node_ok (memo_step h512 n i items)"
    using assms by (auto simp: memo_step_def list_all_length nth_list_update)
  ultimately show ?thesis using assms(3) by (simp add: memo_step_def)
qed

lemma build_light_cache_eq:
  assumes "0 < n" and "n \<le> 2 ^ 30" and "length items = n"
  shows "build_light_cache h512 items (int n) seed = Some (memo_hash h512 seed n)
     \<and> length (memo_hash h512 seed n) = n \<and> list_all node_ok (memo_hash h512 seed n)"
proof -
  let ?x = "words_of_bytes (h512 seed) :: node"
  let ?P = "\<lambda>nodes. length nodes = n \<and> list_all node_ok nodes"
  let ?c0 = "map (\<lambda>i. (hash_node h512 ^^ i) ?x) [0..<n]"
  have "node_ok ((hash_node h512 ^^ i) ?x)" for i by (cases i) auto
  then have P0: "?P ?c0" by (simp add: list_all_iff)
  have round: "for_each [0..<n] (cache_round h512 (int n)) nd = Some (fold (memo_step h512 n) [0..<n] nd)
      \<and> ?P (fold (memo_step h512 n) [0..<n] nd)" if "?P nd" for nd
    using that cache_round_eq [OF assms(2)] by (intro for_each_fold) auto
  have "for_each [0..<3] (\<lambda>q. for_each [0..<n] (cache_round h512 (int n))) ?c0
      = Some (fold (\<lambda>q. fold (memo_step h512 n) [0..<n]) [0..<3] ?c0) \<and> ?P (fold (\<lambda>q. fold (memo_step h512 n) [0..<n]) [0..<3] ?c0)"
    by (rule for_each_fold [where P = ?P]) (fact P0, rule round)
  moreover have "fold (\<lambda>q. fold (memo_step h512 n) [0..<n]) [0..<3] ?c0 = memo_hash h512 seed n"
    by (simp add: memo_hash_def numeral_3_eq_3)
  moreover have "for_each [1..<n] (cache_chain h512) (?x, items[0 := ?x]) = Some ((hash_node h512 ^^ (n - 1)) ?x, ?c0)"
    using cache_chain_eq [of n items ?x] assms by simp
  moreover have "wr items 0 ?x = Some (items[0 := ?x])" using assms by simp
  ultimately show ?thesis by (simp add: build_light_cache_def Let_def)
qed

end

section \<open>The items of the data set\<close>

interpretation pp: ethash_hashes ethash_keccak512 ethash_keccak256
  by unfold_locales simp_all

text \<open>A context whose cache holds the nodes it promises.\<close>

definition context_ok :: "epoch_context \<Rightarrow> bool" where
  "context_ok c \<longleftrightarrow> light_cache c \<noteq> [] \<and> light_cache_num_items c = int (length (light_cache c))
     \<and> list_all node_ok (light_cache c) \<and> 0 < full_dataset_num_items c \<and> full_dataset_num_items c < 2 ^ 31"

definition pp_item :: "ethash_lib \<Rightarrow> epoch_context \<Rightarrow> int \<Rightarrow> node" where
  "pp_item lib c index = the (calculate_dataset_item_512 lib c index)"

lemma cache_cell:
  assumes "context_ok c"
  shows "\<exists>nd. rd (light_cache c) (nat (index mod light_cache_num_items c)) = Some nd \<and> node_ok nd"
proof -
  have pos: "0 < light_cache_num_items c" using assms by (simp add: context_ok_def)
  have "nat (index mod light_cache_num_items c) < length (light_cache c)"
    using pos_mod_sign [OF pos, of index] pos_mod_bound [OF pos, of index] assms
    by (simp add: context_ok_def nat_less_iff)
  with assms show ?thesis by (simp add: context_ok_def list_all_length)
qed

lemma item_state_total:
  assumes "context_ok c"
  shows "\<exists>s. item_state c index = Some s \<and> node_ok (snd s)"
proof -
  obtain nd where nd: "rd (light_cache c) (nat (index mod light_cache_num_items c)) = Some nd" "node_ok nd"
    using cache_cell [OF assms] by blast
  then have "rd nd 0 = Some (nd ! 0)" by (simp add: node_ok_def)
  moreover have "light_cache_num_items c \<noteq> 0" using assms by (simp add: context_ok_def)
  ultimately show ?thesis using nd(1) by (simp add: item_state_def Let_def)
qed

lemma item_update_total:
  assumes "context_ok c" and "node_ok (snd s)"
  shows "\<exists>s'. item_update c j s = Some s' \<and> node_ok (snd s')"
proof -
  obtain seed mix where s: "s = (seed, mix)" by fastforce
  let ?t = "fnv1 (seed XOR of_nat j) (mix ! (j mod 16))"
  obtain nd where nd: "rd (light_cache c) (nat (uint ?t mod light_cache_num_items c)) = Some nd" "node_ok nd"
    using cache_cell [OF assms(1)] by blast
  have "rd mix (j mod 16) = Some (mix ! (j mod 16))" using assms(2) by (simp add: s node_ok_def)
  moreover have "light_cache_num_items c \<noteq> 0" using assms(1) by (simp add: context_ok_def)
  ultimately show ?thesis using nd(1) by (simp add: item_update_def s Let_def) (simp add: node_ok_def fnv1_512_def)
qed

lemma item_updates_total:
  assumes "context_ok c" and "node_ok (snd s)"
  shows "\<exists>s'. for_each is (item_update c) s = Some s' \<and> node_ok (snd s')"
  using assms by (intro for_each_total [where P = "\<lambda>s. node_ok (snd s)"] item_update_total)

lemma item_512:
  assumes "context_ok c"
  shows "calculate_dataset_item_512 lib c index = Some (pp_item lib c index)" and "length (pp_item lib c index) = 16"
proof -
  obtain s where s: "item_state c index = Some s" "node_ok (snd s)" using item_state_total [OF assms] by blast
  obtain s' where s': "for_each [0..<full_dataset_item_parents lib] (item_update c) s = Some s'"
    using item_updates_total [OF assms s(2)] by blast
  have "calculate_dataset_item_512 lib c index = Some (item_final s')"
    using s(1) s' by (simp add: calculate_dataset_item_512_def)
  then show "calculate_dataset_item_512 lib c index = Some (pp_item lib c index)"
    and "length (pp_item lib c index) = 16"
    by (simp_all add: pp_item_def item_final_def hash_node_def)
qed

lemma for_each_pair:
  "for_each is (\<lambda>j (s, t). do { s \<leftarrow> f j s; t \<leftarrow> g j t; Some (s, t) }) (s, t)
    = do { s \<leftarrow> for_each is f s; t \<leftarrow> for_each is g t; Some (s, t) }"
proof (induction "is" arbitrary: s t)
  case (Cons j "is")
  show ?case
  proof (cases "f j s")
    case (Some s')
    then show ?thesis using Cons by (cases "g j t") (auto split: bind_splits)
  qed simp
qed simp

text \<open>Computing the items interleaved computes the items.\<close>

lemma item_1024:
  assumes "context_ok c"
  shows "calculate_dataset_item_1024 lib c index = Some (pp_item lib c (uint index * 2) @ pp_item lib c (uint index * 2 + 1))"
  using item_512(1) [OF assms, of lib "uint index * 2"] item_512(1) [OF assms, of lib "uint index * 2 + 1"]
  by (auto simp: calculate_dataset_item_1024_def calculate_dataset_item_512_def for_each_pair bind_eq_Some_conv)

lemma item_2048:
  assumes "context_ok c"
  shows "calculate_dataset_item_2048 lib c index = Some (pp_item lib c (uint index * 4) @ pp_item lib c (uint index * 4 + 1)
    @ pp_item lib c (uint index * 4 + 2) @ pp_item lib c (uint index * 4 + 3))"
proof -
  let ?u = "item_update c"
  let ?g3 = "\<lambda>j (s, t). do { s \<leftarrow> ?u j s; t \<leftarrow> ?u j t; Some (s, t) }"
  let ?g2 = "\<lambda>j (s, t). do { s \<leftarrow> ?u j s; t \<leftarrow> ?g3 j t; Some (s, t) }"
  have body: "(\<lambda>j (item0, item1, item2, item3). do {
      item0 \<leftarrow> ?u j item0; item1 \<leftarrow> ?u j item1; item2 \<leftarrow> ?u j item2; item3 \<leftarrow> ?u j item3;
      Some (item0, item1, item2, item3) }) = (\<lambda>j (s, t). do { s \<leftarrow> ?u j s; t \<leftarrow> ?g2 j t; Some (s, t) })"
    by (intro ext) (auto simp: split_def)
  have "for_each is (\<lambda>j (item0, item1, item2, item3). do {
      item0 \<leftarrow> ?u j item0; item1 \<leftarrow> ?u j item1; item2 \<leftarrow> ?u j item2; item3 \<leftarrow> ?u j item3;
      Some (item0, item1, item2, item3) }) (a, b, x, d)
    = do { a \<leftarrow> for_each is ?u a; b \<leftarrow> for_each is ?u b; x \<leftarrow> for_each is ?u x; d \<leftarrow> for_each is ?u d; Some (a, b, x, d) }"
    for "is" a b x d
    unfolding body for_each_pair by simp
  then show ?thesis
    using item_512(1) [OF assms, of lib "uint index * 4"] item_512(1) [OF assms, of lib "uint index * 4 + 1"]
      item_512(1) [OF assms, of lib "uint index * 4 + 2"] item_512(1) [OF assms, of lib "uint index * 4 + 3"]
    by (auto simp: calculate_dataset_item_2048_def calculate_dataset_item_512_def bind_eq_Some_conv)
qed

text \<open>With 256 parents an item is a node of the data set of \<open>libethhash\<close>.\<close>

lemma item_update_dag:
  assumes "context_ok c" and "light_ok light" and "cache light = light_cache c" and "node_ok mix"
    and "length (light_cache c) < 2 ^ 32"
  shows "item_update c j (seed, mix) = map_option (Pair seed)
    (do { w \<leftarrow> rd mix (j mod 16);
          p \<leftarrow> umod (fnv_hash (seed XOR of_nat j) w) (ucast (cache_size light div 64));
          parent \<leftarrow> rd (cache light) (unat p); Some (map2 fnv_hash mix parent) })"
proof -
  let ?n = "ucast (cache_size light div 64) :: u32"
  have n: "unat ?n = length (cache light)"
    using assms(2) by (intro num_nodes_u32) (auto simp: light_ok_def)
  then have nz: "?n \<noteq> 0" using assms(2) by (auto simp: light_ok_def)
  have idx: "nat (uint t mod light_cache_num_items c) = unat (t mod ?n)" for t :: u32
    using assms(1,3) n by (simp add: context_ok_def unat_mod_distrib nat_mod_distrib)
  let ?t = "fnv_hash (seed XOR of_nat j) (mix ! (j mod 16))"
  obtain nd where nd: "rd (light_cache c) (unat (?t mod ?n)) = Some nd" "node_ok nd"
    using cache_cell [OF assms(1), of "uint ?t"] idx by auto
  have "rd mix (j mod 16) = Some (mix ! (j mod 16))" using assms(4) by (simp add: node_ok_def)
  moreover have "light_cache_num_items c \<noteq> 0" using assms(1) by (simp add: context_ok_def)
  ultimately show ?thesis
    using nd nz idx [of ?t] assms(3,4) by (simp add: item_update_def Let_def fnv1_hash fnv1_512_eq)
qed

lemma item_512_dag:
  assumes "context_ok c" and "light_ok light" and "cache light = light_cache c"
  shows "ethash_calculate_dag_item SHA3_512 k light = Some (pp_item progpowz_ethash c (uint k))"
proof -
  let ?n = "ucast (cache_size light div 64) :: u32"
  let ?body = "\<lambda>i ret. do { w \<leftarrow> rd ret (i mod 16); p \<leftarrow> umod (fnv_hash (k XOR of_nat i) w) ?n;
      parent \<leftarrow> rd (cache light) (unat p); Some (map2 fnv_hash ret parent) }"
  have len: "length (light_cache c) < 2 ^ 32" using assms(2,3) by (simp add: light_ok_def)
  have n: "unat ?n = length (cache light)"
    using assms(2) by (intro num_nodes_u32) (auto simp: light_ok_def)
  then have nz: "?n \<noteq> 0" using assms(2) by (auto simp: light_ok_def)
  have idx: "nat (uint k mod light_cache_num_items c) = unat (k mod ?n)"
    using assms(1,3) n by (simp add: context_ok_def unat_mod_distrib nat_mod_distrib)
  obtain nd where nd: "rd (light_cache c) (unat (k mod ?n)) = Some nd" "node_ok nd"
    using cache_cell [OF assms(1), of "uint k"] idx by auto
  have steps: "for_each is (item_update c) (k, mix) = map_option (Pair k) (for_each is ?body mix)" if "node_ok mix" for "is" mix
    using that
  proof (induction "is" arbitrary: mix)
    case (Cons j "is")
    have u: "item_update c j (k, mix) = map_option (Pair k) (?body j mix)"
      by (rule item_update_dag [OF assms Cons.prems len])
    show ?case
    proof (cases "?body j mix")
      case (Some mix')
      have "node_ok mix'"
        using item_update_total [OF assms(1), of "(k, mix)" j] Cons.prems u Some by auto
      with Cons.IH Some u show ?thesis by simp
    qed (simp add: u)
  qed simp
  have "rd nd 0 = Some (nd ! 0)" using nd(2) by (simp add: node_ok_def)
  moreover have hn: "hash_node ethash_keccak512 x = hash_node SHA3_512 x" for x by (simp add: hash_node_def)
  moreover have "light_cache_num_items c \<noteq> 0" using assms(1) by (simp add: context_ok_def)
  ultimately have "calculate_dataset_item_512 progpowz_ethash c (uint k) = ethash_calculate_dag_item SHA3_512 k light"
    using nd(1) nz idx assms(3) steps [of "hash_node SHA3_512 (nd[0 := nd ! 0 XOR k])" "[0..<256]"]
    by (simp add: calculate_dataset_item_512_def ethash_calculate_dag_item_def item_state_def Let_def
        progpowz_ethash_def item_final_def bind_map_option o_def)
  then show ?thesis using item_512(1) [OF assms(1)] by simp
qed

section \<open>Look-ups\<close>

text \<open>
  The interface between hashing and the two ways to read an item: a look-up returns the item and keeps an
  invariant of the context.
\<close>

locale item_lookup =
  fixes lookup :: lookup_fn and inv :: "epoch_context \<Rightarrow> bool" and item :: "u32 \<Rightarrow> u32 list" and limit :: nat
  assumes lookup_item: "inv c \<Longrightarrow> unat p < limit \<Longrightarrow> \<exists>c'. lookup c p = Some (item p, c') \<and> inv c'"

definition kernel_step :: "(u32 \<Rightarrow> u32 list) \<Rightarrow> u32 \<Rightarrow> u32 \<Rightarrow> nat \<Rightarrow> u32 list \<Rightarrow> u32 list" where
  "kernel_step item seed_init index_limit i mix =
     (let newdata = item (fnv1 (of_nat i XOR seed_init) (mix ! (i mod 32)) mod index_limit)
      in map (\<lambda>j. fnv1 (mix ! j) (newdata ! j)) [0..<32])"

definition kernel_mix :: "ethash_lib \<Rightarrow> (u32 \<Rightarrow> u32 list) \<Rightarrow> u32 \<Rightarrow> node \<Rightarrow> u32 list" where
  "kernel_mix lib item index_limit seed =
     fold (kernel_step item (seed ! 0) index_limit) [0..<num_dataset_accesses lib] (seed @ seed)"

text \<open>The mix hash as a function of the items alone.\<close>

definition kernel_hash :: "ethash_lib \<Rightarrow> (u32 \<Rightarrow> u32 list) \<Rightarrow> nat \<Rightarrow> node \<Rightarrow> bytes" where
  "kernel_hash lib item limit seed =
     (let mix = kernel_mix lib item (of_nat limit) seed in
      bytes_of_words (map (\<lambda>k. fnv1 (fnv1 (fnv1 (mix ! (4 * k)) (mix ! (4 * k + 1))) (mix ! (4 * k + 2))) (mix ! (4 * k + 3))) [0..<8]))"

lemma length_kernel_step [simp]: "length (kernel_step item s l i mix) = 32"
  by (simp add: kernel_step_def Let_def)

context item_lookup
begin

lemma kernel_loop:
  assumes "inv c" and "unat index_limit = limit" and "0 < limit" and "length mix = 32"
  shows "\<exists>c'. for_each is (kernel_access lookup s0 index_limit) (mix, c)
    = Some (fold (kernel_step item s0 index_limit) is mix, c') \<and> inv c'"
  using assms
proof (induction "is" arbitrary: mix c)
  case (Cons i "is")
  let ?p = "fnv1 (of_nat i XOR s0) (mix ! (i mod 32)) mod index_limit"
  have nz: "index_limit \<noteq> 0" using Cons.prems by auto
  then have "unat ?p < limit" using unat_umod_less [OF nz] Cons.prems(2) by simp
  then obtain c' where c': "lookup c ?p = Some (item ?p, c')" "inv c'"
    using lookup_item [OF Cons.prems(1)] by blast
  have "rd mix (i mod 32) = Some (mix ! (i mod 32))" using Cons.prems(4) by simp
  then have "kernel_access lookup s0 index_limit i (mix, c) = Some (kernel_step item s0 index_limit i mix, c')"
    using nz c'(1) by (simp add: kernel_access_def kernel_step_def Let_def)
  with Cons.IH [OF c'(2) Cons.prems(2,3), of "kernel_step item s0 index_limit i mix"] show ?case by simp
qed simp

lemma kernel_eq:
  assumes "inv c" and "full_dataset_num_items c = int limit" and "0 < limit" and "limit < 2 ^ 31" and "length seed = 16"
  shows "\<exists>c'. hash_kernel lib c seed lookup = Some (kernel_hash lib item limit seed, c') \<and> inv c'"
proof -
  have l: "unat (of_nat limit :: u32) = limit" using assms(4) by (simp add: unat_of_nat)
  obtain c' where "for_each [0..<num_dataset_accesses lib] (kernel_access lookup (seed ! 0) (of_nat limit)) (seed @ seed, c)
      = Some (kernel_mix lib item (of_nat limit) seed, c')" "inv c'"
    using kernel_loop [OF assms(1) l assms(3), of "seed @ seed" "[0..<num_dataset_accesses lib]" "seed ! 0"] assms(5)
    by (auto simp: kernel_mix_def)
  moreover have "rd seed 0 = Some (seed ! 0)" using assms(5) by simp
  ultimately show ?thesis
    using assms(2) by (simp add: hash_kernel_def kernel_hash_def Let_def)
qed

end

section \<open>Two ways to look up an item\<close>

lemma items_of_cache [simp]:
  "item_state (c\<lparr> dataset := d \<rparr>) = item_state c" "item_update (c\<lparr> dataset := d \<rparr>) = item_update c"
  by (intro ext; simp add: item_state_def item_update_def cong: if_cong)+

lemma calculate_of_cache [simp]:
  "calculate_dataset_item_512 lib (c\<lparr> dataset := d \<rparr>) = calculate_dataset_item_512 lib c"
  "calculate_dataset_item_1024 lib (c\<lparr> dataset := d \<rparr>) = calculate_dataset_item_1024 lib c"
  "calculate_dataset_item_2048 lib (c\<lparr> dataset := d \<rparr>) = calculate_dataset_item_2048 lib c"
  by (intro ext; simp add: calculate_dataset_item_512_def calculate_dataset_item_1024_def calculate_dataset_item_2048_def)+

lemma context_ok_dataset [simp]: "context_ok (c\<lparr> dataset := d \<rparr>) = context_ok c"
  by (simp add: context_ok_def)

definition pp_1024 :: "ethash_lib \<Rightarrow> epoch_context \<Rightarrow> u32 \<Rightarrow> u32 list" where
  "pp_1024 lib c p = the (calculate_dataset_item_1024 lib c p)"

definition pp_2048 :: "ethash_lib \<Rightarrow> epoch_context \<Rightarrow> u32 \<Rightarrow> u32 list" where
  "pp_2048 lib c p = the (calculate_dataset_item_2048 lib c p)"

lemma pp_1024:
  assumes "context_ok c"
  shows "calculate_dataset_item_1024 lib c p = Some (pp_1024 lib c p)" and "length (pp_1024 lib c p) = 32"
  using item_1024 [OF assms] item_512(2) [OF assms] by (simp_all add: pp_1024_def)

lemma pp_2048:
  assumes "context_ok c"
  shows "calculate_dataset_item_2048 lib c p = Some (pp_2048 lib c p)" and "length (pp_2048 lib c p) = 64"
  using item_2048 [OF assms] item_512(2) [OF assms] by (simp_all add: pp_2048_def)

text \<open>
  A full context that differs from \<open>c0\<close> in its memory only, and every item of \<open>n\<close> words there starts
  with 64 zero bits or is right.
\<close>

definition stored :: "nat \<Rightarrow> epoch_context \<Rightarrow> nat \<Rightarrow> u32 list" where
  "stored n c i = take n (drop (n * i) (dataset c))"

definition lazy_ok :: "nat \<Rightarrow> (u32 \<Rightarrow> u32 list) \<Rightarrow> nat \<Rightarrow> epoch_context \<Rightarrow> epoch_context \<Rightarrow> bool" where
  "lazy_ok n item limit c0 c \<longleftrightarrow> (\<exists>d. c = c0\<lparr> dataset := d \<rparr>) \<and> is_full c0 \<and> n * limit \<le> length (dataset c)
     \<and> (\<forall>i < limit. word64s (stored n c i) ! 0 = 0 \<or> stored n c i = item (of_nat i))"

lemma stored_memcpy:
  assumes "length src = n" and "n * limit \<le> length (dataset c)" and "i < limit" and "j < limit"
  shows "stored n (c\<lparr> dataset := memcpy_at (dataset c) (n * j) src \<rparr>) i = (if i = j then src else stored n c i)"
proof -
  have b: "n * i + n \<le> n * limit" "n * j + n \<le> n * limit"
    using assms(3,4) by (metis Suc_leI mult_Suc_right add.commute mult_le_mono2)+
  have lt: "i < j \<Longrightarrow> n * i + n \<le> n * j" "j < i \<Longrightarrow> n * j + n \<le> n * i"
    by (metis Suc_leI mult_Suc_right add.commute mult_le_mono2)+
  let ?d = "dataset c"
  have len: "length (take (n * j) ?d) = n * j" using b(2) assms(2) by simp
  consider "i = j" | "i < j" | "j < i" by linarith
  then show ?thesis
  proof cases
    case 1
    with assms(1) len show ?thesis by (simp add: stored_def memcpy_at_def)
  next
    case 2
    have "n \<le> length (drop (n * i) (take (n * j) ?d))"
      using lt(1) [OF 2] unfolding length_drop len by linarith
    moreover have "take n (drop (n * i) (take (n * j) ?d)) = take n (drop (n * i) ?d)"
      using lt(1) [OF 2] by (simp add: drop_take min_def)
    moreover have "n * i \<le> length (take (n * j) ?d)" using lt(1) [OF 2] unfolding len by linarith
    ultimately show ?thesis using 2 by (simp add: stored_def memcpy_at_def)
  next
    case 3
    have "n * i - n * j - n + (n * j + n) = n * i" using lt(2) [OF 3] by simp
    with 3 lt(2) [OF 3] len assms(1) show ?thesis by (simp add: stored_def memcpy_at_def) 
  qed
qed

lemma lazy_item_ok:
  assumes "lazy_ok n item limit c0 c" and "unat p < limit" and "limit \<le> 2 ^ 32"
    and "\<And>d. calculate (c0\<lparr> dataset := d \<rparr>) p = Some (item p)" and "length (item p) = n"
  shows "\<exists>c'. lazy_item n calculate c p = Some (item p, c') \<and> lazy_ok n item limit c0 c'"
proof -
  obtain d where d: "c = c0\<lparr> dataset := d \<rparr>" and full: "is_full c" using assms(1) by (auto simp: lazy_ok_def)
  have len: "n * limit \<le> length (dataset c)"
    and st: "\<And>i. i < limit \<Longrightarrow> word64s (stored n c i) ! 0 = 0 \<or> stored n c i = item (of_nat i)"
    using assms(1) by (auto simp: lazy_ok_def)
  have "n * (unat p + 1) \<le> n * limit" using assms(2) by (intro mult_le_mono2) simp
  with len have bound: "\<not> length (dataset c) < n * (unat p + 1)" by simp
  have p: "of_nat (unat p) = p" by simp
  show ?thesis
  proof (cases "word64s (stored n c (unat p)) ! 0 = 0")
    case True
    let ?c' = "c\<lparr> dataset := memcpy_at (dataset c) (n * unat p) (item p) \<rparr>"
    have "lazy_item n calculate c p = Some (item p, ?c')"
      using True full bound assms(4) [of d] by (simp add: lazy_item_def stored_def [symmetric] d [symmetric] Let_def)
    moreover have "lazy_ok n item limit c0 ?c'"
    proof -
      have "length (dataset ?c') = length (dataset c)" using bound assms(5) by simp
      moreover have "word64s (stored n ?c' i) ! 0 = 0 \<or> stored n ?c' i = item (of_nat i)" if "i < limit" for i
        using st [OF that] stored_memcpy [OF assms(5) len that assms(2)] p by auto
      ultimately show ?thesis using len full d by (auto simp: lazy_ok_def)
    qed
    ultimately show ?thesis by blast
  next
    case False
    with st [OF assms(2)] p have "stored n c (unat p) = item p" by simp
    with False full bound have "lazy_item n calculate c p = Some (item p, c)"
      by (simp add: lazy_item_def stored_def Let_def)
    with assms(1) show ?thesis by blast
  qed
qed

interpretation light: item_lookup "light_lookup lib" "\<lambda>c'. context_ok c \<and> c' = c" "pp_1024 lib c" n for lib c n
  by unfold_locales (auto simp: light_lookup_def pp_1024(1))

interpretation lazy: item_lookup "lazy_lookup lib"
  "\<lambda>c'. context_ok c \<and> n \<le> 2 ^ 32 \<and> lazy_ok 32 (pp_1024 lib c) n c c'" "pp_1024 lib c" n for lib c n
proof
  fix c' and p :: u32
  assume a: "context_ok c \<and> n \<le> 2 ^ 32 \<and> lazy_ok 32 (pp_1024 lib c) n c c'" "unat p < n"
  with lazy_item_ok [of 32 "pp_1024 lib c" n c c' p "calculate_dataset_item_1024 lib"] pp_1024 [of c]
  show "\<exists>c''. lazy_lookup lib c' p = Some (pp_1024 lib c p, c'')
      \<and> (context_ok c \<and> n \<le> 2 ^ 32 \<and> lazy_ok 32 (pp_1024 lib c) n c c'')"
    by (simp add: lazy_lookup_def)
qed

section \<open>Comparing hashes\<close>

lemma unat_bswap64:
  assumes "length bs = 8"
  shows "unat (bswap64 (word_of_bytes bs)) = be_nat bs"
proof -
  have "bytes_of_word (word_of_bytes bs :: u64) = bs" using assms by simp
  moreover have "be_nat bs < 2 ^ 64" using be_nat_less [of bs] assms by simp
  ultimately show ?thesis by (simp add: bswap64_def word_of_bytes_def le_nat_rev unat_of_nat)
qed

lemma be_nat_append_less:
  assumes "be_nat a < be_nat b" and "length as = length bs"
  shows "be_nat (a @ as) < be_nat (b @ bs)"
proof -
  have "Suc (be_nat a) * 256 ^ length bs \<le> be_nat b * 256 ^ length bs"
    using assms(1) by (intro mult_right_mono) simp_all
  with be_nat_less [of as] assms(2) show ?thesis by (simp add: be_nat_append)
qed

lemma less_or_equal_from_iff:
  assumes "length a = 8 * n" and "length b = 8 * n"
  shows "less_or_equal_from (words_of_bytes a) (words_of_bytes b) \<longleftrightarrow> be_nat a \<le> be_nat b"
  using assms
proof (induction n arbitrary: a b)
  case (Suc n)
  let ?a = "take 8 a" and ?b = "take 8 b" and ?as = "drop 8 a" and ?bs = "drop 8 b"
  have len: "length ?a = 8" "length ?b = 8" "length ?as = 8 * n" "length ?bs = 8 * n" using Suc.prems by simp_all
  have w: "words_of_bytes xs = word_of_bytes (take 8 xs) # (words_of_bytes (drop 8 xs) :: u64 list)" if "length xs = 8 * Suc n" for xs
    using words_of_bytes_append [where ?'a = 64, of "take 8 xs" "drop 8 xs"] words_of_bytes_8 [of "take 8 xs"] that by simp
  have u: "bswap64 (word_of_bytes xs) < bswap64 (word_of_bytes ys) \<longleftrightarrow> be_nat xs < be_nat ys"
    if "length xs = 8" "length ys = 8" for xs ys
    using that by (simp add: word_less_nat_alt unat_bswap64)
  have step: "less_or_equal_from (words_of_bytes a) (words_of_bytes b) \<longleftrightarrow>
      (if be_nat ?b < be_nat ?a then False else if be_nat ?a < be_nat ?b then True else be_nat ?as \<le> be_nat ?bs)"
    using Suc.IH [OF len(3,4)] by (simp only: w [OF Suc.prems(1)] w [OF Suc.prems(2)] less_or_equal_from.simps u [OF len(1,2)] u [OF len(2,1)])
  show ?case
  proof (cases "be_nat ?a" "be_nat ?b" rule: linorder_cases)
    case less
    have "be_nat (?a @ ?as) < be_nat (?b @ ?bs)" using less len by (intro be_nat_append_less) simp_all
    then show ?thesis unfolding step using less by simp
  next
    case greater
    have "be_nat (?b @ ?bs) < be_nat (?a @ ?as)" using greater len by (intro be_nat_append_less) simp_all
    then show ?thesis unfolding step using greater by simp
  next
    case equal
    have "be_nat (?a @ ?as) \<le> be_nat (?b @ ?bs) \<longleftrightarrow> be_nat ?as \<le> be_nat ?bs"
      unfolding be_nat_append equal using len by simp
    then show ?thesis unfolding step using equal by simp
  qed
qed (simp add: be_nat_def words_of_bytes_def)

lemma is_less_or_equal_iff:
  "length a = 32 \<Longrightarrow> length b = 32 \<Longrightarrow> is_less_or_equal a b \<longleftrightarrow> be_nat a \<le> be_nat b"
  using less_or_equal_from_iff [of a 4 b] by (simp add: is_less_or_equal_def)

section \<open>Hashing with either look-up\<close>

definition items_ok :: "epoch_context \<Rightarrow> nat \<Rightarrow> bool" where
  "items_ok c n \<longleftrightarrow> context_ok c \<and> full_dataset_num_items c = int n \<and> 0 < n \<and> n < 2 ^ 31"

text \<open>The result of hashing as a function of the items.\<close>

definition pp_result :: "ethash_lib \<Rightarrow> epoch_context \<Rightarrow> bytes \<Rightarrow> u64 \<Rightarrow> bytes \<times> bytes" where
  "pp_result lib c header nonce =
     (let seed = hash_seed header nonce; mix = kernel_hash lib (pp_1024 lib c) (nat (full_dataset_num_items c)) seed
      in (hash_final seed mix, mix))"

lemma length_hash_seed [simp]: "length (hash_seed header nonce) = 16"
  by (simp add: hash_seed_def)

lemma length_hash_final [simp]: "length (hash_final seed mix) = 32"
  by (simp add: hash_final_def)

lemma length_kernel_hash [simp]: "length (kernel_hash lib item limit seed) = 32"
  by (simp add: kernel_hash_def Let_def)

lemma length_pp_result [simp]: "length (fst (pp_result lib c header nonce)) = 32" "length (snd (pp_result lib c header nonce)) = 32"
  by (simp_all add: pp_result_def Let_def)

lemma light_kernel:
  assumes "items_ok c n"
  shows "hash_kernel lib c (hash_seed header nonce) (light_lookup lib) = Some (snd (pp_result lib c header nonce), c)"
proof -
  have ok: "context_ok c" "full_dataset_num_items c = int n" "0 < n" "n < 2 ^ 31" using assms by (simp_all add: items_ok_def)
  show ?thesis
    using light.kernel_eq [of c c n "hash_seed header nonce" lib lib] ok
    by (simp add: pp_result_def Let_def)
qed

lemma ethash_hash_result: "items_ok c n \<Longrightarrow> pp_ethash_hash lib c header nonce = Some (pp_result lib c header nonce, c)"
  by (simp add: pp_ethash_hash_def light_kernel) (simp add: pp_result_def Let_def)

lemma hash_full_result:
  assumes "items_ok c0 n" and "lazy_ok 32 (pp_1024 lib c0) n c0 c"
  shows "\<exists>c'. pp_hash_full lib c header nonce = Some (pp_result lib c0 header nonce, c') \<and> lazy_ok 32 (pp_1024 lib c0) n c0 c'"
proof -
  have ok: "context_ok c0" "full_dataset_num_items c0 = int n" "0 < n" "n < 2 ^ 31" using assms(1) by (simp_all add: items_ok_def)
  obtain d where d: "c = c0\<lparr> dataset := d \<rparr>" using assms(2) by (auto simp: lazy_ok_def)
  obtain c' where "hash_kernel lib c (hash_seed header nonce) (lazy_lookup lib)
      = Some (kernel_hash lib (pp_1024 lib c0) n (hash_seed header nonce), c')" "lazy_ok 32 (pp_1024 lib c0) n c0 c'"
    using lazy.kernel_eq [of c0 n lib c "hash_seed header nonce" lib] ok assms(2) d by auto
  then show ?thesis using ok by (simp add: pp_hash_full_def pp_result_def Let_def)
qed

lemma verify_result:
  assumes "items_ok c n" and "length mix = 32" and "length boundary = 32"
  shows "pp_ethash_verify lib c header mix nonce boundary
    = Some (mix = snd (pp_result lib c header nonce) \<and> be_nat (fst (pp_result lib c header nonce)) \<le> be_nat boundary)"
proof -
  have "fst (pp_result lib c header nonce) = hash_final (hash_seed header nonce) (snd (pp_result lib c header nonce))"
    by (simp add: pp_result_def Let_def)
  with assms(2,3) show ?thesis
    by (auto simp: pp_ethash_verify_def light_kernel [OF assms(1)] is_less_or_equal_iff is_equal_def Let_def)
qed

text \<open>A search over a pure hash returns the first nonce below the boundary.\<close>

lemma search_from_find:
  assumes "P c" and "\<And>c n. P c \<Longrightarrow> \<exists>c'. hash c n = Some (f n, c') \<and> P c'"
  shows "\<exists>c'. search_from hash boundary ns c
    = Some (map_option (\<lambda>n. (f (of_nat n), of_nat n)) (find (\<lambda>n. is_less_or_equal (fst (f (of_nat n))) boundary) ns), c') \<and> P c'"
  using assms(1)
proof (induction ns arbitrary: c)
  case (Cons n ns)
  obtain c' where "hash c (of_nat n) = Some (f (of_nat n), c')" "P c'" using assms(2) [OF Cons.prems] by blast
  with Cons.IH [of c'] show ?case by auto
qed simp

section \<open>Creating a context\<close>

lemma pp_of_cache [simp]:
  "pp_1024 lib (c\<lparr> dataset := d \<rparr>) = pp_1024 lib c" "pp_2048 lib (c\<lparr> dataset := d \<rparr>) = pp_2048 lib c"
  by (simp_all add: pp_1024_def pp_2048_def fun_eq_iff)

lemma keccak512_eq: "ethash_keccak512 = SHA3_512"
  by (rule ext) simp

text \<open>The words of the level-1 cache.\<close>

definition l1_words :: "ethash_lib \<Rightarrow> epoch_context \<Rightarrow> nat \<Rightarrow> u32 list" where
  "l1_words lib c m = concat (map (\<lambda>i. pp_2048 lib c (of_nat i)) [0..<m])"

lemma length_l1_words: "context_ok c \<Longrightarrow> length (l1_words lib c m) = 64 * m"
  by (induction m) (simp_all add: l1_words_def pp_2048(2))

lemma l1_words_nth:
  assumes "context_ok c" and "i < m"
  shows "take 64 (drop (64 * i) (l1_words lib c m @ xs)) = pp_2048 lib c (of_nat i)"
proof -
  have "l1_words lib c m = l1_words lib c i @ pp_2048 lib c (of_nat i) @ concat (map (\<lambda>i. pp_2048 lib c (of_nat i)) [Suc i..<m])"
  proof -
    have "[0..<m] = [0..<i] @ i # [Suc i..<m]"
      using assms(2) upt_add_eq_append [of 0 i "m - i"] by (simp add: upt_conv_Cons)
    then show ?thesis by (simp add: l1_words_def)
  qed
  then show ?thesis using assms(1) by (simp add: length_l1_words pp_2048(2))
qed

lemma fill_l1:
  assumes "context_ok c" and "dataset c = replicate len 0" and "64 * m \<le> len"
  shows "for_each [0..<m] (fill_l1_item lib) c
    = Some (c\<lparr> dataset := l1_words lib c m @ replicate (len - 64 * m) 0 \<rparr>)"
  using assms(3)
proof (induction m)
  case 0
  then show ?case by (simp add: l1_words_def assms(2) [symmetric])
next
  case (Suc m)
  let ?c = "c\<lparr> dataset := l1_words lib c m @ replicate (len - 64 * m) 0 \<rparr>"
  have "64 + (len - 64 - 64 * m) = len - 64 * m" using Suc.prems by simp
  moreover have "memcpy_at (dataset ?c) (64 * m) (pp_2048 lib c (of_nat m))
      = l1_words lib c (Suc m) @ replicate (len - 64 * Suc m) 0"
    using assms(1) by (simp add: memcpy_at_append length_l1_words pp_2048(2)) (simp add: l1_words_def diff_diff_left add.commute)
  ultimately show ?case
    using Suc pp_2048(1) [OF assms(1)] assms(1) by (simp add: for_each_append fill_l1_item_def length_l1_words)
qed

lemma epoch_seed: "calculate_epoch_seed e = (SHA3_256 ^^ nat e) (replicate 32 0)"
proof -
  have "fold (\<lambda>_. ethash_keccak256_32) [0..<k] (replicate 32 0) = (SHA3_256 ^^ k) (replicate 32 0)
      \<and> length ((SHA3_256 ^^ k) (replicate 32 0)) = 32" for k
    by (induction k) (simp_all add: ethash_keccak_fixed)
  then show ?thesis by (simp add: calculate_epoch_seed_def)
qed

lemma prime_131: "prime_int 131"
  using is_odd_prime_iff [of 131] by (simp add: is_odd_prime_def is_odd_prime_from.simps)

text \<open>The largest epoch whose data set can be counted with an \<open>int\<close>.\<close>

definition epoch_fits :: "ethash_lib \<Rightarrow> int \<Rightarrow> bool" where
  "epoch_fits lib e \<longleftrightarrow> 0 \<le> e \<and> full_dataset_init_size lib div 128 + 65536 * e < 2 ^ 31 \<and> 2 ^ 30 \<le> full_dataset_init_size lib"

lemma num_items:
  assumes "epoch_fits lib e"
  shows "calculate_light_cache_num_items e = Some (ethash_find_largest_prime (262144 + 2048 * e))"
    and "calculate_full_dataset_num_items lib e = Some (ethash_find_largest_prime (full_dataset_init_size lib div 128 + 65536 * e))"
proof -
  have "8388608 \<le> full_dataset_init_size lib div 128" using assms unfolding epoch_fits_def by (auto simp: pos_imp_zdiv_nonneg_iff zdiv_mono1 [of "2 ^ 30" _ 128, simplified])
  then have b: "0 \<le> e" "full_dataset_init_size lib div 128 + 65536 * e < 2 ^ 31" "65536 * e < 2 ^ 31" "0 \<le> full_dataset_init_size lib div 128"
    using assms by (auto simp: epoch_fits_def)
  show "calculate_light_cache_num_items e = Some (ethash_find_largest_prime (262144 + 2048 * e))"
    using b by (simp add: calculate_light_cache_num_items_def c_int_def mult.commute)
  show "calculate_full_dataset_num_items lib e = Some (ethash_find_largest_prime (full_dataset_init_size lib div 128 + 65536 * e))"
    using b by (simp add: calculate_full_dataset_num_items_def c_int_def mult.commute)
qed

lemma create_context:
  assumes "epoch_fits lib se"
  defines "n \<equiv> nat (ethash_find_largest_prime (262144 + 2048 * se))"
    and "m \<equiv> nat (ethash_find_largest_prime (full_dataset_init_size lib div 128 + 65536 * se))"
  obtains c where "create_epoch_context_of lib True se e full = Some (Some c)" and "items_ok c m" and "128 \<le> m"
    and "epoch_number c = e" and "is_full c = full"
    and "light_cache c = memo_hash SHA3_512 ((SHA3_256 ^^ nat e) (replicate 32 0)) n"
    and "dataset c = l1_words lib c 64 @ replicate (if full then 32 * m - 4096 else 0) 0"
proof -
  have i8: "8388608 \<le> full_dataset_init_size lib div 128" using assms unfolding epoch_fits_def by (auto simp: zdiv_mono1 [of "2 ^ 30" _ 128, simplified])
  have b: "0 \<le> se" "full_dataset_init_size lib div 128 + 65536 * se < 2 ^ 31" using assms(1) by (auto simp: epoch_fits_def)
  let ?u = "262144 + 2048 * se" and ?v = "full_dataset_init_size lib div 128 + 65536 * se"
  have "2 \<le> ?u" "2 \<le> ?v" using b i8 by simp_all
  note pu = largest_prime_spec [OF this(1)] and pv = largest_prime_spec [OF this(2)]
  have n: "int n = ethash_find_largest_prime ?u" "0 < n" "n \<le> 2 ^ 30"
    using pu prime_int_ge2 [of "ethash_find_largest_prime ?u"] b i8 by (auto simp: n_def)
  have "131 \<le> ethash_find_largest_prime ?v" using pv prime_131 b i8 by auto
  then have m: "int m = ethash_find_largest_prime ?v" "128 \<le> m" "m < 2 ^ 31"
    using pv b by (auto simp: m_def)
  let ?items = "memo_hash SHA3_512 ((SHA3_256 ^^ nat e) (replicate 32 0)) n"
  have h: "build_light_cache ethash_keccak512 = build_light_cache SHA3_512"
    by (simp only: keccak512_eq)
  have bl: "build_light_cache ethash_keccak512 (replicate n (replicate 16 0)) (int n) (calculate_epoch_seed e) = Some ?items"
    "length ?items = n" "list_all node_ok ?items"
    using sha3.build_light_cache_eq [OF n(2,3), of "replicate n (replicate 16 0)"] by (simp_all add: h epoch_seed)
  define c0 where "c0 = \<lparr> epoch_number = e, light_cache_num_items = int n, light_cache = ?items,
    full_dataset_num_items = int m, is_full = full, dataset = replicate (if full then 32 * m else 4096) 0 \<rparr>"
  have ok: "context_ok c0" using bl(2,3) n(2) m by (auto simp: context_ok_def c0_def)
  define c where "c = c0\<lparr> dataset := l1_words lib c0 64 @ replicate ((if full then 32 * m else 4096) - 64 * 64) 0 \<rparr>"
  have "for_each [0..<64] (fill_l1_item lib) c0 = Some c"
    unfolding c_def using m(2) by (intro fill_l1 ok) (simp_all add: c0_def)
  moreover have "create_epoch_context_of lib True se e full
      = do { context \<leftarrow> for_each [0..<64] (fill_l1_item lib) c0; Some (Some context) }"
    unfolding create_epoch_context_of_def num_items [OF assms(1)] n(1) [symmetric] m(1) [symmetric]
    by (simp add: bl(1) c0_def)
  ultimately have cr: "create_epoch_context_of lib True se e full = Some (Some c)" by simp
  have l1: "l1_words lib c 64 = l1_words lib c0 64" by (simp add: l1_words_def c_def)
  show thesis
  proof (rule that [OF cr])
    show "items_ok c m" using ok m(2,3) by (simp add: items_ok_def c_def) (simp add: c0_def)
    show "128 \<le> m" by (fact m(2))
    show "epoch_number c = e" "is_full c = full" by (simp_all add: c_def c0_def)
    show "light_cache c = memo_hash SHA3_512 ((SHA3_256 ^^ nat e) (replicate 32 0)) n" by (simp add: c_def c0_def)
    show "dataset c = l1_words lib c 64 @ replicate (if full then 32 * m - 4096 else 0) 0"
      unfolding l1 by (simp add: c_def)
  qed
qed

text \<open>A fresh full context is right wherever it is not zero.\<close>

lemma fresh_lazy_ok:
  assumes "context_ok c" and "128 \<le> m" and "is_full c"
    and "dataset c = l1_words lib c 64 @ replicate (32 * m - 4096) 0"
  shows "lazy_ok 32 (pp_1024 lib c) m c c"
proof -
  have "word64s (stored 32 c i) ! 0 = 0 \<or> stored 32 c i = pp_1024 lib c (of_nat i)" if i: "i < m" for i
  proof (cases "i < 128")
    case True
    let ?k = "i div 2"
    have k: "?k < 64" using True by simp
    have uk: "uint (of_nat ?k :: u32) = int ?k" "uint (of_nat i :: u32) = int i" using True by (simp_all add: uint_nat unat_of_nat)
    have q: "take 64 (drop (64 * ?k) (dataset c)) = pp_2048 lib c (of_nat ?k)"
      unfolding assms(4) by (rule l1_words_nth [OF assms(1) k])
    have p: "pp_2048 lib c (of_nat ?k) = pp_item lib c (int ?k * 4) @ pp_item lib c (int ?k * 4 + 1)
        @ pp_item lib c (int ?k * 4 + 2) @ pp_item lib c (int ?k * 4 + 3)"
      using item_2048 [OF assms(1), of lib "of_nat ?k"] uk(1) by (simp add: pp_2048_def)
    have r: "pp_1024 lib c (of_nat i) = pp_item lib c (int i * 2) @ pp_item lib c (int i * 2 + 1)"
      using item_1024 [OF assms(1), of lib "of_nat i"] uk(2) by (simp add: pp_1024_def)
    note l = item_512(2) [OF assms(1), of lib]
    have "stored 32 c i = take 32 (drop (32 * (i mod 2)) (take 64 (drop (64 * ?k) (dataset c))))"
    proof -
      have e: "32 * i = 64 * ?k + 32 * (i mod 2)" by presburger
      show ?thesis unfolding stored_def e by (cases "even i") (simp_all add: drop_take add.commute mod2_eq_if)
    qed
    also have "\<dots> = pp_1024 lib c (of_nat i)"
      unfolding q p r by (cases "even i") (auto simp: l mult.commute [of "4 :: int"] add.commute [of "2 :: int"] add.commute [of "3 :: int"] elim!: evenE oddE)
    finally show ?thesis by simp
  next
    case False
    have "length (l1_words lib c 64) = 4096" using length_l1_words [OF assms(1)] by simp
    then have "stored 32 c i = take 32 (replicate (32 * m - 32 * i) 0)"
      using False i by (simp add: stored_def assms(4)) 
    also have "\<dots> = replicate 32 0" using i by (simp add: min_def)
    finally have "stored 32 c i = replicate 32 0" .
    moreover have "word64s (replicate 32 0) ! 0 = 0" by code_simp
    ultimately show ?thesis by simp
  qed
  moreover have "32 * m \<le> length (dataset c)" using length_l1_words [OF assms(1)] assms(2,4) by simp
  moreover have "\<exists>d. c = c\<lparr> dataset := d \<rparr>" by (rule exI [of _ "dataset c"]) simp
  ultimately show ?thesis using assms(3) by (simp add: lazy_ok_def)
qed

end
