(* ===== verification/EthashAgree.thy ===== *)
theory EthashAgree
  imports EthashPP
begin

text \<open>
  What the Ethash of the ProgPoW libraries computes: its cache of the last epoch found, its agreement with
  \<open>libethhash\<close>, a full context that is hashed with in any order, verification, search and the sizes of
  the epochs.
\<close>

section \<open>The search for an epoch\<close>

lemma length_epoch_seed [simp]: "length (calculate_epoch_seed e) = 32"
proof -
  have "length ((SHA3_256 ^^ k) (replicate 32 0)) = 32" for k by (cases k) simp_all
  then show ?thesis by (simp add: epoch_seed)
qed

lemma next_epoch_seed: "0 \<le> e \<Longrightarrow> calculate_epoch_seed (e + 1) = ethash_keccak256_32 (calculate_epoch_seed e)"
  by (simp add: ethash_keccak_fixed) (simp add: epoch_seed nat_add_distrib)

lemma find_from_spec:
  "find_from part [k..<m] (calculate_epoch_seed (int k)) =
     map_option (\<lambda>i. (i, calculate_epoch_seed (int i))) (find (\<lambda>i. word32_0 (calculate_epoch_seed (int i)) = part) [k..<m])"
proof (induction "m - k" arbitrary: k)
  case (Suc d)
  then have "[k..<m] = k # [Suc k..<m]" "d = m - Suc k" by (auto simp: upt_conv_Cons)
  with Suc.hyps(1) [of "Suc k"] next_epoch_seed [of "int k"] show ?case by (simp add: add.commute)
qed simp

text \<open>The states of the cache that calls of \<open>find_epoch_number\<close> lead to.\<close>

inductive epoch_cache :: "int \<times> bytes \<Rightarrow> bool" where
  cache_start: "epoch_cache (0, replicate 32 0)"
| cache_find: "epoch_cache cached \<Longrightarrow> find_epoch_number seed cached = Some (r, cached') \<Longrightarrow> epoch_cache cached'"

lemma find_epoch_cases:
  assumes "0 \<le> e" and "e < 2 ^ 31"
  shows "find_epoch_number seed (e, calculate_epoch_seed e) = None
      \<and> e = 2 ^ 31 - 1 \<and> word32_0 (calculate_epoch_seed e) \<noteq> word32_0 seed \<and> word32_0 (calculate_epoch_seed (e + 1)) = word32_0 seed
    \<or> find_epoch_number seed (e, calculate_epoch_seed e) = Some (- 1, (e, calculate_epoch_seed e))
      \<and> (\<forall>i < 30000. word32_0 (calculate_epoch_seed (int i)) \<noteq> word32_0 seed)
    \<or> (\<exists>r. find_epoch_number seed (e, calculate_epoch_seed e) = Some (r, (r, calculate_epoch_seed r))
      \<and> 0 \<le> r \<and> r < 2 ^ 31 \<and> word32_0 (calculate_epoch_seed r) = word32_0 seed)"
proof -
  let ?part = "word32_0 seed"
  let ?f = "find (\<lambda>i. word32_0 (calculate_epoch_seed (int i)) = ?part) [0..<30000]"
  have z: "replicate 32 0 = calculate_epoch_seed (int 0)" by (simp add: calculate_epoch_seed_def)
  have def: "find_epoch_number seed (e, calculate_epoch_seed e) =
     (if word32_0 (calculate_epoch_seed e) = ?part then Some (e, (e, calculate_epoch_seed e))
      else if word32_0 (calculate_epoch_seed (e + 1)) = ?part
        then (if e + 1 < 2 ^ 31 then Some (e + 1, (e + 1, calculate_epoch_seed (e + 1))) else None)
      else case ?f of Some i \<Rightarrow> Some (int i, (int i, calculate_epoch_seed (int i))) | None \<Rightarrow> Some (- 1, (e, calculate_epoch_seed e)))"
    unfolding find_epoch_number_def Let_def z find_from_spec next_epoch_seed [OF assms(1)] c_int_def
    using assms(1) by (simp split: option.split)
  show ?thesis
  proof (cases ?f)
    case None
    then have "\<forall>i < 30000. word32_0 (calculate_epoch_seed (int i)) \<noteq> ?part" by (auto simp: find_None_iff)
    with None assms show ?thesis unfolding def by auto
  next
    case (Some i)
    then have "word32_0 (calculate_epoch_seed (int i)) = ?part" "i < 30000" by (auto simp: find_Some_iff)
    with Some assms show ?thesis unfolding def by auto
  qed
qed

lemma epoch_cache_inv:
  "epoch_cache cached \<Longrightarrow> 0 \<le> fst cached \<and> fst cached < 2 ^ 31 \<and> snd cached = calculate_epoch_seed (fst cached)"
proof (induction rule: epoch_cache.induct)
  case cache_start
  show ?case by (simp add: calculate_epoch_seed_def)
next
  case (cache_find cached seed r cached')
  then have "cached = (fst cached, calculate_epoch_seed (fst cached))" by (simp add: prod_eq_iff)
  with cache_find find_epoch_cases [of "fst cached" seed] show ?case by fastforce
qed

section \<open>The kernel of libethhash\<close>

lemma of_int_u64: "0 \<le> x \<Longrightarrow> x < 2 ^ 64 \<Longrightarrow> unat (of_int x :: u64) = nat x"
  by (simp add: nat_eq_iff unat_of_nat take_bit_nat_eq_self unsigned_of_int take_bit_int_eq_self)

lemma mix_in_both:
  assumes "length mix = 32" and "length a = 16" and "length b = 16"
  shows "mix_in 1 b (mix_in 0 a mix) = map (\<lambda>j. fnv1 (mix ! j) ((a @ b) ! j)) [0..<32]"
  using assms by (intro nth_equalityI) (auto simp: mix_in_def fnv1_hash nth_append)

lemma compress_mix_words:
  assumes "length mix = 32"
  shows "take 8 (compress_mix mix)
    = map (\<lambda>k. fnv1 (fnv1 (fnv1 (mix ! (4 * k)) (mix ! (4 * k + 1))) (mix ! (4 * k + 2))) (mix ! (4 * k + 3))) [0..<8]"
  using compress_mix_prefix [OF assms, of 8] by (simp add: compress_mix_def fnv1_hash)

lemma uint_double:
  fixes p :: u32
  assumes "unat p < 2 ^ 31"
  shows "uint (2 * p) = uint p * 2" and "uint (2 * p + 1) = uint p * 2 + 1"
proof -
  have "unat (2 * p) = unat p * 2" "unat (2 * p + 1) = unat p * 2 + 1"
    using assms by (simp_all add: unat_word_ariths mult.commute)
  then show "uint (2 * p) = uint p * 2" "uint (2 * p + 1) = uint p * 2 + 1"
    by (simp_all only: uint_nat of_nat_mult of_nat_add of_nat_numeral of_nat_1)
qed

lemma hash_access_kernel:
  assumes "context_ok c" and "light_ok light" and "cache light = light_cache c"
    and "unat limit = pages" and "0 < pages" and "pages < 2 ^ 31" and "length mix = 32" and "s \<noteq> []"
  shows "hash_access (\<lambda>k. ethash_calculate_dag_item SHA3_512 k light) s limit i mix
    = Some (kernel_step (pp_1024 progpowz_ethash c) (s ! 0) limit i mix)"
proof -
  have nz: "limit \<noteq> 0" using assms(4,5) by auto
  let ?p = "fnv1 (of_nat i XOR s ! 0) (mix ! (i mod 32)) mod limit"
  have p: "fnv_hash (s ! 0 XOR of_nat i) (mix ! (i mod 32)) mod limit = ?p" by (simp add: fnv1_hash xor.commute)
  have "unat ?p < 2 ^ 31" using unat_umod_less [OF nz] assms(4,6) by (metis order_less_trans)
  note u = uint_double [OF this]
  note it = item_512_dag [OF assms(1-3)]
  have "kernel_step (pp_1024 progpowz_ethash c) (s ! 0) limit i mix
      = mix_in 1 (pp_item progpowz_ethash c (uint ?p * 2 + 1)) (mix_in 0 (pp_item progpowz_ethash c (uint ?p * 2)) mix)"
    using item_1024 [OF assms(1)] item_512(2) [OF assms(1)] assms(7)
    by (subst mix_in_both) (simp_all add: kernel_step_def pp_1024_def Let_def)
  moreover have "[0..<2] = [0, Suc 0]" by (simp add: upt_rec)
  ultimately show ?thesis
    using assms(7,8) nz it [of "2 * ?p"] it [of "2 * ?p + 1"] u by (simp add: hash_access_def p)
qed

lemma light_kernel_ethash:
  assumes "context_ok c" and "light_ok light" and "cache light = light_cache c"
    and "unat full_size = 128 * n" and "items_ok c n"
  shows "ethash_hash SHA3_512 SHA3_256 (\<lambda>k. ethash_calculate_dag_item SHA3_512 k light) full_size header nonce ret
    = Some (True, ret\<lparr> mix_hash := snd (pp_result progpowz_ethash c header nonce),
        result := fst (pp_result progpowz_ethash c header nonce) \<rparr>)"
proof -
  have ok: "full_dataset_num_items c = int n" "0 < n" "n < 2 ^ 31" using assms(5) by (simp_all add: items_ok_def)
  let ?s = "hash_seed header nonce" and ?item = "pp_1024 progpowz_ethash c"
  let ?limit = "ucast (full_size div 128) :: u32"
  have l: "unat ?limit = n" using assms(4) ok(3) by (intro num_pages_u32) simp_all
  then have l': "of_nat n = ?limit" using ok(3) by (simp add: word_eq_iff_unsigned [where ?'a = nat] unat_of_nat)
  have "unat (full_size mod 32) = 0" using assms(4) by (simp add: unat_mod_distrib mult_mod_right)
  then have m: "full_size mod 32 = 0" by (simp add: unsigned_eq_0_iff)
  have sne: "?s \<noteq> []" using length_hash_seed [of header nonce] by force
  have s: "words_of_bytes (SHA3_512 (header @ bytes_of_word nonce)) = ?s" by (simp add: hash_seed_def)
  have mix0: "map (\<lambda>w. ?s ! (w mod 16)) [0..<32] = ?s @ ?s"
    by (intro nth_equalityI) (auto simp: nth_append le_mod_geq)
  have "for_each is (hash_access (\<lambda>k. ethash_calculate_dag_item SHA3_512 k light) ?s ?limit) mix
      = Some (fold (kernel_step ?item (?s ! 0) ?limit) is mix)" if "length mix = 32" for "is" mix
    using that
  proof (induction "is" arbitrary: mix)
    case (Cons i "is")
    then show ?case using hash_access_kernel [OF assms(1-3) l ok(2,3) Cons.prems sne] by simp
  qed simp
  then have k: "for_each [0..<64] (hash_access (\<lambda>k. ethash_calculate_dag_item SHA3_512 k light) ?s ?limit) (?s @ ?s)
      = Some (kernel_mix progpowz_ethash ?item ?limit ?s)"
    by (simp add: kernel_mix_def progpowz_ethash_def)
  have "length (kernel_mix progpowz_ethash ?item ?limit ?s) = 32"
    unfolding kernel_mix_def by (rule fold_invariant [where P = "\<lambda>m. length m = 32"]) simp_all
  note cm = compress_mix_words [OF this]
  show ?thesis
    unfolding ethash_hash_def Let_def s mix0 k
    using m by (simp add: cm pp_result_def kernel_hash_def hash_final_def ok l' Let_def)
qed

section \<open>Using a full context\<close>

text \<open>Two contexts with the same cache have the same items.\<close>

lemma same_cache_items:
  assumes "light_cache c = light_cache c'" and "light_cache_num_items c = light_cache_num_items c'"
  shows "calculate_dataset_item_1024 lib c = calculate_dataset_item_1024 lib c'"
    and "calculate_dataset_item_2048 lib c = calculate_dataset_item_2048 lib c'"
proof -
  have "item_state c = item_state c'" "item_update c = item_update c'"
    using assms by (intro ext; simp add: item_state_def item_update_def cong: if_cong)+
  then show "calculate_dataset_item_1024 lib c = calculate_dataset_item_1024 lib c'"
    and "calculate_dataset_item_2048 lib c = calculate_dataset_item_2048 lib c'"
    by (intro ext; simp add: calculate_dataset_item_1024_def calculate_dataset_item_2048_def)+
qed

lemma same_cache_result:
  assumes "light_cache c = light_cache c'" and "light_cache_num_items c = light_cache_num_items c'"
    and "full_dataset_num_items c = full_dataset_num_items c'"
  shows "pp_result lib c = pp_result lib c'"
proof -
  have "pp_1024 lib c = pp_1024 lib c'" by (intro ext) (simp add: pp_1024_def same_cache_items [OF assms(1,2)])
  with assms(3) show ?thesis by (intro ext) (simp add: pp_result_def)
qed

text \<open>The contexts that hashing and searching with a full context lead to.\<close>

inductive used :: "ethash_lib \<Rightarrow> epoch_context \<Rightarrow> epoch_context \<Rightarrow> bool" for lib c0 where
  used_start: "used lib c0 c0"
| used_hash: "used lib c0 c \<Longrightarrow> pp_hash_full lib c header nonce = Some (r, c') \<Longrightarrow> used lib c0 c'"
| used_search: "used lib c0 c \<Longrightarrow> pp_ethash_search lib c header boundary start_nonce iterations = Some (r, c')
    \<Longrightarrow> used lib c0 c'"

lemma fill_keeps:
  "for_each is (fill_l1_item lib) c = Some c' \<Longrightarrow> \<exists>d. c' = c\<lparr> dataset := d \<rparr>"
proof (induction "is" arbitrary: c)
  case Nil
  then show ?case by (auto intro: exI [of _ "dataset c"])
next
  case (Cons i "is")
  then obtain c1 where c1: "fill_l1_item lib i c = Some c1" "for_each is (fill_l1_item lib) c1 = Some c'"
    by (auto simp: bind_eq_Some_conv)
  from c1(1) obtain d where "c1 = c\<lparr> dataset := d \<rparr>"
    by (auto simp: fill_l1_item_def bind_eq_Some_conv split: if_splits)
  with Cons.IH [OF c1(2)] show ?case by auto
qed

lemma create_fields:
  assumes "create_epoch_context_of lib True se e full = Some (Some c)"
  shows "calculate_light_cache_num_items se = Some (light_cache_num_items c)
    \<and> calculate_full_dataset_num_items lib se = Some (full_dataset_num_items c)
    \<and> build_light_cache ethash_keccak512 (replicate (nat (light_cache_num_items c)) (replicate 16 0)) (light_cache_num_items c)
        (calculate_epoch_seed e) = Some (light_cache c)"
  using assms unfolding create_epoch_context_of_def bind_eq_Some_conv Let_def
  by (auto simp: bind_eq_Some_conv dest!: fill_keeps)

lemma create_same:
  assumes "create_epoch_context_of lib True se e full = Some (Some c)" and "create_epoch_context_of lib True se e full' = Some (Some c')"
  shows "light_cache c = light_cache c' \<and> light_cache_num_items c = light_cache_num_items c'
    \<and> full_dataset_num_items c = full_dataset_num_items c'"
  using create_fields [OF assms(1)] create_fields [OF assms(2)] by simp

text \<open>The first nonce that a search over a pure hash returns.\<close>

definition first_below :: "(u64 \<Rightarrow> bytes \<times> bytes) \<Rightarrow> bytes \<Rightarrow> u64 \<Rightarrow> u64 \<Rightarrow> ((bytes \<times> bytes) \<times> u64) option" where
  "first_below hash boundary start_nonce iterations =
     map_option (\<lambda>n. (hash (of_nat n), of_nat n))
       (find (\<lambda>n. be_nat (fst (hash (of_nat n))) \<le> be_nat boundary) (search_nonces start_nonce iterations))"

lemma search_result:
  assumes "P c" and "\<And>c n. P c \<Longrightarrow> \<exists>c'. hash c n = Some (pp_result lib c0 header n, c') \<and> P c'"
    and "length boundary = 32"
  shows "\<exists>c'. search_from hash boundary (search_nonces start_nonce iterations) c
    = Some (first_below (pp_result lib c0 header) boundary start_nonce iterations, c') \<and> P c'"
  using search_from_find [of P c hash "pp_result lib c0 header" boundary "search_nonces start_nonce iterations", OF assms(1,2)]
  by (simp add: first_below_def is_less_or_equal_iff assms(3))

lemma search_light_result:
  assumes "items_ok c n" and "length boundary = 32"
  shows "pp_ethash_search_light lib c header boundary start_nonce iterations
    = Some (first_below (pp_result lib c header) boundary start_nonce iterations, c)"
  using search_result [of "\<lambda>c'. c' = c" c "\<lambda>c. pp_ethash_hash lib c header" lib c header boundary start_nonce iterations]
    ethash_hash_result [OF assms(1)] assms(2)
  by (auto simp: pp_ethash_search_light_def)

lemma search_full_result:
  assumes "items_ok c0 n" and "lazy_ok 32 (pp_1024 lib c0) n c0 c" and "length boundary = 32"
  shows "\<exists>c'. pp_ethash_search lib c header boundary start_nonce iterations
    = Some (first_below (pp_result lib c0 header) boundary start_nonce iterations, c')
    \<and> lazy_ok 32 (pp_1024 lib c0) n c0 c'"
  unfolding pp_ethash_search_def
  by (rule search_result [where P = "lazy_ok 32 (pp_1024 lib c0) n c0", OF assms(2) _ assms(3)])
    (rule hash_full_result [OF assms(1)])

lemma search_keeps:
  assumes "P c" and "\<And>c n. P c \<Longrightarrow> \<exists>r c'. hash c n = Some (r, c') \<and> P c'"
  shows "\<exists>r c'. search_from hash boundary ns c = Some (r, c') \<and> P c'"
  using assms(1)
proof (induction ns arbitrary: c)
  case (Cons n ns)
  obtain r c' where "hash c (of_nat n) = Some (r, c')" "P c'" using assms(2) [OF Cons.prems] by blast
  with Cons.IH [of c'] show ?case by auto
qed simp

lemma used_lazy_ok:
  assumes "items_ok c0 n" and "lazy_ok 32 (pp_1024 lib c0) n c0 c0"
  shows "used lib c0 c \<Longrightarrow> lazy_ok 32 (pp_1024 lib c0) n c0 c"
proof (induction rule: used.induct)
  case (used_hash c header nonce r c')
  with hash_full_result [OF assms(1) used_hash.IH, of header nonce] show ?case by auto
next
  case (used_search c header boundary start_nonce iterations r c')
  let ?P = "lazy_ok 32 (pp_1024 lib c0) n c0" and ?hash = "\<lambda>c. pp_hash_full lib c header"
  have "\<exists>r c'. ?hash c nonce = Some (r, c') \<and> ?P c'" if "?P c" for c nonce
    using hash_full_result [OF assms(1) that] by blast
  from search_keeps [of ?P c ?hash, OF used_search.IH this]
  obtain r'' c'' where "pp_ethash_search lib c header boundary start_nonce iterations = Some (r'', c'')" "?P c''"
    unfolding pp_ethash_search_def by blast
  with used_search.hyps(2) show ?case by simp
qed (fact assms(2))

lemma create_full:
  assumes "epoch_fits lib se"
  obtains c n where "create_epoch_context_of lib True se e True = Some (Some c)" and "items_ok c n"
    and "lazy_ok 32 (pp_1024 lib c) n c c"
proof -
  obtain c where c: "create_epoch_context_of lib True se e True = Some (Some c)"
      "items_ok c (nat (ethash_find_largest_prime (full_dataset_init_size lib div 128 + 65536 * se)))"
      "128 \<le> nat (ethash_find_largest_prime (full_dataset_init_size lib div 128 + 65536 * se))" "is_full c"
      "dataset c = l1_words lib c 64
         @ replicate (32 * nat (ethash_find_largest_prime (full_dataset_init_size lib div 128 + 65536 * se)) - 4096) 0"
    using create_context [OF assms, of e True] by metis
  have "context_ok c" using c(2) by (simp add: items_ok_def)
  from that [OF c(1,2)] fresh_lazy_ok [OF this c(3-5)] show thesis by blast
qed

lemma progpowz_init: "full_dataset_init_size progpowz_ethash div 128 = 8388608"
  by (simp add: progpowz_ethash_def)

lemma dag_table_entry:
  assumes "e < 2048"
  obtains s :: u64 and n where "map_option of_nat (rd dag_sizes e) = Some s" "unat s = 128 * n" "128 * n = dag_sizes ! e"
proof -
  have ok: "dag_size_ok (dag_sizes ! e)" using dag_sizes_ok assms by (simp add: list_all_length)
  then have "unat (of_nat (dag_sizes ! e) :: u64) = dag_sizes ! e" by (simp add: dag_size_ok_def unat_of_nat)
  with ok assms that [of "of_nat (dag_sizes ! e)" "dag_sizes ! e div 128"] show thesis by (auto simp: dag_size_ok_def)
qed

section \<open>Properties\<close>

text \<open>
  A full context, whose items are computed when they are first looked up, hashes and searches as a light context, for
  every epoch \<open>se\<close> that a library can size the data set for.
\<close>

lemma full_agrees_of:
  assumes "epoch_fits lib se"
  shows "\<exists>full light result. create_epoch_context_of lib True se e True = Some (Some full)
    \<and> create_epoch_context_of lib True se e False = Some (Some light)
    \<and> (\<forall>c header nonce. used lib full c
        \<longrightarrow> pp_ethash_hash lib light header nonce = Some (result header nonce, light)
          \<and> (\<exists>c'. pp_hash_full lib c header nonce = Some (result header nonce, c') \<and> used lib full c'))
    \<and> (\<forall>c header boundary start_nonce iterations. used lib full c \<and> length boundary = 32
        \<longrightarrow> pp_ethash_search_light lib light header boundary start_nonce iterations
              = Some (first_below (result header) boundary start_nonce iterations, light)
          \<and> (\<exists>c'. pp_ethash_search lib c header boundary start_nonce iterations
              = Some (first_below (result header) boundary start_nonce iterations, c') \<and> used lib full c'))"
proof -
  obtain full n where full: "create_epoch_context_of lib True se e True = Some (Some full)" "items_ok full n"
      "lazy_ok 32 (pp_1024 lib full) n full full"
    using create_full [OF assms, of e] .
  obtain light m where light: "create_epoch_context_of lib True se e False = Some (Some light)" "items_ok light m"
    using create_context [OF assms, of e False] by metis
  have "pp_result lib light = pp_result lib full"
    using create_same [OF light(1) full(1)] by (intro same_cache_result) simp_all
  note l = ethash_hash_result [OF light(2), of lib, unfolded this] search_light_result [OF light(2), where lib = lib, unfolded this]
  show ?thesis
  proof (rule exI [of _ full], rule exI [of _ light], rule exI [of _ "pp_result lib full"], intro conjI allI impI)
    show "create_epoch_context_of lib True se e True = Some (Some full)" by (rule full(1))
    show "create_epoch_context_of lib True se e False = Some (Some light)" by (rule light(1))
  next
    fix c header nonce
    assume u: "used lib full c"
    show "pp_ethash_hash lib light header nonce = Some (pp_result lib full header nonce, light)" by (rule l(1))
    obtain c' where "pp_hash_full lib c header nonce = Some (pp_result lib full header nonce, c')"
      using hash_full_result [OF full(2) used_lazy_ok [OF full(2,3) u]] by blast
    with used_hash [OF u] show "\<exists>c'. pp_hash_full lib c header nonce = Some (pp_result lib full header nonce, c') \<and> used lib full c'"
      by blast
  next
    fix c header boundary start_nonce iterations
    assume u: "used lib full c \<and> length (boundary :: bytes) = 32"
    let ?r = "first_below (pp_result lib full header) boundary start_nonce iterations"
    show "pp_ethash_search_light lib light header boundary start_nonce iterations = Some (?r, light)"
      using u l(2) by blast
    obtain c' where "pp_ethash_search lib c header boundary start_nonce iterations = Some (?r, c')"
      using search_full_result [OF full(2) used_lazy_ok [OF full(2,3)], of c boundary] u by blast
    with used_search [of lib full c] u
    show "\<exists>c'. pp_ethash_search lib c header boundary start_nonce iterations = Some (?r, c') \<and> used lib full c'" by blast
  qed
qed

text \<open>
  Property C11: \<open>libprogpowz\<close> computes what \<open>libethhash\<close> computes. For every epoch that \<open>libprogpowz\<close> can size, whatever
  the memory held: \<open>ethash_light_new_internal\<close>, given the seed of the epoch and the number of bytes of the light cache
  of the context of \<open>libprogpowz\<close>, returns a client with the same cache, and \<open>ethash_light_compute_internal\<close> with the
  number of bytes of that context's data set gives for every header and nonce the same mix hash and final hash as
  \<open>libprogpowz\<close>. The seed is the one that \<open>ethash_get_seedhash\<close> gives for the blocks of the epoch. (That the tables
  of \<open>libethhash\<close> hold these sizes is not part of the property.)
\<close>

theorem progpowz_is_ethash:
  assumes "malloc_ok a" and "calloc_ok a" and "\<And>csize. malloc a csize \<noteq> None" and "e < 32640"
  shows "\<exists>c light. create_epoch_context progpowz_ethash True (int e) full = Some (Some c)
    \<and> ethash_light_new_internal SHA3_512 a (of_int (64 * light_cache_num_items c)) (calculate_epoch_seed (int e)) = Some (Some light)
    \<and> cache light = light_cache c
    \<and> (\<forall>header nonce u. \<exists>r. pp_ethash_hash progpowz_ethash c header nonce = Some (r, c)
        \<and> ethash_light_compute_internal SHA3_512 SHA3_512 SHA3_256 light (of_int (128 * full_dataset_num_items c)) header nonce u
          = Some (u\<lparr> result := fst r, mix_hash := snd r, success := True \<rparr>))
    \<and> (\<forall>bn. unat bn div 30000 = e \<longrightarrow> ethash_get_seedhash bn = Some (calculate_epoch_seed (int e)))"
proof -
  let ?p = "ethash_find_largest_prime (262144 + 2048 * int e)" and ?q = "ethash_find_largest_prime (8388608 + 65536 * int e)"
  have fits: "epoch_fits progpowz_ethash (int e)" using assms(4) by (simp add: epoch_fits_def progpowz_ethash_def)
  from create_context [OF this, of "int e" full]
  obtain c where c: "create_epoch_context progpowz_ethash True (int e) full = Some (Some c)" "items_ok c (nat ?q)"
      "light_cache c = memo_hash SHA3_512 ((SHA3_256 ^^ e) (replicate 32 0)) (nat ?p)"
    unfolding create_epoch_context_def by (metis nat_int progpowz_init)
  have items: "light_cache_num_items c = ?p" "full_dataset_num_items c = ?q"
    using create_fields [OF c(1) [unfolded create_epoch_context_def]] num_items [OF fits] by (simp_all add: progpowz_init)
  have "2 \<le> 262144 + 2048 * int e" by simp
  from largest_prime_spec [OF this] have "2 \<le> ?p" "?p \<le> 262144 + 2048 * int e" using prime_int_ge2 [of ?p] by simp_all
  then have p: "0 < nat ?p" "nat ?p \<le> 2 ^ 31" "0 \<le> ?p" "?p \<le> 2 ^ 31" using assms(4) by (simp_all add: nat_le_iff)
  define csize :: u64 where "csize = of_int (64 * light_cache_num_items c)"
  have csize: "unat csize = 64 * nat ?p"
    unfolding csize_def items by (subst of_int_u64) (use p in \<open>simp_all add: nat_mult_distrib\<close>)
  obtain nodes where nodes: "malloc a csize = Some nodes" using assms(3) by blast
  obtain light where light: "ethash_light_new_internal SHA3_512 a csize (calculate_epoch_seed (int e)) = Some (Some light)"
      "light_ok light" "cache light = memo_hash SHA3_512 (calculate_epoch_seed (int e)) (nat ?p)"
    using sha3.light_new_internal_eq [OF assms(1,2) nodes csize p(1,2)] by blast
  have same: "cache light = light_cache c" using c(3) light(3) by (simp add: epoch_seed)
  have ok: "context_ok c" "0 < nat ?q" "nat ?q < 2 ^ 31" using c(2) by (simp_all add: items_ok_def)
  then have q: "0 \<le> ?q" "?q < 2 ^ 31" unfolding nat_less_numeral_power_cancel_iff by linarith+
  define fsize :: u64 where "fsize = of_int (128 * full_dataset_num_items c)"
  have fsize: "unat fsize = 128 * nat ?q" unfolding fsize_def items by (subst of_int_u64) (use q in \<open>simp_all add: nat_mult_distrib\<close>)
  have "ethash_light_compute_internal SHA3_512 SHA3_512 SHA3_256 light fsize header nonce u
      = Some (u\<lparr> result := fst (pp_result progpowz_ethash c header nonce),
          mix_hash := snd (pp_result progpowz_ethash c header nonce), success := True \<rparr>)" for header nonce u
    by (simp add: ethash_light_compute_internal_def light_kernel_ethash [OF ok(1) light(2) same fsize c(2)])
  moreover have "ethash_get_seedhash bn = Some (calculate_epoch_seed (int e))" if "unat bn div 30000 = e" for bn
    using that assms(4) by (simp add: seedhash_eq epoch_seed)
  ultimately show ?thesis using light(1) c(1) same ethash_hash_result [OF c(2)] unfolding csize_def fsize_def by metis
qed

theorem progpowz_is_ethash_witness:
  "\<exists>c light r. create_epoch_context progpowz_ethash True 700 False = Some (Some c)
    \<and> ethash_light_new_internal SHA3_512 \<lparr> calloc_ok = True, malloc = \<lambda>n. Some (replicate (unat n div 64) []) \<rparr>
        (of_int (64 * light_cache_num_items c)) (calculate_epoch_seed 700) = Some (Some light)
    \<and> pp_ethash_hash progpowz_ethash c (replicate 32 1) 5 = Some (r, c)
    \<and> map_option result (ethash_light_compute_internal SHA3_512 SHA3_512 SHA3_256 light (of_int (128 * full_dataset_num_items c))
        (replicate 32 1) 5 \<lparr> result = [], mix_hash = [], success = False \<rparr>) = Some (fst r)"
proof -
  let ?a = "\<lparr> calloc_ok = True, malloc = \<lambda>n. Some (replicate (unat n div 64) []) \<rparr>"
  have "malloc_ok ?a" "calloc_ok ?a" "\<And>csize. malloc ?a csize \<noteq> None" "(700 :: nat) < 32640" by (simp_all add: malloc_ok_def)
  from progpowz_is_ethash [OF this, of False] obtain c light
    where c: "create_epoch_context progpowz_ethash True 700 False = Some (Some c)"
      "ethash_light_new_internal SHA3_512 ?a (of_int (64 * light_cache_num_items c)) (calculate_epoch_seed 700) = Some (Some light)"
    and h: "\<And>header nonce u. \<exists>r. pp_ethash_hash progpowz_ethash c header nonce = Some (r, c)
        \<and> ethash_light_compute_internal SHA3_512 SHA3_512 SHA3_256 light (of_int (128 * full_dataset_num_items c)) header nonce u
          = Some (u\<lparr> result := fst r, mix_hash := snd r, success := True \<rparr>)"
    by auto
  from h [of "replicate 32 1" 5 "\<lparr> result = [], mix_hash = [], success = False \<rparr>"] c show ?thesis by fastforce
qed

text \<open>
  What a miner's result has to satisfy. \<open>ethash::verify\<close> is always defined for a mix and a
  boundary of 32 bytes. It accepts exactly the mix that hashing the header and the nonce gives, and only
  when the final hash is at most the boundary as a big-endian number; \<open>verify_final_hash\<close> tests the final
  hash alone, for any mix.
\<close>

theorem verify_accepts_hash:
  assumes "items_ok c n" and "length mix = 32" and "length boundary = 32"
  shows "\<exists>r. pp_ethash_hash lib c header nonce = Some (r, c)
    \<and> pp_ethash_verify lib c header mix nonce boundary = Some (mix = snd r \<and> be_nat (fst r) \<le> be_nat boundary)
    \<and> pp_verify_final_hash header mix nonce boundary = (be_nat (hash_final (hash_seed header nonce) mix) \<le> be_nat boundary)
    \<and> (mix = snd r \<longrightarrow> hash_final (hash_seed header nonce) mix = fst r)"
  using ethash_hash_result [OF assms(1), of lib header nonce] verify_result [OF assms, of lib header nonce] assms(3)
  by (simp add: pp_verify_final_hash_def is_less_or_equal_iff) (simp add: pp_result_def Let_def)

theorem verify_accepts_hash_witness:
  "\<exists>c r. create_epoch_context kawpow_ethash True 3 False = Some (Some c)
    \<and> pp_ethash_hash kawpow_ethash c [] 9 = Some (r, c)
    \<and> pp_ethash_verify kawpow_ethash c [] (snd r) 9 (replicate 32 255) = Some (be_nat (fst r) \<le> be_nat (replicate 32 255))"
proof -
  have "epoch_fits kawpow_ethash 3" by (simp add: epoch_fits_def kawpow_ethash_def)
  from create_context [OF this, of 3 False] obtain c n
    where c: "create_epoch_context kawpow_ethash True 3 False = Some (Some c)" "items_ok c n"
    unfolding create_epoch_context_def by metis
  let ?r = "pp_result kawpow_ethash c [] 9"
  have "pp_ethash_hash kawpow_ethash c [] 9 = Some (?r, c)" by (rule ethash_hash_result [OF c(2)])
  with verify_accepts_hash [OF c(2), of "snd ?r" "replicate 32 255" kawpow_ethash "[]" 9] c(1)
  show ?thesis by (intro exI [of _ c] exI [of _ ?r]) auto
qed

text \<open>
  Property C30: the epochs a library can represent. The number of items of the data set is the largest prime not
  above the linear bound of the epoch, as long as this bound is an \<open>int\<close>: up to epoch 32639, in \<open>libfiropow\<close> 32575;
  for every later epoch the computation overflows. The number of items of the light cache is, up to epoch 32575, the
  largest prime not above its own bound. \<open>libmeowpow\<close>, which sizes the data set of an epoch from 110 on as that of
  four times the epoch, overflows from epoch 8160 on, although \<open>find_epoch_number\<close> returns epochs of up to 29999
  and more.
\<close>

theorem epoch_sizes:
  assumes "0 \<le> e" and "lib \<in> {kawpow_ethash, firopow_ethash, meowpow_ethash, merakipow_ethash, progpowz_ethash}"
  defines "bound \<equiv> full_dataset_init_size lib div 128 + 65536 * e"
  shows "(calculate_full_dataset_num_items lib e = None \<longleftrightarrow> (if lib = firopow_ethash then 32576 else 32640) \<le> e)
    \<and> (\<forall>n. calculate_full_dataset_num_items lib e = Some n \<longrightarrow> prime_int n \<and> n \<le> bound \<and> (\<forall>q. prime_int q \<and> q \<le> bound \<longrightarrow> q \<le> n))
    \<and> (e < 32576 \<longrightarrow> (\<exists>n. calculate_light_cache_num_items e = Some n \<and> prime_int n \<and> n \<le> 262144 + 2048 * e
         \<and> (\<forall>q. prime_int q \<and> q \<le> 262144 + 2048 * e \<longrightarrow> q \<le> n)))
    \<and> (8160 \<le> e \<longrightarrow> meowpow_create_epoch_context ok e full = None)"
proof (intro conjI)
  have i: "full_dataset_init_size lib div 128 = (if lib = firopow_ethash then 12582912 else 8388608)"
    using assms(2) by (auto simp: kawpow_ethash_def firopow_ethash_def meowpow_ethash_def merakipow_ethash_def progpowz_ethash_def)
  have num: "calculate_full_dataset_num_items lib e = (if bound < 2 ^ 31 then Some (ethash_find_largest_prime bound) else None)"
    using assms(1) i by (auto simp: calculate_full_dataset_num_items_def c_int_def bound_def mult.commute)
  show "calculate_full_dataset_num_items lib e = None \<longleftrightarrow> (if lib = firopow_ethash then 32576 else 32640) \<le> e"
    unfolding num bound_def i by auto
  have "2 \<le> bound" using assms(1) i by (auto simp: bound_def)
  from largest_prime_spec [OF this]
  show "\<forall>n. calculate_full_dataset_num_items lib e = Some n \<longrightarrow> prime_int n \<and> n \<le> bound \<and> (\<forall>q. prime_int q \<and> q \<le> bound \<longrightarrow> q \<le> n)"
    unfolding num by simp
  show "e < 32576 \<longrightarrow> (\<exists>n. calculate_light_cache_num_items e = Some n \<and> prime_int n \<and> n \<le> 262144 + 2048 * e
      \<and> (\<forall>q. prime_int q \<and> q \<le> 262144 + 2048 * e \<longrightarrow> q \<le> n))"
    using assms(1) largest_prime_spec [of "262144 + 2048 * e"]
    by (auto simp: calculate_light_cache_num_items_def c_int_def mult.commute)
  show "8160 \<le> e \<longrightarrow> meowpow_create_epoch_context ok e full = None"
    by (auto simp: meowpow_create_epoch_context_def create_epoch_context_of_def calculate_full_dataset_num_items_def
        c_int_def meowpow_ethash_def bind_eq_None_conv)
qed

theorem epoch_sizes_witness: "calculate_full_dataset_num_items firopow_ethash 32576 = None"
  using epoch_sizes [of 32576 firopow_ethash] by simp

text \<open>
  Property C29: the cache of \<open>find_epoch_number\<close>, a thread-local number and seed, always holds an epoch that is an
  \<open>int\<close> and the seed of that epoch. Whatever earlier calls left in it, a call returns a non-negative epoch whose
  seed has the first four bytes of the argument, and then caches it, or it returns -1, and then no epoch below 30000
  has such a seed and the cache is unchanged. There is one exception: when the cache holds the last epoch that an \<open>int\<close>
  can be, and the argument is the seed after it, \<open>e + 1\<close> overflows.
\<close>

theorem find_epoch_number_finds:
  assumes "epoch_cache cached"
  shows "0 \<le> fst cached \<and> fst cached < 2 ^ 31 \<and> snd cached = calculate_epoch_seed (fst cached)
    \<and> (case find_epoch_number seed cached of
         None \<Rightarrow> fst cached = 2 ^ 31 - 1 \<and> word32_0 (calculate_epoch_seed (2 ^ 31)) = word32_0 seed
       | Some (r, cached') \<Rightarrow> epoch_cache cached'
           \<and> (r = - 1 \<and> cached' = cached \<and> (\<forall>i < 30000. word32_0 (calculate_epoch_seed (int i)) \<noteq> word32_0 seed)
              \<or> 0 \<le> r \<and> cached' = (r, calculate_epoch_seed r) \<and> word32_0 (calculate_epoch_seed r) = word32_0 seed))"
proof -
  note inv = epoch_cache_inv [OF assms]
  then have c: "cached = (fst cached, calculate_epoch_seed (fst cached))" by (simp add: prod_eq_iff)
  have step: "epoch_cache cached'" if "find_epoch_number seed cached = Some (r, cached')" for r cached'
    using cache_find [OF assms that] .
  from find_epoch_cases [of "fst cached" seed] inv c
  consider "find_epoch_number seed cached = None" "fst cached = 2 ^ 31 - 1" "word32_0 (calculate_epoch_seed (fst cached + 1)) = word32_0 seed"
    | "find_epoch_number seed cached = Some (- 1, cached)" "\<forall>i < 30000. word32_0 (calculate_epoch_seed (int i)) \<noteq> word32_0 seed"
    | r where "find_epoch_number seed cached = Some (r, (r, calculate_epoch_seed r))" "0 \<le> r" "word32_0 (calculate_epoch_seed r) = word32_0 seed"
    by metis
  then show ?thesis by cases (use inv step in simp_all)
qed

theorem find_epoch_number_finds_witness: "map_option fst (find_epoch_number (replicate 32 0) (0, replicate 32 0)) = Some 0"
proof -
  have f: "find_epoch_number (replicate 32 0) (0, replicate 32 0) = Some (0, (0, replicate 32 0))"
    by (simp add: find_epoch_number_def)
  from find_epoch_number_finds [OF cache_start, of "replicate 32 0"] show ?thesis unfolding f by simp
qed

end
