(* ===== verification/ProgPow.thy ===== *)
theory ProgPow
  imports EthashAgree "HOL-Library.Signed_Division"
begin

text \<open>
  ProgPoW of the libraries \<open>libkawpow\<close>, \<open>libfiropow\<close>, \<open>libmeowpow\<close>, \<open>libmerakipow\<close> and \<open>libprogpowz\<close>:
  \<open>ethash/progpow.cpp\<close>, \<open>progpow.hpp\<close>, \<open>kiss99.hpp\<close> and \<open>bit_manipulation.h\<close>. What differs between the
  libraries is the record \<open>progpow_lib\<close>. As in \<open>EthashPP\<close>, \<open>None\<close> is undefined behaviour, a \<open>hash256\<close> is its
  32 bytes and the host is little endian.
\<close>

section \<open>Bits\<close>

definition rotl32 :: "u32 \<Rightarrow> u32 \<Rightarrow> u32" where
  "rotl32 n c =
     (let mask31 = 31; c = c AND mask31; neg_c = - c
      in push_bit (unat c) n OR drop_bit (unat (neg_c AND mask31)) n)"

definition rotr32 :: "u32 \<Rightarrow> u32 \<Rightarrow> u32" where
  "rotr32 n c =
     (let mask31 = 31; c = c AND mask31; neg_c = - c
      in drop_bit (unat c) n OR push_bit (unat (neg_c AND mask31)) n)"

definition clz32 :: "u32 \<Rightarrow> u32" where
  "clz32 x = (if x = 0 then 32 else of_nat (length (takeWhile (\<lambda>i. \<not> bit x i) (rev [0..<32]))))"

definition popcount32 :: "u32 \<Rightarrow> u32" where
  "popcount32 x = of_nat (length (filter (bit x) [0..<32]))"

definition mul_hi32 :: "u32 \<Rightarrow> u32 \<Rightarrow> u32" where
  "mul_hi32 x y = ucast (drop_bit 32 (ucast x * ucast y :: u64))"

definition fnv_offset_basis :: u32 where
  "fnv_offset_basis = 0x811c9dc5"

definition fnv1a :: "u32 \<Rightarrow> u32 \<Rightarrow> u32" where
  "fnv1a u v = (u XOR v) * fnv_prime"

section \<open>The generator KISS99\<close>

record kiss99 =
  kiss_z :: u32
  kiss_w :: u32
  kiss_jsr :: u32
  kiss_jcong :: u32

definition kiss99_next :: "kiss99 \<Rightarrow> u32 \<times> kiss99" where
  "kiss99_next k =
     (let z = 36969 * (kiss_z k AND 0xffff) + drop_bit 16 (kiss_z k);
          w = 18000 * (kiss_w k AND 0xffff) + drop_bit 16 (kiss_w k);
          jcong = 69069 * kiss_jcong k + 1234567;
          jsr = kiss_jsr k;
          jsr = jsr XOR push_bit 17 jsr;
          jsr = jsr XOR drop_bit 13 jsr;
          jsr = jsr XOR push_bit 5 jsr
      in (((push_bit 16 z + w) XOR jcong) + jsr,
          \<lparr> kiss_z = z, kiss_w = w, kiss_jsr = jsr, kiss_jcong = jcong \<rparr>))"

section \<open>The sequence of registers\<close>

text \<open>The counters are of type \<open>size_t\<close>; they stay below 64 and do not wrap.\<close>

record mix_rng_state =
  rng :: kiss99
  dst_counter :: nat
  dst_seq :: "u32 list"
  src_counter :: nat
  src_seq :: "u32 list"

definition swap_at :: "'a list \<Rightarrow> nat \<Rightarrow> nat \<Rightarrow> 'a list" where
  "swap_at xs i j = xs[i := xs ! j, j := xs ! i]"

text \<open>One step of the Fisher-Yates shuffle of both sequences.\<close>

definition shuffle_step :: "nat \<Rightarrow> mix_rng_state \<Rightarrow> mix_rng_state" where
  "shuffle_step i st =
     (let (r, k) = kiss99_next (rng st);
          dst = swap_at (dst_seq st) (i - 1) (unat (r mod of_nat i));
          (r, k) = kiss99_next k;
          src = swap_at (src_seq st) (i - 1) (unat (r mod of_nat i))
      in st\<lparr> rng := k, dst_seq := dst, src_seq := src \<rparr>)"

definition mix_rng_init :: "nat \<Rightarrow> u32 \<times> u32 \<Rightarrow> mix_rng_state" where
  "mix_rng_init num_regs seed_words =
     (let (seed_lo, seed_hi) = seed_words;
          z = fnv1a fnv_offset_basis seed_lo;
          w = fnv1a z seed_hi;
          jsr = fnv1a w seed_lo;
          jcong = fnv1a jsr seed_hi;
          seq = map of_nat [0..<num_regs];
          st = \<lparr> rng = \<lparr> kiss_z = z, kiss_w = w, kiss_jsr = jsr, kiss_jcong = jcong \<rparr>,
                dst_counter = 0, dst_seq = seq, src_counter = 0, src_seq = seq \<rparr>
      in fold shuffle_step (rev [2..<num_regs + 1]) st)"

definition next_dst :: "nat \<Rightarrow> mix_rng_state \<Rightarrow> u32 \<times> mix_rng_state" where
  "next_dst num_regs st =
     (dst_seq st ! (dst_counter st mod num_regs), st\<lparr> dst_counter := dst_counter st + 1 \<rparr>)"

definition next_src :: "nat \<Rightarrow> mix_rng_state \<Rightarrow> u32 \<times> mix_rng_state" where
  "next_src num_regs st =
     (src_seq st ! (src_counter st mod num_regs), st\<lparr> src_counter := src_counter st + 1 \<rparr>)"

definition next_rng :: "mix_rng_state \<Rightarrow> u32 \<times> mix_rng_state" where
  "next_rng st = (let (r, k) = kiss99_next (rng st) in (r, st\<lparr> rng := k \<rparr>))"

section \<open>Mathematics and merging\<close>

definition random_math :: "u32 \<Rightarrow> u32 \<Rightarrow> u32 \<Rightarrow> u32" where
  "random_math a b selector =
     (let s = selector mod 11 in
      if s = 1 then a * b
      else if s = 2 then mul_hi32 a b
      else if s = 3 then min a b
      else if s = 4 then rotl32 a b
      else if s = 5 then rotr32 a b
      else if s = 6 then a AND b
      else if s = 7 then a OR b
      else if s = 8 then a XOR b
      else if s = 9 then clz32 a + clz32 b
      else if s = 10 then popcount32 a + popcount32 b
      else a + b)"

text \<open>\<open>libprogpowz\<close> numbers the cases differently.\<close>

definition progpowz_random_math :: "u32 \<Rightarrow> u32 \<Rightarrow> u32 \<Rightarrow> u32" where
  "progpowz_random_math a b selector =
     (let s = selector mod 11 in
      if s = 3 then a * b
      else if s = 4 then mul_hi32 a b
      else if s = 5 then min a b
      else if s = 6 then rotl32 a b
      else if s = 7 then rotr32 a b
      else if s = 8 then a AND b
      else if s = 9 then a OR b
      else if s = 10 then a XOR b
      else if s = 0 then clz32 a + clz32 b
      else if s = 1 then popcount32 a + popcount32 b
      else a + b)"

definition random_merge :: "u32 \<Rightarrow> u32 \<Rightarrow> u32 \<Rightarrow> u32" where
  "random_merge a b selector =
     (let x = drop_bit 16 selector mod 31 + 1; s = selector mod 4 in
      if s = 0 then (a * 33) + b
      else if s = 1 then (a XOR b) * 33
      else if s = 2 then rotl32 a x XOR b
      else rotr32 a x XOR b)"

section \<open>The libraries\<close>

text \<open>
  The Ethash of the library and how it creates a context, the constants of \<open>progpow.hpp\<close>, the numbered
  operations, and how the library hashes: the words absorbed from the header and the nonce, whose first two
  seed the mix, and the final hash.
\<close>

record progpow_lib =
  ethash_of :: ethash_lib
  create_of :: "bool \<Rightarrow> int \<Rightarrow> bool \<Rightarrow> epoch_context option option"
  period_length :: int
  num_regs :: nat
  num_cache_accesses :: nat
  num_math_operations :: nat
  num_rounds :: nat
  math_of :: "u32 \<Rightarrow> u32 \<Rightarrow> u32 \<Rightarrow> u32"
  seed_of :: "bytes \<Rightarrow> u64 \<Rightarrow> u32 list"
  final_of :: "bytes \<Rightarrow> u32 list \<Rightarrow> bytes \<Rightarrow> bytes"

text \<open>
  The input constraints of KawPoW and MeowPow, and the two absorptions over them. The array
  \<open>telestaicoin_kawpow\<close> of \<open>libmerakipow\<close> holds the numbers of \<open>ravencoin_kawpow\<close>.
\<close>

definition ravencoin_kawpow :: "u32 list" where
  "ravencoin_kawpow = [0x72, 0x41, 0x56, 0x45, 0x4E, 0x43, 0x4F, 0x49, 0x4E, 0x4B, 0x41, 0x57, 0x50, 0x4F, 0x57]"

definition meowcoin_kawpow :: "u32 list" where
  "meowcoin_kawpow = [0x4D, 0x45, 0x4F, 0x57, 0x43, 0x4F, 0x49, 0x4E, 0x4D, 0x45, 0x4F, 0x57, 0x50, 0x4F, 0x57]"

definition kawpow_seed :: "u32 list \<Rightarrow> bytes \<Rightarrow> u64 \<Rightarrow> u32 list" where
  "kawpow_seed constraints header_hash nonce =
     take 8 (ethash_keccakf800 (words_of_bytes header_hash @ [ucast nonce, ucast (drop_bit 32 nonce)] @ constraints))"

definition kawpow_final :: "u32 list \<Rightarrow> u32 list \<Rightarrow> bytes \<Rightarrow> bytes" where
  "kawpow_final constraints state2 mix =
     bytes_of_words (take 8 (ethash_keccakf800 (state2 @ words_of_bytes mix @ take 9 constraints)))"

definition two_words :: "u32 list \<Rightarrow> u32 \<times> u32" where
  "two_words h = (h ! 0, h ! 1)"

text \<open>\<open>libfiropow\<close> pads with two constants.\<close>

definition firopow_hash_seed :: "bytes \<Rightarrow> u64 \<Rightarrow> u32 list" where
  "firopow_hash_seed header_hash nonce =
     (let state = replicate 25 0;
          state = memcpy_at state 0 (words_of_bytes header_hash);
          state = memcpy_at state 8 (words_of_bytes (bytes_of_word nonce));
          state = state[10 := 0x00000001, 18 := 0x80008081]
      in take 8 (ethash_keccakf800 state))"

definition firopow_hash_final :: "u32 list \<Rightarrow> bytes \<Rightarrow> bytes" where
  "firopow_hash_final seed_hash mix =
     (let state = replicate 25 0;
          state = memcpy_at state 0 seed_hash;
          state = memcpy_at state 8 (words_of_bytes mix);
          state = state[17 := 0x00000001, 24 := 0x80008081]
      in bytes_of_words (take 8 (ethash_keccakf800 state)))"

text \<open>
  \<open>libprogpowz\<close> does not pad. Its seed is a 64-bit number, the byte-swapped first half of the hash's first
  128 bits, and absorbed as the nonce of the final hash.
\<close>

definition keccak_progpow_256 :: "bytes \<Rightarrow> u64 \<Rightarrow> bytes \<Rightarrow> bytes" where
  "keccak_progpow_256 header_hash nonce mix =
     (let state = replicate 25 0;
          state = memcpy_at state 0 (words_of_bytes header_hash);
          state = state[8 := ucast nonce, 9 := ucast (drop_bit 32 nonce)];
          state = memcpy_at state 10 (words_of_bytes mix)
      in bytes_of_words (take 8 (ethash_keccakf800 state)))"

definition keccak_progpow_64 :: "bytes \<Rightarrow> u64 \<Rightarrow> u64" where
  "keccak_progpow_64 header_hash nonce =
     bswap64 (word_of_bytes (take 8 (keccak_progpow_256 header_hash nonce (replicate 32 0))))"

definition lo_hi :: "u64 \<Rightarrow> u32 \<times> u32" where
  "lo_hi seed = (ucast seed, ucast (drop_bit 32 seed))"

text \<open>The seed of \<open>libprogpowz\<close> as its two words.\<close>

definition progpowz_seed :: "bytes \<Rightarrow> u64 \<Rightarrow> u32 list" where
  "progpowz_seed header_hash nonce =
     (let (lo, hi) = lo_hi (keccak_progpow_64 header_hash nonce) in [lo, hi])"

definition progpowz_final :: "bytes \<Rightarrow> u32 list \<Rightarrow> bytes \<Rightarrow> bytes" where
  "progpowz_final header_hash seed mix =
     keccak_progpow_256 header_hash (push_bit 32 (ucast (seed ! 1)) OR ucast (seed ! 0)) mix"

definition kawpow :: progpow_lib where
  "kawpow = \<lparr> ethash_of = kawpow_ethash, create_of = create_epoch_context kawpow_ethash,
     period_length = 3, num_regs = 32, num_cache_accesses = 11,
     num_math_operations = 18, num_rounds = 64, math_of = random_math, seed_of = kawpow_seed ravencoin_kawpow,
     final_of = (\<lambda>_. kawpow_final ravencoin_kawpow) \<rparr>"

definition firopow :: progpow_lib where
  "firopow = \<lparr> ethash_of = firopow_ethash, create_of = create_epoch_context firopow_ethash,
     period_length = 1, num_regs = 32, num_cache_accesses = 11,
     num_math_operations = 18, num_rounds = 64, math_of = random_math, seed_of = firopow_hash_seed,
     final_of = (\<lambda>_. firopow_hash_final) \<rparr>"

definition meowpow :: progpow_lib where
  "meowpow = \<lparr> ethash_of = meowpow_ethash, create_of = meowpow_create_epoch_context,
     period_length = 6, num_regs = 16, num_cache_accesses = 6,
     num_math_operations = 9, num_rounds = 64, math_of = random_math, seed_of = kawpow_seed meowcoin_kawpow,
     final_of = (\<lambda>_. kawpow_final meowcoin_kawpow) \<rparr>"

definition merakipow :: progpow_lib where
  "merakipow = \<lparr> ethash_of = merakipow_ethash, create_of = create_epoch_context merakipow_ethash,
     period_length = 3, num_regs = 32, num_cache_accesses = 12,
     num_math_operations = 5, num_rounds = 32, math_of = random_math, seed_of = kawpow_seed ravencoin_kawpow,
     final_of = (\<lambda>_. kawpow_final ravencoin_kawpow) \<rparr>"

definition progpowz :: progpow_lib where
  "progpowz = \<lparr> ethash_of = progpowz_ethash, create_of = create_epoch_context progpowz_ethash,
     period_length = 50, num_regs = 32, num_cache_accesses = 12,
     num_math_operations = 20, num_rounds = 64, math_of = progpowz_random_math, seed_of = progpowz_seed,
     final_of = progpowz_final \<rparr>"

section \<open>The mix\<close>

text \<open>A mix is 16 lanes of registers. The lanes are changed one after the other.\<close>

type_synonym mix_array = "u32 list list"

definition each_lane :: "(nat \<Rightarrow> u32 list \<Rightarrow> u32 list option) \<Rightarrow> mix_array \<Rightarrow> mix_array option" where
  "each_lane f mix = those (map2 f [0..<16] mix)"

definition merge_into :: "u32 list \<Rightarrow> u32 \<Rightarrow> u32 \<Rightarrow> u32 \<Rightarrow> u32 list option" where
  "merge_into lane_regs dst data sel = do { a \<leftarrow> rd lane_regs (unat dst); wr lane_regs (unat dst) (random_merge a data sel) }"

text \<open>Random access to the cached memory, \<open>l1\<close>.\<close>

definition cache_access :: "nat \<Rightarrow> u32 list \<Rightarrow> mix_array \<times> mix_rng_state \<Rightarrow> (mix_array \<times> mix_rng_state) option" where
  "cache_access regs l1 s =
     (let (mix, state) = s;
          (src, state) = next_src regs state;
          (dst, state) = next_dst regs state;
          (sel, state) = next_rng state
      in do {
        mix \<leftarrow> each_lane (\<lambda>l lane_regs. do {
            w \<leftarrow> rd lane_regs (unat src);
            v \<leftarrow> rd l1 (unat (w mod 4096));
            merge_into lane_regs dst v sel
          }) mix;
        Some (mix, state)
      })"

text \<open>Random mathematics over two different registers.\<close>

definition two_sources :: "nat \<Rightarrow> u32 \<Rightarrow> u32 \<times> u32" where
  "two_sources regs r =
     (let src_rnd = r mod (of_nat regs * (of_nat regs - 1));
          src1 = src_rnd mod of_nat regs;
          src2 = src_rnd div of_nat regs;
          src2 = (if src1 \<le> src2 then src2 + 1 else src2)
      in (src1, src2))"

definition math_operation :: "progpow_lib \<Rightarrow> mix_array \<times> mix_rng_state \<Rightarrow> (mix_array \<times> mix_rng_state) option" where
  "math_operation lib s =
     (let (mix, state) = s;
          (r, state) = next_rng state;
          (src1, src2) = two_sources (num_regs lib) r;
          (sel1, state) = next_rng state;
          (dst, state) = next_dst (num_regs lib) state;
          (sel2, state) = next_rng state
      in do {
        mix \<leftarrow> each_lane (\<lambda>l lane_regs. do {
            a \<leftarrow> rd lane_regs (unat src1);
            b \<leftarrow> rd lane_regs (unat src2);
            merge_into lane_regs dst (math_of lib a b sel1) sel2
          }) mix;
        Some (mix, state)
      })"

definition lane_operation ::
  "progpow_lib \<Rightarrow> u32 list \<Rightarrow> nat \<Rightarrow> mix_array \<times> mix_rng_state \<Rightarrow> (mix_array \<times> mix_rng_state) option" where
  "lane_operation lib l1 i s =
     do {
       s \<leftarrow> (if i < num_cache_accesses lib then cache_access (num_regs lib) l1 s else Some s);
       (if i < num_math_operations lib then math_operation lib s else Some s)
     }"

text \<open>The registers and selectors of the access to the data set: the first register is 0.\<close>

definition dag_target :: "nat \<Rightarrow> nat \<Rightarrow> (u32 \<times> u32) list \<times> mix_rng_state \<Rightarrow> (u32 \<times> u32) list \<times> mix_rng_state" where
  "dag_target regs i s =
     (let (targets, state) = s;
          (dst, state) = (if i = 0 then (0, state) else next_dst regs state);
          (sel, state) = next_rng state
      in (targets @ [(dst, sel)], state))"

definition dag_access :: "u32 list \<Rightarrow> nat \<Rightarrow> (u32 \<times> u32) list \<Rightarrow> nat \<Rightarrow> u32 list \<Rightarrow> u32 list option" where
  "dag_access item r targets l lane_regs =
     (let offset = ((l XOR r) mod 16) * 4 in
      for_each [0..<4] (\<lambda>i lane_regs. do {
          word \<leftarrow> rd item (offset + i);
          merge_into lane_regs (fst (targets ! i)) word (snd (targets ! i))
        }) lane_regs)"

text \<open>The part of a round after the item has been looked up, and the round.\<close>

definition round_with :: "progpow_lib \<Rightarrow> u32 list \<Rightarrow> nat \<Rightarrow> u32 list \<Rightarrow> mix_rng_state \<Rightarrow> mix_array \<Rightarrow> mix_array option" where
  "round_with lib l1 r item state mix =
     do {
       (mix, state) \<leftarrow> for_each [0..<max (num_cache_accesses lib) (num_math_operations lib)] (lane_operation lib l1) (mix, state);
       let targets = fst (fold (dag_target (num_regs lib)) [0..<4] ([], state));
       each_lane (dag_access item r targets) mix
     }"

definition mix_round ::
  "progpow_lib \<Rightarrow> lookup_fn \<Rightarrow> mix_rng_state \<Rightarrow> nat \<Rightarrow> mix_array \<times> epoch_context \<Rightarrow> (mix_array \<times> epoch_context) option" where
  "mix_round lib lookup state r s =
     (let (mix, context) = s; num_items = of_int (full_dataset_num_items context div 2) in
      do {
        lane_regs \<leftarrow> rd mix (r mod 16);
        w \<leftarrow> rd lane_regs 0;
        item_index \<leftarrow> umod w num_items;
        (item, context) \<leftarrow> lookup context item_index;
        mix \<leftarrow> round_with lib (dataset context) r item state mix;
        Some (mix, context)
      })"

primrec kiss99_take :: "nat \<Rightarrow> kiss99 \<Rightarrow> u32 list" where
  "kiss99_take 0 k = []"
| "kiss99_take (Suc n) k = (let (r, k) = kiss99_next k in r # kiss99_take n k)"

definition init_mix :: "nat \<Rightarrow> u32 \<times> u32 \<Rightarrow> mix_array" where
  "init_mix regs seed_words =
     (let z = fnv1a fnv_offset_basis (fst seed_words);
          w = fnv1a z (snd seed_words)
      in map (\<lambda>l. let jsr = fnv1a w (of_nat l); jcong = fnv1a jsr (of_nat l)
                  in kiss99_take regs \<lparr> kiss_z = z, kiss_w = w, kiss_jsr = jsr, kiss_jcong = jcong \<rparr>) [0..<16])"

definition reduce_mix :: "mix_array \<Rightarrow> bytes" where
  "reduce_mix mix =
     (let lane_hash = map (\<lambda>lane_regs. fold (\<lambda>w h. fnv1a h w) lane_regs fnv_offset_basis) mix
      in bytes_of_words (fold (\<lambda>l h. h[l mod 8 := fnv1a (h ! (l mod 8)) (lane_hash ! l)]) [0..<16]
           (replicate 8 fnv_offset_basis)))"

text \<open>\<open>block_number\<close> is an \<open>int\<close>, and its quotient is converted to 64 bits without a sign.\<close>

definition hash_mix ::
  "progpow_lib \<Rightarrow> epoch_context \<Rightarrow> int \<Rightarrow> u32 \<times> u32 \<Rightarrow> lookup_fn \<Rightarrow> (bytes \<times> epoch_context) option" where
  "hash_mix lib context block seed lookup =
     (let mix = init_mix (num_regs lib) seed;
          number = of_int (block sdiv period_length lib) :: u64;
          state = mix_rng_init (num_regs lib) (lo_hi number)
      in do {
        (mix, context) \<leftarrow> for_each [0..<num_rounds lib] (mix_round lib lookup state) (mix, context);
        Some (reduce_mix mix, context)
      })"

section \<open>Hashing\<close>

definition light_lookup_2048 :: "ethash_lib \<Rightarrow> lookup_fn" where
  "light_lookup_2048 lib context index = map_option (\<lambda>item. (item, context)) (calculate_dataset_item_2048 lib context index)"

definition lazy_lookup_2048 :: "ethash_lib \<Rightarrow> lookup_fn" where
  "lazy_lookup_2048 lib = lazy_item 64 (calculate_dataset_item_2048 lib)"

definition progpow_hash ::
  "progpow_lib \<Rightarrow> epoch_context \<Rightarrow> int \<Rightarrow> bytes \<Rightarrow> u64 \<Rightarrow> ((bytes \<times> bytes) \<times> epoch_context) option" where
  "progpow_hash lib context block header_hash nonce =
     do {
       let seed = seed_of lib header_hash nonce;
       (mix, context) \<leftarrow> hash_mix lib context block (two_words seed) (light_lookup_2048 (ethash_of lib));
       Some ((final_of lib header_hash seed mix, mix), context)
     }"

definition progpow_hash_full ::
  "progpow_lib \<Rightarrow> epoch_context \<Rightarrow> int \<Rightarrow> bytes \<Rightarrow> u64 \<Rightarrow> ((bytes \<times> bytes) \<times> epoch_context) option" where
  "progpow_hash_full lib context block header_hash nonce =
     do {
       let seed = seed_of lib header_hash nonce;
       (mix, context) \<leftarrow> hash_mix lib context block (two_words seed) (lazy_lookup_2048 (ethash_of lib));
       Some ((final_of lib header_hash seed mix, mix), context)
     }"

text \<open>\<open>verify\<close>: the final hash of the given mix is tested first, in \<open>libfiropow\<close> that of the computed one.\<close>

definition progpow_verify :: "progpow_lib \<Rightarrow> epoch_context \<Rightarrow> int \<Rightarrow> bytes \<Rightarrow> bytes \<Rightarrow> u64 \<Rightarrow> bytes \<Rightarrow> bool option" where
  "progpow_verify lib context block header_hash mix nonce boundary =
     (let seed = seed_of lib header_hash nonce; final = final_of lib header_hash seed mix in
      if \<not> is_less_or_equal final boundary then Some False
      else do {
        (expected_mix_hash, context) \<leftarrow> hash_mix lib context block (two_words seed) (light_lookup_2048 (ethash_of lib));
        Some (is_equal expected_mix_hash mix)
      })"

definition firopow_verify :: "epoch_context \<Rightarrow> int \<Rightarrow> bytes \<Rightarrow> bytes \<Rightarrow> u64 \<Rightarrow> bytes \<Rightarrow> bool option" where
  "firopow_verify context block header_hash mix nonce boundary =
     do {
       let seed_hash = firopow_hash_seed header_hash nonce;
       (expected_mix_hash, context) \<leftarrow> hash_mix firopow context block (two_words seed_hash)
         (light_lookup_2048 (ethash_of firopow));
       let computed_final_hash = firopow_hash_final seed_hash expected_mix_hash;
       if \<not> is_less_or_equal computed_final_hash boundary then Some False
       else Some (is_equal expected_mix_hash mix)
     }"

text \<open>
  \<open>hashext\<close> tests two boundaries and returns the result and \<open>retcode\<close>: 1 above the boundaries, 2 for
  another mix, 0 otherwise. \<open>libkawpow\<close> and \<open>libmeowpow\<close> hash the given mix, \<open>libfiropow\<close> the computed one.
\<close>

definition above_boundaries :: "bytes \<Rightarrow> bytes \<Rightarrow> bytes \<Rightarrow> bool" where
  "above_boundaries output_hash boundary1 boundary2 =
     (if \<not> is_less_or_equal output_hash boundary1 then
        (if is_equal boundary1 boundary2 then True else \<not> is_less_or_equal output_hash boundary2)
      else False)"

definition kawpow_hashext ::
  "progpow_lib \<Rightarrow> epoch_context \<Rightarrow> int \<Rightarrow> bytes \<Rightarrow> u64 \<Rightarrow> bytes \<Rightarrow> bytes \<Rightarrow> bytes \<Rightarrow> ((bytes \<times> bytes) \<times> int) option" where
  "kawpow_hashext lib context block header_hash nonce mix boundary1 boundary2 =
     (let seed = seed_of lib header_hash nonce; out = final_of lib header_hash seed mix in
      if above_boundaries out boundary1 boundary2 then Some ((out, mix), 1)
      else do {
        (computed_mix_hash, context) \<leftarrow> hash_mix lib context block (two_words seed) (light_lookup_2048 (ethash_of lib));
        if \<not> is_equal computed_mix_hash mix then Some ((out, mix), 2)
        else Some ((out, computed_mix_hash), 0)
      })"

definition firopow_hashext ::
  "epoch_context \<Rightarrow> int \<Rightarrow> bytes \<Rightarrow> u64 \<Rightarrow> bytes \<Rightarrow> bytes \<Rightarrow> bytes \<Rightarrow> ((bytes \<times> bytes) \<times> int) option" where
  "firopow_hashext context block header_hash nonce mix boundary1 boundary2 =
     do {
       let seed_hash = firopow_hash_seed header_hash nonce;
       (computed_mix_hash, context) \<leftarrow> hash_mix firopow context block (two_words seed_hash)
         (light_lookup_2048 (ethash_of firopow));
       let computed_final_hash = firopow_hash_final seed_hash computed_mix_hash;
       if above_boundaries computed_final_hash boundary1 boundary2 then Some ((computed_final_hash, mix), 1)
       else if \<not> is_equal computed_mix_hash mix then Some ((computed_final_hash, mix), 2)
       else Some ((computed_final_hash, computed_mix_hash), 0)
     }"

text \<open>\<open>hash_no_verify\<close> of \<open>libmerakipow\<close>.\<close>

definition hash_no_verify :: "int \<Rightarrow> bytes \<Rightarrow> bytes \<Rightarrow> u64 \<Rightarrow> bytes" where
  "hash_no_verify block header_hash mix nonce =
     kawpow_final ravencoin_kawpow (kawpow_seed ravencoin_kawpow header_hash nonce) mix"

definition progpow_search_light ::
  "progpow_lib \<Rightarrow> epoch_context \<Rightarrow> int \<Rightarrow> bytes \<Rightarrow> bytes \<Rightarrow> u64 \<Rightarrow> u64 \<Rightarrow> (((bytes \<times> bytes) \<times> u64) option \<times> epoch_context) option" where
  "progpow_search_light lib context block header_hash boundary start_nonce iterations =
     search_from (\<lambda>context. progpow_hash lib context block header_hash) boundary
       (search_nonces start_nonce iterations) context"

definition progpow_search ::
  "progpow_lib \<Rightarrow> epoch_context \<Rightarrow> int \<Rightarrow> bytes \<Rightarrow> bytes \<Rightarrow> u64 \<Rightarrow> u64 \<Rightarrow> (((bytes \<times> bytes) \<times> u64) option \<times> epoch_context) option" where
  "progpow_search lib context block header_hash boundary start_nonce iterations =
     search_from (\<lambda>context. progpow_hash_full lib context block header_hash) boundary
       (search_nonces start_nonce iterations) context"

end
