(* ===== verification/ProgPowAgree.thy ===== *)
theory ProgPowAgree
  imports ProgPow "HOL-Library.Multiset"
begin

text \<open>
  What ProgPoW computes: the register sequences are permutations, every round is defined, a full context
  hashes as a light one, what verification, \<open>hashext\<close> and search return, and that merging loses nothing.
\<close>

section \<open>The register sequences are permutations\<close>

lemma mset_swap_at: "i < length xs \<Longrightarrow> j < length xs \<Longrightarrow> mset (swap_at xs i j) = mset xs"
  using mset_swap [of j xs i] by (simp add: swap_at_def)

lemma length_swap_at [simp]: "length (swap_at xs i j) = length xs"
  by (simp add: swap_at_def)

text \<open>The states of the generator: both sequences hold each register once.\<close>

definition state_ok :: "nat \<Rightarrow> mix_rng_state \<Rightarrow> bool" where
  "state_ok regs st \<longleftrightarrow> mset (dst_seq st) = mset (map of_nat [0..<regs]) \<and> mset (src_seq st) = mset (map of_nat [0..<regs])"

lemma state_ok_length: "state_ok regs st \<Longrightarrow> length (dst_seq st) = regs \<and> length (src_seq st) = regs"
  using mset_eq_length [of "dst_seq st" "map of_nat [0..<regs]"] mset_eq_length [of "src_seq st" "map of_nat [0..<regs]"]
  by (simp add: state_ok_def)

lemma unat_rng_mod: "2 \<le> i \<Longrightarrow> i < 2 ^ 32 \<Longrightarrow> unat ((r :: u32) mod of_nat i) < i"
  by (simp add: unat_mod_distrib unat_of_nat)

lemma shuffle_step_ok:
  assumes "state_ok regs st" and "2 \<le> i" and "i \<le> regs" and "regs < 2 ^ 32"
  shows "state_ok regs (shuffle_step i st)"
proof -
  obtain r k where r: "kiss99_next (rng st) = (r, k)" by (cases "kiss99_next (rng st)")
  obtain r' k' where r': "kiss99_next k = (r', k')" by (cases "kiss99_next k")
  have "unat (r mod of_nat i) < regs" "unat (r' mod of_nat i) < regs" "i - 1 < regs"
    using unat_rng_mod [OF assms(2), of r] unat_rng_mod [OF assms(2), of r'] assms(2-4) by linarith+
  with state_ok_length [OF assms(1)] assms(1) show ?thesis
    by (simp add: shuffle_step_def state_ok_def r r' mset_swap_at)
qed

lemma mix_rng_init_ok:
  assumes "regs < 2 ^ 32"
  shows "state_ok regs (mix_rng_init regs s)"
proof -
  have "state_ok regs (fold shuffle_step (rev [2..<regs + 1]) st)" if "state_ok regs st" for st
    by (rule fold_invariant [where P = "state_ok regs"]) (use that assms shuffle_step_ok in auto)
  then show ?thesis by (simp add: mix_rng_init_def state_ok_def case_prod_beta Let_def)
qed

lemma seq_nth:
  assumes "mset seq = mset (map of_nat [0..<regs])" and "0 < regs" and "regs < 2 ^ 32"
  shows "unat ((seq :: u32 list) ! (k mod regs)) < regs"
proof -
  have "length seq = regs" using mset_eq_length [OF assms(1)] by simp
  then have "seq ! (k mod regs) \<in> set seq" using assms(2) by simp
  also have "set seq = set (map of_nat [0..<regs])" by (rule mset_eq_setD [OF assms(1)])
  finally show ?thesis using assms(3) by (auto simp: unat_of_nat)
qed

lemma next_dst_ok:
  assumes "state_ok regs st" and "0 < regs" and "regs < 2 ^ 32" and "next_dst regs st = (d, st')"
  shows "unat d < regs \<and> state_ok regs st'"
  using assms seq_nth [of "dst_seq st" regs "dst_counter st"] by (auto simp: next_dst_def state_ok_def)

lemma next_src_ok:
  assumes "state_ok regs st" and "0 < regs" and "regs < 2 ^ 32" and "next_src regs st = (d, st')"
  shows "unat d < regs \<and> state_ok regs st'"
  using assms seq_nth [of "src_seq st" regs "src_counter st"] by (auto simp: next_src_def state_ok_def)

lemma next_rng_ok: "state_ok regs st \<Longrightarrow> next_rng st = (r, st') \<Longrightarrow> state_ok regs st'"
  by (auto simp: next_rng_def state_ok_def case_prod_beta Let_def)

text \<open>The two sources of an operation.\<close>

lemma two_sources_nat:
  fixes r :: u32
  assumes "2 \<le> regs" and "regs < 2 ^ 16"
  defines "n \<equiv> unat r mod (regs * (regs - 1))"
  shows "unat (fst (two_sources regs r)) = n mod regs"
    and "unat (snd (two_sources regs r)) = (if n mod regs \<le> n div regs then n div regs + 1 else n div regs)"
    and "n div regs < regs - 1"
proof -
  have "regs * (regs - 1) < 2 ^ 16 * 2 ^ 16" using assms(1,2) by (intro mult_strict_mono) auto
  then have prod: "regs * (regs - 1) < 2 ^ 32" by simp
  have "(of_nat regs * (of_nat regs - 1) :: u32) = of_nat (regs * (regs - 1))" using assms(1) by (simp add: of_nat_diff)
  then have p: "unat (of_nat regs * (of_nat regs - 1) :: u32) = regs * (regs - 1)"
    using prod by (simp add: unat_of_nat del: of_nat_mult)
  have u: "unat (of_nat regs :: u32) = regs" using assms(2) by (simp add: unat_of_nat)
  let ?rnd = "r mod (of_nat regs * (of_nat regs - 1))"
  have rnd: "unat ?rnd = n" by (simp add: unat_mod_distrib p n_def)
  have "0 < regs * (regs - 1)" using assms(1) by simp
  then have "n < (regs - 1) * regs" unfolding n_def by (metis mod_less_divisor mult.commute)
  then show lt: "n div regs < regs - 1" by (simp add: less_mult_imp_div_less)
  show "unat (fst (two_sources regs r)) = n mod regs"
    unfolding two_sources_def Let_def fst_conv unat_mod_distrib [of ?rnd] u rnd ..
  have d: "unat (?rnd div of_nat regs) = n div regs" by (simp add: unat_div_distrib u rnd)
  have "unat (q + 1) = n div regs + 1" if "unat q = n div regs" for q :: u32
    using lt assms(2) that by (simp add: unat_word_ariths)
  note d' = this [OF d]
  then show "unat (snd (two_sources regs r)) = (if n mod regs \<le> n div regs then n div regs + 1 else n div regs)"
    unfolding two_sources_def Let_def snd_conv word_le_nat_alt unat_mod_distrib [of ?rnd] u rnd d
    by (simp only: if_distrib [of unat] d d')
qed

lemma two_sources_ok:
  assumes "2 \<le> regs" and "regs < 2 ^ 16" and "two_sources regs r = (s1, s2)"
  shows "unat s1 < regs \<and> unat s2 < regs \<and> s1 \<noteq> s2"
proof -
  note t = two_sources_nat [OF assms(1,2), of r, unfolded assms(3) fst_conv snd_conv]
  let ?n = "unat r mod (regs * (regs - 1))"
  have "unat s1 < regs" using t(1) assms(1) by simp
  moreover have "unat s2 < regs" using t(2,3) assms(1) by (simp split: if_splits)
  moreover have "unat s1 \<noteq> unat s2" using t(1,2) by (auto split: if_splits)
  ultimately show ?thesis by auto
qed

section \<open>Every round is defined\<close>

definition mix_ok :: "nat \<Rightarrow> mix_array \<Rightarrow> bool" where
  "mix_ok regs mix \<longleftrightarrow> length mix = 16 \<and> (\<forall>lane_regs \<in> set mix. length lane_regs = regs)"

lemma those_map: "(\<And>x. x \<in> set xs \<Longrightarrow> f x = Some (g x)) \<Longrightarrow> those (map f xs) = Some (map g xs)"
  by (induction xs) auto

lemma each_lane_total:
  assumes "mix_ok regs mix" and "\<And>l r. l < 16 \<Longrightarrow> length r = regs \<Longrightarrow> \<exists>r'. f l r = Some r' \<and> length r' = regs"
  shows "\<exists>mix'. each_lane f mix = Some mix' \<and> mix_ok regs mix'"
proof -
  have len: "length mix = 16" "\<And>l. l < 16 \<Longrightarrow> length (mix ! l) = regs" using assms(1) by (auto simp: mix_ok_def)
  have m: "map2 f [0..<16] mix = map (\<lambda>l. f l (mix ! l)) [0..<16]"
    using len(1) by (intro nth_equalityI) simp_all
  have "\<And>l. l \<in> set [0..<16] \<Longrightarrow> f l (mix ! l) = Some (the (f l (mix ! l)))"
    using assms(2) len(2) by fastforce
  then have "each_lane f mix = Some (map (\<lambda>l. the (f l (mix ! l))) [0..<16])"
    unfolding each_lane_def m by (rule those_map)
  moreover have "length (the (f l (mix ! l))) = regs" if "l < 16" for l
    using assms(2) [OF that len(2) [OF that]] by auto
  ultimately show ?thesis by (auto simp: mix_ok_def)
qed

lemma merge_into_total:
  "unat dst < length r \<Longrightarrow> \<exists>r'. merge_into r dst data sel = Some r' \<and> length r' = length r"
  by (simp add: merge_into_def)

text \<open>Libraries with at least two registers, few enough for 32-bit arithmetic.\<close>

definition lib_ok :: "progpow_lib \<Rightarrow> bool" where
  "lib_ok lib \<longleftrightarrow> 2 \<le> num_regs lib \<and> num_regs lib < 2 ^ 16"

lemma cache_access_total:
  assumes "mix_ok regs mix" and "state_ok regs st" and "2 \<le> regs" and "regs < 2 ^ 16" and "4096 \<le> length l1"
  shows "\<exists>mix' st'. cache_access regs l1 (mix, st) = Some (mix', st') \<and> mix_ok regs mix' \<and> state_ok regs st'"
proof -
  have r: "0 < regs" "regs < 2 ^ 32" using assms(3,4) by simp_all
  obtain src st1 where s1: "next_src regs st = (src, st1)" by (cases "next_src regs st")
  obtain dst st2 where s2: "next_dst regs st1 = (dst, st2)" by (cases "next_dst regs st1")
  obtain sel st3 where s3: "next_rng st2 = (sel, st3)" by (cases "next_rng st2")
  note ok1 = next_src_ok [OF assms(2) r s1] and ok2 = next_dst_ok [OF conjunct2 r s2, OF next_src_ok [OF assms(2) r s1]]
  have b: "unat (w mod 4096) < length l1" for w :: u32
    using assms(5) by (simp add: unat_mod_distrib order_less_le_trans [of _ 4096])
  let ?f = "\<lambda>l :: nat. \<lambda>lane_regs. do { w \<leftarrow> rd lane_regs (unat src); v \<leftarrow> rd l1 (unat (w mod 4096)); merge_into lane_regs dst v sel }"
  have "\<exists>r'. ?f l lr = Some r' \<and> length r' = regs" if "length lr = regs" for l lr
    using merge_into_total [of dst lr] ok1 ok2 b that by simp
  then obtain mix' where "each_lane ?f mix = Some mix'" "mix_ok regs mix'"
    using each_lane_total [OF assms(1), of ?f] by blast
  moreover have "state_ok regs st3" using next_rng_ok [OF conjunct2 [OF ok2] s3] .
  ultimately show ?thesis by (simp add: cache_access_def s1 s2 s3)
qed

lemma math_operation_total:
  assumes "lib_ok lib" and "mix_ok (num_regs lib) mix" and "state_ok (num_regs lib) st"
  shows "\<exists>mix' st'. math_operation lib (mix, st) = Some (mix', st') \<and> mix_ok (num_regs lib) mix' \<and> state_ok (num_regs lib) st'"
proof -
  let ?regs = "num_regs lib"
  have r: "2 \<le> ?regs" "?regs < 2 ^ 16" "0 < ?regs" "?regs < 2 ^ 32" using assms(1) by (auto simp: lib_ok_def)
  obtain rnd st1 where s1: "next_rng st = (rnd, st1)" by (cases "next_rng st")
  obtain src1 src2 where src: "two_sources ?regs rnd = (src1, src2)" by (cases "two_sources ?regs rnd")
  obtain sel1 st2 where s2: "next_rng st1 = (sel1, st2)" by (cases "next_rng st1")
  obtain dst st3 where s3: "next_dst ?regs st2 = (dst, st3)" by (cases "next_dst ?regs st2")
  obtain sel2 st4 where s4: "next_rng st3 = (sel2, st4)" by (cases "next_rng st3")
  have "state_ok ?regs st2" using next_rng_ok [OF next_rng_ok [OF assms(3) s1] s2] .
  note ok3 = next_dst_ok [OF this r(3,4) s3] and srcs = two_sources_ok [OF r(1,2) src]
  let ?f = "\<lambda>l :: nat. \<lambda>lane_regs. do { a \<leftarrow> rd lane_regs (unat src1); b \<leftarrow> rd lane_regs (unat src2);
    merge_into lane_regs dst (math_of lib a b sel1) sel2 }"
  have "\<exists>r'. ?f l lr = Some r' \<and> length r' = ?regs" if "length lr = ?regs" for l lr
    using merge_into_total [of dst lr] ok3 srcs that by simp
  then obtain mix' where "each_lane ?f mix = Some mix'" "mix_ok ?regs mix'"
    using each_lane_total [OF assms(2), of ?f] by blast
  moreover have "state_ok ?regs st4" using next_rng_ok [OF conjunct2 [OF ok3] s4] .
  ultimately show ?thesis by (simp add: math_operation_def s1 s2 s3 s4 src)
qed

lemma lane_operation_total:
  assumes "lib_ok lib" and "mix_ok (num_regs lib) mix \<and> state_ok (num_regs lib) st" and "4096 \<le> length l1"
  shows "\<exists>mix' st'. lane_operation lib l1 i (mix, st) = Some (mix', st') \<and> mix_ok (num_regs lib) mix' \<and> state_ok (num_regs lib) st'"
proof -
  have r: "2 \<le> num_regs lib" "num_regs lib < 2 ^ 16" using assms(1) by (auto simp: lib_ok_def)
  let ?regs = "num_regs lib"
  have "\<exists>mix1 st1. (if i < num_cache_accesses lib then cache_access ?regs l1 (mix, st) else Some (mix, st)) = Some (mix1, st1)
      \<and> mix_ok ?regs mix1 \<and> state_ok ?regs st1"
    using cache_access_total [OF conjunct1 [OF assms(2)] conjunct2 [OF assms(2)] r assms(3)] assms(2)
    by (cases "i < num_cache_accesses lib") auto
  then obtain mix1 st1
    where "(if i < num_cache_accesses lib then cache_access ?regs l1 (mix, st) else Some (mix, st)) = Some (mix1, st1)"
      and ok: "mix_ok ?regs mix1" "state_ok ?regs st1" by blast
  moreover have "\<exists>mix2 st2. (if i < num_math_operations lib then math_operation lib (mix1, st1) else Some (mix1, st1)) = Some (mix2, st2)
      \<and> mix_ok ?regs mix2 \<and> state_ok ?regs st2"
    using math_operation_total [OF assms(1) ok] ok by (cases "i < num_math_operations lib") auto
  ultimately show ?thesis unfolding lane_operation_def by auto
qed

lemma dag_targets_ok:
  assumes "state_ok regs st" and "0 < regs" and "regs < 2 ^ 32"
  shows "length (fst (fold (dag_target regs) [0..<4] ([], st))) = 4
    \<and> (\<forall>t \<in> set (fst (fold (dag_target regs) [0..<4] ([], st))). unat (fst t) < regs)"
proof -
  let ?P = "\<lambda>n s. length (fst s) = n \<and> state_ok regs (snd s) \<and> (\<forall>t \<in> set (fst s). unat (fst t) < regs)"
  have step: "?P (Suc n) (dag_target regs i s)" if "?P n s" for n i and s :: "(u32 \<times> u32) list \<times> mix_rng_state"
  proof -
    obtain ts st0 where s: "s = (ts, st0)" by (cases s)
    obtain d st1 where d: "(if i = 0 then (0, st0) else next_dst regs st0) = (d, st1)"
      by (cases "if i = 0 then (0, st0) else next_dst regs st0")
    have ok: "unat d < regs" "state_ok regs st1"
      using that s d next_dst_ok [of regs st0 d st1] assms(2,3) by (auto split: if_splits)
    obtain sel st2 where "next_rng st1 = (sel, st2)" by (cases "next_rng st1")
    with next_rng_ok [OF ok(2)] ok(1) that s d show ?thesis by (auto simp: dag_target_def Let_def)
  qed
  have "?P n (fold (dag_target regs) [0..<n] ([], st))" for n
  proof (induction n)
    case (Suc n)
    from step [OF Suc, of n] show ?case by simp
  qed (simp add: assms(1))
  from this [of 4] show ?thesis by simp
qed

lemma dag_access_total:
  assumes "length item = 64" and "length targets = 4" and "\<forall>t \<in> set targets. unat (fst t) < regs" and "length lr = regs"
  shows "\<exists>r'. dag_access item r targets l lr = Some r' \<and> length r' = regs"
proof -
  let ?off = "((l XOR r) mod 16) * 4"
  have off: "?off \<le> 60" by simp
  have "\<exists>s'. (do { word \<leftarrow> rd item (?off + i); merge_into s (fst (targets ! i)) word (snd (targets ! i)) }) = Some s' \<and> length s' = regs"
    if "i \<in> set [0..<4]" "length s = regs" for i s
  proof -
    have "targets ! i \<in> set targets" using that(1) assms(2) by simp
    then have "unat (fst (targets ! i)) < length s" using assms(3) that(2) by auto
    with merge_into_total [OF this] that assms(1) off show ?thesis by simp
  qed
  then show ?thesis
    unfolding dag_access_def Let_def by (intro for_each_total [where P = "\<lambda>s. length s = regs"] assms(4))
qed

lemma round_with_total:
  assumes "lib_ok lib" and "mix_ok (num_regs lib) mix" and "state_ok (num_regs lib) st" and "4096 \<le> length l1" and "length item = 64"
  shows "\<exists>mix'. round_with lib l1 r item st mix = Some mix' \<and> mix_ok (num_regs lib) mix'"
proof -
  let ?regs = "num_regs lib"
  have r: "0 < ?regs" "?regs < 2 ^ 32" using assms(1) by (auto simp: lib_ok_def)
  let ?P = "\<lambda>s. mix_ok ?regs (fst s) \<and> state_ok ?regs (snd s)"
  let ?ops = "[0..<max (num_cache_accesses lib) (num_math_operations lib)]"
  have "\<exists>s'. lane_operation lib l1 i s = Some s' \<and> ?P s'" if "?P s" for i s
    using lane_operation_total [OF assms(1) that assms(4), of i] by (cases s) auto
  then have "\<exists>s'. for_each ?ops (lane_operation lib l1) (mix, st) = Some s' \<and> ?P s'"
    using assms(2,3) by (intro for_each_total) auto
  then obtain mix1 st1 where ops: "for_each ?ops (lane_operation lib l1) (mix, st) = Some (mix1, st1)"
    and ok: "mix_ok ?regs mix1" "state_ok ?regs st1" by auto
  let ?targets = "fst (fold (dag_target ?regs) [0..<4] ([], st1))"
  note t = dag_targets_ok [OF ok(2) r]
  have "\<exists>mix'. each_lane (dag_access item r ?targets) mix1 = Some mix' \<and> mix_ok ?regs mix'"
    by (rule each_lane_total [OF ok(1)]) (rule dag_access_total [OF assms(5) conjunct1 [OF t] conjunct2 [OF t]])
  with ops show ?thesis by (simp add: round_with_def)
qed

text \<open>A round reads the first 4096 words of the memory only.\<close>

lemma round_with_l1:
  assumes "4096 \<le> length l1"
  shows "round_with lib l1 = round_with lib (take 4096 l1)"
proof -
  have b: "unat (w mod 4096) < 4096" for w :: u32 by (simp add: unat_mod_distrib)
  have "rd l1 (unat (w mod 4096)) = rd (take 4096 l1) (unat (w mod 4096))" for w :: u32
    using b [of w] assms by (simp add: rd_def)
  then have "cache_access regs l1 = cache_access regs (take 4096 l1)" for regs
    by (intro ext) (simp only: cache_access_def)
  then have "lane_operation lib l1 = lane_operation lib (take 4096 l1)"
    by (intro ext) (simp only: lane_operation_def)
  then show ?thesis by (intro ext) (simp only: round_with_def)
qed

lemma length_kiss99_take [simp]: "length (kiss99_take n k) = n"
  by (induction n arbitrary: k) (simp_all add: case_prod_beta Let_def)

lemma init_mix_ok: "mix_ok regs (init_mix regs s)"
  by (auto simp: mix_ok_def init_mix_def Let_def)

lemma length_reduce_mix [simp]: "length (reduce_mix mix) = 32"
proof -
  have "length (fold (\<lambda>l h. h[l mod 8 := g l h]) ls xs) = length xs" for g and ls :: "nat list" and xs :: "u32 list"
    by (induction ls arbitrary: xs) simp_all
  then show ?thesis by (simp add: reduce_mix_def Let_def)
qed

section \<open>The mix with any look-up\<close>

text \<open>
  What hashing needs of a look-up: the items, the first 4096 words of the memory, and the number of items.
\<close>

locale l1_lookup = item_lookup +
  fixes l1 :: "u32 list"
  assumes l1_cache: "inv c \<Longrightarrow> take 4096 (dataset c) = l1"
    and length_l1: "inv c \<Longrightarrow> 4096 \<le> length (dataset c)"
    and length_item: "inv c \<Longrightarrow> unat p < limit \<Longrightarrow> length (item p) = 64"
    and num_items: "inv c \<Longrightarrow> full_dataset_num_items c div 2 = int limit"
    and limit_pos: "inv c \<Longrightarrow> 0 < limit"
    and limit_u32: "inv c \<Longrightarrow> limit < 2 ^ 32"

text \<open>A round and the mix hash as functions of the items and the words.\<close>

definition round_value :: "progpow_lib \<Rightarrow> (u32 \<Rightarrow> u32 list) \<Rightarrow> u32 list \<Rightarrow> nat \<Rightarrow> mix_rng_state \<Rightarrow> nat \<Rightarrow> mix_array \<Rightarrow> mix_array" where
  "round_value lib item l1 limit st r mix =
     the (round_with lib l1 r (item (mix ! (r mod 16) ! 0 mod of_nat limit)) st mix)"

definition mix_value :: "progpow_lib \<Rightarrow> (u32 \<Rightarrow> u32 list) \<Rightarrow> u32 list \<Rightarrow> nat \<Rightarrow> int \<Rightarrow> u32 \<times> u32 \<Rightarrow> bytes" where
  "mix_value lib item l1 limit block seed =
     reduce_mix (fold (round_value lib item l1 limit
        (mix_rng_init (num_regs lib) (lo_hi (of_int (block sdiv period_length lib))))) [0..<num_rounds lib]
        (init_mix (num_regs lib) seed))"

context l1_lookup
begin

lemma mix_round_eq:
  assumes "lib_ok lib" and "inv c" and "mix_ok (num_regs lib) mix" and "state_ok (num_regs lib) st"
  shows "\<exists>c'. mix_round lib lookup st r (mix, c) = Some (round_value lib item l1 limit st r mix, c') \<and> inv c'
    \<and> mix_ok (num_regs lib) (round_value lib item l1 limit st r mix)"
proof -
  have len: "length mix = 16" "length (mix ! (r mod 16)) = num_regs lib" using assms(3) by (auto simp: mix_ok_def)
  have u: "unat (of_nat limit :: u32) = limit" using limit_u32 [OF assms(2)] by (simp add: unat_of_nat)
  then have nz: "(of_nat limit :: u32) \<noteq> 0" using limit_pos [OF assms(2)] by auto
  let ?p = "mix ! (r mod 16) ! 0 mod (of_nat limit :: u32)"
  have p: "unat ?p < limit" using unat_umod_less [OF nz] u by simp
  obtain c' where c': "lookup c ?p = Some (item ?p, c')" "inv c'" using lookup_item [OF assms(2) p] by blast
  have "round_with lib (dataset c') = round_with lib l1"
    using round_with_l1 [OF length_l1 [OF c'(2)], of lib] l1_cache [OF c'(2)] by simp
  moreover have "4096 \<le> length l1" using l1_cache [OF c'(2)] length_l1 [OF c'(2)] by auto
  ultimately have rw: "round_with lib (dataset c') r (item ?p) st mix = Some (round_value lib item l1 limit st r mix)
      \<and> mix_ok (num_regs lib) (round_value lib item l1 limit st r mix)"
    using round_with_total [OF assms(1,3,4) _ length_item [OF assms(2) p], of l1 r] by (auto simp: round_value_def)
  have "0 < num_regs lib" using assms(1) by (simp add: lib_ok_def)
  then have "rd mix (r mod 16) = Some (mix ! (r mod 16))" "rd (mix ! (r mod 16)) 0 = Some (mix ! (r mod 16) ! 0)"
    using len by simp_all
  then have "mix_round lib lookup st r (mix, c) = Some (round_value lib item l1 limit st r mix, c')"
    using nz c'(1) rw by (simp add: mix_round_def num_items [OF assms(2)])
  with c'(2) rw show ?thesis by blast
qed

lemma mix_rounds_eq:
  assumes "lib_ok lib" and "inv c" and "mix_ok (num_regs lib) mix" and "state_ok (num_regs lib) st"
  shows "\<exists>c'. for_each rs (mix_round lib lookup st) (mix, c) = Some (fold (round_value lib item l1 limit st) rs mix, c') \<and> inv c'"
  using assms(2,3)
proof (induction rs arbitrary: mix c)
  case (Cons r rs)
  from mix_round_eq [OF assms(1) Cons.prems assms(4), of r]
  obtain c' where "mix_round lib lookup st r (mix, c) = Some (round_value lib item l1 limit st r mix, c')" "inv c'"
    "mix_ok (num_regs lib) (round_value lib item l1 limit st r mix)" by blast
  with Cons.IH show ?case by simp
qed simp

lemma hash_mix_eq:
  assumes "lib_ok lib" and "inv c"
  shows "\<exists>c'. hash_mix lib c block seed lookup = Some (mix_value lib item l1 limit block seed, c') \<and> inv c'"
proof -
  have "num_regs lib < 2 ^ 32" using assms(1) by (simp add: lib_ok_def)
  note st = mix_rng_init_ok [OF this]
  let ?st = "mix_rng_init (num_regs lib) (lo_hi (of_int (block sdiv period_length lib)))"
  obtain c' where "for_each [0..<num_rounds lib] (mix_round lib lookup ?st) (init_mix (num_regs lib) seed, c)
      = Some (fold (round_value lib item l1 limit ?st) [0..<num_rounds lib] (init_mix (num_regs lib) seed), c')" "inv c'"
    using mix_rounds_eq [OF assms init_mix_ok st] by blast
  then show ?thesis by (simp add: hash_mix_def mix_value_def Let_def)
qed

end

section \<open>The two look-ups of ProgPoW\<close>

text \<open>Contexts with an even number of items, 64 of them in the cached memory.\<close>

definition pow_ok :: "epoch_context \<Rightarrow> nat \<Rightarrow> bool" where
  "pow_ok c n \<longleftrightarrow> context_ok c \<and> full_dataset_num_items c div 2 = int n \<and> 64 \<le> n \<and> n < 2 ^ 30"

definition l1_of :: "ethash_lib \<Rightarrow> epoch_context \<Rightarrow> u32 list" where
  "l1_of lib c = l1_words lib c 64"

lemma length_l1_of: "context_ok c \<Longrightarrow> length (l1_of lib c) = 4096"
  using length_l1_words [of c lib 64] by (simp add: l1_of_def)

interpretation light2048: l1_lookup "light_lookup_2048 lib"
  "\<lambda>c'. pow_ok c n \<and> c' = c \<and> take 4096 (dataset c) = l1_of lib c" "pp_2048 lib c" n "l1_of lib c" for lib c n
proof (unfold_locales, goal_cases)
  case (1 c' p)
  then show ?case by (auto simp: light_lookup_2048_def pp_2048(1) pow_ok_def)
next
  case (3 c')
  then show ?case using length_l1_of [of c lib] by (auto simp: pow_ok_def dest!: arg_cong [where f = length])
qed (auto simp: pow_ok_def pp_2048(2))

text \<open>A full context whose memory starts with the cached words.\<close>

definition full2048_ok :: "ethash_lib \<Rightarrow> epoch_context \<Rightarrow> nat \<Rightarrow> epoch_context \<Rightarrow> bool" where
  "full2048_ok lib c n c' \<longleftrightarrow> pow_ok c n \<and> lazy_ok 64 (pp_2048 lib c) n c c' \<and> (\<forall>i < 64. stored 64 c' i = pp_2048 lib c (of_nat i))"

lemma concat_stored: "n * m \<le> length (dataset c) \<Longrightarrow> concat (map (stored n c) [0..<m]) = take (n * m) (dataset c)"
proof (induction m)
  case (Suc m)
  have "take (n * m) (dataset c) @ take n (drop (n * m) (dataset c)) = take (n * m + n) (dataset c)"
    by (simp add: take_add)
  with Suc show ?case by (simp add: stored_def add.commute)
qed simp

lemma full2048_l1:
  assumes "full2048_ok lib c n c'"
  shows "take 4096 (dataset c') = l1_of lib c \<and> 4096 \<le> length (dataset c')"
proof -
  have "64 * n \<le> length (dataset c')" "64 \<le> n" using assms by (auto simp: full2048_ok_def lazy_ok_def pow_ok_def)
  then have len: "64 * 64 \<le> length (dataset c')" by linarith
  have "map (stored 64 c') [0..<64] = map (\<lambda>i. pp_2048 lib c (of_nat i)) [0..<64]"
    using assms by (auto simp: full2048_ok_def)
  with concat_stored [OF len] len show ?thesis by (simp add: l1_of_def l1_words_def)
qed

lemma lazy_2048_ok:
  assumes "full2048_ok lib c n c'" and "unat p < n"
  shows "\<exists>c''. lazy_lookup_2048 lib c' p = Some (pp_2048 lib c p, c'') \<and> full2048_ok lib c n c''"
proof -
  have ok: "pow_ok c n" "context_ok c" "64 \<le> n" "n \<le> 2 ^ 32" and lazy: "lazy_ok 64 (pp_2048 lib c) n c c'"
    and st: "\<And>i. i < 64 \<Longrightarrow> stored 64 c' i = pp_2048 lib c (of_nat i)"
    using assms(1) by (auto simp: full2048_ok_def pow_ok_def)
  have "calculate_dataset_item_2048 lib (c\<lparr> dataset := d \<rparr>) p = Some (pp_2048 lib c p)" for d
    using pp_2048(1) [OF ok(2)] by simp
  from lazy_item_ok [where calculate = "calculate_dataset_item_2048 lib", OF lazy assms(2) ok(4) this pp_2048(2) [OF ok(2)]]
  obtain c'' where c'': "lazy_lookup_2048 lib c' p = Some (pp_2048 lib c p, c'')" "lazy_ok 64 (pp_2048 lib c) n c c''"
    by (auto simp: lazy_lookup_2048_def)
  have "c'' = c' \<or> c'' = c'\<lparr> dataset := memcpy_at (dataset c') (64 * unat p) (pp_2048 lib c p) \<rparr>"
    using c''(1) by (auto simp: lazy_lookup_2048_def lazy_item_def Let_def split: if_splits bind_splits)
  moreover have "64 * n \<le> length (dataset c')" using lazy by (simp add: lazy_ok_def)
  ultimately have "stored 64 c'' i = pp_2048 lib c (of_nat i)" if "i < 64" for i
    using st [OF that] stored_memcpy [of "pp_2048 lib c p" 64 n c' i "unat p"] pp_2048(2) [OF ok(2)] ok(3) assms(2) that
    by auto
  with c'' ok(1) show ?thesis by (auto simp: full2048_ok_def)
qed

interpretation lazy2048: l1_lookup "lazy_lookup_2048 lib" "full2048_ok lib c n" "pp_2048 lib c" n "l1_of lib c" for lib c n
proof (unfold_locales, goal_cases)
  case (1 c' p)
  then show ?case by (rule lazy_2048_ok)
next
  case (2 c')
  then show ?case using full2048_l1 by blast
next
  case (3 c')
  then show ?case using full2048_l1 by blast
next
  case (4 c' p)
  then show ?case by (auto simp: full2048_ok_def pow_ok_def pp_2048(2))
next
  case (5 c')
  then have "full_dataset_num_items c' = full_dataset_num_items c" by (auto simp: full2048_ok_def lazy_ok_def)
  with 5 show ?case by (simp add: full2048_ok_def pow_ok_def)
qed (auto simp: full2048_ok_def pow_ok_def)

section \<open>Hashing with a created context\<close>

definition progpow_result :: "progpow_lib \<Rightarrow> epoch_context \<Rightarrow> int \<Rightarrow> bytes \<Rightarrow> u64 \<Rightarrow> bytes \<times> bytes" where
  "progpow_result lib c block header nonce =
     (let seed = seed_of lib header nonce;
          mix = mix_value lib (pp_2048 (ethash_of lib) c) (l1_of (ethash_of lib) c) (nat (full_dataset_num_items c div 2))
            block (two_words seed)
      in (final_of lib header seed mix, mix))"

text \<open>A light context, and a full one after some use.\<close>

definition light_pow :: "progpow_lib \<Rightarrow> epoch_context \<Rightarrow> bool" where
  "light_pow lib c \<longleftrightarrow> pow_ok c (nat (full_dataset_num_items c div 2)) \<and> take 4096 (dataset c) = l1_of (ethash_of lib) c"

definition full_pow :: "progpow_lib \<Rightarrow> epoch_context \<Rightarrow> epoch_context \<Rightarrow> bool" where
  "full_pow lib c0 c \<longleftrightarrow> full2048_ok (ethash_of lib) c0 (nat (full_dataset_num_items c0 div 2)) c"

lemma light_mix:
  assumes "lib_ok lib" and "light_pow lib c"
  shows "hash_mix lib c block (two_words (seed_of lib header nonce)) (light_lookup_2048 (ethash_of lib))
    = Some (snd (progpow_result lib c block header nonce), c)"
  using light2048.hash_mix_eq [OF assms(1), of c _ c "ethash_of lib" block] assms(2)
  by (fastforce simp: light_pow_def progpow_result_def Let_def)

lemma full_mix:
  assumes "lib_ok lib" and "full_pow lib c0 c"
  shows "\<exists>c'. hash_mix lib c block (two_words (seed_of lib header nonce)) (lazy_lookup_2048 (ethash_of lib))
    = Some (snd (progpow_result lib c0 block header nonce), c') \<and> full_pow lib c0 c'"
  using lazy2048.hash_mix_eq [OF assms(1) assms(2) [unfolded full_pow_def]]
  by (simp add: full_pow_def progpow_result_def Let_def)

lemma progpow_hash_result:
  "lib_ok lib \<Longrightarrow> light_pow lib c \<Longrightarrow> progpow_hash lib c block header nonce = Some (progpow_result lib c block header nonce, c)"
  by (simp add: progpow_hash_def light_mix) (simp add: progpow_result_def Let_def)

lemma progpow_full_result:
  assumes "lib_ok lib" and "full_pow lib c0 c"
  shows "\<exists>c'. progpow_hash_full lib c block header nonce = Some (progpow_result lib c0 block header nonce, c') \<and> full_pow lib c0 c'"
  using full_mix [OF assms, of block header nonce] by (auto simp: progpow_hash_full_def progpow_result_def Let_def)

lemma fresh_full:
  assumes "items_ok c m" and "128 \<le> m" and "is_full c" and "dataset c = l1_words (ethash_of lib) c 64 @ replicate (32 * m - 4096) 0"
  shows "full_pow lib c c"
proof -
  have ok: "context_ok c" "full_dataset_num_items c = int m" "m < 2 ^ 31" using assms(1) by (auto simp: items_ok_def)
  have l: "length (l1_words (ethash_of lib) c 64) = 4096" using length_l1_words [OF ok(1)] by simp
  have first: "stored 64 c i = pp_2048 (ethash_of lib) c (of_nat i)" if "i < 64" for i
    unfolding stored_def assms(4) by (rule l1_words_nth [OF ok(1) that])
  have "word64s (stored 64 c i) ! 0 = 0" if "64 \<le> i" "i < m div 2" for i
  proof -
    have "stored 64 c i = take 64 (replicate (32 * m - 64 * i) 0)" using that l by (simp add: stored_def assms(4))
    also have "\<dots> = replicate 64 0" using that by (simp add: min_def)
    finally have "stored 64 c i = replicate 64 0" .
    moreover have "word64s (replicate 64 0) ! 0 = 0" by code_simp
    ultimately show ?thesis by simp
  qed
  with first have "\<forall>i < m div 2. word64s (stored 64 c i) ! 0 = 0 \<or> stored 64 c i = pp_2048 (ethash_of lib) c (of_nat i)"
    by (meson not_le_imp_less)
  moreover have "64 * (m div 2) \<le> length (dataset c)" using l assms(2,4) by simp
  moreover have "\<exists>d. c = c\<lparr> dataset := d \<rparr>" by (rule exI [of _ "dataset c"]) simp
  moreover have "nat (full_dataset_num_items c div 2) = m div 2" using ok(2) by (simp add: nat_div_distrib)
  moreover have "int m div 2 = int (m div 2)" by (simp add: zdiv_int)
  ultimately show ?thesis
    using first assms(2,3) ok by (auto simp: full_pow_def full2048_ok_def pow_ok_def lazy_ok_def)
qed

lemma fresh_light:
  assumes "items_ok c m" and "128 \<le> m" and "dataset c = l1_words (ethash_of lib) c 64 @ xs"
  shows "light_pow lib c"
proof -
  have ok: "context_ok c" "full_dataset_num_items c = int m" "m < 2 ^ 31" using assms(1) by (auto simp: items_ok_def)
  moreover have "nat (full_dataset_num_items c div 2) = m div 2" using ok(2) by (simp add: nat_div_distrib)
  moreover have "int m div 2 = int (m div 2)" by (simp add: zdiv_int)
  moreover have "64 \<le> m div 2" "m div 2 < 2 ^ 30" using assms(2) ok(3) by simp_all
  ultimately show ?thesis
    using length_l1_words [OF ok(1), of "ethash_of lib" 64] assms(2,3) by (simp add: light_pow_def pow_ok_def l1_of_def)
qed

lemma same_cache_pow:
  assumes "light_cache c = light_cache c'" and "light_cache_num_items c = light_cache_num_items c'"
    and "full_dataset_num_items c = full_dataset_num_items c'"
  shows "progpow_result lib c = progpow_result lib c'"
proof -
  have i: "pp_2048 l c = pp_2048 l c'" for l by (intro ext) (simp add: pp_2048_def same_cache_items [OF assms(1,2)])
  then have "l1_of l c = l1_of l c'" for l by (simp add: l1_of_def l1_words_def)
  with i assms(3) show ?thesis by (intro ext) (simp add: progpow_result_def)
qed

text \<open>The five libraries, and the epochs that all of them can size.\<close>

definition libraries :: "progpow_lib set" where
  "libraries = {kawpow, firopow, meowpow, merakipow, progpowz}"

lemma lib_ok_libraries: "lib \<in> libraries \<Longrightarrow> lib_ok lib"
  by (auto simp: libraries_def lib_ok_def kawpow_def firopow_def meowpow_def merakipow_def progpowz_def)

text \<open>The epochs that a library can size: \<open>libmeowpow\<close> sizes those from 110 on as four times the epoch.\<close>

definition sized_epochs :: "progpow_lib \<Rightarrow> int set" where
  "sized_epochs lib = {e. 0 \<le> e \<and>
     (e < 8160 \<or> lib \<in> {kawpow, merakipow, progpowz} \<and> e < 32640 \<or> lib = firopow \<and> e < 32576)}"

lemma create_of_sized:
  assumes "lib \<in> libraries" and "e \<in> sized_epochs lib"
  obtains se where "create_of lib True e = create_epoch_context_of (ethash_of lib) True se e" and "epoch_fits (ethash_of lib) se"
proof (cases "lib = meowpow \<and> 110 \<le> e")
  case True
  then have e: "e < 8160" using assms(2)
    by (auto simp: sized_epochs_def kawpow_def firopow_def meowpow_def merakipow_def progpowz_def)
  then have "create_of lib True e = create_epoch_context_of (ethash_of lib) True (e * 4) e"
    using True by (intro ext) (simp add: meowpow_def meowpow_create_epoch_context_def c_int_def)
  moreover have "epoch_fits (ethash_of lib) (e * 4)"
    using True e by (simp add: epoch_fits_def meowpow_def meowpow_ethash_def)
  ultimately show thesis by (rule that)
next
  case False
  have "create_of lib True e = create_epoch_context_of (ethash_of lib) True e e"
    using False assms(1) by (intro ext) (auto simp: libraries_def kawpow_def firopow_def meowpow_def merakipow_def
      progpowz_def create_epoch_context_def meowpow_create_epoch_context_def)
  moreover have "epoch_fits (ethash_of lib) e"
    using assms by (auto simp: libraries_def sized_epochs_def kawpow_def firopow_def meowpow_def merakipow_def progpowz_def epoch_fits_def
      kawpow_ethash_def firopow_ethash_def meowpow_ethash_def merakipow_ethash_def progpowz_ethash_def)
  ultimately show thesis by (rule that)
qed

lemma create_of_libraries:
  assumes "lib \<in> libraries" and "0 \<le> e" and "e < 8160"
  obtains se where "create_of lib True e = create_epoch_context_of (ethash_of lib) True se e" and "epoch_fits (ethash_of lib) se"
  by (rule create_of_sized [OF assms(1), of e]) (use assms(2,3) that in \<open>simp_all add: sized_epochs_def\<close>)

lemma create_pow:
  assumes "lib \<in> libraries" and "0 \<le> e" and "e < 8160"
  obtains full light where "create_of lib True e True = Some (Some full)" and "create_of lib True e False = Some (Some light)"
    and "full_pow lib full full" and "light_pow lib light" and "progpow_result lib light = progpow_result lib full"
proof -
  obtain se where se: "create_of lib True e = create_epoch_context_of (ethash_of lib) True se e" "epoch_fits (ethash_of lib) se"
    using create_of_libraries [OF assms] .
  let ?m = "nat (ethash_find_largest_prime (full_dataset_init_size (ethash_of lib) div 128 + 65536 * se))"
  obtain full where full: "create_of lib True e True = Some (Some full)" "items_ok full ?m" "128 \<le> ?m" "is_full full"
      "dataset full = l1_words (ethash_of lib) full 64 @ replicate (32 * ?m - 4096) 0"
    using create_context [OF se(2), of e True] unfolding se(1) by metis
  obtain light where light: "create_of lib True e False = Some (Some light)" "items_ok light ?m"
      "dataset light = l1_words (ethash_of lib) light 64 @ replicate 0 0"
    using create_context [OF se(2), of e False] unfolding se(1) by metis
  note same = create_same [OF light(1) [unfolded se(1)] full(1) [unfolded se(1)]]
  show thesis
    by (rule that [OF full(1) light(1) fresh_full [OF full(2-5)] fresh_light [OF light(2) full(3) light(3)]])
      (rule same_cache_pow; simp add: same)
qed

text \<open>The contexts that ProgPoW hashing and searching with a full context lead to.\<close>

inductive pow_used :: "progpow_lib \<Rightarrow> epoch_context \<Rightarrow> epoch_context \<Rightarrow> bool" for lib c0 where
  pow_start: "pow_used lib c0 c0"
| pow_hash: "pow_used lib c0 c \<Longrightarrow> progpow_hash_full lib c block header nonce = Some (r, c') \<Longrightarrow> pow_used lib c0 c'"
| pow_search: "pow_used lib c0 c \<Longrightarrow> progpow_search lib c block header boundary start_nonce iterations = Some (r, c')
    \<Longrightarrow> pow_used lib c0 c'"

lemma pow_used_full:
  assumes "lib_ok lib" and "full_pow lib c0 c0"
  shows "pow_used lib c0 c \<Longrightarrow> full_pow lib c0 c"
proof (induction rule: pow_used.induct)
  case (pow_hash c block header nonce r c')
  with progpow_full_result [OF assms(1) pow_hash.IH, of block header nonce] show ?case by auto
next
  case (pow_search c block header boundary start_nonce iterations r c')
  let ?hash = "\<lambda>c. progpow_hash_full lib c block header"
  have "\<exists>r c'. ?hash c nonce = Some (r, c') \<and> full_pow lib c0 c'" if "full_pow lib c0 c" for c nonce
    using progpow_full_result [OF assms(1) that] by blast
  from search_keeps [of "full_pow lib c0" c ?hash, OF pow_search.IH this]
  obtain r'' c'' where "progpow_search lib c block header boundary start_nonce iterations = Some (r'', c'')" "full_pow lib c0 c''"
    unfolding progpow_search_def by blast
  with pow_search.hyps(2) show ?case by simp
qed (fact assms(2))

text \<open>A search over a hash that is a function of header and nonce on the contexts it meets.\<close>

lemma search_first_below:
  assumes "P c" and "\<And>c n. P c \<Longrightarrow> \<exists>c'. hash c n = Some (f n, c') \<and> P c'" and "\<And>n. length (fst (f n)) = 32"
    and "length boundary = 32"
  shows "\<exists>c'. search_from hash boundary (search_nonces start_nonce iterations) c
    = Some (first_below f boundary start_nonce iterations, c') \<and> P c'"
  using search_from_find [of P c hash f boundary "search_nonces start_nonce iterations", OF assms(1,2)]
  by (simp add: first_below_def is_less_or_equal_iff assms(3,4))

lemma length_keccakf800 [simp]: "length (ethash_keccakf800 state) = 25"
proof -
  have "length (keccakf800_round rc A) = 25" for rc A by (simp add: keccakf800_round_def Let_def)
  then show ?thesis
    unfolding ethash_keccakf800_def by (simp add: Let_def upt_rec)
qed

lemma length_final_of: "lib \<in> libraries \<Longrightarrow> length (final_of lib header seed mix) = 32"
  by (auto simp: libraries_def kawpow_def firopow_def meowpow_def merakipow_def progpowz_def kawpow_final_def
      firopow_hash_final_def progpowz_final_def keccak_progpow_256_def Let_def)

lemma length_mix_value [simp]: "length (mix_value lib item l1 limit block seed) = 32"
  by (simp add: mix_value_def)

lemma length_progpow_result:
  "lib \<in> libraries \<Longrightarrow> length (fst (progpow_result lib c block header nonce)) = 32"
  "length (snd (progpow_result lib c block header nonce)) = 32"
  by (simp_all add: progpow_result_def Let_def length_final_of)

section \<open>Merging is invertible\<close>

lemma unat_and_31: "unat ((c :: u32) AND 31) = unat c mod 32"
proof -
  have "c AND 31 = take_bit 5 c" by (simp only: take_bit_eq_mask mask_eq_exp_minus_1) simp
  then show ?thesis by (simp only: unsigned_take_bit_eq) (simp add: take_bit_eq_mod)
qed

lemma rotate_amounts:
  fixes c :: u32
  defines "k \<equiv> unat c mod 32"
  shows "unat (c AND 31) = k" and "unat (- (c AND 31) AND 31) = (32 - k) mod 32"
proof -
  show k: "unat (c AND 31) = k" by (simp add: unat_and_31 k_def)
  have "k < 32" by (simp add: k_def)
  have "of_nat k = c AND 31" unfolding k [symmetric] by simp
  then have "- (c AND 31) = of_nat (2 ^ 32 - k)" using \<open>k < 32\<close> by (simp add: of_nat_diff)
  then have "unat (- (c AND 31)) = (2 ^ 32 - k) mod 2 ^ 32" by (simp only: unat_of_nat) simp
  then have "unat (- (c AND 31) AND 31) = (2 ^ 32 - k) mod 2 ^ 32 mod 32" by (simp add: unat_and_31)
  also have "\<dots> = (2 ^ 32 - k) mod 32" by (rule mod_mod_cancel) simp
  also have "\<dots> = (32 - k) mod 32"
  proof -
    have "2 ^ 32 - k = 32 - k + 32 * (2 ^ 27 - 1)" using \<open>k < 32\<close> by simp
    then show ?thesis by (metis mod_mult_self2)
  qed
  finally show "unat (- (c AND 31) AND 31) = (32 - k) mod 32" .
qed

lemma rotl32_word_rotl: "rotl32 n c = word_rotl (unat c mod 32) n"
proof -
  define k where "k = unat c mod 32"
  have k: "k < 32" by (simp add: k_def)
  have "bit (push_bit k n OR drop_bit ((32 - k) mod 32) n) i = bit (word_rotl k n) i" if "i < 32" for i
  proof (cases "k = 0")
    case True
    then show ?thesis using that by (simp add: bit_simps)
  next
    case False
    then have m: "(32 - k) mod 32 = 32 - k" by simp
    have "(i + (32 - k)) mod 32 = (if i < k then i + (32 - k) else i - k)"
      using that k False by (auto simp: mod_if)
    with that k show ?thesis by (auto simp: m bit_simps not_le add.commute [of _ 32] dest: bit_imp_le_length)
  qed
  then have "push_bit k n OR drop_bit ((32 - k) mod 32) n = word_rotl k n" by (intro bit_word_eqI) simp
  then show ?thesis unfolding rotl32_def Let_def rotate_amounts(2) unfolding rotate_amounts(1) k_def .
qed
lemma rotr32_word_rotr: "rotr32 n c = word_rotr (unat c mod 32) n"
proof -
  define k where "k = unat c mod 32"
  have k: "k < 32" by (simp add: k_def)
  have "bit (drop_bit k n OR push_bit ((32 - k) mod 32) n) i = bit (word_rotr k n) i" if "i < 32" for i
  proof (cases "k = 0")
    case True
    then show ?thesis using that by (simp add: bit_simps)
  next
    case False
    then have m: "(32 - k) mod 32 = 32 - k" by simp
    have "(i + k) mod 32 = (if i + k < 32 then i + k else i + k - 32)" using that k by (auto simp: mod_if)
    with that k show ?thesis by (auto simp: m bit_simps add.commute not_le dest: bit_imp_le_length)
  qed
  then have "drop_bit k n OR push_bit ((32 - k) mod 32) n = word_rotr k n" by (intro bit_word_eqI) simp
  then show ?thesis unfolding rotr32_def Let_def rotate_amounts(2) unfolding rotate_amounts(1) k_def .
qed

text \<open>Each case of \<open>random_merge\<close> has an inverse in its first argument.\<close>

definition unmerge :: "u32 \<Rightarrow> u32 \<Rightarrow> u32 \<Rightarrow> u32" where
  "unmerge a b selector =
     (let x = drop_bit 16 selector mod 31 + 1; s = selector mod 4 in
      if s = 0 then (a - b) * 0x3e0f83e1
      else if s = 1 then a * 0x3e0f83e1 XOR b
      else if s = 2 then rotr32 (a XOR b) x
      else rotl32 (a XOR b) x)"

lemma mul_33: "(a :: u32) * 33 * 0x3e0f83e1 = a" "(a :: u32) * 0x3e0f83e1 * 33 = a"
proof -
  have "(33 * 0x3e0f83e1 :: u32) = 1" "(0x3e0f83e1 * 33 :: u32) = 1" by (simp_all add: word_uint_eq_iff)
  then show "a * 33 * 0x3e0f83e1 = a" "a * 0x3e0f83e1 * 33 = a" by (simp_all only: mult.assoc mult_1_right)
qed

lemma unmerge_random_merge:
  "unmerge (random_merge a b selector) b selector = a" "random_merge (unmerge a b selector) b selector = a"
  by (simp_all add: unmerge_def random_merge_def Let_def mul_33 rotl32_word_rotl rotr32_word_rotr xor.assoc)

section \<open>Register sequences\<close>

text \<open>The registers of \<open>k\<close> successive calls of \<open>next_dst\<close>.\<close>

primrec dsts_from :: "nat \<Rightarrow> nat \<Rightarrow> mix_rng_state \<Rightarrow> u32 list" where
  "dsts_from regs 0 st = []"
| "dsts_from regs (Suc k) st = (let (d, st) = next_dst regs st in d # dsts_from regs k st)"

lemma dsts_from_eq: "dsts_from regs k st = map (\<lambda>i. dst_seq st ! ((dst_counter st + i) mod regs)) [0..<k]"
proof (induction k arbitrary: st)
  case (Suc k)
  have "[0..<Suc k] = 0 # map Suc [0..<k]" by (simp add: upt_conv_Cons map_Suc_upt del: upt_Suc)
  then show ?case by (simp add: next_dst_def Suc Let_def del: upt_Suc)
qed simp

lemma rotated_indices:
  assumes "0 < n"
  shows "mset (map (\<lambda>i. (k + i) mod n) [0..<n]) = mset [0..<n]"
proof -
  have eq: "i = j" if "i \<le> j" "j < n" "(k + j) mod n = (k + i) mod n" for i j
  proof -
    have "n dvd (k + j) - (k + i)" using that by (subst mod_eq_dvd_iff_nat [symmetric]) simp_all
    then have "n dvd j - i" by simp
    with that show ?thesis by (metis dvd_imp_le diff_is_0_eq diff_le_self le_antisym le_trans not_le zero_less_diff)
  qed
  have "inj_on (\<lambda>i. (k + i) mod n) {0..<n}"
  proof (rule inj_onI)
    fix i j assume "i \<in> {0..<n}" "j \<in> {0..<n}" "(k + i) mod n = (k + j) mod n"
    then show "i = j" using eq [of i j] eq [of j i] by (cases "i \<le> j") auto
  qed
  then have d: "distinct (map (\<lambda>i. (k + i) mod n) [0..<n])" by (simp add: distinct_map)
  have "(\<lambda>i. (k + i) mod n) ` {0..<n} = {0..<n}"
    using \<open>inj_on _ _\<close> assms by (intro endo_inj_surj) auto
  with d show ?thesis by (intro set_eq_iff_mset_eq_distinct [THEN iffD1]) auto
qed

lemma dsts_from_cycle:
  assumes "state_ok regs st" and "0 < regs"
  shows "mset (dsts_from regs regs st) = mset (map of_nat [0..<regs])"
proof -
  have len: "length (dst_seq st) = regs" using state_ok_length [OF assms(1)] by simp
  have "mset (dsts_from regs regs st)
      = image_mset (\<lambda>i. dst_seq st ! i) (mset (map (\<lambda>i. (dst_counter st + i) mod regs) [0..<regs]))"
    by (simp add: dsts_from_eq image_mset.compositionality comp_def del: mset_upt)
  also have "\<dots> = mset (map (\<lambda>i. dst_seq st ! i) [0..<regs])"
    unfolding rotated_indices [OF assms(2)] by (simp del: mset_upt)
  also have "map (\<lambda>i. dst_seq st ! i) [0..<regs] = dst_seq st" using len by (metis map_nth)
  finally show ?thesis using assms(1) by (simp add: state_ok_def)
qed

text \<open>Which random number gives two registers.\<close>

lemma two_sources_surj:
  assumes "2 \<le> regs" and "regs < 2 ^ 16" and "a < regs" and "b < regs" and "a \<noteq> b"
  shows "two_sources regs (of_nat ((if a < b then b - 1 else b) * regs + a)) = (of_nat a, of_nat b)"
proof -
  let ?q = "if a < b then b - 1 else b"
  have q: "?q < regs - 1" using assms(3-5) by auto
  have "?q * regs + a < (regs - 1) * regs"
  proof -
    have "?q * regs + regs \<le> (regs - 1) * regs" using q mult_le_mono1 [of "Suc ?q" "regs - 1" regs] by simp
    with assms(3) show ?thesis by linarith
  qed
  moreover have "regs * (regs - 1) < 2 ^ 32"
    using mult_strict_mono [of regs "2 ^ 16" "regs - 1" "2 ^ 16"] assms(1,2) by simp
  moreover have "unat (of_nat x :: u32) mod (regs * (regs - 1)) = x" if "x < (regs - 1) * regs" "regs * (regs - 1) < 2 ^ 32" for x
    using that by (simp add: unat_of_nat mult.commute)
  ultimately have n: "unat (of_nat (?q * regs + a) :: u32) mod (regs * (regs - 1)) = ?q * regs + a" by blast
  note t = two_sources_nat [OF assms(1,2), of "of_nat (?q * regs + a)", unfolded n]
  have m: "(?q * regs + a) mod regs = a" "(?q * regs + a) div regs = ?q" using assms(3) by simp_all
  have "unat (fst (two_sources regs (of_nat (?q * regs + a)))) = unat (of_nat a :: u32)"
    using t(1) m(1) assms(2,3) by (simp add: unat_of_nat)
  moreover have "unat (snd (two_sources regs (of_nat (?q * regs + a)))) = unat (of_nat b :: u32)"
    using t(2) assms(2,4,5) unfolding m by (auto simp: unat_of_nat split: if_splits)
  ultimately show ?thesis by (intro prod_eqI) (simp_all add: word_eq_iff_unsigned [where ?'a = nat])
qed

section \<open>Properties\<close>

text \<open>
  Property C4: a full context of the ProgPoW libraries, whose items are computed when they are first looked
  up, hashes and searches with Ethash as a light context. For each of the five libraries, with the contexts that its own
  \<open>create_epoch_context\<close> makes, and each epoch that the library can size (below 8160 in \<open>libmeowpow\<close>, below 32576 in
  \<open>libfiropow\<close> and below 32640 in the others), creating the two contexts succeeds when the memory is there. After any
  sequence of Ethash hashes and searches with the full context, hashing any header and nonce gives the result of the
  light context, and a search returns the first nonce of the range whose final hash is at most the boundary as a
  big-endian number, or nothing when there is none; both are always defined.
\<close>

theorem full_context_agrees:
  assumes "lib \<in> libraries" and "e \<in> sized_epochs lib"
  shows "\<exists>full light result. create_of lib True e True = Some (Some full)
    \<and> create_of lib True e False = Some (Some light)
    \<and> (\<forall>c header nonce. used (ethash_of lib) full c
        \<longrightarrow> pp_ethash_hash (ethash_of lib) light header nonce = Some (result header nonce, light)
          \<and> (\<exists>c'. pp_hash_full (ethash_of lib) c header nonce = Some (result header nonce, c') \<and> used (ethash_of lib) full c'))
    \<and> (\<forall>c header boundary start_nonce iterations. used (ethash_of lib) full c \<and> length boundary = 32
        \<longrightarrow> pp_ethash_search_light (ethash_of lib) light header boundary start_nonce iterations
              = Some (first_below (result header) boundary start_nonce iterations, light)
          \<and> (\<exists>c'. pp_ethash_search (ethash_of lib) c header boundary start_nonce iterations
              = Some (first_below (result header) boundary start_nonce iterations, c') \<and> used (ethash_of lib) full c'))"
proof -
  obtain se where se: "create_of lib True e = create_epoch_context_of (ethash_of lib) True se e" "epoch_fits (ethash_of lib) se"
    using create_of_sized [OF assms] .
  show ?thesis unfolding se(1) by (rule full_agrees_of [OF se(2)])
qed

theorem full_context_agrees_witness:
  "\<exists>full light c r. create_of meowpow True 200 True = Some (Some full)
    \<and> create_of meowpow True 200 False = Some (Some light)
    \<and> pp_hash_full (ethash_of meowpow) full (replicate 32 1) 5 = Some (r, c)
    \<and> pp_ethash_hash (ethash_of meowpow) light (replicate 32 1) 5 = Some (r, light)"
proof -
  have "meowpow \<in> libraries" "200 \<in> sized_epochs meowpow" by (simp_all add: libraries_def sized_epochs_def)
  from full_context_agrees [OF this] show ?thesis by (meson used_start)
qed

text \<open>
  Property C5: ProgPoW over a full context, whose items of the data set are computed when they are first
  looked up and which shares its memory with the cached words, hashes and searches as over a light context.
  For each of the five libraries and each epoch below 8160 the two contexts can be created when there is
  memory. After any sequence of ProgPoW hashes and searches with the full context, for any blocks, hashing
  any header, nonce and block gives the result of the light context, and a search returns the first nonce of
  its range whose final hash is at most the boundary as a big-endian number, or nothing when there is none.
  Nothing is undefined: no access leaves an array and no divisor is zero.
\<close>

theorem progpow_full_agrees:
  assumes "lib \<in> libraries" and "0 \<le> e" and "e < 8160"
  shows "\<exists>full light result. create_of lib True e True = Some (Some full) \<and> create_of lib True e False = Some (Some light)
    \<and> (\<forall>c block header nonce. pow_used lib full c
        \<longrightarrow> progpow_hash lib light block header nonce = Some (result block header nonce, light)
          \<and> (\<exists>c'. progpow_hash_full lib c block header nonce = Some (result block header nonce, c') \<and> pow_used lib full c'))
    \<and> (\<forall>c block header boundary start_nonce iterations. pow_used lib full c \<and> length boundary = 32
        \<longrightarrow> progpow_search_light lib light block header boundary start_nonce iterations
              = Some (first_below (result block header) boundary start_nonce iterations, light)
          \<and> (\<exists>c'. progpow_search lib c block header boundary start_nonce iterations
              = Some (first_below (result block header) boundary start_nonce iterations, c') \<and> pow_used lib full c'))"
proof -
  note ok = lib_ok_libraries [OF assms(1)] and len = length_progpow_result(1) [OF assms(1)]
  obtain full light where create: "create_of lib True e True = Some (Some full)" "create_of lib True e False = Some (Some light)"
    and pow: "full_pow lib full full" "light_pow lib light" "progpow_result lib light = progpow_result lib full"
    using create_pow [OF assms] .
  let ?result = "progpow_result lib full"
  note light = progpow_hash_result [OF ok pow(2), unfolded pow(3)]
  show ?thesis
  proof (rule exI [of _ full], rule exI [of _ light], rule exI [of _ ?result], intro conjI allI impI)
    fix c block header nonce
    assume u: "pow_used lib full c"
    show "progpow_hash lib light block header nonce = Some (?result block header nonce, light)" by (rule light)
    obtain c' where "progpow_hash_full lib c block header nonce = Some (?result block header nonce, c')"
      using progpow_full_result [OF ok pow_used_full [OF ok pow(1) u]] by blast
    with pow_hash [OF u] show "\<exists>c'. progpow_hash_full lib c block header nonce = Some (?result block header nonce, c') \<and> pow_used lib full c'"
      by blast
  next
    fix c block header boundary start_nonce iterations
    assume u: "pow_used lib full c \<and> length (boundary :: bytes) = 32"
    let ?r = "first_below (?result block header) boundary start_nonce iterations"
    show "progpow_search_light lib light block header boundary start_nonce iterations = Some (?r, light)"
      using search_first_below [of "\<lambda>c. c = light" light "\<lambda>c. progpow_hash lib c block header" "?result block header" boundary]
        light len u by (simp add: progpow_search_light_def)
    have "\<exists>c'. progpow_hash_full lib c block header n = Some (?result block header n, c') \<and> full_pow lib full c'"
      if "full_pow lib full c" for c n by (rule progpow_full_result [OF ok that])
    from search_first_below [of "full_pow lib full" c "\<lambda>c. progpow_hash_full lib c block header", OF pow_used_full [OF ok pow(1)] this len]
    obtain c' where "progpow_search lib c block header boundary start_nonce iterations = Some (?r, c')"
      using u unfolding progpow_search_def by blast
    with pow_search [of lib full c] u
    show "\<exists>c'. progpow_search lib c block header boundary start_nonce iterations = Some (?r, c') \<and> pow_used lib full c'" by blast
  qed (rule create)+
qed

theorem progpow_full_agrees_witness:
  "\<exists>full light c r. create_of meowpow True 200 True = Some (Some full) \<and> create_of meowpow True 200 False = Some (Some light)
    \<and> progpow_hash_full meowpow full 1600000 (replicate 32 1) 5 = Some (r, c)
    \<and> progpow_hash meowpow light 1600000 (replicate 32 1) 5 = Some (r, light)"
proof -
  have "meowpow \<in> libraries" "(0 :: int) \<le> 200" "(200 :: int) < 8160" by (simp_all add: libraries_def)
  from progpow_full_agrees [OF this] obtain full light result
    where create: "create_of meowpow True 200 True = Some (Some full)" "create_of meowpow True 200 False = Some (Some light)"
      and agree: "\<forall>c block header nonce. pow_used meowpow full c
        \<longrightarrow> progpow_hash meowpow light block header nonce = Some (result block header nonce, light)
          \<and> (\<exists>c'. progpow_hash_full meowpow c block header nonce = Some (result block header nonce, c') \<and> pow_used meowpow full c')"
    by (elim exE conjE) (rule that)
  from agree [rule_format, OF pow_start, of 1600000 "replicate 32 1" 5] create show ?thesis by blast
qed

text \<open>
  Property C6: what a miner's ProgPoW result has to satisfy. For a light context of any epoch below 8160 and
  a mix and a boundary of 32 bytes, \<open>verify\<close> is defined and accepts exactly the mix that hashing the header
  and the nonce gives, and only when the final hash is at most the boundary. \<open>libfiropow\<close>, whose code
  computes the mix first, accepts the same results. \<open>hash_no_verify\<close> of \<open>libmerakipow\<close> returns the final
  hash when the mix is right.
\<close>

theorem progpow_verify_accepts:
  assumes "lib \<in> libraries" and "0 \<le> e" and "e < 8160" and "length mix = 32" and "length boundary = 32"
  shows "\<exists>c r. create_of lib True e False = Some (Some c) \<and> progpow_hash lib c block header nonce = Some (r, c)
    \<and> progpow_verify lib c block header mix nonce boundary = Some (mix = snd r \<and> be_nat (fst r) \<le> be_nat boundary)
    \<and> (lib = firopow \<longrightarrow> firopow_verify c block header mix nonce boundary = Some (mix = snd r \<and> be_nat (fst r) \<le> be_nat boundary))
    \<and> (lib = merakipow \<and> mix = snd r \<longrightarrow> hash_no_verify block header mix nonce = fst r)"
proof -
  note ok = lib_ok_libraries [OF assms(1)]
  obtain c where c: "create_of lib True e False = Some (Some c)" "light_pow lib c" using create_pow [OF assms(1-3)] .
  let ?r = "progpow_result lib c block header nonce"
  have fin: "final_of lib header (seed_of lib header nonce) (snd ?r) = fst ?r" by (simp add: progpow_result_def Let_def)
  note m = light_mix [OF ok c(2), of block header nonce] and len = length_progpow_result(1) [OF assms(1)] length_progpow_result(2)
  have le: "is_less_or_equal (final_of lib header seed x) boundary \<longleftrightarrow> be_nat (final_of lib header seed x) \<le> be_nat boundary" for seed x
    using assms(5) length_final_of [OF assms(1)] by (simp add: is_less_or_equal_iff)
  have v: "progpow_verify lib c block header mix nonce boundary = Some (mix = snd ?r \<and> be_nat (fst ?r) \<le> be_nat boundary)"
    using assms(4) fin by (auto simp: progpow_verify_def m le is_equal_def len Let_def)
  have f: "firopow_verify c block header mix nonce boundary = Some (mix = snd ?r \<and> be_nat (fst ?r) \<le> be_nat boundary)" if "lib = firopow"
  proof -
    have seed: "seed_of lib = firopow_hash_seed" and final: "final_of lib = (\<lambda>_. firopow_hash_final)"
      using that by (simp_all add: firopow_def)
    show ?thesis
      using assms(4) fin le [of "firopow_hash_seed header nonce" "snd ?r"] m unfolding seed final
      by (auto simp: firopow_verify_def that [symmetric] is_equal_def len Let_def)
  qed
  have n: "hash_no_verify block header (snd ?r) nonce = fst ?r" if "lib = merakipow"
    using fin that by (simp add: hash_no_verify_def merakipow_def)
  show ?thesis
    by (rule exI [of _ c], rule exI [of _ ?r]) (use c(1) progpow_hash_result [OF ok c(2)] v f n in auto)
qed

theorem progpow_verify_accepts_witness:
  "\<exists>c r. create_of firopow True 7 False = Some (Some c) \<and> progpow_hash firopow c 9100 [] 3 = Some (r, c)
    \<and> firopow_verify c 9100 [] (replicate 32 0) 3 (replicate 32 255)
      = Some (replicate 32 0 = snd r \<and> be_nat (fst r) \<le> be_nat (replicate 32 255))"
proof -
  have "firopow \<in> libraries" by (simp add: libraries_def)
  from progpow_verify_accepts [OF this, of 7 "replicate 32 0" "replicate 32 255" 9100 "[]" 3] show ?thesis by auto
qed

text \<open>
  Property C7: the code that \<open>hashext\<close> reports. It always returns. In \<open>libkawpow\<close> and \<open>libmeowpow\<close> it is 1
  when the final hash of the given mix is above both boundaries, otherwise 2 when the mix is not that of
  hashing, and 0 otherwise, and then the result is that of hashing. In \<open>libfiropow\<close> the final hash that is
  tested and returned is that of the computed mix whatever mix is given.
\<close>

theorem hashext_codes:
  assumes "lib \<in> {kawpow, meowpow, firopow}" and "0 \<le> e" and "e < 8160"
    and "length mix = 32" and "length boundary1 = 32" and "length boundary2 = 32"
  shows "\<exists>c r. create_of lib True e False = Some (Some c) \<and> progpow_hash lib c block header nonce = Some (r, c)
    \<and> (lib \<noteq> firopow \<longrightarrow> kawpow_hashext lib c block header nonce mix boundary1 boundary2
         = (let out = final_of lib header (seed_of lib header nonce) mix in
            Some ((out, mix), if max (be_nat boundary1) (be_nat boundary2) < be_nat out then 1 else if mix = snd r then 0 else 2))
       \<and> (mix = snd r \<longrightarrow> final_of lib header (seed_of lib header nonce) mix = fst r))
    \<and> (lib = firopow \<longrightarrow> firopow_hashext c block header nonce mix boundary1 boundary2
         = Some ((fst r, mix), if max (be_nat boundary1) (be_nat boundary2) < be_nat (fst r) then 1 else if mix = snd r then 0 else 2))"
proof -
  have lib: "lib \<in> libraries" using assms(1) by (auto simp: libraries_def)
  note ok = lib_ok_libraries [OF lib]
  obtain c where c: "create_of lib True e False = Some (Some c)" "light_pow lib c" using create_pow [OF lib assms(2,3)] .
  let ?r = "progpow_result lib c block header nonce"
  have fin: "final_of lib header (seed_of lib header nonce) (snd ?r) = fst ?r" by (simp add: progpow_result_def Let_def)
  note m = light_mix [OF ok c(2), of block header nonce] and len = length_progpow_result(1) [OF lib] length_progpow_result(2)
  have above: "above_boundaries x boundary1 boundary2 \<longleftrightarrow> max (be_nat boundary1) (be_nat boundary2) < be_nat x" if "length x = 32" for x
    using that assms(5,6) by (auto simp: above_boundaries_def is_less_or_equal_iff is_equal_def)
  have k: "kawpow_hashext lib c block header nonce mix boundary1 boundary2
      = (let out = final_of lib header (seed_of lib header nonce) mix in
         Some ((out, mix), if max (be_nat boundary1) (be_nat boundary2) < be_nat out then 1 else if mix = snd ?r then 0 else 2))"
    using assms(4) by (auto simp: kawpow_hashext_def m above length_final_of [OF lib] is_equal_def len Let_def)
  have f: "firopow_hashext c block header nonce mix boundary1 boundary2
      = Some ((fst ?r, mix), if max (be_nat boundary1) (be_nat boundary2) < be_nat (fst ?r) then 1 else if mix = snd ?r then 0 else 2)"
    if "lib = firopow"
  proof -
    have seed: "seed_of lib = firopow_hash_seed" and final: "final_of lib = (\<lambda>_. firopow_hash_final)"
      using that by (simp_all add: firopow_def)
    show ?thesis
      using assms(4) fin m unfolding seed final
      by (auto simp: firopow_hashext_def that [symmetric] above is_equal_def len Let_def)
  qed
  show ?thesis
    by (rule exI [of _ c], rule exI [of _ ?r]) (use c(1) progpow_hash_result [OF ok c(2)] k f fin in auto)
qed

theorem hashext_codes_witness:
  "\<exists>c r. create_of firopow True 0 False = Some (Some c) \<and> progpow_hash firopow c 1 [] 3 = Some (r, c)
    \<and> firopow_hashext c 1 [] 3 (replicate 32 9) (replicate 32 255) (replicate 32 1)
      = Some ((fst r, replicate 32 9), if max (be_nat (replicate 32 255)) (be_nat (replicate 32 1)) < be_nat (fst r) then 1
          else if replicate 32 9 = snd r then 0 else 2)"
  using hashext_codes [of firopow 0 "replicate 32 9" "replicate 32 255" "replicate 32 1" 1 "[]" 3] by auto

text \<open>
  Property C10: the random program of a period is well formed. The shuffled sequences of destinations and
  sources are permutations of the registers for every seed, so any \<open>num_regs\<close> successive destinations are
  all the registers. Every random number selects two different registers as the operands of an operation,
  and every ordered pair of different registers is selected by some number.
\<close>

theorem register_sequences:
  assumes "2 \<le> regs" and "regs < 2 ^ 16"
  shows "mset (dst_seq (mix_rng_init regs s)) = mset (map of_nat [0..<regs])
    \<and> mset (src_seq (mix_rng_init regs s)) = mset (map of_nat [0..<regs])
    \<and> mset (dsts_from regs regs ((mix_rng_init regs s)\<lparr> dst_counter := k, rng := g \<rparr>)) = mset (map of_nat [0..<regs])
    \<and> (let (a, b) = two_sources regs r in unat a < regs \<and> unat b < regs \<and> a \<noteq> b)
    \<and> (x < regs \<and> y < regs \<and> x \<noteq> y \<longrightarrow> (\<exists>r. two_sources regs r = (of_nat x, of_nat y)))"
proof -
  have st: "state_ok regs (mix_rng_init regs s)" using assms(2) by (intro mix_rng_init_ok) simp
  then have "state_ok regs ((mix_rng_init regs s)\<lparr> dst_counter := k, rng := g \<rparr>)" by (simp add: state_ok_def)
  from dsts_from_cycle [OF this] st two_sources_ok [OF assms, of r] two_sources_surj [OF assms, of x y] assms(1)
  show ?thesis by (auto simp: state_ok_def split: prod.split)
qed

theorem register_sequences_witness:
  "mset (dst_seq (mix_rng_init 32 (7, 0))) = mset (map of_nat [0..<32])"
  using register_sequences [of 32 "(7, 0)"] by auto

text \<open>
  Merging keeps the entropy of its first argument, as the comment asks: whatever is merged, and
  with whatever selector, \<open>random_merge\<close> is a bijection in the register's value. The numbering of the
  operations in \<open>libprogpowz\<close> is the numbering of the others moved on by two.
\<close>

theorem merge_is_bijective:
  "bij (\<lambda>a. random_merge a b selector)
   \<and> (unat selector' mod 11 = (unat selector + 2) mod 11 \<longrightarrow> progpowz_random_math a b selector' = random_math a b selector)"
proof (intro conjI impI)
  show "bij (\<lambda>a. random_merge a b selector)"
    by (rule bij_betw_byWitness [of _ "\<lambda>a. unmerge a b selector"]) (simp_all add: unmerge_random_merge)
next
  assume a: "unat selector' mod 11 = (unat selector + 2) mod 11"
  define s where "s = unat selector mod 11"
  have "s < 11" by (simp add: s_def)
  have e: "(x mod 11 = n) \<longleftrightarrow> unat x mod 11 = unat n" for x n :: u32
    by (simp add: word_eq_iff_unsigned [where ?'a = nat] unat_mod_distrib)
  have "unat selector' mod 11 = (s + 2) mod 11" unfolding a s_def by (simp add: mod_simps)
  note math = progpowz_random_math_def random_math_def Let_def e this s_def [symmetric]
  have "s = 0 \<or> s = 1 \<or> s = 2 \<or> s = 3 \<or> s = 4 \<or> s = 5 \<or> s = 6 \<or> s = 7 \<or> s = 8 \<or> s = 9 \<or> s = 10"
    using \<open>s < 11\<close> by presburger
  then show "progpowz_random_math a b selector' = random_math a b selector"
    unfolding math by (elim disjE) simp_all
qed

theorem merge_is_bijective_witness:
  "progpowz_random_math 6 3 15 = random_math 6 3 2"
  using merge_is_bijective [of 3 2 15 6] by simp

end
