(* ===== verification/Managed.thy ===== *)
theory Managed
  imports ProgPowAgree
begin

text \<open>
  The managed contexts of the ProgPoW libraries, \<open>ethash/managed.cpp\<close>: a context shared by all threads
  under a mutex, and a context of each thread. The state is the heap of contexts with their use counts, as
  \<open>std::shared_ptr\<close> keeps them, and the calls of the threads in progress; the threads interleave between
  any two steps. The functions for light and for full contexts are the same code over the other
  \<open>create_epoch_context\<close>, which is a parameter.
\<close>

section \<open>The state\<close>

text \<open>Where a thread is in a call for an epoch.\<close>

datatype phase =
    Idle
  | Waiting int
  | Checking int
  | Building int
  | Storing int

text \<open>
  \<open>answer\<close> is the epoch and the pointer of a thread's last call, until it calls again. Threads and
  addresses are numbers; an address that holds no context is free.
\<close>

record managed =
  live :: "nat \<Rightarrow> (epoch_context \<times> nat) option"
  shared_context :: "nat option"
  thread_local_context :: "nat \<Rightarrow> nat option"
  shared_context_mutex :: "nat option"
  phase_of :: "nat \<Rightarrow> phase"
  answer :: "nat \<Rightarrow> (int \<times> nat option) option"

definition managed_init :: managed where
  "managed_init = \<lparr> live = (\<lambda>_. None), shared_context = None, thread_local_context = (\<lambda>_. None),
     shared_context_mutex = None, phase_of = (\<lambda>_. Idle), answer = (\<lambda>_. None) \<rparr>"

section \<open>The operations\<close>

text \<open>The reset of a \<open>shared_ptr\<close>, which destroys the context with its last owner, and its copy.\<close>

definition release :: "nat option \<Rightarrow> (nat \<Rightarrow> (epoch_context \<times> nat) option) \<Rightarrow> nat \<Rightarrow> (epoch_context \<times> nat) option" where
  "release p h =
     (case p of None \<Rightarrow> h
      | Some a \<Rightarrow> h(a := (case h a of None \<Rightarrow> None | Some (c, k) \<Rightarrow> if k \<le> 1 then None else Some (c, k - 1))))"

definition retain :: "nat option \<Rightarrow> (nat \<Rightarrow> (epoch_context \<times> nat) option) \<Rightarrow> nat \<Rightarrow> (epoch_context \<times> nat) option" where
  "retain p h =
     (case p of None \<Rightarrow> h
      | Some a \<Rightarrow> h(a := (case h a of None \<Rightarrow> None | Some (c, k) \<Rightarrow> Some (c, k + 1))))"

text \<open>\<open>p && p->epoch_number == epoch_number\<close>\<close>

definition is_for :: "managed \<Rightarrow> nat option \<Rightarrow> int \<Rightarrow> bool" where
  "is_for s p e =
     (case p of None \<Rightarrow> False
      | Some a \<Rightarrow> (case live s a of None \<Rightarrow> False | Some (c, k) \<Rightarrow> epoch_number c = e))"

text \<open>
  \<open>ethash_get_global_epoch_context\<close> up to the call of \<open>update_local_context\<close>, and its reset of the
  thread's context.
\<close>

definition get_global_context :: "nat \<Rightarrow> int \<Rightarrow> managed \<Rightarrow> managed" where
  "get_global_context t e s =
     (if is_for s (thread_local_context s t) e
      then s\<lparr> answer := (answer s)(t := Some (e, thread_local_context s t)) \<rparr>
      else s\<lparr> live := release (thread_local_context s t) (live s),
              thread_local_context := (thread_local_context s)(t := None),
              phase_of := (phase_of s)(t := Waiting e), answer := (answer s)(t := None) \<rparr>)"

text \<open>\<open>update_local_context\<close>: the lock, the test with the reset of the shared context, building, and the copy.\<close>

definition lock_mutex :: "nat \<Rightarrow> int \<Rightarrow> managed \<Rightarrow> managed" where
  "lock_mutex t e s = s\<lparr> shared_context_mutex := Some t, phase_of := (phase_of s)(t := Checking e) \<rparr>"

definition check_shared :: "nat \<Rightarrow> int \<Rightarrow> managed \<Rightarrow> managed" where
  "check_shared t e s =
     (if \<not> is_for s (shared_context s) e
      then s\<lparr> live := release (shared_context s) (live s), shared_context := None,
              phase_of := (phase_of s)(t := Building e) \<rparr>
      else s\<lparr> phase_of := (phase_of s)(t := Storing e) \<rparr>)"

text \<open>The new context gets the address \<open>a\<close>; out of memory the shared pointer stays null.\<close>

definition build_shared :: "nat \<Rightarrow> int \<Rightarrow> nat \<Rightarrow> epoch_context option \<Rightarrow> managed \<Rightarrow> managed" where
  "build_shared t e a r s =
     (case r of None \<Rightarrow> s\<lparr> shared_context := None, phase_of := (phase_of s)(t := Storing e) \<rparr>
      | Some c \<Rightarrow> s\<lparr> live := (live s)(a := Some (c, 1)), shared_context := Some a,
                     phase_of := (phase_of s)(t := Storing e) \<rparr>)"

definition store_local :: "nat \<Rightarrow> int \<Rightarrow> managed \<Rightarrow> managed" where
  "store_local t e s =
     s\<lparr> live := retain (shared_context s) (live s),
        thread_local_context := (thread_local_context s)(t := shared_context s),
        shared_context_mutex := None, phase_of := (phase_of s)(t := Idle),
        answer := (answer s)(t := Some (e, shared_context s)) \<rparr>"

text \<open>The destruction of the thread-local pointer when a thread ends.\<close>

definition end_thread :: "nat \<Rightarrow> managed \<Rightarrow> managed" where
  "end_thread t s =
     s\<lparr> live := release (thread_local_context s t) (live s),
        thread_local_context := (thread_local_context s)(t := None), answer := (answer s)(t := None) \<rparr>"

text \<open>The steps of the threads. Whether there is memory, \<open>ok\<close>, is open.\<close>

inductive managed_step :: "(bool \<Rightarrow> int \<Rightarrow> epoch_context option option) \<Rightarrow> managed \<Rightarrow> managed \<Rightarrow> bool" for create where
  step_call: "phase_of s t = Idle \<Longrightarrow> managed_step create s (get_global_context t e s)"
| step_lock: "phase_of s t = Waiting e \<Longrightarrow> shared_context_mutex s = None \<Longrightarrow> managed_step create s (lock_mutex t e s)"
| step_check: "phase_of s t = Checking e \<Longrightarrow> managed_step create s (check_shared t e s)"
| step_build: "phase_of s t = Building e \<Longrightarrow> create ok e = Some r \<Longrightarrow> live s a = None
    \<Longrightarrow> managed_step create s (build_shared t e a r s)"
| step_store: "phase_of s t = Storing e \<Longrightarrow> managed_step create s (store_local t e s)"
| step_end: "phase_of s t = Idle \<Longrightarrow> managed_step create s (end_thread t s)"

inductive managed_reach :: "(bool \<Rightarrow> int \<Rightarrow> epoch_context option option) \<Rightarrow> managed \<Rightarrow> bool" for create where
  reach_init: "managed_reach create managed_init"
| reach_step: "managed_reach create s \<Longrightarrow> managed_step create s s' \<Longrightarrow> managed_reach create s'"

section \<open>The invariant\<close>

text \<open>The owners of a context.\<close>

definition owners :: "managed \<Rightarrow> nat \<Rightarrow> nat" where
  "owners s a = (if shared_context s = Some a then 1 else 0) + card {t. thread_local_context s t = Some a}"

definition holds_mutex :: "managed \<Rightarrow> nat \<Rightarrow> bool" where
  "holds_mutex s t \<longleftrightarrow> (\<exists>e. phase_of s t \<in> {Checking e, Building e, Storing e})"

text \<open>A heap whose use counts are \<open>w\<close> and whose contexts satisfy \<open>P\<close>.\<close>

definition heap_for :: "(epoch_context \<Rightarrow> bool) \<Rightarrow> (nat \<Rightarrow> (epoch_context \<times> nat) option) \<Rightarrow> (nat \<Rightarrow> nat) \<Rightarrow> bool" where
  "heap_for P h w \<longleftrightarrow> (\<forall>a. h a = None \<longrightarrow> w a = 0) \<and> (\<forall>a c k. h a = Some (c, k) \<longrightarrow> 0 < k \<and> w a = k \<and> P c)"

definition built :: "(bool \<Rightarrow> int \<Rightarrow> epoch_context option option) \<Rightarrow> epoch_context \<Rightarrow> bool" where
  "built create c \<longleftrightarrow> (\<exists>ok. create ok (epoch_number c) = Some (Some c))"

definition heap_ok :: "(bool \<Rightarrow> int \<Rightarrow> epoch_context option option) \<Rightarrow> managed \<Rightarrow> bool" where
  "heap_ok create s \<longleftrightarrow> finite {t. thread_local_context s t \<noteq> None} \<and> heap_for (built create) (live s) (owners s)"

definition threads_ok :: "managed \<Rightarrow> bool" where
  "threads_ok s \<longleftrightarrow> (\<forall>t. (shared_context_mutex s = Some t \<longleftrightarrow> holds_mutex s t)
     \<and> (phase_of s t \<noteq> Idle \<longrightarrow> thread_local_context s t = None \<and> answer s t = None)
     \<and> (\<forall>e. phase_of s t = Building e \<longrightarrow> shared_context s = None)
     \<and> (\<forall>e. phase_of s t = Storing e \<longrightarrow> shared_context s = None \<or> is_for s (shared_context s) e)
     \<and> (\<forall>e p. answer s t = Some (e, p) \<longrightarrow> p = thread_local_context s t)
     \<and> (\<forall>e p. answer s t = Some (e, p)
          \<longrightarrow> thread_local_context s t = None \<or> is_for s (thread_local_context s t) e))"

text \<open>What the creation of a context promises: it has the epoch that was asked for.\<close>

locale context_source =
  fixes create :: "bool \<Rightarrow> int \<Rightarrow> epoch_context option option"
  assumes create_epoch: "create ok e = Some (Some c) \<Longrightarrow> epoch_number c = e"

text \<open>And that it succeeds for some epochs when there is memory.\<close>

locale total_source = context_source +
  fixes good :: "int \<Rightarrow> bool"
  assumes create_total: "good e \<Longrightarrow> \<exists>c. create True e = Some (Some c)"

section \<open>Heaps\<close>

definition owns :: "nat option \<Rightarrow> nat \<Rightarrow> nat" where
  "owns p a = (if p = Some a then 1 else 0)"

lemma owns_None [simp]: "owns None a = 0"
  by (simp add: owns_def)

lemma release_heap:
  assumes "heap_for P h w" and "\<And>b. p = Some b \<Longrightarrow> 0 < w b"
  shows "heap_for P (release p h) (\<lambda>a. w a - owns p a)"
proof (cases p)
  case None
  with assms(1) show ?thesis by (simp add: release_def)
next
  case (Some b)
  obtain c k where "h b = Some (c, k)" "0 < k" "w b = k" "P c"
    using assms(1) assms(2) [OF Some] by (cases "h b") (auto simp: heap_for_def)
  with assms(1) Some show ?thesis by (auto simp: heap_for_def release_def owns_def split: option.splits)
qed

lemma retain_heap:
  assumes "heap_for P h w" and "\<And>b. p = Some b \<Longrightarrow> 0 < w b"
  shows "heap_for P (retain p h) (\<lambda>a. w a + owns p a)"
proof (cases p)
  case None
  with assms(1) show ?thesis by (simp add: retain_def)
next
  case (Some b)
  obtain c k where "h b = Some (c, k)" "0 < k" "w b = k" "P c"
    using assms(1) assms(2) [OF Some] by (cases "h b") (auto simp: heap_for_def)
  with assms(1) Some show ?thesis by (auto simp: heap_for_def retain_def owns_def split: option.splits)
qed

text \<open>What an address still owned holds is not touched.\<close>

lemma release_keeps: "heap_for P h w \<Longrightarrow> owns p a < w a \<Longrightarrow> map_option fst (release p h a) = map_option fst (h a)"
  by (auto simp: heap_for_def release_def owns_def split: option.splits)

lemma retain_keeps: "map_option fst (retain p h a) = map_option fst (h a)"
  by (auto simp: retain_def split: option.splits)

lemma is_for_cong:
  assumes "\<And>a. p = Some a \<Longrightarrow> map_option fst (live s a) = map_option fst (live s' a)"
  shows "is_for s p e = is_for s' p e"
proof (cases p)
  case (Some a)
  with assms [OF Some] show ?thesis by (cases "live s a"; cases "live s' a") (auto simp: is_for_def)
qed (simp add: is_for_def)

lemma is_for_live: "is_for s (Some a) e \<Longrightarrow> live s a \<noteq> None"
  by (auto simp: is_for_def split: option.splits)

section \<open>Owners\<close>

lemma card_reset:
  assumes "finite {t. f t \<noteq> (None :: nat option)}"
  shows "card {u. (f(t := None)) u = Some a} = card {u. f u = Some a} - owns (f t) a"
proof -
  have fin: "finite {u. f u = Some a}" by (rule finite_subset [OF _ assms]) auto
  have "{u. (f(t := None)) u = Some a} = {u. f u = Some a} - {t}" by auto
  then show ?thesis using fin by (auto simp: owns_def card_Diff_singleton_if)
qed

lemma card_store:
  assumes "finite {t. f t \<noteq> (None :: nat option)}" and "f t = None"
  shows "card {u. (f(t := p)) u = Some a} = card {u. f u = Some a} + owns p a"
proof (cases "p = Some a")
  case True
  have fin: "finite {u. f u = Some a}" by (rule finite_subset [OF _ assms(1)]) auto
  have "{u. (f(t := p)) u = Some a} = insert t {u. f u = Some a}" using True by auto
  with fin assms(2) True show ?thesis by (simp add: owns_def)
next
  case False
  then have "{u. (f(t := p)) u = Some a} = {u. f u = Some a}" using assms(2) by auto
  with False show ?thesis by (simp add: owns_def)
qed

lemma owner_thread:
  assumes "finite {t. thread_local_context s t \<noteq> None}" and "thread_local_context s t = Some a"
  shows "owns (shared_context s) a < owners s a" and "0 < owners s a"
proof -
  have "finite {t. thread_local_context s t = Some a}" by (rule finite_subset [OF _ assms(1)]) auto
  then have "0 < card {t. thread_local_context s t = Some a}" using assms(2) by (auto simp: card_gt_0_iff)
  then show "owns (shared_context s) a < owners s a" "0 < owners s a" by (simp_all add: owners_def owns_def)
qed

lemma owner_shared: "shared_context s = Some a \<Longrightarrow> 0 < owners s a"
  by (simp add: owners_def)

lemma other_owner:
  assumes "finite {t. thread_local_context s t \<noteq> None}" and "thread_local_context s t = Some a" and "t \<noteq> u"
  shows "owns (thread_local_context s u) a < owners s a"
proof (cases "thread_local_context s u = Some a")
  case True
  have fin: "finite {t. thread_local_context s t = Some a}" by (rule finite_subset [OF _ assms(1)]) auto
  have "{t, u} \<subseteq> {t. thread_local_context s t = Some a}" using assms(2) True by auto
  from card_mono [OF fin this] assms(3) have "2 \<le> card {t. thread_local_context s t = Some a}" by simp
  then show ?thesis by (simp add: owners_def owns_def)
next
  case False
  with owner_thread(2) [OF assms(1,2)] show ?thesis by (simp add: owns_def)
qed

lemma shared_other_owner:
  assumes "finite {t. thread_local_context s t \<noteq> None}" and "shared_context s = Some a"
  shows "owns (thread_local_context s u) a < owners s a"
proof (cases "thread_local_context s u = Some a")
  case True
  have fin: "finite {t. thread_local_context s t = Some a}" by (rule finite_subset [OF _ assms(1)]) auto
  then have "0 < card {t. thread_local_context s t = Some a}" using True by (auto simp: card_gt_0_iff)
  with assms(2) show ?thesis by (simp add: owners_def owns_def)
qed (use assms(2) in \<open>simp add: owners_def owns_def\<close>)

section \<open>Every step keeps the invariant\<close>

lemma finite_upd: "finite {t. f t \<noteq> None} \<Longrightarrow> finite {u. (f(t := p)) u \<noteq> (None :: nat option)}"
  by (rule finite_subset [of _ "insert t {t. f t \<noteq> None}"]) auto

text \<open>The reset of a thread's own pointer, in a call and at the end of a thread.\<close>

lemma reset_local_heap:
  assumes "heap_ok create s" and "live s' = release (thread_local_context s t) (live s)" and "shared_context s' = shared_context s"
    and "thread_local_context s' = (thread_local_context s)(t := None)"
  shows "heap_ok create s'"
    and "u \<noteq> t \<Longrightarrow> is_for s' (thread_local_context s u) e = is_for s (thread_local_context s u) e"
    and "is_for s' (shared_context s) e = is_for s (shared_context s) e"
proof -
  have fin: "finite {t. thread_local_context s t \<noteq> None}" and heap: "heap_for (built create) (live s) (owners s)"
    using assms(1) by (auto simp: heap_ok_def)
  have "owners s' = (\<lambda>a. owners s a - owns (thread_local_context s t) a)"
  proof
    fix a
    have "owns (thread_local_context s t) a \<le> card {u. thread_local_context s u = Some a}"
    proof (cases "thread_local_context s t = Some a")
      case True
      have "finite {u. thread_local_context s u = Some a}" by (rule finite_subset [OF _ fin]) auto
      with True show ?thesis by (auto simp: owns_def Suc_le_eq card_gt_0_iff)
    qed (simp add: owns_def)
    then show "owners s' a = owners s a - owns (thread_local_context s t) a"
      unfolding owners_def assms(3,4) card_reset [OF fin] by simp
  qed
  with release_heap [OF heap owner_thread(2) [OF fin]] show "heap_ok create s'"
    using finite_upd [OF fin] by (simp add: heap_ok_def assms(2,4))
  show "is_for s' (thread_local_context s u) e = is_for s (thread_local_context s u) e" if "u \<noteq> t"
    by (rule is_for_cong) (use that release_keeps [OF heap] other_owner [OF fin] in \<open>auto simp: assms(2)\<close>)
  show "is_for s' (shared_context s) e = is_for s (shared_context s) e"
    by (rule is_for_cong) (use release_keeps [OF heap] shared_other_owner [OF fin] in \<open>auto simp: assms(2)\<close>)
qed

definition managed_ok :: "(bool \<Rightarrow> int \<Rightarrow> epoch_context option option) \<Rightarrow> managed \<Rightarrow> bool" where
  "managed_ok create s \<longleftrightarrow> heap_ok create s \<and> threads_ok s"

lemma threads_okI:
  assumes "\<And>t. shared_context_mutex s = Some t \<longleftrightarrow> holds_mutex s t"
    and "\<And>t. phase_of s t \<noteq> Idle \<Longrightarrow> thread_local_context s t = None \<and> answer s t = None"
    and "\<And>t e. phase_of s t = Building e \<Longrightarrow> shared_context s = None"
    and "\<And>t e. phase_of s t = Storing e \<Longrightarrow> shared_context s = None \<or> is_for s (shared_context s) e"
    and "\<And>t e p. answer s t = Some (e, p) \<Longrightarrow> p = thread_local_context s t"
    and "\<And>t e p. answer s t = Some (e, p) \<Longrightarrow> thread_local_context s t = None \<or> is_for s (thread_local_context s t) e"
  shows "threads_ok s"
  unfolding threads_ok_def using assms by blast

lemma threads_okD:
  assumes "threads_ok s"
  shows "shared_context_mutex s = Some t \<longleftrightarrow> holds_mutex s t"
    and "phase_of s t \<noteq> Idle \<Longrightarrow> thread_local_context s t = None \<and> answer s t = None"
    and "phase_of s t = Building e \<Longrightarrow> shared_context s = None"
    and "phase_of s t = Storing e \<Longrightarrow> shared_context s = None \<or> is_for s (shared_context s) e"
    and "answer s t = Some (e, p) \<Longrightarrow> p = thread_local_context s t"
    and "answer s t = Some (e, p) \<Longrightarrow> thread_local_context s t = None \<or> is_for s (thread_local_context s t) e"
  using assms unfolding threads_ok_def by blast+

lemma is_for_same_live:
  assumes "live s' = live s"
  shows "is_for s' = is_for s"
  by (intro ext) (simp only: is_for_def assms)

lemma owners_same:
  "shared_context s' = shared_context s \<Longrightarrow> thread_local_context s' = thread_local_context s \<Longrightarrow> owners s' = owners s"
  by (intro ext) (simp add: owners_def)

lemma heap_ok_same:
  "heap_ok create s \<Longrightarrow> live s' = live s \<Longrightarrow> shared_context s' = shared_context s
    \<Longrightarrow> thread_local_context s' = thread_local_context s \<Longrightarrow> heap_ok create s'"
  using owners_same [of s' s] by (simp add: heap_ok_def)

lemma end_thread_ok:
  assumes "managed_ok create s" and "phase_of s t = Idle"
  shows "managed_ok create (end_thread t s)"
proof -
  let ?s' = "end_thread t s"
  have ok: "heap_ok create s" "threads_ok s" using assms(1) by (auto simp: managed_ok_def)
  note r = reset_local_heap [OF ok(1), of ?s' t]
  have f: "live ?s' = release (thread_local_context s t) (live s)" "shared_context ?s' = shared_context s"
    "thread_local_context ?s' = (thread_local_context s)(t := None)" "phase_of ?s' = phase_of s"
    "shared_context_mutex ?s' = shared_context_mutex s" "answer ?s' = (answer s)(t := None)" by (simp_all add: end_thread_def)
  note r = reset_local_heap [OF ok(1) f(1-3)]
  have "threads_ok ?s'"
    by (rule threads_okI) (use threads_okD [OF ok(2)] r(2,3) in \<open>auto simp: f holds_mutex_def split: if_splits\<close>)
  with r(1) show ?thesis by (simp add: managed_ok_def)
qed

lemma get_global_context_ok:
  assumes "managed_ok create s" and "phase_of s t = Idle"
  shows "managed_ok create (get_global_context t e s)"
proof (cases "is_for s (thread_local_context s t) e")
  case True
  let ?s' = "get_global_context t e s"
  have ok: "heap_ok create s" "threads_ok s" using assms(1) by (auto simp: managed_ok_def)
  have f: "live ?s' = live s" "shared_context ?s' = shared_context s" "thread_local_context ?s' = thread_local_context s"
    "phase_of ?s' = phase_of s" "shared_context_mutex ?s' = shared_context_mutex s"
    "answer ?s' = (answer s)(t := Some (e, thread_local_context s t))" using True by (simp_all add: get_global_context_def)
  have "threads_ok ?s'"
    by (rule threads_okI)
      (use threads_okD [OF ok(2)] True assms(2) in \<open>auto simp: f is_for_same_live [OF f(1)] holds_mutex_def split: if_splits\<close>)
  with heap_ok_same [OF ok(1) f(1-3)] show ?thesis by (simp add: managed_ok_def)
next
  case False
  let ?s' = "get_global_context t e s"
  have ok: "heap_ok create s" "threads_ok s" using assms(1) by (auto simp: managed_ok_def)
  have f: "live ?s' = release (thread_local_context s t) (live s)" "shared_context ?s' = shared_context s"
    "thread_local_context ?s' = (thread_local_context s)(t := None)" "phase_of ?s' = (phase_of s)(t := Waiting e)"
    "shared_context_mutex ?s' = shared_context_mutex s" "answer ?s' = (answer s)(t := None)"
    using False by (simp_all add: get_global_context_def)
  note r = reset_local_heap [OF ok(1) f(1-3)]
  have "threads_ok ?s'"
    by (rule threads_okI) (use threads_okD [OF ok(2)] r(2,3) assms(2) in \<open>auto simp: f holds_mutex_def split: if_splits\<close>)
  with r(1) show ?thesis by (simp add: managed_ok_def)
qed

lemma lock_mutex_ok:
  assumes "managed_ok create s" and "phase_of s t = Waiting e" and "shared_context_mutex s = None"
  shows "managed_ok create (lock_mutex t e s)"
proof -
  let ?s' = "lock_mutex t e s"
  have ok: "heap_ok create s" "threads_ok s" using assms(1) by (auto simp: managed_ok_def)
  have f: "live ?s' = live s" "shared_context ?s' = shared_context s" "thread_local_context ?s' = thread_local_context s"
    "phase_of ?s' = (phase_of s)(t := Checking e)" "shared_context_mutex ?s' = Some t" "answer ?s' = answer s"
    by (simp_all add: lock_mutex_def)
  have free: "\<not> holds_mutex s u" for u using threads_okD(1) [OF ok(2), of u] assms(3) by simp
  have "threads_ok ?s'"
    by (rule threads_okI)
      (use threads_okD(2-) [OF ok(2)] free assms(2) in \<open>auto simp: f is_for_same_live [OF f(1)] holds_mutex_def split: if_splits\<close>)
  with heap_ok_same [OF ok(1) f(1-3)] show ?thesis by (simp add: managed_ok_def)
qed

lemma only_holder: "threads_ok s \<Longrightarrow> holds_mutex s t \<Longrightarrow> holds_mutex s u \<Longrightarrow> u = t"
  using threads_okD(1) by (metis option.inject)

lemma check_shared_ok:
  assumes "managed_ok create s" and "phase_of s t = Checking e"
  shows "managed_ok create (check_shared t e s)"
proof -
  let ?s' = "check_shared t e s"
  have ok: "heap_ok create s" "threads_ok s" using assms(1) by (auto simp: managed_ok_def)
  have fin: "finite {t. thread_local_context s t \<noteq> None}" and heap: "heap_for (built create) (live s) (owners s)"
    using ok(1) by (auto simp: heap_ok_def)
  have t: "holds_mutex s t" using assms(2) by (simp add: holds_mutex_def)
  have hm: "holds_mutex ?s' u = holds_mutex s u" for u using assms(2) by (auto simp: holds_mutex_def check_shared_def)
  have other: "u = t" if "phase_of s u = Building e' \<or> phase_of s u = Storing e'" for u e'
    using only_holder [OF ok(2) t, of u] that by (auto simp: holds_mutex_def)
  show ?thesis
  proof (cases "is_for s (shared_context s) e")
    case True
    have f: "live ?s' = live s" "shared_context ?s' = shared_context s" "thread_local_context ?s' = thread_local_context s"
      "phase_of ?s' = (phase_of s)(t := Storing e)" "shared_context_mutex ?s' = shared_context_mutex s" "answer ?s' = answer s"
      using True by (simp_all add: check_shared_def)
    have "threads_ok ?s'"
      by (rule threads_okI) (use threads_okD [OF ok(2)] hm True assms(2) in \<open>auto simp: f is_for_same_live [OF f(1)] split: if_splits\<close>)
    with heap_ok_same [OF ok(1) f(1-3)] show ?thesis by (simp add: managed_ok_def)
  next
    case False
    have f: "live ?s' = release (shared_context s) (live s)" "shared_context ?s' = None"
      "thread_local_context ?s' = thread_local_context s" "phase_of ?s' = (phase_of s)(t := Building e)"
      "shared_context_mutex ?s' = shared_context_mutex s" "answer ?s' = answer s"
      using False by (simp_all add: check_shared_def)
    have "owners ?s' = (\<lambda>a. owners s a - owns (shared_context s) a)"
      by (rule ext) (simp add: owners_def owns_def f)
    with release_heap [OF heap owner_shared] have "heap_ok create ?s'"
      using fin by (simp add: heap_ok_def f)
    moreover have "is_for ?s' (thread_local_context s u) e' = is_for s (thread_local_context s u) e'" for u e'
      by (rule is_for_cong) (use release_keeps [OF heap] owner_thread(1) [OF fin] in \<open>auto simp: f\<close>)
    then have six: "thread_local_context s u = None \<or> is_for ?s' (thread_local_context s u) e'" if "answer s u = Some (e', p)" for u e' p
      using threads_okD(6) [OF ok(2) that] by simp
    have "threads_ok ?s'"
    proof (rule threads_okI, goal_cases)
      case (6 u e' p)
      with six [of u e' p] show ?case by (simp add: f)
    qed (use threads_okD(1-5) [OF ok(2)] hm assms(2) other in \<open>auto simp: f split: if_splits\<close>)
    ultimately show ?thesis by (simp add: managed_ok_def)
  qed
qed

lemma unowned:
  assumes "heap_ok create s" and "live s a = None"
  shows "shared_context s \<noteq> Some a" and "thread_local_context s t \<noteq> Some a" and "owners s a = 0"
proof -
  have fin: "finite {t. thread_local_context s t \<noteq> None}" and heap: "heap_for (built create) (live s) (owners s)"
    using assms(1) by (auto simp: heap_ok_def)
  show z: "owners s a = 0" using heap assms(2) by (simp add: heap_for_def)
  then show "shared_context s \<noteq> Some a" by (auto simp: owners_def)
  show "thread_local_context s t \<noteq> Some a" using owner_thread(2) [OF fin] z by fastforce
qed

context context_source
begin

lemma build_shared_ok:
  assumes "managed_ok create s" and "phase_of s t = Building e" and "create ok e = Some r" and "live s a = None"
  shows "managed_ok create (build_shared t e a r s)"
proof -
  let ?s' = "build_shared t e a r s"
  have ok: "heap_ok create s" "threads_ok s" using assms(1) by (auto simp: managed_ok_def)
  have fin: "finite {t. thread_local_context s t \<noteq> None}" and heap: "heap_for (built create) (live s) (owners s)"
    using ok(1) by (auto simp: heap_ok_def)
  have t: "holds_mutex s t" using assms(2) by (simp add: holds_mutex_def)
  have hm: "holds_mutex ?s' u = holds_mutex s u" for u
    using assms(2) by (auto simp: holds_mutex_def build_shared_def split: option.splits)
  have other: "u = t" if "phase_of s u = Building e' \<or> phase_of s u = Storing e'" for u e'
    using only_holder [OF ok(2) t, of u] that by (auto simp: holds_mutex_def)
  have null: "shared_context s = None" by (rule threads_okD(3) [OF ok(2) assms(2)])
  show ?thesis
  proof (cases r)
    case None
    have f: "live ?s' = live s" "shared_context ?s' = shared_context s" "thread_local_context ?s' = thread_local_context s"
      "phase_of ?s' = (phase_of s)(t := Storing e)" "shared_context_mutex ?s' = shared_context_mutex s" "answer ?s' = answer s"
      using None null by (simp_all add: build_shared_def)
    have "threads_ok ?s'"
      by (rule threads_okI) (use threads_okD [OF ok(2)] hm assms(2) null in \<open>auto simp: f is_for_same_live [OF f(1)] split: if_splits\<close>)
    with heap_ok_same [OF ok(1) f(1-3)] show ?thesis by (simp add: managed_ok_def)
  next
    case (Some c)
    have c: "epoch_number c = e" "built create c" using assms(3) create_epoch [of ok e c] Some by (auto simp: built_def)
    have f: "live ?s' = (live s)(a := Some (c, 1))" "shared_context ?s' = Some a" "thread_local_context ?s' = thread_local_context s"
      "phase_of ?s' = (phase_of s)(t := Storing e)" "shared_context_mutex ?s' = shared_context_mutex s" "answer ?s' = answer s"
      using Some by (simp_all add: build_shared_def)
    note free = unowned [OF ok(1) assms(4)]
    have "owners ?s' = (owners s)(a := 1)"
      using free null by (intro ext) (auto simp: owners_def f)
    then have "heap_ok create ?s'" using heap fin c(2) by (auto simp: heap_ok_def heap_for_def f)
    moreover have here: "is_for ?s' (Some a) e" by (simp add: is_for_def f c(1))
    have "is_for ?s' (thread_local_context s u) e' = is_for s (thread_local_context s u) e'" for u e'
      by (rule is_for_cong) (use free(2) in \<open>auto simp: f\<close>)
    then have six: "thread_local_context s u = None \<or> is_for ?s' (thread_local_context s u) e'" if "answer s u = Some (e', p)" for u e' p
      using threads_okD(6) [OF ok(2) that] by simp
    have "threads_ok ?s'"
    proof (rule threads_okI, goal_cases)
      case (6 u e' p)
      with six [of u e' p] show ?case by (simp add: f)
    qed (use threads_okD(1-5) [OF ok(2)] hm assms(2) other here in \<open>auto simp: f split: if_splits\<close>)
    ultimately show ?thesis by (simp add: managed_ok_def)
  qed
qed

lemma store_local_ok:
  assumes "managed_ok create s" and "phase_of s t = Storing e"
  shows "managed_ok create (store_local t e s)"
proof -
  let ?s' = "store_local t e s"
  have ok: "heap_ok create s" "threads_ok s" using assms(1) by (auto simp: managed_ok_def)
  have fin: "finite {t. thread_local_context s t \<noteq> None}" and heap: "heap_for (built create) (live s) (owners s)"
    using ok(1) by (auto simp: heap_ok_def)
  have t: "holds_mutex s t" using assms(2) by (simp add: holds_mutex_def)
  have hm: "holds_mutex ?s' u \<longleftrightarrow> holds_mutex s u \<and> u \<noteq> t" for u using assms(2) by (auto simp: holds_mutex_def store_local_def)
  have only: "\<not> holds_mutex s u \<or> u = t" for u using only_holder [OF ok(2) t, of u] by blast
  have other: "u = t" if "phase_of s u = Building e' \<or> phase_of s u = Storing e'" for u e'
    using only_holder [OF ok(2) t, of u] that by (auto simp: holds_mutex_def)
  have null: "thread_local_context s t = None" using threads_okD(2) [OF ok(2), of t] assms(2) by simp
  have f: "live ?s' = retain (shared_context s) (live s)" "shared_context ?s' = shared_context s"
    "thread_local_context ?s' = (thread_local_context s)(t := shared_context s)" "phase_of ?s' = (phase_of s)(t := Idle)"
    "shared_context_mutex ?s' = None" "answer ?s' = (answer s)(t := Some (e, shared_context s))"
    by (simp_all add: store_local_def)
  have "owners ?s' = (\<lambda>a. owners s a + owns (shared_context s) a)"
    by (rule ext) (simp only: owners_def f card_store [OF fin null] add.assoc)
  with retain_heap [OF heap owner_shared] have "heap_ok create ?s'"
    using finite_upd [OF fin] by (simp add: heap_ok_def f)
  moreover have same: "is_for ?s' p e' = is_for s p e'" for p e'
    by (rule is_for_cong) (simp add: f retain_keeps)
  have six: "thread_local_context ?s' u = None \<or> is_for ?s' (thread_local_context ?s' u) e'" if "answer ?s' u = Some (e', p)" for u e' p
  proof (cases "u = t")
    case True
    with that have e: "e' = e" by (simp add: f)
    show ?thesis using threads_okD(4) [OF ok(2) assms(2)] unfolding True e by (simp add: f same)
  next
    case False
    with that have "answer s u = Some (e', p)" by (simp add: f)
    with threads_okD(6) [OF ok(2)] False show ?thesis by (simp add: f same)
  qed
  have "threads_ok ?s'"
  proof (rule threads_okI, goal_cases)
    case (6 u e' p)
    then show ?case by (rule six)
  qed (use threads_okD(2-5) [OF ok(2)] hm only other in \<open>auto simp: f split: if_splits\<close>)
  ultimately show ?thesis by (simp add: managed_ok_def)
qed

lemma step_ok: "managed_step create s s' \<Longrightarrow> managed_ok create s \<Longrightarrow> managed_ok create s'"
  by (induction rule: managed_step.induct)
    (auto intro: get_global_context_ok lock_mutex_ok check_shared_ok build_shared_ok store_local_ok end_thread_ok)

lemma init_ok: "managed_ok create managed_init"
  by (auto simp: managed_ok_def heap_ok_def heap_for_def threads_ok_def managed_init_def owners_def holds_mutex_def)

lemma reach_ok: "managed_reach create s \<Longrightarrow> managed_ok create s"
  by (induction rule: managed_reach.induct) (auto intro: init_ok step_ok)

end

section \<open>Pending calls end\<close>

lemma live_owned:
  assumes "heap_ok create s"
  shows "live s a \<noteq> None \<longleftrightarrow> shared_context s = Some a \<or> (\<exists>t. thread_local_context s t = Some a)"
proof
  have fin: "finite {t. thread_local_context s t = Some a}"
    using assms by (auto simp: heap_ok_def elim: rev_finite_subset)
  assume "live s a \<noteq> None"
  then have "0 < owners s a" using assms by (auto simp: heap_ok_def heap_for_def)
  with fin show "shared_context s = Some a \<or> (\<exists>t. thread_local_context s t = Some a)"
    by (auto simp: owners_def card_gt_0_iff split: if_splits)
qed (use unowned [OF assms] in blast)

lemma live_bound:
  assumes "heap_ok create s"
  shows "finite {a. live s a \<noteq> None}" and "card {a. live s a \<noteq> None} \<le> card {t. thread_local_context s t \<noteq> None} + 1"
proof -
  let ?T = "{t. thread_local_context s t \<noteq> None}" and ?L = "{a. live s a \<noteq> None}"
  have fin: "finite ?T" using assms by (simp add: heap_ok_def)
  have sub: "?L \<subseteq> insert (the (shared_context s)) ((\<lambda>t. the (thread_local_context s t)) ` ?T)"
    using live_owned [OF assms] by force
  then show "finite ?L" by (rule finite_subset) (use fin in blast)
  have "card ?L \<le> card (insert (the (shared_context s)) ((\<lambda>t. the (thread_local_context s t)) ` ?T))"
    using sub fin by (intro card_mono) simp_all
  also have "\<dots> \<le> Suc (card ((\<lambda>t. the (thread_local_context s t)) ` ?T))" by (rule card_insert_le_m1) (simp_all add: fin)
  also have "\<dots> \<le> Suc (card ?T)" using card_image_le [OF fin] by simp
  finally show "card ?L \<le> card ?T + 1" by simp
qed

context total_source
begin

lemma fresh_address:
  assumes "managed_ok create s"
  shows "\<exists>a. live s a = None"
proof -
  have "finite {a. live s a \<noteq> None}" using assms live_bound(1) by (auto simp: managed_ok_def)
  from ex_new_if_finite [OF infinite_UNIV_nat this] obtain a where "a \<notin> {a. live s a \<noteq> None}" by blast
  then have "live s a = None" by (cases "live s a") simp_all
  then show ?thesis by (rule exI)
qed

lemma finish_storing:
  assumes "phase_of s t = Storing e"
  shows "\<exists>s'. managed_step create s s' \<and> phase_of s' = (phase_of s)(t := Idle) \<and> shared_context_mutex s' = None
    \<and> answer s' t = Some (e, shared_context s)"
proof (intro exI conjI)
  show "managed_step create s (store_local t e s)" by (rule step_store [OF assms])
qed (simp_all add: store_local_def)

lemma finish_building:
  assumes "managed_ok create s" and "phase_of s t = Building e" and "good e"
  shows "\<exists>s' a. (managed_step create)\<^sup>*\<^sup>* s s' \<and> phase_of s' = (phase_of s)(t := Idle) \<and> shared_context_mutex s' = None
    \<and> answer s' t = Some (e, Some a)"
proof -
  obtain a where a: "live s a = None" using fresh_address [OF assms(1)] by blast
  obtain c where c: "create True e = Some (Some c)" using create_total [OF assms(3)] by blast
  let ?s1 = "build_shared t e a (Some c) s"
  have s1: "managed_step create s ?s1"
    by (rule step_build [where r = "Some c" and ok = True]) (rule assms(2), rule c, rule a)
  have p: "phase_of ?s1 = (phase_of s)(t := Storing e)" "shared_context ?s1 = Some a" by (simp_all add: build_shared_def)
  from finish_storing [of ?s1 t e] p obtain s' where "managed_step create ?s1 s'" "phase_of s' = (phase_of s)(t := Idle)"
    "shared_context_mutex s' = None" "answer s' t = Some (e, Some a)" by auto
  with s1 show ?thesis by (meson converse_rtranclp_into_rtranclp r_into_rtranclp)
qed

lemma finish_checking:
  assumes "managed_ok create s" and "phase_of s t = Checking e" and "good e"
  shows "\<exists>s' a. (managed_step create)\<^sup>*\<^sup>* s s' \<and> phase_of s' = (phase_of s)(t := Idle) \<and> shared_context_mutex s' = None
    \<and> answer s' t = Some (e, Some a)"
proof -
  let ?s1 = "check_shared t e s"
  have s1: "managed_step create s ?s1" by (rule step_check [OF assms(2)])
  have "\<exists>s' a. (managed_step create)\<^sup>*\<^sup>* ?s1 s' \<and> phase_of s' = (phase_of s)(t := Idle) \<and> shared_context_mutex s' = None
    \<and> answer s' t = Some (e, Some a)"
  proof (cases "is_for s (shared_context s) e")
    case True
    then obtain a where "shared_context s = Some a" by (cases "shared_context s") (auto simp: is_for_def)
    with True have p: "phase_of ?s1 = (phase_of s)(t := Storing e)" "shared_context ?s1 = Some a" by (simp_all add: check_shared_def)
    from finish_storing [of ?s1 t e] p obtain s' where "managed_step create ?s1 s'" "phase_of s' = (phase_of s)(t := Idle)"
      "shared_context_mutex s' = None" "answer s' t = Some (e, Some a)" by auto
    then show ?thesis by blast
  next
    case False
    then have p: "phase_of ?s1 = (phase_of s)(t := Building e)" by (simp add: check_shared_def)
    have "managed_ok create ?s1" by (rule step_ok [OF s1 assms(1)])
    from finish_building [OF this _ assms(3), of t] p show ?thesis by simp
  qed
  with s1 show ?thesis by (meson converse_rtranclp_into_rtranclp)
qed

lemma steps_ok: "(managed_step create)\<^sup>*\<^sup>* s s' \<Longrightarrow> managed_ok create s \<Longrightarrow> managed_ok create s'"
  by (induction rule: rtranclp_induct) (auto intro: step_ok)

text \<open>The holder of the mutex gives it back.\<close>

lemma mutex_freed:
  assumes "managed_ok create s" and "\<And>u e. phase_of s u = Checking e \<or> phase_of s u = Building e \<Longrightarrow> good e"
    and "phase_of s t = Waiting e"
  shows "\<exists>s'. (managed_step create)\<^sup>*\<^sup>* s s' \<and> shared_context_mutex s' = None \<and> phase_of s' t = Waiting e"
proof (cases "shared_context_mutex s")
  case None
  with assms(3) show ?thesis by blast
next
  case (Some u)
  then have "holds_mutex s u" using threads_okD(1) assms(1) by (auto simp: managed_ok_def)
  then obtain e' where "phase_of s u = Checking e' \<or> phase_of s u = Building e' \<or> phase_of s u = Storing e'"
    by (auto simp: holds_mutex_def)
  moreover from this have "u \<noteq> t" using assms(3) by auto
  moreover have "\<exists>s'. (managed_step create)\<^sup>*\<^sup>* s s' \<and> phase_of s' = (phase_of s)(u := Idle) \<and> shared_context_mutex s' = None"
    using calculation(1) assms(2) [of u e'] finish_checking [OF assms(1), of u e'] finish_building [OF assms(1), of u e']
      finish_storing [of s u e'] by blast
  ultimately show ?thesis using assms(3) by fastforce
qed

lemma call_ends:
  assumes "managed_ok create s" and "\<And>u e. phase_of s u = Checking e \<or> phase_of s u = Building e \<Longrightarrow> good e"
    and "phase_of s t = Waiting e" and "good e"
  shows "\<exists>s' a. (managed_step create)\<^sup>*\<^sup>* s s' \<and> phase_of s' t = Idle \<and> answer s' t = Some (e, Some a)"
proof -
  obtain s1 where s1: "(managed_step create)\<^sup>*\<^sup>* s s1" "shared_context_mutex s1 = None" "phase_of s1 t = Waiting e"
    using mutex_freed [OF assms(1) _ assms(3)] assms(2) by blast
  let ?s2 = "lock_mutex t e s1"
  have s2: "managed_step create s1 ?s2" by (rule step_lock [OF s1(3,2)])
  have "managed_ok create ?s2" by (rule step_ok [OF s2 steps_ok [OF s1(1) assms(1)]])
  from finish_checking [OF this _ assms(4), of t] obtain s' a
    where "(managed_step create)\<^sup>*\<^sup>* ?s2 s'" "phase_of s' t = Idle" "answer s' t = Some (e, Some a)"
    by (auto simp: lock_mutex_def)
  with s1(1) s2 show ?thesis by (meson converse_rtranclp_into_rtranclp rtranclp_trans)
qed

end

section \<open>The contexts of the libraries\<close>

lemma create_of_epoch:
  assumes "create_epoch_context_of lib ok se e full = Some (Some c)"
  shows "epoch_number c = e"
  using assms unfolding create_epoch_context_of_def Let_def
  by (auto simp: bind_eq_Some_conv split: if_splits dest!: fill_keeps)

lemma create_epoch_fits:
  assumes "epoch_fits lib se"
  shows "\<exists>c. create_epoch_context_of lib True se e full = Some (Some c)"
  using create_context [OF assms, of e full] by blast

interpretation made: total_source "\<lambda>ok e. create_epoch_context lib ok e full" "epoch_fits lib" for lib full
proof
  show "create_epoch_context lib ok e full = Some (Some c) \<Longrightarrow> epoch_number c = e" for ok e c
    unfolding create_epoch_context_def by (auto simp: bind_eq_Some_conv intro: create_of_epoch)
  show "\<exists>c. create_epoch_context lib True e full = Some (Some c)" if "epoch_fits lib e" for e
    using create_epoch_fits [OF that] by (simp add: create_epoch_context_def)
qed

lemma create_library:
  assumes "lib \<in> libraries" and "0 \<le> e" and "e < 8160"
  shows "\<exists>c. create_of lib True e full = Some (Some c)"
proof -
  obtain se where se: "create_of lib True e = create_epoch_context_of (ethash_of lib) True se e" "epoch_fits (ethash_of lib) se"
    using create_of_libraries [OF assms] .
  from create_epoch_fits [OF se(2)] show ?thesis by (simp add: se(1))
qed

interpretation meow: total_source "\<lambda>ok e. meowpow_create_epoch_context ok e full" "\<lambda>e. 0 \<le> e \<and> e < 8160" for full
proof
  show "meowpow_create_epoch_context ok e full = Some (Some c) \<Longrightarrow> epoch_number c = e" for ok e c
    by (auto simp: meowpow_create_epoch_context_def bind_eq_Some_conv intro: create_of_epoch)
  show "\<exists>c. meowpow_create_epoch_context True e full = Some (Some c)" if "0 \<le> e \<and> e < 8160" for e
    using create_library [where lib = meowpow and e = e and full = full] that by (simp add: libraries_def meowpow_def)
qed

lemma library_source:
  assumes "lib \<in> libraries"
  shows "total_source (\<lambda>ok e. create_of lib ok e full) (\<lambda>e. 0 \<le> e \<and> e < 8160)"
proof (unfold_locales)
  show "epoch_number c = e" if "create_of lib ok e full = Some (Some c)" for ok e c
    using assms that made.create_epoch meow.create_epoch
    by (fastforce simp: libraries_def kawpow_def firopow_def meowpow_def merakipow_def progpowz_def)
qed (use create_library [OF assms] in blast)

section \<open>The properties\<close>

text \<open>
  Property C8: in every interleaving of the threads, for every ProgPoW library and for light and full contexts:
  the use count of a context is the number of its owners, the shared pointer and the pointers of the threads,
  and a context is in memory exactly while it has one; a call answers the pointer its thread holds, which is
  null or a context of the epoch that was asked for, as \<open>create_epoch_context\<close> makes it, also when other
  threads have replaced the shared context since; and at most one thread is between the lock and the unlock.
  There is at most one context more than threads that hold one.
\<close>

theorem managed_contexts:
  assumes "lib \<in> libraries" and "managed_reach (\<lambda>ok e. create_of lib ok e full) s"
  shows "(\<forall>a. live s a = None \<longleftrightarrow> owners s a = 0) \<and> (\<forall>a c k. live s a = Some (c, k) \<longrightarrow> owners s a = k)
    \<and> (\<forall>t e p. answer s t = Some (e, p) \<longrightarrow> p = thread_local_context s t \<and> (\<forall>a. p = Some a
        \<longrightarrow> (\<exists>c k ok. live s a = Some (c, k) \<and> epoch_number c = e \<and> create_of lib ok e full = Some (Some c))))
    \<and> (\<forall>t u. holds_mutex s t \<and> holds_mutex s u \<longrightarrow> t = u)
    \<and> finite {a. live s a \<noteq> None} \<and> card {a. live s a \<noteq> None} \<le> card {t. thread_local_context s t \<noteq> None} + 1"
proof -
  let ?create = "\<lambda>ok e. create_of lib ok e full"
  have "context_source ?create" using library_source [OF assms(1)] by (rule total_source.axioms)
  then have "managed_ok ?create s" using assms(2) by (rule context_source.reach_ok)
  then have h: "heap_ok ?create s" and t: "threads_ok s" by (auto simp: managed_ok_def)
  then have heap: "heap_for (built ?create) (live s) (owners s)" by (simp add: heap_ok_def)
  have "live s a = None \<longleftrightarrow> owners s a = 0" for a using heap by (cases "live s a") (auto simp: heap_for_def)
  moreover have "owners s a = k" if "live s a = Some (c, k)" for a c k using heap that by (auto simp: heap_for_def)
  moreover have "\<exists>c k ok. live s a = Some (c, k) \<and> epoch_number c = e \<and> create_of lib ok e full = Some (Some c)"
    if "answer s t = Some (e, Some a)" for t e a
  proof -
    have "is_for s (Some a) e" using threads_okD(5,6) [OF t that] by auto
    then obtain c k where c: "live s a = Some (c, k)" "epoch_number c = e" by (auto simp: is_for_def split: option.splits)
    then have "built ?create c" using heap by (auto simp: heap_for_def)
    with c show ?thesis by (auto simp: built_def)
  qed
  ultimately show ?thesis using threads_okD(5) [OF t] only_holder [OF t] live_bound [OF h] by blast
qed

text \<open>
  Property C9: no call waits for ever because of another thread. From every state that the threads can reach, if
  there is memory and the epochs in progress are below 8,160, the threads can go on so that a waiting call
  returns a context of its epoch.
\<close>

theorem managed_calls_end:
  assumes "lib \<in> libraries" and "managed_reach (\<lambda>ok e. create_of lib ok e full) s" and "phase_of s t = Waiting e"
    and "0 \<le> e \<and> e < 8160" and "\<forall>u e. phase_of s u \<in> {Checking e, Building e} \<longrightarrow> 0 \<le> e \<and> e < 8160"
  shows "\<exists>s' a. (managed_step (\<lambda>ok e. create_of lib ok e full))\<^sup>*\<^sup>* s s' \<and> phase_of s' t = Idle
    \<and> answer s' t = Some (e, Some a) \<and> is_for s' (Some a) e"
proof -
  let ?create = "\<lambda>ok e. create_of lib ok e full"
  note total = library_source [OF assms(1), of full]
  then have ctx: "context_source ?create" by (rule total_source.axioms)
  then have ok: "managed_ok ?create s" using assms(2) by (rule context_source.reach_ok)
  obtain s' a where s': "(managed_step ?create)\<^sup>*\<^sup>* s s'" "phase_of s' t = Idle" "answer s' t = Some (e, Some a)"
    using total_source.call_ends [OF total ok _ assms(3,4)] assms(5) by blast
  have "threads_ok s'" using total_source.steps_ok [OF total s'(1) ok] by (simp add: managed_ok_def)
  from threads_okD(5,6) [OF this s'(3)] have "is_for s' (Some a) e" by (metis option.discI)
  with s' show ?thesis by blast
qed

section \<open>The properties at concrete inputs\<close>

lemma managed_contexts_witness:
  "card {a. live (get_global_context 1 0 managed_init) a \<noteq> None}
      \<le> card {t. thread_local_context (get_global_context 1 0 managed_init) t \<noteq> None} + 1
    \<and> phase_of (get_global_context 1 0 managed_init) 1 = Waiting 0"
proof -
  have "managed_reach (\<lambda>ok e. create_of kawpow ok e True) (get_global_context 1 0 managed_init)"
    by (rule reach_step [OF reach_init], rule step_call) (simp add: managed_init_def)
  moreover have "phase_of (get_global_context 1 0 managed_init) 1 = Waiting 0"
    by (simp add: get_global_context_def is_for_def managed_init_def)
  moreover have "kawpow \<in> libraries" by (simp add: libraries_def)
  ultimately show ?thesis using managed_contexts [of kawpow True "get_global_context 1 0 managed_init"] by blast
qed

lemma managed_calls_end_witness:
  "\<exists>s' a. (managed_step (\<lambda>ok e. create_of kawpow ok e True))\<^sup>*\<^sup>* (get_global_context 1 300 managed_init) s'
    \<and> phase_of s' 1 = Idle \<and> answer s' 1 = Some (300, Some a) \<and> is_for s' (Some a) 300"
proof (rule managed_calls_end)
  show "managed_reach (\<lambda>ok e. create_of kawpow ok e True) (get_global_context 1 300 managed_init)"
    by (rule reach_step [OF reach_init], rule step_call) (simp add: managed_init_def)
qed (auto simp: get_global_context_def is_for_def managed_init_def libraries_def split: if_splits)

end
