(* ===== verification/Archive.thy ===== *)
theory Archive
  imports Varint
begin

text \<open>
  The binary archives of Cryptonote: \<open>libcryptonote/serialization/serialization.h\<close>, \<open>binary_archive.h\<close>,
  \<open>vector.h\<close>, \<open>string.h\<close>, \<open>crypto.h\<close> and \<open>variant.h\<close>. The templates of the code serve both directions, and
  so do the definitions: an archive either saves, and holds what is written, or loads, and holds what is
  still to be read. A serializer changes the object it is given and the archive; \<open>None\<close> is the failure, after
  which the code never succeeds: whatever it goes on to read, the state of the stream is tested before it
  returns. The locale \<open>codec\<close> is what a serializer promises, and every serializer of the formats is one.
\<close>

section \<open>Archives\<close>

datatype archive =
    Saving bytes
  | Loading bytes

type_synonym 'v serializer = "'v \<Rightarrow> archive \<Rightarrow> ('v \<times> archive) option"

text \<open>\<open>serialize_blob\<close> of a structure of \<open>n\<close> bytes.\<close>

definition serialize_blob :: "nat \<Rightarrow> bytes serializer" where
  "serialize_blob n v ar =
     (case ar of
        Saving out \<Rightarrow> if length v = n then Some (v, Saving (out @ v)) else None
      | Loading input \<Rightarrow> if length input < n then None else Some (take n input, Loading (drop n input)))"

definition serialize_int :: "'a::len word serializer" where
  "serialize_int v ar =
     (case ar of
        Saving out \<Rightarrow> Some (v, Saving (out @ bytes_of_word v))
      | Loading input \<Rightarrow> if length input < LENGTH('a) div 8 then None
          else Some (word_of_bytes (take (LENGTH('a) div 8) input), Loading (drop (LENGTH('a) div 8) input)))"

text \<open>
  \<open>read_varint\<close> at the other widths, whose \<open>bits\<close> is the width. \<open>write_varint\<close> writes a narrower number
  as it writes the 64-bit number of the same value. What \<open>read_varint\<close> returns is ignored when loading
  (\<open>handle failure\<close> is an open point of the code), and reading with an iterator does not change the state of
  the stream: after an error the number is what has been read so far, and loading goes on.
\<close>

fun read_uvarint_from :: "bytes \<Rightarrow> nat \<Rightarrow> int \<Rightarrow> 'a::len word \<Rightarrow> int \<times> 'a word \<times> bytes" where
  "read_uvarint_from [] shift n i = (n, i, [])"
| "read_uvarint_from (byte # rest) shift n i =
     (if LENGTH('a) \<le> shift + 7 \<and> (1 :: nat) * 2 ^ (LENGTH('a) - shift) \<le> unat byte then (- 1, i, rest)
      else if byte = 0 \<and> shift \<noteq> 0 then (- 2, i, rest)
      else let i = i OR push_bit shift (ucast (byte AND 0x7f)) in
        if byte AND 0x80 = 0 then (n + 1, i, rest)
        else read_uvarint_from rest (shift + 7) (n + 1) i)"

definition serialize_varint :: "'a::len word serializer" where
  "serialize_varint v ar =
     (case ar of
        Saving out \<Rightarrow> Some (v, Saving (out @ write_varint (ucast v)))
      | Loading input \<Rightarrow> (case read_uvarint_from input 0 0 0 of (r, i, rest) \<Rightarrow> Some (i, Loading rest)))"

text \<open>\<open>check_stream_state\<close>: when loading, all has been read.\<close>

definition check_stream_state :: "archive \<Rightarrow> bool" where
  "check_stream_state ar = (case ar of Saving out \<Rightarrow> True | Loading input \<Rightarrow> input = [])"

text \<open>\<open>::serialization::serialize\<close>, for both directions.\<close>

definition serialize_whole :: "'v serializer \<Rightarrow> 'v serializer" where
  "serialize_whole s v ar = do { (v, ar) \<leftarrow> s v ar; if check_stream_state ar then Some (v, ar) else None }"

definition parse_binary :: "'v serializer \<Rightarrow> 'v \<Rightarrow> bytes \<Rightarrow> 'v option" where
  "parse_binary s v blob = map_option fst (serialize_whole s v (Loading blob))"

definition saved :: "'v serializer \<Rightarrow> 'v \<Rightarrow> bytes option" where
  "saved s v = (case s v (Saving []) of Some (v', Saving out) \<Rightarrow> Some out | _ \<Rightarrow> None)"

section \<open>Containers\<close>

text \<open>The elements of a vector, one after the other.\<close>

fun serialize_elements :: "'v serializer \<Rightarrow> 'v list serializer" where
  "serialize_elements s [] ar = Some ([], ar)"
| "serialize_elements s (x # xs) ar =
     do { (x, ar) \<leftarrow> s x ar; (xs, ar) \<leftarrow> serialize_elements s xs ar; Some (x # xs, ar) }"

text \<open>
  A vector with its size in front, which is a \<open>size_t\<close>. When loading, there must be a byte left for every
  element; the elements are made with the value \<open>d\<close>.
\<close>

definition serialize_vector :: "'v \<Rightarrow> 'v serializer \<Rightarrow> 'v list serializer" where
  "serialize_vector d s v ar =
     (case ar of
        Saving out \<Rightarrow>
          if 2 ^ 64 \<le> length v then None
          else do {
            (cnt, ar) \<leftarrow> serialize_varint (of_nat (length v) :: u64) ar;
            serialize_elements s v ar
          }
      | Loading input \<Rightarrow>
          do {
            (cnt, ar) \<leftarrow> serialize_varint (0 :: u64) ar;
            case ar of Saving out \<Rightarrow> None
            | Loading input \<Rightarrow>
                if length input < unat cnt then None
                else serialize_elements s (replicate (unat cnt) d) (Loading input)
          })"

definition serialize_string :: "bytes serializer" where
  "serialize_string v ar =
     (case ar of
        Saving out \<Rightarrow>
          if 2 ^ 64 \<le> length v then None
          else do {
            (n, ar) \<leftarrow> serialize_varint (of_nat (length v) :: u64) ar;
            serialize_blob (length v) v ar
          }
      | Loading input \<Rightarrow>
          do {
            (n, ar) \<leftarrow> serialize_varint (0 :: u64) ar;
            case ar of Saving out \<Rightarrow> None
            | Loading input \<Rightarrow>
                if length input < unat n then None else serialize_blob (unat n) v (Loading input)
          })"

text \<open>
  \<open>PREPARE_CUSTOM_VECTOR_SERIALIZATION\<close> and the loop over a vector whose size is not written: when loading,
  the vector is resized, when saving, it must have the size.
\<close>

definition resize :: "nat \<Rightarrow> 'v \<Rightarrow> 'v list \<Rightarrow> 'v list" where
  "resize n d v = take n v @ replicate (n - length v) d"

definition serialize_custom :: "nat \<Rightarrow> 'v \<Rightarrow> 'v serializer \<Rightarrow> 'v list serializer" where
  "serialize_custom n d s v ar =
     (let v = (case ar of Saving out \<Rightarrow> v | Loading input \<Rightarrow> resize n d v) in
      if length v \<noteq> n then None else serialize_elements s v ar)"

text \<open>
  A variant: a tag, and then the alternative with this tag; when loading, the first one that has it. An
  alternative of type \<open>'p\<close> has a value \<open>d\<close> to load into.
\<close>

record 'v alternative =
  alt_tag :: u8
  alt_is :: "'v \<Rightarrow> bool"
  alt_body :: "'v serializer"

definition ALT :: "u8 \<Rightarrow> ('v \<Rightarrow> 'p option) \<Rightarrow> ('p \<Rightarrow> 'v) \<Rightarrow> 'p \<Rightarrow> 'p serializer \<Rightarrow> 'v alternative" where
  "ALT t sel mk d s =
     \<lparr> alt_tag = t, alt_is = (\<lambda>v. sel v \<noteq> None),
       alt_body = (\<lambda>v ar. do {
         (p, ar) \<leftarrow> s (case ar of Saving out \<Rightarrow> (case sel v of None \<Rightarrow> d | Some p \<Rightarrow> p) | Loading input \<Rightarrow> d) ar;
         Some (mk p, ar)
       }) \<rparr>"

definition serialize_variant :: "'v alternative list \<Rightarrow> 'v serializer" where
  "serialize_variant alts v ar =
     (case ar of
        Saving out \<Rightarrow>
          (case find (\<lambda>a. alt_is a v) alts of
             None \<Rightarrow> None
           | Some a \<Rightarrow> do { (t, ar) \<leftarrow> serialize_int (alt_tag a) ar; alt_body a v ar })
      | Loading input \<Rightarrow>
          do {
            (t, ar) \<leftarrow> serialize_int 0 ar;
            case find (\<lambda>a. alt_tag a = t) alts of None \<Rightarrow> None | Some a \<Rightarrow> alt_body a v ar
          })"

section \<open>Objects\<close>

text \<open>
  The body of \<open>BEGIN_SERIALIZE\<close> is a list of steps on the object: the macros \<open>FIELD\<close> and \<open>VARINT_FIELD\<close>,
  conditions on the fields, assignments, and early returns.
\<close>

fun do_all :: "'v serializer list \<Rightarrow> 'v serializer" where
  "do_all [] v ar = Some (v, ar)"
| "do_all (s # ss) v ar = do { (v, ar) \<leftarrow> s v ar; do_all ss v ar }"

definition FIELD :: "('v \<Rightarrow> 'f) \<Rightarrow> (('f \<Rightarrow> 'f) \<Rightarrow> 'v \<Rightarrow> 'v) \<Rightarrow> 'f serializer \<Rightarrow> 'v serializer" where
  "FIELD get upd s v ar = do { (x, ar) \<leftarrow> s (get v) ar; Some (upd (\<lambda>_. x) v, ar) }"

definition VARINT_FIELD :: "('v \<Rightarrow> 'a::len word) \<Rightarrow> (('a word \<Rightarrow> 'a word) \<Rightarrow> 'v \<Rightarrow> 'v) \<Rightarrow> 'v serializer" where
  "VARINT_FIELD get upd = FIELD get upd serialize_varint"

definition IF :: "('v \<Rightarrow> bool) \<Rightarrow> 'v serializer list \<Rightarrow> 'v serializer list \<Rightarrow> 'v serializer" where
  "IF c ss ts v ar = (if c v then do_all ss v ar else do_all ts v ar)"

definition SET :: "('v \<Rightarrow> 'v) \<Rightarrow> 'v serializer" where
  "SET f v ar = Some (f v, ar)"

definition RETURN_FALSE_IF :: "('v \<Rightarrow> bool) \<Rightarrow> 'v serializer" where
  "RETURN_FALSE_IF c v ar = (if c v then None else Some (v, ar))"

text \<open>Steps with a number or a condition that is computed from the object.\<close>

definition WITH :: "('v \<Rightarrow> 'k) \<Rightarrow> ('k \<Rightarrow> 'v serializer) \<Rightarrow> 'v serializer" where
  "WITH p g v ar = g (p v) v ar"

section \<open>What a serializer promises\<close>

text \<open>
  Saving changes no object and appends bytes that depend only on the object. \<open>readable\<close>: what is saved is
  read back, into any object and whatever follows.
\<close>

definition saves :: "'v serializer \<Rightarrow> 'v \<Rightarrow> bool" where
  "saves s v \<longleftrightarrow> (\<forall>out. s v (Saving out) = map_option (\<lambda>w. (v, Saving (out @ w))) (saved s v))"

definition loads :: "'v serializer \<Rightarrow> 'v \<Rightarrow> 'v \<Rightarrow> 'v \<Rightarrow> bool" where
  "loads s v0 v v1 \<longleftrightarrow> (\<forall>w rest. saved s v = Some w \<longrightarrow> s v0 (Loading (w @ rest)) = Some (v1, Loading rest))"

definition readable :: "'v serializer \<Rightarrow> 'v \<Rightarrow> bool" where
  "readable s v \<longleftrightarrow> (\<forall>v0. loads s v0 v v)"

definition shrinks :: "'v serializer \<Rightarrow> bool" where
  "shrinks s \<longleftrightarrow> (\<forall>v0 input v ar. s v0 (Loading input) = Some (v, ar)
     \<longrightarrow> (\<exists>rest. ar = Loading rest \<and> length rest \<le> length input))"

text \<open>The interface: a serializer that can save and read back what it loads.\<close>

locale codec =
  fixes s :: "'v \<Rightarrow> archive \<Rightarrow> ('v \<times> archive) option"
  assumes saving: "saves s v"
    and shrinking: "shrinks s"
    and reload: "s v0 (Loading input) = Some (v, ar) \<Longrightarrow> readable s v \<and> (\<exists>w. saved s v = Some w)"

text \<open>One that reads back everything, and one that in addition writes something for every object.\<close>

locale full_codec = codec +
  assumes readable: "readable s v"

locale wide_codec = codec +
  assumes wide: "saved s v \<noteq> Some []"

lemma savesI: "(\<And>out. s v (Saving out) = map_option (\<lambda>w. (v, Saving (out @ w))) w) \<Longrightarrow> saves s v \<and> saved s v = w"
  by (cases w) (simp_all add: saves_def saved_def)

lemma savesD: "saves s v \<Longrightarrow> s v (Saving out) = map_option (\<lambda>w. (v, Saving (out @ w))) (saved s v)"
  by (simp add: saves_def)

lemma loadsD: "loads s v0 v v1 \<Longrightarrow> saved s v = Some w \<Longrightarrow> s v0 (Loading (w @ rest)) = Some (v1, Loading rest)"
  by (simp add: loads_def)

lemma readableD: "readable s v \<Longrightarrow> saved s v = Some w \<Longrightarrow> s v0 (Loading (w @ rest)) = Some (v, Loading rest)"
  by (simp add: readable_def loads_def)

lemma readable_loads: "readable s v \<Longrightarrow> loads s v0 v v"
  by (simp add: readable_def)

lemma shrinksD: "shrinks s \<Longrightarrow> s v0 (Loading input) = Some (v, ar) \<Longrightarrow> \<exists>rest. ar = Loading rest \<and> length rest \<le> length input"
  by (simp add: shrinks_def)

lemma readableI: "(\<And>v0 w rest. saved s v = Some w \<Longrightarrow> s v0 (Loading (w @ rest)) = Some (v, Loading rest)) \<Longrightarrow> readable s v"
  by (simp add: readable_def loads_def)

text \<open>What a whole object saves it parses.\<close>

lemma parse_saved:
  assumes "loads s v0 v v1" and "saved s v = Some blob"
  shows "parse_binary s v0 blob = Some v1"
  using loadsD [OF assms, of "[]"] by (simp add: parse_binary_def serialize_whole_def check_stream_state_def)

section \<open>The basic serializers\<close>

lemma saved_blob: "saves (serialize_blob n) v \<and> saved (serialize_blob n) v = (if length v = n then Some v else None)"
  by (rule savesI) (simp add: serialize_blob_def)

lemma saved_int: "saves serialize_int v \<and> saved serialize_int v = Some (bytes_of_word v)"
  by (rule savesI) (simp add: serialize_int_def)

lemma saved_varint: "saves serialize_varint v \<and> saved serialize_varint v = Some (write_varint (ucast v))"
  by (rule savesI) (simp add: serialize_varint_def)

interpretation blob: full_codec "serialize_blob n" for n
proof
  show "saves (serialize_blob n) v" for v using saved_blob by blast
  show "shrinks (serialize_blob n)" by (auto simp: shrinks_def serialize_blob_def split: if_splits)
  show r: "readable (serialize_blob n) v" for v
    by (rule readableI) (auto simp: serialize_blob_def saved_blob split: if_splits)
  show "readable (serialize_blob n) v \<and> (\<exists>w. saved (serialize_blob n) v = Some w)"
    if "serialize_blob n v0 (Loading input) = Some (v, ar)" for v0 input v ar
    using that r by (auto simp: serialize_blob_def saved_blob split: if_splits)
qed

text \<open>Varints of every width that C has.\<close>

lemma read_uvarint:
  fixes acc :: "'a::len word"
  assumes "8 \<le> LENGTH('a)" and "LENGTH('a) \<le> 64"
  shows "s < LENGTH('a) \<Longrightarrow> unat v < 2 ^ (LENGTH('a) - s) \<Longrightarrow> (s \<noteq> 0 \<longrightarrow> v \<noteq> 0)
    \<Longrightarrow> read_uvarint_from (write_varint v @ rest) s n acc = (n + int (length (write_varint v)), acc OR push_bit s (ucast v), rest)"
proof (induction v arbitrary: s n acc rule: write_varint.induct)
  case (1 v)
  show ?case
  proof (cases "0x80 \<le> v")
    case True
    have v: "128 \<le> unat v" using True by (simp add: word_le_nat_alt)
    have s: "s + 7 < LENGTH('a)"
    proof (rule ccontr)
      assume "\<not> s + 7 < LENGTH('a)"
      then have "(2 :: nat) ^ (LENGTH('a) - s) \<le> 2 ^ 7" by (intro power_increasing) auto
      with v 1 show False by simp
    qed
    have e: "LENGTH('a) - s = (LENGTH('a) - (s + 7)) + 7" using s by simp
    have "unat v < 2 ^ (LENGTH('a) - (s + 7)) * 2 ^ 7" using "1.prems"(2) unfolding e power_add .
    then have d: "unat (drop_bit 7 v) < 2 ^ (LENGTH('a) - (s + 7))"
      by (simp add: unat_drop_bit less_mult_imp_div_less)
    have "unat (drop_bit 7 v) \<noteq> 0" using v by (simp add: unat_drop_bit div_eq_0_iff)
    then have nz: "drop_bit 7 v \<noteq> 0" by auto
    let ?b = "(ucast v AND 0x7f) OR 0x80 :: u8"
    have b: "\<not> unat ?b < 128" "?b \<noteq> 0" using more_byte(1) [of v] by (auto simp del: bit_numeral_word_iff)
    have low: "ucast (?b AND 0x7f) = (ucast (v AND 0x7f) :: 'a word)"
      using assms by (intro bit_word_eqI)
        (auto simp: bit_and_iff bit_or_iff bit_unsigned_iff bit_7f bit_80 simp del: bit_numeral_word_iff)
    have join: "(acc OR push_bit s (ucast (v AND 0x7f))) OR push_bit (s + 7) (ucast (drop_bit 7 v)) = acc OR push_bit s (ucast v)"
    proof (rule bit_word_eqI)
      fix k
      assume k: "k < LENGTH('a)"
      show "bit ((acc OR push_bit s (ucast (v AND 0x7f))) OR push_bit (s + 7) (ucast (drop_bit 7 v))) k
          = bit (acc OR push_bit s (ucast v)) k"
      proof (cases "k - s < 7")
        case True
        then show ?thesis using k assms
          by (auto simp: bit_and_iff bit_or_iff bit_push_bit_iff bit_drop_bit_eq bit_unsigned_iff bit_7f simp del: bit_numeral_word_iff)
      next
        case False
        then have "7 + (k - (s + 7)) = k - s" by simp
        with False show ?thesis using k assms
          by (auto simp: bit_and_iff bit_or_iff bit_push_bit_iff bit_drop_bit_eq bit_unsigned_iff bit_7f simp del: bit_numeral_word_iff)
      qed
    qed
    show ?thesis
      using "1.IH" [OF True s d] nz True b s join low
      by (simp add: write_varint.simps [of v] byte_top_bit Let_def)
  next
    case False
    then have v: "v < 0x80" by simp
    have "unat v < 128" using v by (simp add: word_less_nat_alt)
    moreover have "ucast v = (0 :: u8) \<longrightarrow> v = 0" using last_byte(1) [OF v] by (metis unsigned_0 unsigned_eq_0_iff)
    moreover have "ucast ((ucast v :: u8) AND 0x7f) = (ucast v :: 'a word)"
    proof -
      have lt: "k < 7" if "bit v k" for k using bit_below [OF that, of 7] \<open>unat v < 128\<close> by simp
      then have "k < 8" if "bit v k" for k using lt [OF that] by simp
      with lt show ?thesis
        by (intro bit_word_eqI) (auto simp: bit_and_iff bit_unsigned_iff bit_7f simp del: bit_numeral_word_iff)
    qed
    ultimately show ?thesis
      using False "1.prems" last_byte(1) [OF v]
      by (auto simp: write_varint.simps [of v] byte_top_bit Let_def)
  qed
qed

lemma read_uvarint_shrinks: "read_uvarint_from input s n acc = (r, v, rest) \<Longrightarrow> length rest \<le> length input"
  by (induction input s n acc rule: read_uvarint_from.induct) (fastforce simp: Let_def split: if_splits)+

lemma varint_full:
  assumes "8 \<le> LENGTH('a)" and "LENGTH('a) \<le> 64"
  shows "full_codec (serialize_varint :: 'a::len word serializer)" and "wide_codec (serialize_varint :: 'a::len word serializer)"
proof -
  have r: "readable serialize_varint v" for v :: "'a word"
  proof (rule readableI)
    fix v0 :: "'a word" and w rest
    assume w: "saved serialize_varint v = Some w"
    have lt: "unat v < 2 ^ LENGTH('a)" by (rule unsigned_less)
    also have "(2 :: nat) ^ LENGTH('a) \<le> 2 ^ 64" using assms by (intro power_increasing) simp_all
    finally have u: "unat (ucast v :: u64) = unat v" by (simp add: unsigned_ucast_eq take_bit_nat_eq_self)
    note lt
    moreover have "ucast (ucast v :: u64) = v"
      using assms by (intro bit_word_eqI) (auto simp: bit_unsigned_iff)
    ultimately show "serialize_varint v0 (Loading (w @ rest)) = Some (v, Loading rest)"
      using read_uvarint [OF assms, of 0 "ucast v" rest 0 0] w u by (simp add: serialize_varint_def saved_varint)
  qed
  have c: "codec (serialize_varint :: 'a word serializer)"
  proof
    show "saves serialize_varint v" for v :: "'a word" using saved_varint by blast
    show "shrinks (serialize_varint :: 'a word serializer)"
      by (auto simp: shrinks_def serialize_varint_def dest: read_uvarint_shrinks split: prod.splits)
    show "readable serialize_varint v \<and> (\<exists>w. saved serialize_varint v = Some w)" for v :: "'a word"
      using r by (simp add: saved_varint)
  qed
  with r show "full_codec (serialize_varint :: 'a word serializer)" by (simp add: full_codec_def full_codec_axioms_def)
  from c show "wide_codec (serialize_varint :: 'a word serializer)"
    by (simp add: wide_codec_def wide_codec_axioms_def saved_varint)
qed

lemma int_full:
  assumes "8 dvd LENGTH('a)"
  shows "full_codec (serialize_int :: 'a::len word serializer)" and "wide_codec (serialize_int :: 'a::len word serializer)"
proof -
  have pos: "0 < LENGTH('a) div 8" using assms by (rule width_bytes_pos)
  have r: "readable serialize_int v" for v :: "'a word"
    using assms by (intro readableI) (auto simp: serialize_int_def saved_int)
  have c: "codec (serialize_int :: 'a word serializer)"
  proof
    show "saves serialize_int v" for v :: "'a word" using saved_int by blast
    show "shrinks (serialize_int :: 'a word serializer)" by (auto simp: shrinks_def serialize_int_def split: if_splits)
    show "readable serialize_int v \<and> (\<exists>w. saved serialize_int v = Some w)" for v :: "'a word"
      using r by (simp add: saved_int)
  qed
  with r show "full_codec (serialize_int :: 'a word serializer)" by (simp add: full_codec_def full_codec_axioms_def)
  have "bytes_of_word (v :: 'a word) \<noteq> []" for v using pos length_bytes_of_word [of v] by fastforce
  with c show "wide_codec (serialize_int :: 'a word serializer)"
    by (simp add: wide_codec_def wide_codec_axioms_def saved_int)
qed

interpretation varint8: full_codec "serialize_varint :: u8 serializer" by (rule varint_full) simp_all
interpretation varint16: full_codec "serialize_varint :: u16 serializer" by (rule varint_full) simp_all
interpretation varint32: full_codec "serialize_varint :: u32 serializer" by (rule varint_full) simp_all
interpretation varint64: full_codec "serialize_varint :: u64 serializer" by (rule varint_full) simp_all
interpretation wide_varint64: wide_codec "serialize_varint :: u64 serializer" by (rule varint_full) simp_all
interpretation int8: full_codec "serialize_int :: u8 serializer" by (rule int_full) simp
interpretation int32: full_codec "serialize_int :: u32 serializer" by (rule int_full) simp
interpretation int64: full_codec "serialize_int :: u64 serializer" by (rule int_full) simp
interpretation wide_int8: wide_codec "serialize_int :: u8 serializer" by (rule int_full) simp
interpretation wide_int32: wide_codec "serialize_int :: u32 serializer" by (rule int_full) simp

lemma blob_wide: "0 < n \<Longrightarrow> wide_codec (serialize_blob n)"
  by (auto simp: wide_codec_def wide_codec_axioms_def blob.codec_axioms saved_blob)

section \<open>Vectors and strings\<close>

context codec
begin

lemma elements_saves:
  "saves (serialize_elements s) xs \<and> saved (serialize_elements s) xs = map_option concat (those (map (saved s) xs))"
proof (induction xs)
  case (Cons x xs)
  show ?case
  proof (rule savesI)
    fix out
    show "serialize_elements s (x # xs) (Saving out)
        = map_option (\<lambda>w. (x # xs, Saving (out @ w))) (map_option concat (those (map (saved s) (x # xs))))"
      using Cons.IH by (cases "saved s x"; cases "those (map (saved s) xs)") (simp_all add: savesD [OF saving] savesD)
  qed
qed (rule savesI, simp)

lemma elements_loads:
  "list_all (readable s) xs \<Longrightarrow> length ys = length xs \<Longrightarrow> loads (serialize_elements s) ys xs xs"
proof (induction xs arbitrary: ys)
  case (Cons x xs)
  then obtain y zs where ys: "ys = y # zs" "length zs = length xs" by (cases ys) auto
  show ?case unfolding loads_def
  proof (intro allI impI)
    fix w rest
    assume "saved (serialize_elements s) (x # xs) = Some w"
    then obtain u ws where u: "saved s x = Some u" "those (map (saved s) xs) = Some ws" "w = u @ concat ws"
      by (auto simp: elements_saves split: option.splits)
    have "serialize_elements s zs (Loading (concat ws @ rest)) = Some (xs, Loading rest)"
      using loadsD [OF Cons.IH, of zs "concat ws"] Cons.prems(1) ys(2) u(2) by (simp add: elements_saves)
    moreover have "s y (Loading (u @ concat ws @ rest)) = Some (x, Loading (concat ws @ rest))"
      using Cons.prems(1) u(1) by (intro readableD) simp_all
    ultimately show "serialize_elements s ys (Loading (w @ rest)) = Some (x # xs, Loading rest)" by (simp add: ys u)
  qed
qed (simp add: loads_def elements_saves)

lemma elements_reload:
  "serialize_elements s ys (Loading input) = Some (xs, ar)
    \<Longrightarrow> list_all (readable s) xs \<and> length xs = length ys \<and> (\<exists>ws. those (map (saved s) xs) = Some ws)
      \<and> (\<exists>rest. ar = Loading rest \<and> length rest \<le> length input)"
proof (induction ys arbitrary: input xs ar)
  case (Cons y ys)
  then obtain x ar1 zs where x: "s y (Loading input) = Some (x, ar1)"
      and z: "serialize_elements s ys ar1 = Some (zs, ar)" "xs = x # zs"
    by (auto simp: bind_eq_Some_conv split: prod.splits)
  obtain i1 where i1: "ar1 = Loading i1" "length i1 \<le> length input" using shrinksD [OF shrinking x] by blast
  from Cons.IH z(1) i1 reload [OF x] z(2) show ?case by fastforce
qed auto

end

lemma those_length: "those xs = Some ys \<Longrightarrow> length ys = length xs"
  by (induction xs arbitrary: ys) (auto split: option.splits)

text \<open>The bytes of a vector.\<close>

definition vector_bytes :: "'v serializer \<Rightarrow> 'v list \<Rightarrow> bytes option" where
  "vector_bytes s xs =
     (if 2 ^ 64 \<le> length xs then None
      else map_option (\<lambda>ws. write_varint (of_nat (length xs)) @ concat ws) (those (map (saved s) xs)))"

lemma length_concat_wide:
  assumes "\<And>x w. saved s x = Some w \<Longrightarrow> w \<noteq> []"
  shows "those (map (saved s) xs) = Some ws \<Longrightarrow> length xs \<le> length (concat ws)"
proof (induction xs arbitrary: ws)
  case (Cons x xs)
  then obtain u us where u: "saved s x = Some u" "those (map (saved s) xs) = Some us" "ws = u # us"
    by (auto split: option.splits)
  have "u \<noteq> []" using assms u(1) .
  then have "1 \<le> length u" by (cases u) simp_all
  with Cons.IH [OF u(2)] have "Suc (length xs) \<le> length u + length (concat us)" by linarith
  then show ?case by (simp add: u(3))
qed simp

context wide_codec
begin

lemma vector_saves: "saves (serialize_vector d s) xs \<and> saved (serialize_vector d s) xs = vector_bytes s xs"
proof (rule savesI)
  fix out
  show "serialize_vector d s xs (Saving out) = map_option (\<lambda>w. (xs, Saving (out @ w))) (vector_bytes s xs)"
    using savesD [OF conjunct1 [OF elements_saves [of xs]]]
    by (simp add: serialize_vector_def vector_bytes_def serialize_varint_def elements_saves option.map_comp o_def)
qed

lemma vector_readable: "list_all (readable s) xs \<Longrightarrow> readable (serialize_vector d s) xs"
proof (rule readableI)
  fix v0 w rest
  assume r: "list_all (readable s) xs" and w: "saved (serialize_vector d s) xs = Some w"
  then obtain ws where ws: "length xs < 2 ^ 64" "those (map (saved s) xs) = Some ws"
      "w = write_varint (of_nat (length xs)) @ concat ws"
    by (auto simp: vector_saves vector_bytes_def split: if_splits)
  have "length xs \<le> length (concat ws)" using length_concat_wide [OF _ ws(2)] wide by blast
  moreover have u: "unat (of_nat (length xs) :: u64) = length xs" using ws(1) by (simp add: unat_of_nat)
  moreover have "serialize_varint 0 (Loading (write_varint (of_nat (length xs)) @ concat ws @ rest))
      = Some (of_nat (length xs) :: u64, Loading (concat ws @ rest))"
    using readableD [OF varint64.readable, of "of_nat (length xs)"] by (simp add: saved_varint)
  moreover have "serialize_elements s (replicate (length xs) d) (Loading (concat ws @ rest)) = Some (xs, Loading rest)"
    using elements_loads [OF r, of "replicate (length xs) d"] ws(2) by (simp add: loads_def elements_saves)
  ultimately show "serialize_vector d s v0 (Loading (w @ rest)) = Some (xs, Loading rest)"
    by (simp add: serialize_vector_def ws(3))
qed

lemma vector_codec: "codec (serialize_vector d s)"
proof
  show "saves (serialize_vector d s) xs" for xs using vector_saves by blast
  have l: "list_all (readable s) xs \<and> (\<exists>w. vector_bytes s xs = Some w)
      \<and> (\<exists>rest. ar = Loading rest \<and> length rest \<le> length input)"
    if l: "serialize_vector d s v0 (Loading input) = Some (xs, ar)" for v0 input xs ar
  proof -
    obtain r cnt i1 where c: "read_uvarint_from input 0 0 (0 :: u64) = (r, cnt, i1)" using prod_cases3 by blast
    have e: "serialize_elements s (replicate (unat cnt) d) (Loading i1) = Some (xs, ar)"
      using l c by (auto simp: serialize_vector_def serialize_varint_def split: if_splits)
    from elements_reload [OF e] read_uvarint_shrinks [OF c] unsigned_less [of cnt, where ?'a = nat]
    show ?thesis by (auto simp: vector_bytes_def)
  qed
  from l show "shrinks (serialize_vector d s)" unfolding shrinks_def by blast
  show "readable (serialize_vector d s) v \<and> (\<exists>w. saved (serialize_vector d s) v = Some w)"
    if "serialize_vector d s v0 (Loading input) = Some (v, ar)" for v0 input v ar
    using l [OF that] vector_readable vector_saves by auto
qed

lemma vector_wide: "wide_codec (serialize_vector d s)"
  using vector_codec by (auto simp: wide_codec_def wide_codec_axioms_def vector_saves vector_bytes_def)

end

lemma full_vector:
  assumes "wide_codec s" and "full_codec s"
  shows "full_codec (serialize_vector d s)"
  using wide_codec.vector_codec [OF assms(1)] wide_codec.vector_readable [OF assms(1)] full_codec.readable [OF assms(2)]
  by (simp add: full_codec_def full_codec_axioms_def list_all_iff)

lemma saved_string:
  "saves serialize_string v \<and> saved serialize_string v
    = (if 2 ^ 64 \<le> length v then None else Some (write_varint (of_nat (length v)) @ v))"
  by (rule savesI) (simp add: serialize_string_def serialize_varint_def serialize_blob_def)

interpretation str: full_codec serialize_string
proof
  show "saves serialize_string v" for v using saved_string by blast
  show r: "readable serialize_string v" for v
  proof (rule readableI)
    fix v0 w rest
    assume "saved serialize_string v = Some w"
    then have v: "length v < 2 ^ 64" "w = write_varint (of_nat (length v)) @ v" by (simp_all add: saved_string split: if_splits)
    then have "unat (of_nat (length v) :: u64) = length v" by (simp add: unat_of_nat)
    moreover have "serialize_varint 0 (Loading (write_varint (of_nat (length v)) @ v @ rest))
        = Some (of_nat (length v) :: u64, Loading (v @ rest))"
      using readableD [OF varint64.readable, of "of_nat (length v)"] by (simp add: saved_varint)
    ultimately show "serialize_string v0 (Loading (w @ rest)) = Some (v, Loading rest)"
      by (simp add: serialize_string_def serialize_blob_def v(2))
  qed
  have l: "length v < 2 ^ 64 \<and> (\<exists>rest. ar = Loading rest \<and> length rest \<le> length input)"
    if l: "serialize_string v0 (Loading input) = Some (v, ar)" for v0 input v ar
  proof -
    obtain r n i1 where c: "read_uvarint_from input 0 0 (0 :: u64) = (r, n, i1)" using prod_cases3 by blast
    have e: "unat n \<le> length i1 \<and> v = take (unat n) i1 \<and> ar = Loading (drop (unat n) i1)"
      using l c by (auto simp: serialize_string_def serialize_varint_def serialize_blob_def split: if_splits)
    with read_uvarint_shrinks [OF c] unsigned_less [of n, where ?'a = nat] show ?thesis by auto
  qed
  from l show "shrinks serialize_string" unfolding shrinks_def by blast
  show "readable serialize_string v \<and> (\<exists>w. saved serialize_string v = Some w)"
    if "serialize_string v0 (Loading input) = Some (v, ar)" for v0 input v ar
    using l [OF that] r by (simp add: saved_string)
qed

section \<open>Vectors without a size\<close>

lemma length_resize [simp]: "length (resize n d v) = n"
  by (auto simp: resize_def)

context codec
begin

lemma custom_saves:
  "saves (serialize_custom n d s) xs \<and> saved (serialize_custom n d s) xs
    = (if length xs = n then map_option concat (those (map (saved s) xs)) else None)"
proof (rule savesI)
  fix out
  show "serialize_custom n d s xs (Saving out) = map_option (\<lambda>w. (xs, Saving (out @ w)))
      (if length xs = n then map_option concat (those (map (saved s) xs)) else None)"
    using savesD [OF conjunct1 [OF elements_saves [of xs]]] by (simp add: serialize_custom_def Let_def elements_saves)
qed

lemma custom_readable: "list_all (readable s) xs \<Longrightarrow> readable (serialize_custom n d s) xs"
proof (rule readableI)
  fix v0 w rest
  assume r: "list_all (readable s) xs" and w: "saved (serialize_custom n d s) xs = Some w"
  then have n: "length xs = n" and ws: "map_option concat (those (map (saved s) xs)) = Some w"
    by (simp_all add: custom_saves split: if_splits)
  then show "serialize_custom n d s v0 (Loading (w @ rest)) = Some (xs, Loading rest)"
    using elements_loads [OF r, of "resize n d v0"] by (simp add: serialize_custom_def Let_def loads_def elements_saves)
qed

lemma custom_load:
  "serialize_custom n d s v0 (Loading input) = Some (xs, ar) \<Longrightarrow> list_all (readable s) xs \<and> length xs = n
    \<and> (\<exists>ws. those (map (saved s) xs) = Some ws) \<and> (\<exists>rest. ar = Loading rest \<and> length rest \<le> length input)"
  using elements_reload [of "resize n d v0" input xs ar] by (simp add: serialize_custom_def Let_def)

lemma custom_codec: "codec (serialize_custom n d s)"
proof
  show "saves (serialize_custom n d s) xs" for xs using custom_saves by blast
  show "shrinks (serialize_custom n d s)" unfolding shrinks_def using custom_load by blast
  show "readable (serialize_custom n d s) v \<and> (\<exists>w. saved (serialize_custom n d s) v = Some w)"
    if "serialize_custom n d s v0 (Loading input) = Some (v, ar)" for v0 input v ar
    using custom_load [OF that] custom_readable by (auto simp: custom_saves)
qed

end

lemma full_custom: "full_codec s \<Longrightarrow> full_codec (serialize_custom n d s)"
  by (simp add: full_codec_def full_codec_axioms_def codec.custom_codec codec.custom_readable list_all_iff)

section \<open>Variants\<close>

lemma u8_bytes: "LENGTH(8) div 8 = Suc 0"
  by simp

lemma bytes_of_u8 [simp]: "bytes_of_word (t :: u8) = [t]"
  unfolding bytes_of_word_def u8_bytes le_bytes.simps by simp

lemma load_int8: "serialize_int v0 (Loading input) = (case input of [] \<Rightarrow> None | t # rest \<Rightarrow> Some (t :: u8, Loading rest))"
  unfolding serialize_int_def u8_bytes by (cases input) (simp_all add: word_of_bytes_def)

text \<open>An alternative: it saves its own values, and what it loads is one of them.\<close>

definition alt_codec :: "'v alternative \<Rightarrow> bool" where
  "alt_codec a \<longleftrightarrow> (\<forall>v. alt_is a v \<longrightarrow> saves (alt_body a) v) \<and> shrinks (alt_body a)
     \<and> (\<forall>v0 input v ar. alt_body a v0 (Loading input) = Some (v, ar)
          \<longrightarrow> alt_is a v \<and> readable (alt_body a) v \<and> (\<exists>w. saved (alt_body a) v = Some w))"

text \<open>No value belongs to two alternatives.\<close>

definition exclusive :: "'v alternative list \<Rightarrow> bool" where
  "exclusive alts \<longleftrightarrow> (\<forall>v. \<forall>a \<in> set alts. alt_is a v \<longrightarrow> find (\<lambda>b. alt_is b v) alts = Some a)"

lemma ALT_saved:
  assumes "saves s p" and "\<And>p. sel (mk p) = Some p"
  shows "saves (alt_body (ALT t sel mk d s)) (mk p) \<and> saved (alt_body (ALT t sel mk d s)) (mk p) = saved s p"
proof (rule savesI)
  fix out
  show "alt_body (ALT t sel mk d s) (mk p) (Saving out) = map_option (\<lambda>w. (mk p, Saving (out @ w))) (saved s p)"
    using savesD [OF assms(1), of out] assms(2) by (cases "saved s p") (simp_all add: ALT_def)
qed

lemma ALT_readable:
  assumes "saves s p" and "readable s p" and "\<And>p. sel (mk p) = Some p"
  shows "readable (alt_body (ALT t sel mk d s)) (mk p)"
proof (rule readableI)
  fix v0 w rest
  assume "saved (alt_body (ALT t sel mk d s)) (mk p) = Some w"
  then have "saved s p = Some w" using ALT_saved [of s p sel mk t d] assms by simp
  then show "alt_body (ALT t sel mk d s) v0 (Loading (w @ rest)) = Some (mk p, Loading rest)"
    using readableD [OF assms(2)] by (simp add: ALT_def)
qed

lemma ALT_codec:
  assumes c: "codec s" and sel: "\<And>p. sel (mk p) = Some p" and mk: "\<And>v p. sel v = Some p \<Longrightarrow> v = mk p"
  shows "alt_codec (ALT t sel mk d s)"
proof -
  let ?a = "ALT t sel mk d s"
  have l: "\<exists>p. v = mk p \<and> s d (Loading input) = Some (p, ar)" if "alt_body ?a v0 (Loading input) = Some (v, ar)" for v0 v input ar
    using that by (auto simp: ALT_def bind_eq_Some_conv)
  have "saves (alt_body ?a) v" if v: "alt_is ?a v" for v
  proof -
    obtain p where "sel v = Some p" using v by (auto simp: ALT_def)
    then have "v = mk p" by (rule mk)
    then show ?thesis using ALT_saved [of s p sel mk] codec.saving [OF c] sel by simp
  qed
  moreover have "shrinks (alt_body ?a)"
    unfolding shrinks_def using l shrinksD [OF codec.shrinking [OF c]] by blast
  moreover have "alt_is ?a v \<and> readable (alt_body ?a) v \<and> (\<exists>w. saved (alt_body ?a) v = Some w)"
    if b: "alt_body ?a v0 (Loading input) = Some (v, ar)" for v0 input v ar
  proof -
    obtain p where p: "v = mk p" "s d (Loading input) = Some (p, ar)" using l [OF b] by blast
    have "alt_is ?a v" by (simp add: ALT_def p(1) sel)
    with p(1) codec.reload [OF c p(2)] ALT_readable [of s p sel mk] ALT_saved [of s p sel mk] codec.saving [OF c] sel
    show ?thesis by auto
  qed
  ultimately show ?thesis unfolding alt_codec_def by blast
qed

lemma variant_saves:
  assumes "\<forall>a \<in> set alts. alt_codec a"
  shows "saves (serialize_variant alts) v \<and> saved (serialize_variant alts) v
    = (case find (\<lambda>a. alt_is a v) alts of None \<Rightarrow> None | Some a \<Rightarrow> map_option (\<lambda>w. alt_tag a # w) (saved (alt_body a) v))"
proof (rule savesI)
  fix out
  show "serialize_variant alts v (Saving out) = map_option (\<lambda>w. (v, Saving (out @ w)))
     (case find (\<lambda>a. alt_is a v) alts of None \<Rightarrow> None | Some a \<Rightarrow> map_option (\<lambda>w. alt_tag a # w) (saved (alt_body a) v))"
  proof (cases "find (\<lambda>a. alt_is a v) alts")
    case (Some a)
    then have "a \<in> set alts" "alt_is a v" by (auto simp: find_Some_iff)
    then have "saves (alt_body a) v" using assms by (auto simp: alt_codec_def)
    from savesD [OF this, of "out @ [alt_tag a]"] Some show ?thesis
      by (cases "saved (alt_body a) v") (simp_all add: serialize_variant_def serialize_int_def)
  qed (simp add: serialize_variant_def)
qed

lemma variant_readable:
  assumes "\<forall>a \<in> set alts. alt_codec a" and "find (\<lambda>a. alt_is a v) alts = Some a"
    and "find (\<lambda>b. alt_tag b = alt_tag a) alts = Some a" and "readable (alt_body a) v"
  shows "readable (serialize_variant alts) v"
proof (rule readableI)
  fix v0 w rest
  assume "saved (serialize_variant alts) v = Some w"
  then obtain u where u: "saved (alt_body a) v = Some u" "w = alt_tag a # u"
    using variant_saves [OF assms(1)] assms(2) by auto
  from readableD [OF assms(4) u(1)] assms(3) u(2)
  show "serialize_variant alts v0 (Loading (w @ rest)) = Some (v, Loading rest)"
    by (simp add: serialize_variant_def load_int8)
qed

lemma variant_codec:
  assumes a: "\<forall>a \<in> set alts. alt_codec a" and ex: "exclusive alts"
  shows "wide_codec (serialize_variant alts)"
proof
  show "saves (serialize_variant alts) v" for v using variant_saves [OF a] by blast
  have l: "\<exists>a t rest. input = t # rest \<and> find (\<lambda>b. alt_tag b = t) alts = Some a \<and> alt_tag a = t \<and> a \<in> set alts
      \<and> alt_body a v0 (Loading rest) = Some (v, ar)"
    if "serialize_variant alts v0 (Loading input) = Some (v, ar)" for v0 input v ar
    using that by (auto simp: serialize_variant_def load_int8 find_Some_iff split: list.splits option.splits)
  show "shrinks (serialize_variant alts)"
    unfolding shrinks_def
  proof (intro allI impI)
    fix v0 input v ar
    assume "serialize_variant alts v0 (Loading input) = Some (v, ar)"
    then obtain b t rest where b: "input = t # rest" "b \<in> set alts" "alt_body b v0 (Loading rest) = Some (v, ar)"
      using l by blast
    then have "shrinks (alt_body b)" using a by (simp add: alt_codec_def)
    from shrinksD [OF this b(3)] b(1) show "\<exists>rest. ar = Loading rest \<and> length rest \<le> length input" by auto
  qed
  show "readable (serialize_variant alts) v \<and> (\<exists>w. saved (serialize_variant alts) v = Some w)"
    if lv: "serialize_variant alts v0 (Loading input) = Some (v, ar)" for v0 input v ar
  proof -
    obtain b t rest where b: "find (\<lambda>b. alt_tag b = t) alts = Some b" "alt_tag b = t" "b \<in> set alts"
        "alt_body b v0 (Loading rest) = Some (v, ar)"
      using l [OF lv] by blast
    then have c: "alt_is b v" "readable (alt_body b) v" "\<exists>w. saved (alt_body b) v = Some w" using a unfolding alt_codec_def by blast+
    moreover from c(1) b(3) have "find (\<lambda>b. alt_is b v) alts = Some b" using ex by (simp add: exclusive_def)
    ultimately show ?thesis using variant_readable [OF a] variant_saves [OF a, of v] b(1,2) by auto
  qed
  show "saved (serialize_variant alts) v \<noteq> Some []" for v
    using variant_saves [OF a, of v] by (auto split: option.splits)
qed

section \<open>Objects\<close>

declare do_all.simps [simp del]

named_theorems saving_rules \<open>saving the steps of an object, and the bytes they write\<close>
named_theorems shrinks_rules \<open>loading leaves no more than it was given\<close>

lemma saves_Nil: "saves (do_all []) v" "saved (do_all []) v = Some []"
  by (simp_all add: saves_def saved_def do_all.simps)

lemma saves_Cons:
  assumes "saves s v" and "saves (do_all ss) v"
  shows "saves (do_all (s # ss)) v"
    and "saved (do_all (s # ss)) v = do { w \<leftarrow> saved s v; map_option (\<lambda>u. w @ u) (saved (do_all ss) v) }"
proof -
  have "saves (do_all (s # ss)) v \<and> saved (do_all (s # ss)) v = do { w \<leftarrow> saved s v; map_option (\<lambda>u. w @ u) (saved (do_all ss) v) }"
    by (rule savesI, cases "saved s v"; cases "saved (do_all ss) v") (simp_all add: do_all.simps savesD [OF assms(1)] savesD [OF assms(2)])
  then show "saves (do_all (s # ss)) v"
    and "saved (do_all (s # ss)) v = do { w \<leftarrow> saved s v; map_option (\<lambda>u. w @ u) (saved (do_all ss) v) }" by blast+
qed

lemma saves_do_all [saving_rules]: "\<forall>s \<in> set ss. saves s v \<Longrightarrow> saves (do_all ss) v"
  by (induction ss) (simp_all add: saves_Nil saves_Cons)

lemma saved_do_all:
  assumes "\<forall>s \<in> set ss. saves s v"
  shows "saved (do_all ss) v = map_option concat (those (map (\<lambda>s. saved s v) ss))"
  using assms
proof (induction ss)
  case (Cons s ss)
  then have "saves s v" "saves (do_all ss) v" by (simp_all add: saves_do_all)
  from saves_Cons(2) [OF this] Cons show ?case
    by (cases "saved s v"; cases "those (map (\<lambda>s. saved s v) ss)") simp_all
qed (simp add: saves_Nil)

lemma those_Some: "(\<exists>ys. those xs = Some ys) \<longleftrightarrow> (\<forall>x \<in> set xs. \<exists>y. x = Some y)"
  by (induction xs) (auto split: option.splits)

lemma saved_do_all_Some:
  "\<forall>s \<in> set ss. saves s v \<Longrightarrow> \<forall>s \<in> set ss. \<exists>w. saved s v = Some w \<Longrightarrow> \<exists>w. saved (do_all ss) v = Some w"
  using those_Some [of "map (\<lambda>s. saved s v) ss"] by (auto simp: saved_do_all)

lemma saved_do_all_None:
  "\<forall>s \<in> set ss. saves s v \<Longrightarrow> saved (do_all ss) v = None \<longleftrightarrow> list_ex (\<lambda>s. saved s v = None) ss"
proof (induction ss)
  case (Cons s ss)
  then have "saves s v" "saves (do_all ss) v" by (simp_all add: saves_do_all)
  from saves_Cons(2) [OF this] Cons show ?case by (cases "saved s v") auto
qed (simp add: saves_Nil)

lemma saves_FIELD [saving_rules]:
  assumes "saves s (get v)" and "upd (\<lambda>_. get v) v = v"
  shows "saves (FIELD get upd s) v" and "saved (FIELD get upd s) v = saved s (get v)"
proof -
  have "saves (FIELD get upd s) v \<and> saved (FIELD get upd s) v = saved s (get v)"
    by (rule savesI, cases "saved s (get v)") (simp_all add: FIELD_def savesD [OF assms(1)] assms(2))
  then show "saves (FIELD get upd s) v" and "saved (FIELD get upd s) v = saved s (get v)" by blast+
qed

lemma saves_IF [saving_rules]:
  assumes "c v \<Longrightarrow> saves (do_all ss) v" and "\<not> c v \<Longrightarrow> saves (do_all ts) v"
  shows "saves (IF c ss ts) v" and "saved (IF c ss ts) v = (if c v then saved (do_all ss) v else saved (do_all ts) v)"
  using assms by (simp_all add: saves_def saved_def IF_def)

lemma saves_RETURN_FALSE_IF [saving_rules]:
  "saves (RETURN_FALSE_IF c) v" "saved (RETURN_FALSE_IF c) v = (if c v then None else Some [])"
  by (simp_all add: saves_def saved_def RETURN_FALSE_IF_def)

lemma saves_SET [saving_rules]:
  assumes "f v = v"
  shows "saves (SET f) v" and "saved (SET f) v = Some []"
  using assms by (simp_all add: saves_def saved_def SET_def)

lemma shrinks_SET [shrinks_rules]: "shrinks (SET f)"
  by (simp add: shrinks_def SET_def)

lemma shrinks_do_all [shrinks_rules]: "\<forall>s \<in> set ss. shrinks s \<Longrightarrow> shrinks (do_all ss)"
proof (induction ss)
  case (Cons s ss)
  show ?case
    unfolding shrinks_def
  proof (intro allI impI)
    fix v0 input v ar
    assume "do_all (s # ss) v0 (Loading input) = Some (v, ar)"
    then obtain v1 ar1 where l: "s v0 (Loading input) = Some (v1, ar1)" "do_all ss v1 ar1 = Some (v, ar)"
      by (auto simp: bind_eq_Some_conv do_all.simps)
    obtain i1 where i1: "ar1 = Loading i1" "length i1 \<le> length input" using shrinksD [of s v0 input v1 ar1] l(1) Cons.prems by auto
    obtain i2 where "ar = Loading i2" "length i2 \<le> length i1" using shrinksD [of "do_all ss" v1 i1 v ar] Cons l(2) i1(1) by auto
    with i1 show "\<exists>rest. ar = Loading rest \<and> length rest \<le> length input" by auto
  qed
qed (simp add: shrinks_def do_all.simps)

lemma shrinks_FIELD [shrinks_rules]: "shrinks s \<Longrightarrow> shrinks (FIELD get upd s)"
  by (fastforce simp: shrinks_def FIELD_def bind_eq_Some_conv)

lemma shrinks_IF [shrinks_rules]: "shrinks (do_all ss) \<Longrightarrow> shrinks (do_all ts) \<Longrightarrow> shrinks (IF c ss ts)"
  by (auto simp: shrinks_def IF_def split: if_splits)

lemma shrinks_RETURN_FALSE_IF [shrinks_rules]: "shrinks (RETURN_FALSE_IF c)"
  by (auto simp: shrinks_def RETURN_FALSE_IF_def split: if_splits)

text \<open>Reading back, step by step; \<open>v0\<close> is the object that is loaded into and \<open>v\<close> the one that was saved.\<close>

lemma loads_Nil: "loads (do_all []) v0 v v0"
  by (simp add: loads_def saves_Nil do_all.simps)

lemma loads_Cons:
  assumes "saves s v" and "saves (do_all ss) v" and "loads s v0 v v1" and "loads (do_all ss) v1 v v2"
  shows "loads (do_all (s # ss)) v0 v v2"
  unfolding loads_def
proof (intro allI impI)
  fix w rest
  assume "saved (do_all (s # ss)) v = Some w"
  then obtain x y where "saved s v = Some x" "saved (do_all ss) v = Some y" "w = x @ y"
    using saves_Cons(2) [OF assms(1,2)] by (auto simp: bind_eq_Some_conv)
  with loadsD [OF assms(3), of x "y @ rest"] loadsD [OF assms(4), of y rest]
  show "do_all (s # ss) v0 (Loading (w @ rest)) = Some (v2, Loading rest)" by (simp add: do_all.simps)
qed

lemma loads_FIELD:
  assumes "readable s (get v)" and "saves s (get v)" and "upd (\<lambda>_. get v) v = v"
  shows "loads (FIELD get upd s) v0 v (upd (\<lambda>_. get v) v0)"
proof -
  have "saved (FIELD get upd s) v = saved s (get v)" using assms(2,3) by (rule saves_FIELD(2))
  then show ?thesis using readableD [OF assms(1)] by (simp add: loads_def FIELD_def)
qed

definition loads_all :: "'v serializer list \<Rightarrow> 'v \<Rightarrow> 'v \<Rightarrow> 'v \<Rightarrow> bool" where
  "loads_all ss v0 v v1 \<longleftrightarrow> ((\<forall>s \<in> set ss. saves s v) \<longrightarrow> loads (do_all ss) v0 v v1)"

lemma loads_allD: "loads_all ss v0 v v1 \<Longrightarrow> \<forall>s \<in> set ss. saves s v \<Longrightarrow> loads (do_all ss) v0 v v1"
  by (simp add: loads_all_def)

lemma loads_Cons_step:
  assumes "loads s v0 v v1" and "loads_all ss v1 v v2"
  shows "loads_all (s # ss) v0 v v2"
  using assms loads_Cons [of s v ss v0 v1 v2] by (auto simp: loads_all_def saves_do_all)

lemma loads_Cons_FIELD:
  assumes "readable s (get v)" and "saves s (get v)" and "upd (\<lambda>_. get v) v = v"
    and "loads_all ss (upd (\<lambda>_. get v) v0) v v2"
  shows "loads_all (FIELD get upd s # ss) v0 v v2"
proof (rule loads_Cons_step)
  show "loads (FIELD get upd s) v0 v (upd (\<lambda>_. get v) v0)" using assms(1-3) by (rule loads_FIELD)
qed (rule assms(4))

text \<open>A condition, which must be the same for both objects, puts its case in front of the rest.\<close>

lemma do_all_append: "do_all (ss @ ts) v ar = do { (v, ar) \<leftarrow> do_all ss v ar; do_all ts v ar }"
  by (induction ss arbitrary: v ar) (auto simp: do_all.simps Option.bind_assoc split: Option.bind_split)

lemma do_all_IF: "do_all (IF c ss ts # us) v ar = do_all ((if c v then ss else ts) @ us) v ar"
  by (simp add: IF_def do_all_append do_all.simps)

lemma loads_Cons_IF:
  assumes "c v0 = c v" and "c v \<Longrightarrow> \<forall>s \<in> set ss. saves s v" and "\<not> c v \<Longrightarrow> \<forall>s \<in> set ts. saves s v"
    and "c v \<Longrightarrow> loads_all (ss @ us) v0 v v2" and "\<not> c v \<Longrightarrow> loads_all (ts @ us) v0 v v2"
  shows "loads_all (IF c ss ts # us) v0 v v2"
proof -
  have "loads (do_all (IF c ss ts # us)) v0 v v2 \<longleftrightarrow> loads (do_all ((if c v then ss else ts) @ us)) v0 v v2"
    using assms(1) by (auto simp: loads_def saved_def do_all_IF)
  with assms show ?thesis by (cases "c v") (auto simp: loads_all_def)
qed

lemma loads_Cons_RETURN_FALSE_IF:
  assumes "\<not> c v \<Longrightarrow> \<not> c v0" and "\<not> c v \<Longrightarrow> loads_all us v0 v v2"
  shows "loads_all (RETURN_FALSE_IF c # us) v0 v v2"
proof (cases "c v")
  case True
  then show ?thesis by (simp add: loads_all_def loads_def saved_def RETURN_FALSE_IF_def do_all.simps)
next
  case False
  then have "saved (do_all (RETURN_FALSE_IF c # us)) v = saved (do_all us) v" by (simp add: saved_def RETURN_FALSE_IF_def do_all.simps)
  with False assms show ?thesis by (simp add: loads_all_def loads_def RETURN_FALSE_IF_def do_all.simps)
qed

lemma loads_Cons_SET:
  assumes "f v = v" and "loads_all us (f v0) v v2"
  shows "loads_all (SET f # us) v0 v v2"
  using assms by (simp add: loads_all_def loads_def saved_def SET_def do_all.simps)

lemma loads_end: "v0 = v1 \<Longrightarrow> loads_all [] v0 v v1"
  by (simp add: loads_all_def loads_Nil)

lemmas loads_steps = loads_Cons_FIELD loads_Cons_IF loads_Cons_RETURN_FALSE_IF loads_Cons_SET loads_end

text \<open>What the steps of loading leave behind.\<close>

lemma do_all_loadE:
  assumes "do_all (s # ss) v0 (Loading input) = Some (v, ar)" and "shrinks s"
  obtains v1 i1 where "s v0 (Loading input) = Some (v1, Loading i1)" and "do_all ss v1 (Loading i1) = Some (v, ar)"
  using assms shrinksD [OF assms(2)] by (fastforce simp: bind_eq_Some_conv do_all.simps)

lemma FIELD_loadE:
  assumes "FIELD get upd s v0 (Loading input) = Some (v1, ar)"
  obtains x where "v1 = upd (\<lambda>_. x) v0" and "codec s \<Longrightarrow> \<exists>w. saved s x = Some w" and "codec s \<Longrightarrow> readable s x"
proof -
  obtain x where x: "s (get v0) (Loading input) = Some (x, ar)" "v1 = upd (\<lambda>_. x) v0"
    using assms by (auto simp: FIELD_def bind_eq_Some_conv)
  from that [OF x(2)] codec.reload [of s "get v0" input x ar] x(1) show thesis by blast
qed

lemma RETURN_FALSE_IF_load: "RETURN_FALSE_IF c v0 ar = Some (v1, ar') \<longleftrightarrow> \<not> c v0 \<and> v1 = v0 \<and> ar' = ar"
  by (auto simp: RETURN_FALSE_IF_def)

lemma SET_load: "SET f v0 ar = Some (v1, ar') \<longleftrightarrow> v1 = f v0 \<and> ar' = ar"
  by (auto simp: SET_def)

lemma IF_load: "IF c ss ts v0 ar = (if c v0 then do_all ss v0 ar else do_all ts v0 ar)"
  by (rule IF_def)

lemma do_all_Nil: "do_all [] v0 ar = Some (v1, ar') \<longleftrightarrow> v1 = v0 \<and> ar' = ar"
  by (auto simp: do_all.simps)

lemma RETURN_FALSE_IF_loadE:
  assumes "RETURN_FALSE_IF c v0 ar = Some (v1, ar')"
  obtains "v1 = v0" and "ar' = ar" and "\<not> c v1"
  using assms by (auto simp: RETURN_FALSE_IF_load)

lemma do_all_NilE:
  assumes "do_all [] v0 ar = Some (v1, ar')"
  obtains "v1 = v0" and "ar' = ar"
  using assms by (auto simp: do_all_Nil)

lemmas load_elims = FIELD_loadE RETURN_FALSE_IF_loadE do_all_NilE

section \<open>Structures\<close>

named_theorems codecs \<open>the serializers that satisfy the interface\<close>

lemmas codec.saving [codecs] and codec.shrinking [codecs] and full_codec.readable [codecs]
lemmas full_is_codec [codecs] = full_codec.axioms(1)
lemmas wide_is_codec [codecs] = wide_codec.axioms(1)

lemma basic_codecs [codecs]:
  "full_codec (serialize_blob n)" "full_codec serialize_string"
  "full_codec (serialize_varint :: u8 serializer)" "full_codec (serialize_varint :: u16 serializer)"
  "full_codec (serialize_varint :: u32 serializer)" "full_codec (serialize_varint :: u64 serializer)"
  "full_codec (serialize_int :: u8 serializer)" "full_codec (serialize_int :: u32 serializer)"
  "full_codec (serialize_int :: u64 serializer)"
  by (intro blob.full_codec_axioms str.full_codec_axioms varint8.full_codec_axioms varint16.full_codec_axioms
    varint32.full_codec_axioms varint64.full_codec_axioms int8.full_codec_axioms int32.full_codec_axioms
    int64.full_codec_axioms)+

lemma wide_codecs [codecs]:
  "0 < n \<Longrightarrow> wide_codec (serialize_blob n)" "wide_codec (serialize_varint :: u64 serializer)"
  "wide_codec (serialize_int :: u8 serializer)" "wide_codec (serialize_int :: u32 serializer)"
  "wide_codec s \<Longrightarrow> wide_codec (serialize_vector d s)"
  by (rule blob_wide wide_varint64.wide_codec_axioms wide_int8.wide_codec_axioms wide_int32.wide_codec_axioms
    wide_codec.vector_wide, assumption?)+

lemmas full_vector [codecs] and full_custom [codecs] and codec.custom_codec [codecs]

text \<open>A structure all of whose fields are written.\<close>

lemma full_structure:
  assumes saves: "\<And>v. \<forall>s \<in> set ss. saves s v" and "\<forall>s \<in> set ss. shrinks s" and reads: "\<And>v0 v. loads_all ss v0 v v"
    and "\<And>v0 input v ar. do_all ss v0 (Loading input) = Some (v, ar) \<Longrightarrow> \<forall>s \<in> set ss. \<exists>w. saved s v = Some w"
  shows "full_codec (do_all ss)"
proof
  show r: "readable (do_all ss) v" for v using loads_allD [OF reads saves] by (simp add: readable_def)
  show "readable (do_all ss) v \<and> (\<exists>w. saved (do_all ss) v = Some w)"
    if "do_all ss v0 (Loading input) = Some (v, ar)" for v0 input v ar
    using r saved_do_all_Some [OF saves] assms(4) [OF that] by blast
qed (use saves assms(2) in \<open>simp_all add: saves_do_all shrinks_do_all\<close>)

text \<open>A structure whose fields need not read back everything, but what they load.\<close>

lemma codec_structure:
  assumes saves: "\<And>v. \<forall>s \<in> set ss. saves s v" and "\<forall>s \<in> set ss. shrinks s"
    and "\<And>v0 input v ar. do_all ss v0 (Loading input) = Some (v, ar) \<Longrightarrow> \<forall>s \<in> set ss. \<exists>w. saved s v = Some w"
    and reads: "\<And>v0 input v ar v1. do_all ss v0 (Loading input) = Some (v, ar) \<Longrightarrow> loads_all ss v1 v v"
  shows "codec (do_all ss)"
proof
  show "readable (do_all ss) v \<and> (\<exists>w. saved (do_all ss) v = Some w)"
    if "do_all ss v0 (Loading input) = Some (v, ar)" for v0 input v ar
    using loads_allD [OF reads saves, OF that] saved_do_all_Some [OF saves assms(3)] that by (auto simp: readable_def)
qed (use saves assms(2) in \<open>simp_all add: saves_do_all shrinks_do_all\<close>)

lemma wide_structure:
  assumes "codec (do_all ss)" and "\<And>v. \<forall>s \<in> set ss. saves s v" and "\<exists>s \<in> set ss. \<forall>v. saved s v \<noteq> Some []"
  shows "wide_codec (do_all ss)"
proof -
  have "saved (do_all ss) v \<noteq> Some []" for v
  proof
    assume "saved (do_all ss) v = Some []"
    then obtain ws where ws: "those (map (\<lambda>s. saved s v) ss) = Some ws" "concat ws = []"
      using saved_do_all [OF assms(2)] by auto
    obtain s where s: "s \<in> set ss" "saved s v \<noteq> Some []" using assms(3) by blast
    from ws(1) s(1) have "\<exists>w \<in> set ws. saved s v = Some w"
      by (induction ss arbitrary: ws) (auto split: option.splits)
    with ws(2) s(2) show False by auto
  qed
  with assms(1) show ?thesis by (simp add: wide_codec_def wide_codec_axioms_def)
qed

section \<open>Objects that read back what they have loaded\<close>

text \<open>
  An object whose steps depend on what has been loaded into it does not read back every object, but those
  that were loaded, when it starts again with the same object. \<open>P\<close> is an invariant of loading.
\<close>

definition writes :: "'v serializer \<Rightarrow> 'v \<Rightarrow> bytes \<Rightarrow> bool" where
  "writes s v w \<longleftrightarrow> (\<forall>out. s v (Saving out) = Some (v, Saving (out @ w)))"

definition reloads :: "'v serializer \<Rightarrow> ('v \<Rightarrow> bool) \<Rightarrow> bool" where
  "reloads s P \<longleftrightarrow> shrinks s \<and> (\<forall>v0 input v ar. P v0 \<longrightarrow> s v0 (Loading input) = Some (v, ar)
     \<longrightarrow> P v \<and> (\<exists>w. writes s v w \<and> (\<forall>rest. s v0 (Loading (w @ rest)) = Some (v, Loading rest))))"

text \<open>
  A step keeps a function of the object, or does not disturb what another one writes; \<open>P\<close> is what is known of the
  object before the second step.
\<close>

definition keeps :: "'v serializer \<Rightarrow> ('v \<Rightarrow> 'x) \<Rightarrow> bool" where
  "keeps s f \<longleftrightarrow> (\<forall>v0 ar v ar'. s v0 ar = Some (v, ar') \<longrightarrow> f v = f v0)"

definition indep :: "('v \<Rightarrow> bool) \<Rightarrow> 'v serializer \<Rightarrow> 'v serializer \<Rightarrow> bool" where
  "indep P s t \<longleftrightarrow> (\<forall>v0 ar v ar' w. P v0 \<longrightarrow> t v0 ar = Some (v, ar') \<longrightarrow> writes s v0 w \<longrightarrow> writes s v w)"

named_theorems keeps_rules \<open>what a step leaves as it is\<close>
named_theorems indep_rules \<open>steps that do not disturb each other\<close>
named_theorems reload_rules \<open>steps that read back what they have loaded\<close>

lemma reloadsI:
  assumes "shrinks s"
    and "\<And>v0 input v ar. P v0 \<Longrightarrow> s v0 (Loading input) = Some (v, ar)
      \<Longrightarrow> P v \<and> (\<exists>w. writes s v w \<and> (\<forall>rest. s v0 (Loading (w @ rest)) = Some (v, Loading rest)))"
  shows "reloads s P"
  using assms by (simp add: reloads_def)

lemma reloads_shrinks: "reloads s P \<Longrightarrow> shrinks s"
  by (simp add: reloads_def)

lemma reloadsE:
  assumes "reloads s P" and "P v0" and "s v0 (Loading input) = Some (v, ar)"
  obtains w rest where "P v" and "writes s v w" and "\<And>rest. s v0 (Loading (w @ rest)) = Some (v, Loading rest)"
    and "ar = Loading rest" and "length rest \<le> length input"
proof -
  from assms have "P v \<and> (\<exists>w. writes s v w \<and> (\<forall>rest. s v0 (Loading (w @ rest)) = Some (v, Loading rest)))"
    unfolding reloads_def by blast
  then obtain w where w: "P v" "writes s v w" "\<And>rest. s v0 (Loading (w @ rest)) = Some (v, Loading rest)" by blast
  obtain rest where "ar = Loading rest" "length rest \<le> length input"
    using shrinksD [OF reloads_shrinks [OF assms(1)] assms(3)] by blast
  with w show thesis by (rule that)
qed

lemma writesD: "writes s v w \<Longrightarrow> s v (Saving out) = Some (v, Saving (out @ w))"
  by (simp add: writes_def)

lemma writes_saved: "writes s v w \<Longrightarrow> saved s v = Some w"
  by (simp add: writes_def saved_def)

lemma writes_iff: "saves s v \<Longrightarrow> writes s v w \<longleftrightarrow> saved s v = Some w"
  by (cases "saved s v") (simp_all add: writes_def savesD)

lemma codec_reloads:
  assumes "codec s"
  shows "reloads s (\<lambda>_. True)"
proof (rule reloadsI)
  show "shrinks s" using assms by (rule codec.shrinking)
  fix v0 input v ar
  assume "s v0 (Loading input) = Some (v, ar)"
  from codec.reload [OF assms this] codec.saving [OF assms, of v]
  show "True \<and> (\<exists>w. writes s v w \<and> (\<forall>rest. s v0 (Loading (w @ rest)) = Some (v, Loading rest)))"
    by (auto simp: writes_iff dest: readableD)
qed

text \<open>The steps.\<close>

lemma keeps_do_all [keeps_rules]: "keeps (do_all []) f" "keeps s f \<Longrightarrow> keeps (do_all ss) f \<Longrightarrow> keeps (do_all (s # ss)) f"
  by (fastforce simp: keeps_def do_all.simps bind_eq_Some_conv)+

lemma keeps_FIELD [keeps_rules]: "(\<And>x v. f (upd (\<lambda>_. x) v) = f v) \<Longrightarrow> keeps (FIELD get upd s) f"
  by (auto simp: keeps_def FIELD_def bind_eq_Some_conv)

lemma keeps_IF [keeps_rules]: "keeps (do_all ss) f \<Longrightarrow> keeps (do_all ts) f \<Longrightarrow> keeps (IF c ss ts) f"
  by (auto simp: keeps_def IF_def split: if_splits)

lemma keeps_RETURN_FALSE_IF [keeps_rules]: "keeps (RETURN_FALSE_IF c) f"
  by (auto simp: keeps_def RETURN_FALSE_IF_def split: if_splits)

lemma keeps_SET [keeps_rules]: "(\<And>v. f (g v) = f v) \<Longrightarrow> keeps (SET g) f"
  by (auto simp: keeps_def SET_def)

lemma writes_FIELD:
  assumes "\<And>x v. get (upd (\<lambda>_. x) v) = x" and "\<And>v. upd (\<lambda>_. get v) v = v"
  shows "writes (FIELD get upd s) v w \<longleftrightarrow> writes s (get v) w"
proof -
  have e: "x = get v" if "upd (\<lambda>_. x) v = v" for x using assms(1) [of x v] that by simp
  show ?thesis by (auto simp: writes_def FIELD_def bind_eq_Some_conv assms(2) dest: e)
qed

lemma writes_IF: "writes (IF c ss ts) v w \<longleftrightarrow> (if c v then writes (do_all ss) v w else writes (do_all ts) v w)"
  by (simp add: writes_def IF_def)

lemma writes_RETURN_FALSE_IF: "writes (RETURN_FALSE_IF c) v w \<longleftrightarrow> \<not> c v \<and> w = []"
  by (auto simp: writes_def RETURN_FALSE_IF_def)

lemma writes_SET: "writes (SET f) v w \<longleftrightarrow> f v = v \<and> w = []"
  by (auto simp: writes_def SET_def)

lemma writes_Nil: "writes (do_all []) v w \<longleftrightarrow> w = []"
  by (auto simp: writes_def do_all.simps)

lemma writes_Cons: "writes s v x \<Longrightarrow> writes (do_all ss) v y \<Longrightarrow> writes (do_all (s # ss)) v (x @ y)"
  by (simp add: writes_def do_all.simps)

lemma writes_single: "writes (do_all [s]) v w \<longleftrightarrow> writes s v w"
  by (simp add: writes_def do_all.simps bind_eq_Some_conv)

text \<open>When two steps leave the object unchanged, so does each, when only one of them may assign.\<close>

definition assigns :: "'v serializer \<Rightarrow> bool" where
  "assigns s \<longleftrightarrow> (\<exists>f b. \<forall>v out. s v (Saving out) = map_option (\<lambda>w. (f v, Saving (out @ w))) (b v))"

lemma assigns_saves: "(\<And>v. saves s v) \<Longrightarrow> assigns s"
  unfolding assigns_def by (rule exI [of _ id], rule exI [of _ "saved s"]) (simp add: savesD)

lemma assigns_SET [indep_rules]: "assigns (SET f)"
  unfolding assigns_def by (rule exI [of _ f], rule exI [of _ "\<lambda>_. Some []"]) (simp add: SET_def)

lemma assigns_do_all [indep_rules]: "assigns (do_all [])" "assigns s \<Longrightarrow> assigns (do_all ss) \<Longrightarrow> assigns (do_all (s # ss))"
proof -
  show "assigns (do_all [] :: 'a serializer)" by (rule assigns_saves) (simp add: saves_Nil)
  assume "assigns s" and "assigns (do_all ss)"
  then obtain f b g c where f: "\<And>v out. s v (Saving out) = map_option (\<lambda>w. (f v, Saving (out @ w))) (b v)"
      and g: "\<And>v out. do_all ss v (Saving out) = map_option (\<lambda>w. (g v, Saving (out @ w))) (c v)"
    unfolding assigns_def by blast
  show "assigns (do_all (s # ss))" unfolding assigns_def
  proof (rule exI [of _ "\<lambda>v. g (f v)"], rule exI [of _ "\<lambda>v. do { x \<leftarrow> b v; y \<leftarrow> c (f v); Some (x @ y) }"], intro allI)
    fix v out
    show "do_all (s # ss) v (Saving out)
        = map_option (\<lambda>w. (g (f v), Saving (out @ w))) (do { x \<leftarrow> b v; y \<leftarrow> c (f v); Some (x @ y) })"
      by (cases "b v"; cases "c (f v)") (simp_all add: do_all.simps f g)
  qed
qed

lemma assigns_IF [indep_rules]:
  assumes "assigns (do_all ss)" and "assigns (do_all ts)"
  shows "assigns (IF c ss ts)"
proof -
  from assms obtain f b g d where f: "\<And>v out. do_all ss v (Saving out) = map_option (\<lambda>w. (f v, Saving (out @ w))) (b v)"
      and g: "\<And>v out. do_all ts v (Saving out) = map_option (\<lambda>w. (g v, Saving (out @ w))) (d v)"
    unfolding assigns_def by blast
  show ?thesis unfolding assigns_def
    by (rule exI [of _ "\<lambda>v. if c v then f v else g v"], rule exI [of _ "\<lambda>v. if c v then b v else d v"]) (simp add: IF_def f g)
qed

lemma assigns_FIELD [indep_rules]:
  assumes "\<And>v. saves s v" and "\<And>v. upd (\<lambda>_. get v) v = v"
  shows "assigns (FIELD get upd s)"
proof (rule assigns_saves)
  show "saves (FIELD get upd s) v" for v using assms(1) assms(2) by (rule saves_FIELD(1))
qed

lemma assigns_RETURN_FALSE_IF [indep_rules]: "assigns (RETURN_FALSE_IF c)"
  by (rule assigns_saves) (rule saves_RETURN_FALSE_IF)

lemma writes_split:
  assumes "assigns s" and "assigns (do_all ss)" and "(\<forall>v. saves s v) \<or> (\<forall>v. saves (do_all ss) v)"
    and w: "writes (do_all (s # ss)) v w"
  obtains x y where "writes s v x" and "writes (do_all ss) v y" and "w = x @ y"
proof -
  obtain f b g c where f: "\<And>v out. s v (Saving out) = map_option (\<lambda>w. (f v, Saving (out @ w))) (b v)"
      and g: "\<And>v out. do_all ss v (Saving out) = map_option (\<lambda>w. (g v, Saving (out @ w))) (c v)"
    using assms(1,2) unfolding assigns_def by blast
  have all: "do_all (s # ss) v (Saving []) = Some (v, Saving w)" using writesD [OF w, of "[]"] by simp
  then obtain x y where x: "b v = Some x" and y: "c (f v) = Some y" and v: "g (f v) = v" "w = x @ y"
    by (auto simp: do_all.simps f g bind_eq_Some_conv)
  have "f v = v"
  proof (cases "\<forall>v. saves s v")
    case True
    then show ?thesis using f [of v "[]"] x savesD [of s v "[]"] by (auto simp: split: option.splits)
  next
    case False
    then have "saves (do_all ss) (f v)" using assms(3) by blast
    then show ?thesis using g [of "f v" "[]"] y v(1) savesD [of "do_all ss" "f v" "[]"] by auto
  qed
  with v x y show thesis by (intro that [of x y]) (simp_all add: writes_def f g)
qed

lemma indepI:
  "(\<And>v0 ar v ar' w. P v0 \<Longrightarrow> t v0 ar = Some (v, ar') \<Longrightarrow> writes s v0 w \<Longrightarrow> writes s v w) \<Longrightarrow> indep P s t"
  by (simp add: indep_def)

lemma indepD: "indep P s t \<Longrightarrow> P v0 \<Longrightarrow> t v0 ar = Some (v, ar') \<Longrightarrow> writes s v0 w \<Longrightarrow> writes s v w"
  unfolding indep_def by blast

lemma keepsD: "keeps s f \<Longrightarrow> s v0 ar = Some (v, ar') \<Longrightarrow> f v = f v0"
  unfolding keeps_def by blast

lemma indep_end: "indep P s (do_all [])"
  by (simp add: indep_def do_all.simps)

lemma indep_right_Cons:
  assumes "indep P s t" and "keeps t P" and "indep P s (do_all ts)"
  shows "indep P s (do_all (t # ts))"
proof (rule indepI)
  fix v0 ar v ar' w
  assume P: "P v0" and "do_all (t # ts) v0 ar = Some (v, ar')" and w: "writes s v0 w"
  then obtain v1 ar1 where t: "t v0 ar = Some (v1, ar1)" "do_all ts v1 ar1 = Some (v, ar')"
    by (auto simp: do_all.simps bind_eq_Some_conv)
  have "writes s v1 w" using assms(1) P t(1) w by (rule indepD)
  moreover have "P v1" using keepsD [OF assms(2) t(1)] P by simp
  ultimately show "writes s v w" using indepD [OF assms(3) _ t(2)] by blast
qed

lemma indep_right_IF:
  "indep (\<lambda>v. P v \<and> c v) s (do_all us) \<Longrightarrow> indep (\<lambda>v. P v \<and> \<not> c v) s (do_all ts) \<Longrightarrow> indep P s (IF c us ts)"
  by (auto simp: indep_def IF_def split: if_splits)

lemma indep_absurd: "(\<And>v. \<not> P v) \<Longrightarrow> indep P s t"
  by (simp add: indep_def)

lemma indep_FIELD:
  assumes "\<And>x v. get (upd (\<lambda>_. x) v) = x" and "\<And>v. upd (\<lambda>_. get v) v = v" and "keeps t get"
  shows "indep P (FIELD get upd s) t"
proof -
  note w = writes_FIELD [of get upd, OF assms(1,2)]
  show ?thesis using keepsD [OF assms(3)] by (auto simp: indep_def w)
qed

lemma indep_IF [indep_rules]:
  assumes "keeps t c" and "indep (\<lambda>v. P v \<and> c v) (do_all ss) t" and "indep (\<lambda>v. P v \<and> \<not> c v) (do_all ts) t"
  shows "indep P (IF c ss ts) t"
proof (rule indepI)
  fix v0 ar v ar' w
  assume P: "P v0" and t: "t v0 ar = Some (v, ar')" and w: "writes (IF c ss ts) v0 w"
  show "writes (IF c ss ts) v w"
  proof (cases "c v0")
    case True
    then show ?thesis using indepD [OF assms(2) _ t] keepsD [OF assms(1) t] P w by (simp add: writes_IF)
  next
    case False
    then show ?thesis using indepD [OF assms(3) _ t] keepsD [OF assms(1) t] P w by (simp add: writes_IF)
  qed
qed

lemma indep_RETURN_FALSE_IF: "keeps t c \<Longrightarrow> indep P (RETURN_FALSE_IF c) t"
  by (auto simp: indep_def writes_RETURN_FALSE_IF dest: keepsD)

lemma indep_SET: "keeps t (\<lambda>v. f v = v) \<Longrightarrow> indep P (SET f) t"
  by (auto simp: indep_def writes_SET dest: keepsD)

lemma indep_Nil: "indep P (do_all []) t"
  by (simp add: indep_def writes_Nil)

lemma indep_single: "indep P s t \<Longrightarrow> indep P (do_all [s]) t"
  by (simp add: indep_def writes_single)

lemmas indep_first = indep_end indep_Nil indep_single
lemmas indep_leaf = indep_FIELD indep_RETURN_FALSE_IF indep_SET
lemmas indep_right = indep_right_Cons indep_right_IF

lemma indep_Cons:
  assumes "assigns s" and "assigns (do_all ss)" and "(\<forall>v. saves s v) \<or> (\<forall>v. saves (do_all ss) v)"
    and "indep P s t" and "indep P (do_all ss) t"
  shows "indep P (do_all (s # ss)) t"
proof (rule indepI)
  fix v0 ar v ar' w
  assume P: "P v0" and t: "t v0 ar = Some (v, ar')" and "writes (do_all (s # ss)) v0 w"
  then obtain x y where "writes s v0 x" "writes (do_all ss) v0 y" "w = x @ y"
    using writes_split [OF assms(1-3)] by blast
  with indepD [OF assms(4) P t] indepD [OF assms(5) P t] show "writes (do_all (s # ss)) v w" by (blast intro: writes_Cons)
qed

lemma indep_step:
  assumes "\<And>v. saves s v" and "assigns (do_all ss)" and "indep P s t" and "indep P (do_all ss) t"
  shows "indep P (do_all (s # ss)) t"
  by (rule indep_Cons [OF assigns_saves [OF assms(1)] assms(2) disjI1]) (use assms in simp_all)

lemma indep_assign:
  assumes "\<And>v. saves (do_all ss) v" and "assigns s" and "indep P s t" and "indep P (do_all ss) t"
  shows "indep P (do_all (s # ss)) t"
  by (rule indep_Cons [OF assms(2) assigns_saves [OF assms(1)] disjI2]) (use assms in simp_all)

text \<open>Steps with a parameter.\<close>

lemma keeps_WITH [keeps_rules]: "(\<And>k. keeps (g k) f) \<Longrightarrow> keeps (WITH p g) f"
  by (auto simp: keeps_def WITH_def)

lemma shrinks_WITH [shrinks_rules]: "(\<And>k. shrinks (g k)) \<Longrightarrow> shrinks (WITH p g)"
  by (auto simp: shrinks_def WITH_def)

lemma saves_WITH [saving_rules]:
  shows "saves (WITH p g) v \<longleftrightarrow> saves (g (p v)) v" and "saved (WITH p g) v = saved (g (p v)) v"
  by (simp_all add: saves_def saved_def WITH_def)

lemma indep_WITH [indep_rules]:
  assumes "keeps t p" and "\<And>k. indep P (g k) t"
  shows "indep P (WITH p g) t"
proof -
  have w: "writes (WITH p g) v w \<longleftrightarrow> writes (g (p v)) v w" for v w by (simp add: writes_def WITH_def)
  show ?thesis
    by (rule indepI) (use indepD [OF assms(2)] keepsD [OF assms(1)] in \<open>simp add: w\<close>)
qed

text \<open>Reading back.\<close>

lemma reloads_Nil [reload_rules]: "reloads (do_all []) P"
  by (rule reloadsI) (auto simp: shrinks_rules writes_Nil do_all.simps)

lemma reloads_Cons [reload_rules]:
  assumes s: "reloads s P" and ss: "reloads (do_all ss) P" and i: "indep P s (do_all ss)"
  shows "reloads (do_all (s # ss)) P"
proof (rule reloadsI)
  show "shrinks (do_all (s # ss))" unfolding shrinks_def
  proof (intro allI impI)
    fix v0 input v ar
    assume "do_all (s # ss) v0 (Loading input) = Some (v, ar)"
    then obtain v1 i1 where l: "s v0 (Loading input) = Some (v1, Loading i1)" "do_all ss v1 (Loading i1) = Some (v, ar)"
      using reloads_shrinks [OF s] by (rule do_all_loadE)
    with shrinksD [OF reloads_shrinks [OF s] l(1)] shrinksD [OF reloads_shrinks [OF ss] l(2)]
    show "\<exists>rest. ar = Loading rest \<and> length rest \<le> length input" by auto
  qed
  fix v0 input v ar
  assume P: "P v0" and "do_all (s # ss) v0 (Loading input) = Some (v, ar)"
  then obtain v1 i1 where l: "s v0 (Loading input) = Some (v1, Loading i1)" "do_all ss v1 (Loading i1) = Some (v, ar)"
    using reloads_shrinks [OF s] by (elim do_all_loadE)
  from reloadsE [OF s P l(1)] obtain x where x: "P v1" "writes s v1 x" "\<And>rest. s v0 (Loading (x @ rest)) = Some (v1, Loading rest)"
    by metis
  from reloadsE [OF ss x(1) l(2)] obtain y where y: "P v" "writes (do_all ss) v y"
      "\<And>rest. do_all ss v1 (Loading (y @ rest)) = Some (v, Loading rest)"
    by metis
  have "writes s v x" using i x(1) l(2) x(2) by (rule indepD)
  then have "writes (do_all (s # ss)) v (x @ y)" using y(2) by (rule writes_Cons)
  moreover have "do_all (s # ss) v0 (Loading ((x @ y) @ rest)) = Some (v, Loading rest)" for rest
    using x(3) y(3) by (simp add: do_all.simps)
  ultimately show "P v \<and> (\<exists>w. writes (do_all (s # ss)) v w
      \<and> (\<forall>rest. do_all (s # ss) v0 (Loading (w @ rest)) = Some (v, Loading rest)))"
    using y(1) by blast
qed

lemma reloads_FIELD:
  assumes s: "reloads s R" and "\<And>v. P v \<Longrightarrow> R (get v)" and "\<And>x v. P v \<Longrightarrow> R x \<Longrightarrow> P (upd (\<lambda>_. x) v)"
    and lens: "\<And>x v. get (upd (\<lambda>_. x) v) = x" "\<And>v. upd (\<lambda>_. get v) v = v" "\<And>x y v. upd (\<lambda>_. x) (upd (\<lambda>_. y) v) = upd (\<lambda>_. x) v"
  shows "reloads (FIELD get upd s) P"
proof (rule reloadsI)
  show "shrinks (FIELD get upd s)" using reloads_shrinks [OF s] by (rule shrinks_FIELD)
  fix v0 input v ar
  assume P: "P v0" and "FIELD get upd s v0 (Loading input) = Some (v, ar)"
  then obtain x where x: "s (get v0) (Loading input) = Some (x, ar)" "v = upd (\<lambda>_. x) v0"
    by (auto simp: FIELD_def bind_eq_Some_conv)
  from reloadsE [OF s assms(2) [OF P] x(1)] obtain w where w: "R x" "writes s x w"
      "\<And>rest. s (get v0) (Loading (w @ rest)) = Some (x, Loading rest)"
    by metis
  then show "P v \<and> (\<exists>w. writes (FIELD get upd s) v w \<and> (\<forall>rest. FIELD get upd s v0 (Loading (w @ rest)) = Some (v, Loading rest)))"
    using assms(3) [OF P w(1)] lens by (auto simp: writes_FIELD [of get upd, OF lens(1,2)] FIELD_def x(2) intro!: exI [of _ w])
qed

lemma reloads_FIELD_any [reload_rules]:
  assumes "reloads s (\<lambda>_. True)" and "\<And>x v. P v \<Longrightarrow> P (upd (\<lambda>_. x) v)"
    and "\<And>x v. get (upd (\<lambda>_. x) v) = x" and "\<And>v. upd (\<lambda>_. get v) v = v" and "\<And>x y v. upd (\<lambda>_. x) (upd (\<lambda>_. y) v) = upd (\<lambda>_. x) v"
  shows "reloads (FIELD get upd s) P"
  by (rule reloads_FIELD [OF assms(1)]) (use assms in simp_all)

lemma reloads_IF [reload_rules]:
  assumes "reloads (do_all ss) (\<lambda>v. P v \<and> c v)" and "reloads (do_all ts) (\<lambda>v. P v \<and> \<not> c v)"
  shows "reloads (IF c ss ts) P"
proof (rule reloadsI)
  show "shrinks (IF c ss ts)" using assms by (intro shrinks_IF reloads_shrinks)
  fix v0 input v ar
  assume P: "P v0" and l: "IF c ss ts v0 (Loading input) = Some (v, ar)"
  show "P v \<and> (\<exists>w. writes (IF c ss ts) v w \<and> (\<forall>rest. IF c ss ts v0 (Loading (w @ rest)) = Some (v, Loading rest)))"
  proof (cases "c v0")
    case True
    then show ?thesis using reloadsE [OF assms(1), of v0 input v ar] P l by (simp add: writes_IF IF_def) metis
  next
    case False
    then show ?thesis using reloadsE [OF assms(2), of v0 input v ar] P l by (simp add: writes_IF IF_def) metis
  qed
qed

lemma reloads_RETURN_FALSE_IF [reload_rules]: "reloads (RETURN_FALSE_IF c) P"
  by (rule reloadsI) (auto simp: shrinks_rules writes_RETURN_FALSE_IF RETURN_FALSE_IF_def split: if_splits)

lemma reloads_SET [reload_rules]: "(\<And>v. P v \<Longrightarrow> P (f v)) \<Longrightarrow> (\<And>v. f (f v) = f v) \<Longrightarrow> reloads (SET f) P"
  by (rule reloadsI) (auto simp: shrinks_rules writes_SET SET_def)

lemma reloads_WITH [reload_rules]:
  assumes "\<And>k. reloads (g k) (\<lambda>v. P v \<and> p v = k)"
  shows "reloads (WITH p g) P"
proof (rule reloadsI)
  show "shrinks (WITH p g)" using assms by (intro shrinks_WITH reloads_shrinks)
  fix v0 input v ar
  assume "P v0" and "WITH p g v0 (Loading input) = Some (v, ar)"
  then show "P v \<and> (\<exists>w. writes (WITH p g) v w \<and> (\<forall>rest. WITH p g v0 (Loading (w @ rest)) = Some (v, Loading rest)))"
    using reloadsE [OF assms, of v0 "p v0" input v ar] by (simp add: WITH_def writes_def) metis
qed

lemma reloads_weaken: "reloads s P \<Longrightarrow> (\<And>v. Q v \<longleftrightarrow> P v) \<Longrightarrow> reloads s Q"
  by (simp add: reloads_def)

lemma reloads_kept:
  assumes "reloads s (\<lambda>_. True)" and "keeps s P"
  shows "reloads s P"
  using assms by (auto simp: reloads_def dest: keepsD)

text \<open>Vectors of such objects.\<close>

lemma object_elements_reload:
  assumes "reloads s P"
  shows "list_all P vs0 \<Longrightarrow> serialize_elements s vs0 (Loading input) = Some (vs, ar) \<Longrightarrow> list_all P vs \<and> length vs = length vs0
    \<and> (\<exists>w. writes (serialize_elements s) vs w \<and> (\<forall>rest. serialize_elements s vs0 (Loading (w @ rest)) = Some (vs, Loading rest)))
    \<and> (\<exists>rest. ar = Loading rest \<and> length rest \<le> length input)"
proof (induction vs0 arbitrary: input vs ar)
  case Nil
  then show ?case by (auto simp: writes_def)
next
  case (Cons v0 vs0)
  then obtain x ar1 xs where x: "s v0 (Loading input) = Some (x, ar1)" and xs: "serialize_elements s vs0 ar1 = Some (xs, ar)" "vs = x # xs"
    by (auto simp: bind_eq_Some_conv)
  obtain w i1 where w: "P x" "writes s x w" "\<And>rest. s v0 (Loading (w @ rest)) = Some (x, Loading rest)"
      "ar1 = Loading i1" "length i1 \<le> length input"
    using reloadsE [OF assms, of v0 input x ar1] x Cons.prems(1) by (metis list.pred_inject(2))
  then obtain u where u: "list_all P xs" "length xs = length vs0" "writes (serialize_elements s) xs u"
      "\<And>rest. serialize_elements s vs0 (Loading (u @ rest)) = Some (xs, Loading rest)"
      "\<exists>rest. ar = Loading rest \<and> length rest \<le> length i1"
    using Cons.IH [of i1 xs ar] Cons.prems(1) xs(1) by auto
  have "writes (serialize_elements s) vs (w @ u)"
    using w(2) u(3) by (simp add: writes_def xs(2))
  moreover have "serialize_elements s (v0 # vs0) (Loading ((w @ u) @ rest)) = Some (vs, Loading rest)" for rest
    using w(3) u(4) by (simp add: xs(2))
  ultimately show ?case using w u xs(2) by (auto simp del: serialize_elements.simps)
qed

lemma shrinks_elements: "shrinks s \<Longrightarrow> shrinks (serialize_elements s)"
proof -
  assume s: "shrinks s"
  have "\<exists>rest. ar = Loading rest \<and> length rest \<le> length input"
    if "serialize_elements s vs0 (Loading input) = Some (vs, ar)" for vs0 input vs ar
    using that
  proof (induction vs0 arbitrary: input vs ar)
    case (Cons v0 vs0)
    then obtain x ar1 xs where x: "s v0 (Loading input) = Some (x, ar1)" "serialize_elements s vs0 ar1 = Some (xs, ar)"
      by (auto simp: bind_eq_Some_conv)
    obtain i1 where "ar1 = Loading i1" "length i1 \<le> length input" using shrinksD [OF s x(1)] by blast
    with Cons.IH [of i1 xs ar] x(2) show ?case by auto
  qed auto
  then show ?thesis unfolding shrinks_def by blast
qed

lemma saves_elements: "(\<And>v. saves s v) \<Longrightarrow> saves (serialize_elements s) vs"
proof (induction vs)
  case (Cons v vs)
  have "serialize_elements s (v # vs) (Saving out) = map_option (\<lambda>w. (v # vs, Saving (out @ w)))
      (do { w \<leftarrow> saved s v; map_option (\<lambda>u. w @ u) (saved (serialize_elements s) vs) })" for out
    using savesD [OF Cons.IH [OF Cons.prems]] savesD [OF Cons.prems [of v]]
    by (cases "saved s v"; cases "saved (serialize_elements s) vs") simp_all
  then show ?case by (rule conjunct1 [OF savesI])
qed (rule conjunct1 [OF savesI [where w = "Some []"]], simp)

lemma saves_custom [saving_rules]: "(\<And>v. saves s v) \<Longrightarrow> saves (serialize_custom n d s) vs"
proof -
  assume s: "\<And>v. saves s v"
  have "serialize_custom n d s vs (Saving out) = map_option (\<lambda>w. (vs, Saving (out @ w)))
      (if length vs = n then saved (serialize_elements s) vs else None)" for out
    using savesD [OF saves_elements [OF s]] by (simp add: serialize_custom_def Let_def)
  then show ?thesis by (rule conjunct1 [OF savesI])
qed

lemma list_all_resize: "list_all P v \<Longrightarrow> P d \<Longrightarrow> list_all P (resize n d v)"
  by (auto simp: resize_def list_all_iff dest: in_set_takeD)

lemma reloads_custom:
  assumes s: "reloads s P" and d: "P d"
  shows "reloads (serialize_custom n d s) (list_all P)"
proof (rule reloadsI)
  have c: "serialize_custom n d s v0 (Loading input) = serialize_elements s (resize n d v0) (Loading input)" for v0 input
    by (simp add: serialize_custom_def Let_def)
  show "shrinks (serialize_custom n d s)"
    using shrinks_elements [OF reloads_shrinks [OF s]] by (simp add: shrinks_def c)
  fix v0 input v ar
  assume "list_all P v0" and "serialize_custom n d s v0 (Loading input) = Some (v, ar)"
  then have e: "list_all P v" "length v = n" and "\<exists>w. writes (serialize_elements s) v w
      \<and> (\<forall>rest. serialize_elements s (resize n d v0) (Loading (w @ rest)) = Some (v, Loading rest))"
    using object_elements_reload [OF s list_all_resize [of P v0 d n], of input v ar] d by (simp_all add: c)
  then obtain w where w: "writes (serialize_elements s) v w"
      "\<And>rest. serialize_elements s (resize n d v0) (Loading (w @ rest)) = Some (v, Loading rest)"
    by blast
  have "writes (serialize_custom n d s) v w" using w(1) e(2) by (simp add: writes_def serialize_custom_def Let_def)
  with e w(2) show "list_all P v \<and> (\<exists>w. writes (serialize_custom n d s) v w
      \<and> (\<forall>rest. serialize_custom n d s v0 (Loading (w @ rest)) = Some (v, Loading rest)))"
    by (auto simp: c)
qed

lemma parse_reloads:
  assumes "reloads s P" and "P v0" and "parse_binary s v0 blob = Some v"
  shows "P v" and "\<exists>w. writes s v w \<and> parse_binary s v0 w = Some v"
proof -
  from assms(3) obtain ar where l: "s v0 (Loading blob) = Some (v, ar)"
    by (auto simp: parse_binary_def serialize_whole_def bind_eq_Some_conv split: if_splits)
  from reloadsE [OF assms(1,2) l] obtain w where "P v" "writes s v w" "\<And>rest. s v0 (Loading (w @ rest)) = Some (v, Loading rest)"
    by metis
  moreover from this(3) [of "[]"] have "parse_binary s v0 w = Some v"
    by (simp add: parse_binary_def serialize_whole_def check_stream_state_def)
  ultimately show "P v" and "\<exists>w. writes s v w \<and> parse_binary s v0 w = Some v" by blast+
qed

section \<open>Reading small numbers\<close>

lemma load_small_varint:
  assumes "b < 128"
  shows "serialize_varint v (Loading (b # rest)) = Some (ucast b :: u64, Loading rest)"
proof -
  have b: "unat b < 2 ^ 7" using assms by (simp add: word_less_nat_alt)
  have "b AND 0x7f = take_bit 7 b" by (simp add: take_bit_eq_mask mask_eq_exp_minus_1)
  also have "\<dots> = b" using b by (simp add: word_unat_eq_iff unsigned_take_bit_eq take_bit_nat_eq_self)
  finally have "b AND 0x7f = b" .
  moreover have "b AND 0x80 = 0" using b by (simp add: byte_top_bit)
  ultimately show ?thesis by (simp add: serialize_varint_def)
qed

lemma load_byte: "serialize_int v (Loading (b # rest)) = Some (b :: u8, Loading rest)"
  by (simp add: load_int8)

lemma load_vector:
  assumes "b < 128" and "unat b \<le> length rest"
  shows "serialize_vector d s v (Loading (b # rest)) = serialize_elements s (replicate (unat b) d) (Loading rest)"
  
proof -
  have "take_bit 64 (unat b) = unat b" using assms(1) by (intro take_bit_nat_eq_self) (simp add: word_less_nat_alt)
  then show ?thesis using assms by (simp add: serialize_vector_def load_small_varint unsigned_ucast_eq)
qed

lemma load_variant: "find (\<lambda>a. alt_tag a = t) alts = Some a \<Longrightarrow> serialize_variant alts v (Loading (t # rest)) = alt_body a v (Loading rest)"
  by (simp add: serialize_variant_def load_int8)

lemmas loading = parse_binary_def serialize_whole_def check_stream_state_def do_all.simps IF_def FIELD_def
  VARINT_FIELD_def RETURN_FALSE_IF_def WITH_def load_small_varint load_byte load_vector load_variant ALT_def

end
