(* ===== verification/RingCT.thy ===== *)
theory RingCT
  imports Archive
begin

text \<open>
  The ring signatures of confidential transactions as \<open>libcryptonote/ringct/rctTypes.h\<close> writes and reads
  them: \<open>serialize_rctsig_base\<close> and \<open>serialize_rctsig_prunable\<close> with the proofs and signatures they contain.
  What is not written and reconstructed elsewhere (\<open>message\<close>, \<open>mixRing\<close>, the commitments \<open>V\<close> of a bulletproof,
  the key images of the signatures, the keys \<open>dest\<close> of \<open>outPk\<close>) is left out of the records, so \<open>outPk\<close> is the
  list of its masks. How many amounts bulletproofs can cover, \<open>n_bulletproof_max_amounts\<close> and
  \<open>n_bulletproof_plus_max_amounts\<close>, is not part of the repository and a parameter.
\<close>

section \<open>Proofs and signatures\<close>

type_synonym key = bytes

abbreviation null_key :: key where
  "null_key \<equiv> replicate 32 0"

abbreviation serialize_key :: "key serializer" where
  "serialize_key \<equiv> serialize_blob 32"

record ecdhTuple =
  ecdh_mask :: key
  ecdh_amount :: key

definition serialize_ecdhTuple :: "ecdhTuple serializer" where
  "serialize_ecdhTuple = do_all
     [FIELD ecdh_mask ecdh_mask_update serialize_key,
      FIELD ecdh_amount ecdh_amount_update serialize_key]"

text \<open>From the second bulletproofs on only the first eight bytes of the amount, over 24 zeros.\<close>

definition serialize_ecdh_amount :: "ecdhTuple serializer" where
  "serialize_ecdh_amount v ar =
     (let v = (case ar of Saving out \<Rightarrow> v | Loading input \<Rightarrow> v\<lparr> ecdh_amount := replicate 32 0 \<rparr>) in
      do {
        (amount8, ar) \<leftarrow> serialize_blob 8 (take 8 (ecdh_amount v)) ar;
        Some (v\<lparr> ecdh_amount := memcpy_at (ecdh_amount v) 0 amount8 \<rparr>, ar)
      })"

definition null_ecdhTuple :: ecdhTuple where
  "null_ecdhTuple = \<lparr> ecdh_mask = null_key, ecdh_amount = null_key \<rparr>"

record Bulletproof =
  bp_A :: key
  bp_S :: key
  bp_T1 :: key
  bp_T2 :: key
  bp_taux :: key
  bp_mu :: key
  bp_L :: "key list"
  bp_R :: "key list"
  bp_a :: key
  bp_b :: key
  bp_t :: key

definition serialize_Bulletproof :: "Bulletproof serializer" where
  "serialize_Bulletproof = do_all
     [FIELD bp_A bp_A_update serialize_key,
      FIELD bp_S bp_S_update serialize_key,
      FIELD bp_T1 bp_T1_update serialize_key,
      FIELD bp_T2 bp_T2_update serialize_key,
      FIELD bp_taux bp_taux_update serialize_key,
      FIELD bp_mu bp_mu_update serialize_key,
      FIELD bp_L bp_L_update (serialize_vector null_key serialize_key),
      FIELD bp_R bp_R_update (serialize_vector null_key serialize_key),
      FIELD bp_a bp_a_update serialize_key,
      FIELD bp_b bp_b_update serialize_key,
      FIELD bp_t bp_t_update serialize_key,
      RETURN_FALSE_IF (\<lambda>v. bp_L v = [] \<or> length (bp_L v) \<noteq> length (bp_R v))]"

definition null_Bulletproof :: Bulletproof where
  "null_Bulletproof = \<lparr> bp_A = null_key, bp_S = null_key, bp_T1 = null_key, bp_T2 = null_key, bp_taux = null_key,
     bp_mu = null_key, bp_L = [], bp_R = [], bp_a = null_key, bp_b = null_key, bp_t = null_key \<rparr>"

record BulletproofPlus =
  bpp_A :: key
  bpp_A1 :: key
  bpp_B :: key
  bpp_r1 :: key
  bpp_s1 :: key
  bpp_d1 :: key
  bpp_L :: "key list"
  bpp_R :: "key list"

definition serialize_BulletproofPlus :: "BulletproofPlus serializer" where
  "serialize_BulletproofPlus = do_all
     [FIELD bpp_A bpp_A_update serialize_key,
      FIELD bpp_A1 bpp_A1_update serialize_key,
      FIELD bpp_B bpp_B_update serialize_key,
      FIELD bpp_r1 bpp_r1_update serialize_key,
      FIELD bpp_s1 bpp_s1_update serialize_key,
      FIELD bpp_d1 bpp_d1_update serialize_key,
      FIELD bpp_L bpp_L_update (serialize_vector null_key serialize_key),
      FIELD bpp_R bpp_R_update (serialize_vector null_key serialize_key),
      RETURN_FALSE_IF (\<lambda>v. bpp_L v = [] \<or> length (bpp_L v) \<noteq> length (bpp_R v))]"

definition null_BulletproofPlus :: BulletproofPlus where
  "null_BulletproofPlus = \<lparr> bpp_A = null_key, bpp_A1 = null_key, bpp_B = null_key, bpp_r1 = null_key,
     bpp_s1 = null_key, bpp_d1 = null_key, bpp_L = [], bpp_R = [] \<rparr>"

text \<open>A range signature: the structure \<open>boroSig\<close> of 129 keys, and 64 keys.\<close>

record rangeSig =
  asig :: bytes
  rs_Ci :: bytes

definition serialize_rangeSig :: "rangeSig serializer" where
  "serialize_rangeSig = do_all
     [FIELD asig asig_update (serialize_blob 4128),
      FIELD rs_Ci rs_Ci_update (serialize_blob 2048)]"

definition null_rangeSig :: rangeSig where
  "null_rangeSig = \<lparr> asig = replicate 4128 0, rs_Ci = replicate 2048 0 \<rparr>"

text \<open>The contents of a CLSAG and of an MLSAG signature, whose arrays are written without sizes.\<close>

record clsag =
  cl_s :: "key list"
  cl_c1 :: key
  cl_D :: key

definition serialize_clsag :: "nat \<Rightarrow> clsag serializer" where
  "serialize_clsag mixin = do_all
     [FIELD cl_s cl_s_update (serialize_custom (mixin + 1) null_key serialize_key),
      FIELD cl_c1 cl_c1_update serialize_key,
      FIELD cl_D cl_D_update serialize_key]"

definition null_clsag :: clsag where
  "null_clsag = \<lparr> cl_s = [], cl_c1 = null_key, cl_D = null_key \<rparr>"

record mgSig =
  mg_ss :: "key list list"
  mg_cc :: key

definition serialize_mgSig :: "nat \<Rightarrow> nat \<Rightarrow> mgSig serializer" where
  "serialize_mgSig mixin ss2_elements = do_all
     [FIELD mg_ss mg_ss_update (serialize_custom (mixin + 1) [] (serialize_custom ss2_elements null_key serialize_key)),
      FIELD mg_cc mg_cc_update serialize_key]"

definition null_mgSig :: mgSig where
  "null_mgSig = \<lparr> mg_ss = [], mg_cc = null_key \<rparr>"

section \<open>The base of the signature\<close>

abbreviation "RCTTypeNull \<equiv> 0 :: u8"
abbreviation "RCTTypeFull \<equiv> 1 :: u8"
abbreviation "RCTTypeSimple \<equiv> 2 :: u8"
abbreviation "RCTTypeBulletproof \<equiv> 3 :: u8"
abbreviation "RCTTypeBulletproof2 \<equiv> 4 :: u8"
abbreviation "RCTTypeCLSAG \<equiv> 5 :: u8"
abbreviation "RCTTypeCLSAGN \<equiv> 6 :: u8"
abbreviation "RCTTypeHaven2 \<equiv> 7 :: u8"
abbreviation "RCTTypeHaven3 \<equiv> 8 :: u8"
abbreviation "RCTTypeBulletproofPlus \<equiv> 9 :: u8"

record rctSigBase =
  rct_type :: u8
  pseudoOuts :: "key list"
  ecdhInfo :: "ecdhTuple list"
  outPk :: "key list"
  outPk_usd :: "key list"
  outPk_xasset :: "key list"
  txnFee :: u64
  txnFee_usd :: u64
  txnFee_xasset :: u64
  txnOffshoreFee :: u64
  txnOffshoreFee_usd :: u64
  txnOffshoreFee_xasset :: u64
  maskSums :: "key list"
  p_r :: key

definition serialize_rctsig_base_old :: "nat \<Rightarrow> nat \<Rightarrow> 'z rctSigBase_scheme serializer" where
  "serialize_rctsig_base_old inputs outputs = do_all
     [RETURN_FALSE_IF (\<lambda>v. rct_type v \<notin> {RCTTypeFull, RCTTypeSimple, RCTTypeBulletproof, RCTTypeBulletproof2,
        RCTTypeCLSAG, RCTTypeCLSAGN, RCTTypeHaven2, RCTTypeHaven3}),
      VARINT_FIELD txnFee txnFee_update,
      IF (\<lambda>v. rct_type v \<in> {RCTTypeHaven2, RCTTypeHaven3})
        [VARINT_FIELD txnOffshoreFee txnOffshoreFee_update]
        [IF (\<lambda>v. rct_type v \<in> {RCTTypeCLSAG, RCTTypeCLSAGN})
          [VARINT_FIELD txnFee_usd txnFee_usd_update,
           IF (\<lambda>v. rct_type v = RCTTypeCLSAGN) [VARINT_FIELD txnFee_xasset txnFee_xasset_update] [],
           VARINT_FIELD txnOffshoreFee txnOffshoreFee_update,
           VARINT_FIELD txnOffshoreFee_usd txnOffshoreFee_usd_update,
           IF (\<lambda>v. rct_type v = RCTTypeCLSAGN) [VARINT_FIELD txnOffshoreFee_xasset txnOffshoreFee_xasset_update] []]
          [SET (\<lambda>v. v\<lparr> txnFee_usd := 0, txnFee_xasset := 0, txnOffshoreFee := 0, txnOffshoreFee_usd := 0,
             txnOffshoreFee_xasset := 0 \<rparr>)]],
      IF (\<lambda>v. rct_type v = RCTTypeSimple)
        [FIELD pseudoOuts pseudoOuts_update (serialize_custom inputs null_key serialize_key)] [],
      IF (\<lambda>v. rct_type v \<in> {RCTTypeBulletproof2, RCTTypeCLSAG, RCTTypeCLSAGN, RCTTypeHaven2, RCTTypeHaven3})
        [FIELD ecdhInfo ecdhInfo_update (serialize_custom outputs null_ecdhTuple serialize_ecdh_amount)]
        [FIELD ecdhInfo ecdhInfo_update (serialize_custom outputs null_ecdhTuple serialize_ecdhTuple)],
      FIELD outPk outPk_update (serialize_custom outputs null_key serialize_key),
      IF (\<lambda>v. rct_type v = RCTTypeHaven3 \<and> txnOffshoreFee v \<noteq> 0)
        [FIELD maskSums maskSums_update (serialize_custom 3 null_key serialize_key)]
        [IF (\<lambda>v. rct_type v = RCTTypeHaven2)
          [FIELD maskSums maskSums_update (serialize_custom 2 null_key serialize_key)]
          [IF (\<lambda>v. rct_type v \<in> {RCTTypeCLSAG, RCTTypeCLSAGN})
             [FIELD outPk_usd outPk_usd_update (serialize_custom outputs null_key serialize_key)] [],
           IF (\<lambda>v. rct_type v = RCTTypeCLSAGN)
             [FIELD outPk_xasset outPk_xasset_update (serialize_custom outputs null_key serialize_key)] []]]]"

text \<open>The key \<open>p_r\<close> is tested before it is read.\<close>

definition serialize_rctsig_base :: "nat \<Rightarrow> nat \<Rightarrow> 'z rctSigBase_scheme serializer" where
  "serialize_rctsig_base inputs outputs = do_all
     [FIELD rct_type rct_type_update serialize_int,
      IF (\<lambda>v. rct_type v = RCTTypeNull) []
        [IF (\<lambda>v. rct_type v \<noteq> RCTTypeBulletproofPlus) [serialize_rctsig_base_old inputs outputs]
          [VARINT_FIELD txnFee txnFee_update,
           VARINT_FIELD txnOffshoreFee txnOffshoreFee_update,
           FIELD ecdhInfo ecdhInfo_update (serialize_custom outputs null_ecdhTuple serialize_ecdh_amount),
           FIELD outPk outPk_update (serialize_custom outputs null_key serialize_key),
           IF (\<lambda>v. txnOffshoreFee v \<noteq> 0)
             [FIELD maskSums maskSums_update (serialize_custom 3 null_key serialize_key)] [],
           IF (\<lambda>v. p_r v \<noteq> null_key) [FIELD p_r p_r_update serialize_key] []]]]"

section \<open>The prunable part\<close>

record rctSigPrunable =
  rangeSigs :: "rangeSig list"
  bulletproofs :: "Bulletproof list"
  bulletproofs_plus :: "BulletproofPlus list"
  MGs :: "mgSig list"
  CLSAGs :: "clsag list"
  p_pseudoOuts :: "key list"

record amounts =
  n_bulletproof_max_amounts :: "Bulletproof list \<Rightarrow> u64"
  n_bulletproof_plus_max_amounts :: "BulletproofPlus list \<Rightarrow> u64"

text \<open>A concrete instance, for examples: a proof with \<open>6 + n\<close> elements in \<open>L\<close> covers \<open>2 ^ n\<close> amounts.\<close>

definition amounts_by_length :: amounts where
  "amounts_by_length =
     \<lparr> n_bulletproof_max_amounts = (\<lambda>ps. sum_list (map (\<lambda>p. 2 ^ (length (bp_L p) - 6)) ps)),
       n_bulletproof_plus_max_amounts = (\<lambda>ps. sum_list (map (\<lambda>p. 2 ^ (length (bpp_L p) - 6)) ps)) \<rparr>"

text \<open>A vector with its size in front as a 32-bit number, written as a varint or as four bytes, of at most \<open>outputs\<close>.\<close>

definition serialize_proofs :: "u32 serializer \<Rightarrow> nat \<Rightarrow> 'v \<Rightarrow> 'v serializer \<Rightarrow> 'v list serializer" where
  "serialize_proofs nbp_serializer outputs d s v ar =
     do {
       (nbp, ar) \<leftarrow> nbp_serializer (of_nat (length v)) ar;
       if outputs < unat nbp then None
       else do {
         let v = (case ar of Saving out \<Rightarrow> v | Loading input \<Rightarrow> resize (unat nbp) d v);
         (xs, ar) \<leftarrow> serialize_elements s (take (unat nbp) v) ar;
         Some (xs @ drop (unat nbp) v, ar)
       }
     }"

definition serialize_rctsig_prunable :: "amounts \<Rightarrow> u8 \<Rightarrow> nat \<Rightarrow> nat \<Rightarrow> nat \<Rightarrow> rctSigPrunable serializer" where
  "serialize_rctsig_prunable am ty inputs outputs mixin =
     (let mg_elements = (if ty \<in> {RCTTypeSimple, RCTTypeBulletproof, RCTTypeBulletproof2} then inputs else 1);
          mg_ss2_elements = (if ty \<in> {RCTTypeSimple, RCTTypeBulletproof, RCTTypeBulletproof2} then 1 else inputs) + 1
      in do_all
     [RETURN_FALSE_IF (\<lambda>_. 0xffffffff \<le> inputs),
      RETURN_FALSE_IF (\<lambda>_. 0xffffffff \<le> outputs),
      RETURN_FALSE_IF (\<lambda>_. 0xffffffff \<le> mixin),
      IF (\<lambda>_. ty = RCTTypeNull) []
      [RETURN_FALSE_IF (\<lambda>_. ty \<notin> {RCTTypeFull, RCTTypeSimple, RCTTypeBulletproof, RCTTypeBulletproof2, RCTTypeCLSAG,
         RCTTypeCLSAGN, RCTTypeHaven2, RCTTypeHaven3, RCTTypeBulletproofPlus}),
       IF (\<lambda>_. ty = RCTTypeBulletproofPlus)
         [FIELD bulletproofs_plus bulletproofs_plus_update
            (serialize_proofs serialize_varint outputs null_BulletproofPlus serialize_BulletproofPlus),
          RETURN_FALSE_IF (\<lambda>v. unat (n_bulletproof_plus_max_amounts am (bulletproofs_plus v)) < outputs)]
         [IF (\<lambda>_. ty \<in> {RCTTypeBulletproof, RCTTypeBulletproof2, RCTTypeCLSAG, RCTTypeCLSAGN, RCTTypeHaven2, RCTTypeHaven3})
           [FIELD bulletproofs bulletproofs_update
              (serialize_proofs (if ty = RCTTypeBulletproof then serialize_int else serialize_varint)
                outputs null_Bulletproof serialize_Bulletproof),
            RETURN_FALSE_IF (\<lambda>v. unat (n_bulletproof_max_amounts am (bulletproofs v)) < outputs)]
           [FIELD rangeSigs rangeSigs_update (serialize_custom outputs null_rangeSig serialize_rangeSig)]],
       IF (\<lambda>_. ty \<in> {RCTTypeCLSAG, RCTTypeCLSAGN, RCTTypeHaven2, RCTTypeHaven3, RCTTypeBulletproofPlus})
         [FIELD CLSAGs CLSAGs_update (serialize_custom inputs null_clsag (serialize_clsag mixin))]
         [FIELD MGs MGs_update (serialize_custom mg_elements null_mgSig (serialize_mgSig mixin mg_ss2_elements))],
       IF (\<lambda>_. ty \<in> {RCTTypeBulletproof, RCTTypeBulletproof2, RCTTypeCLSAG, RCTTypeCLSAGN, RCTTypeHaven2, RCTTypeHaven3,
            RCTTypeBulletproofPlus})
         [FIELD p_pseudoOuts p_pseudoOuts_update (serialize_custom inputs null_key serialize_key)] []]])"

record rctSig = rctSigBase +
  rctsig_p :: rctSigPrunable

definition null_rctSig :: rctSig where
  "null_rctSig = \<lparr> rct_type = 0, pseudoOuts = [], ecdhInfo = [], outPk = [], outPk_usd = [], outPk_xasset = [],
     txnFee = 0, txnFee_usd = 0, txnFee_xasset = 0, txnOffshoreFee = 0, txnOffshoreFee_usd = 0,
     txnOffshoreFee_xasset = 0, maskSums = [], p_r = null_key,
     rctsig_p = \<lparr> rangeSigs = [], bulletproofs = [], bulletproofs_plus = [], MGs = [], CLSAGs = [], p_pseudoOuts = [] \<rparr> \<rparr>"

section \<open>Every part is read back\<close>

lemma full_parts [codecs]:
  "full_codec serialize_ecdhTuple" "full_codec serialize_Bulletproof" "full_codec serialize_BulletproofPlus"
  "full_codec serialize_rangeSig" "full_codec (serialize_clsag mixin)" "full_codec (serialize_mgSig mixin k)"
  unfolding serialize_ecdhTuple_def serialize_Bulletproof_def serialize_BulletproofPlus_def serialize_rangeSig_def
    serialize_clsag_def serialize_mgSig_def
  by (rule full_structure, simp add: codecs saving_rules, simp add: codecs shrinks_rules,
      (rule loads_steps | simp add: saving_rules codecs)+,
      (elim do_all_loadE; (simp (no_asm) add: codecs shrinks_rules; fail)?), elim load_elims,
      (simp (no_asm_simp) add: saving_rules codecs; simp?))+

lemma saved_proofs:
  assumes "full_codec n" and "codec s"
  shows "saves (serialize_proofs n outputs d s) v \<and> saved (serialize_proofs n outputs d s) v
    = (if outputs < unat (of_nat (length v) :: u32) then None
       else do { w \<leftarrow> saved n (of_nat (length v)); ws \<leftarrow> those (map (saved s) (take (unat (of_nat (length v) :: u32)) v));
                 Some (w @ concat ws) })"
proof (rule savesI)
  fix out
  let ?k = "unat (of_nat (length v) :: u32)"
  have n: "n x (Saving out) = map_option (\<lambda>w. (x, Saving (out @ w))) (saved n x)" for x
    using savesD [OF codec.saving [OF full_codec.axioms(1) [OF assms(1)]]] .
  have e: "serialize_elements s xs (Saving out) = map_option (\<lambda>w. (xs, Saving (out @ w))) (map_option concat (those (map (saved s) xs)))"
    for xs out
    using codec.elements_saves [OF assms(2), of xs] savesD by fastforce
  show "serialize_proofs n outputs d s v (Saving out) = map_option (\<lambda>w. (v, Saving (out @ w)))
     (if outputs < ?k then None
      else do { w \<leftarrow> saved n (of_nat (length v)); ws \<leftarrow> those (map (saved s) (take ?k v)); Some (w @ concat ws) })"
    by (cases "saved n (of_nat (length v))"; cases "those (map (saved s) (take ?k v))")
      (simp_all add: serialize_proofs_def n e Let_def)
qed

lemma full_proofs [codecs]:
  assumes n: "full_codec n" and s: "full_codec s"
  shows "codec (serialize_proofs n outputs d s)"
    and "length v < 2 ^ 32 \<Longrightarrow> readable (serialize_proofs n outputs d s) v"
proof -
  have cs: "codec s" and cn: "codec n" using n s by (auto intro: full_codec.axioms)
  have r: "readable (serialize_proofs n outputs d s) v" if "length v < 2 ^ 32" for v
  proof (rule readableI)
    fix v0 w rest
    assume w: "saved (serialize_proofs n outputs d s) v = Some w"
    have k: "unat (of_nat (length v) :: u32) = length v" using that by (simp add: unat_of_nat)
    obtain x ws where x: "\<not> outputs < length v" "saved n (of_nat (length v)) = Some x" "those (map (saved s) v) = Some ws"
        "w = x @ concat ws"
      using w k saved_proofs [OF n cs, of outputs d v] by (auto simp: bind_eq_Some_conv split: if_splits)
    have "n y (Loading (x @ concat ws @ rest)) = Some (of_nat (length v), Loading (concat ws @ rest))" for y
      using readableD [OF full_codec.readable [OF n] x(2)] .
    moreover have "serialize_elements s (resize (length v) d v0) (Loading (concat ws @ rest)) = Some (v, Loading rest)"
      using codec.elements_loads [OF cs, of v "resize (length v) d v0"] full_codec.readable [OF s] x(3) codec.elements_saves [OF cs, of v]
      by (simp add: loads_def list_all_iff)
    ultimately show "serialize_proofs n outputs d s v0 (Loading (w @ rest)) = Some (v, Loading rest)"
      using x(1,4) k by (simp add: serialize_proofs_def Let_def)
  qed
  then show "length v < 2 ^ 32 \<Longrightarrow> readable (serialize_proofs n outputs d s) v" .
  have l: "length v < 2 ^ 32 \<and> (\<exists>w. saved (serialize_proofs n outputs d s) v = Some w)
      \<and> (\<exists>rest. ar = Loading rest \<and> length rest \<le> length input)"
    if lv: "serialize_proofs n outputs d s v0 (Loading input) = Some (v, ar)" for v0 input v ar
  proof -
    obtain nbp ar1 where c: "n (of_nat (length v0)) (Loading input) = Some (nbp, ar1)"
      using lv by (auto simp: serialize_proofs_def bind_eq_Some_conv)
    obtain i1 where i1: "ar1 = Loading i1" "length i1 \<le> length input" using shrinksD [OF codec.shrinking [OF cn] c] by blast
    obtain xs where xs: "\<not> outputs < unat nbp" "serialize_elements s (resize (unat nbp) d v0) (Loading i1) = Some (xs, ar)" "v = xs"
      using lv c i1(1) by (auto simp: serialize_proofs_def bind_eq_Some_conv Let_def split: if_splits)
    from codec.elements_reload [OF cs xs(2)] have e: "length v = unat nbp" "\<exists>ws. those (map (saved s) v) = Some ws"
      "\<exists>rest. ar = Loading rest \<and> length rest \<le> length i1" by (simp_all add: xs(3))
    have "unat nbp < 2 ^ 32" using unsigned_less [of nbp, where ?'a = nat] by simp
    moreover have "\<exists>w. saved n nbp = Some w" using codec.reload [OF cn c] by blast
    ultimately show ?thesis using e i1(2) xs(1) by (auto simp: saved_proofs [OF n cs])
  qed
  show "codec (serialize_proofs n outputs d s)"
  proof
    show "saves (serialize_proofs n outputs d s) v" for v using saved_proofs [OF n cs] by blast
    show "shrinks (serialize_proofs n outputs d s)" unfolding shrinks_def using l by blast
    show "readable (serialize_proofs n outputs d s) v \<and> (\<exists>w. saved (serialize_proofs n outputs d s) v = Some w)"
      if "serialize_proofs n outputs d s v0 (Loading input) = Some (v, ar)" for v0 input v ar
      using l [OF that] r by blast
  qed
qed

text \<open>The short form of an amount leaves the mask as it is.\<close>

lemma reloads_ecdh_amount: "reloads serialize_ecdh_amount (\<lambda>_. True)"
proof (rule reloadsI)
  have l: "\<exists>a. length a = 8 \<and> input = a @ rest \<and> ar = Loading rest \<and> v = v0\<lparr> ecdh_amount := a @ replicate 24 0 \<rparr>"
    if "serialize_ecdh_amount v0 (Loading input) = Some (v, ar)" and "rest = drop 8 input" for v0 input v ar rest
    using that by (intro exI [of _ "take 8 input"])
      (auto simp: serialize_ecdh_amount_def serialize_blob_def Let_def memcpy_at_def split: if_splits)
  show "shrinks serialize_ecdh_amount" using l by (fastforce simp: shrinks_def)
  fix v0 input v ar
  assume "serialize_ecdh_amount v0 (Loading input) = Some (v, ar)"
  then obtain a where a: "length a = 8" "v = v0\<lparr> ecdh_amount := a @ replicate 24 0 \<rparr>" using l by blast
  then have "writes serialize_ecdh_amount v a"
    by (simp add: writes_def serialize_ecdh_amount_def serialize_blob_def memcpy_at_def)
  moreover have "serialize_ecdh_amount v0 (Loading (a @ rest)) = Some (v, Loading rest)" for rest
    using a by (simp add: serialize_ecdh_amount_def serialize_blob_def memcpy_at_def Let_def)
  ultimately show "True \<and> (\<exists>w. writes serialize_ecdh_amount v w
      \<and> (\<forall>rest. serialize_ecdh_amount v0 (Loading (w @ rest)) = Some (v, Loading rest)))"
    by blast
qed

lemma saves_ecdh_amount [saving_rules]: "saves serialize_ecdh_amount e"
proof -
  have "saves serialize_ecdh_amount e \<and> saved serialize_ecdh_amount e
      = (if 8 \<le> length (ecdh_amount e) then Some (take 8 (ecdh_amount e)) else None)"
    by (rule savesI) (auto simp: serialize_ecdh_amount_def serialize_blob_def Let_def memcpy_at_def)
  then show ?thesis ..
qed

lemmas ecdh_amounts [reload_rules] = reloads_custom [OF reloads_ecdh_amount TrueI, unfolded list.pred_True]

section \<open>The signature reads back what it has loaded\<close>

lemma zeroed_fees:
  "v\<lparr> txnFee_usd := 0, txnFee_xasset := 0, txnOffshoreFee := 0, txnOffshoreFee_usd := 0, txnOffshoreFee_xasset := 0 \<rparr> = v
    \<longleftrightarrow> txnFee_usd v = 0 \<and> txnFee_xasset v = 0 \<and> txnOffshoreFee v = 0 \<and> txnOffshoreFee_usd v = 0 \<and> txnOffshoreFee_xasset v = 0"
  by (cases v) auto

lemma rctsig_base_reloads: "reloads (serialize_rctsig_base inputs outputs) (\<lambda>v. p_r v = null_key)"
  unfolding serialize_rctsig_base_def serialize_rctsig_base_old_def VARINT_FIELD_def
  by (rule indep_first | rule reload_rules indep_rules indep_leaf keeps_rules | (rule codec_reloads, simp add: codecs; fail)
    | (rule indep_step indep_assign, (simp add: codecs saving_rules; fail))
    | (simp add: codecs saving_rules zeroed_fees; fail) | (elim conjE, rule FalseE, erule notE, assumption))+

lemma rctsig_prunable_reloads [reload_rules]:
  "reloads (serialize_rctsig_prunable am ty inputs outputs mixin) (\<lambda>_. True)"
  unfolding serialize_rctsig_prunable_def Let_def
  by (rule indep_first | rule reload_rules indep_rules indep_leaf keeps_rules | (rule codec_reloads, simp add: codecs; fail)
    | (rule indep_step indep_assign, (simp add: codecs saving_rules; fail))
    | (simp add: codecs saving_rules; fail))+

end
