(* ===== verification/Transactions.thy ===== *)
theory Transactions
  imports RingCT TreeHash
begin

text \<open>
  Transactions of the Cryptonote family: \<open>libcryptonote/cryptonote_core/cryptonote_basic.h\<close>. The coins
  differ in which fields a transaction has and when they are written; \<open>BLOB_TYPE\<close> says which coin it is.
  Every body of \<open>BEGIN_SERIALIZE\<close> is the list of its lines, in terms of the steps of \<open>Archive\<close>. The theorem
  of this theory is that a transaction that has been parsed is written back to bytes that parse to the same
  transaction.
\<close>

section \<open>Coins\<close>

datatype BLOB_TYPE =
    BLOB_TYPE_CRYPTONOTE
  | BLOB_TYPE_FORKNOTE1
  | BLOB_TYPE_FORKNOTE2
  | BLOB_TYPE_CRYPTONOTE2
  | BLOB_TYPE_CRYPTONOTE_RYO
  | BLOB_TYPE_CRYPTONOTE_LOKI
  | BLOB_TYPE_CRYPTONOTE3
  | BLOB_TYPE_AEON
  | BLOB_TYPE_CRYPTONOTE_CUCKOO
  | BLOB_TYPE_CRYPTONOTE_XTNC
  | BLOB_TYPE_CRYPTONOTE_TUBE
  | BLOB_TYPE_CRYPTONOTE_XHV
  | BLOB_TYPE_CRYPTONOTE_XTA
  | BLOB_TYPE_CRYPTONOTE_ZEPHYR
  | BLOB_TYPE_CRYPTONOTE_XLA
  | BLOB_TYPE_CRYPTONOTE_SALVIUM
  | BLOB_TYPE_CRYPTONOTE_ARQMA
  | BLOB_TYPE_none

text \<open>The conversion of a number; a number without a name is none of the coins.\<close>

definition BLOB_TYPES :: "BLOB_TYPE list" where
  "BLOB_TYPES =
     [BLOB_TYPE_CRYPTONOTE, BLOB_TYPE_FORKNOTE1, BLOB_TYPE_FORKNOTE2, BLOB_TYPE_CRYPTONOTE2,
      BLOB_TYPE_CRYPTONOTE_RYO, BLOB_TYPE_CRYPTONOTE_LOKI, BLOB_TYPE_CRYPTONOTE3, BLOB_TYPE_AEON,
      BLOB_TYPE_CRYPTONOTE_CUCKOO, BLOB_TYPE_CRYPTONOTE_XTNC, BLOB_TYPE_CRYPTONOTE_TUBE,
      BLOB_TYPE_CRYPTONOTE_XHV, BLOB_TYPE_CRYPTONOTE_XTA, BLOB_TYPE_CRYPTONOTE_ZEPHYR,
      BLOB_TYPE_CRYPTONOTE_XLA, BLOB_TYPE_CRYPTONOTE_SALVIUM, BLOB_TYPE_CRYPTONOTE_ARQMA]"

definition blob_type_of :: "u32 \<Rightarrow> BLOB_TYPE" where
  "blob_type_of n = (if unat n < length BLOB_TYPES then BLOB_TYPES ! unat n else BLOB_TYPE_none)"

abbreviation serialize_bytes :: "bytes serializer" where
  "serialize_bytes \<equiv> serialize_vector 0 serialize_int"

abbreviation serialize_offsets :: "u64 list serializer" where
  "serialize_offsets \<equiv> serialize_vector 0 serialize_varint"

section \<open>Outputs\<close>

record txout_to_script =
  script_keys :: "key list"
  script_code :: bytes

definition serialize_txout_to_script :: "txout_to_script serializer" where
  "serialize_txout_to_script = do_all
     [FIELD script_keys script_keys_update (serialize_vector null_key serialize_key),
      FIELD script_code script_code_update serialize_bytes]"

definition null_txout_to_script :: txout_to_script where
  "null_txout_to_script = \<lparr> script_keys = [], script_code = [] \<rparr>"

record txout_to_tagged_key =
  tk_key :: key
  tk_view_tag :: bytes

definition serialize_txout_to_tagged_key :: "txout_to_tagged_key serializer" where
  "serialize_txout_to_tagged_key = do_all
     [FIELD tk_key tk_key_update serialize_key,
      FIELD tk_view_tag tk_view_tag_update (serialize_blob 1)]"

definition null_txout_to_tagged_key :: txout_to_tagged_key where
  "null_txout_to_tagged_key = \<lparr> tk_key = null_key, tk_view_tag = [0] \<rparr>"

record txout_xasset =
  xa_key :: key
  xa_asset_type :: bytes

definition serialize_txout_xasset :: "txout_xasset serializer" where
  "serialize_txout_xasset = do_all
     [FIELD xa_key xa_key_update serialize_key,
      FIELD xa_asset_type xa_asset_type_update serialize_string]"

definition null_txout_xasset :: txout_xasset where
  "null_txout_xasset = \<lparr> xa_key = null_key, xa_asset_type = [] \<rparr>"

record txout_salvium_key =
  sk_key :: key
  sk_asset_type :: bytes
  sk_unlock_time :: u64

definition serialize_txout_salvium_key :: "txout_salvium_key serializer" where
  "serialize_txout_salvium_key = do_all
     [FIELD sk_key sk_key_update serialize_key,
      FIELD sk_asset_type sk_asset_type_update serialize_string,
      VARINT_FIELD sk_unlock_time sk_unlock_time_update]"

definition null_txout_salvium_key :: txout_salvium_key where
  "null_txout_salvium_key = \<lparr> sk_key = null_key, sk_asset_type = [], sk_unlock_time = 0 \<rparr>"

record txout_salvium_tagged_key =
  stk_key :: key
  stk_asset_type :: bytes
  stk_unlock_time :: u64
  stk_view_tag :: bytes

definition serialize_txout_salvium_tagged_key :: "txout_salvium_tagged_key serializer" where
  "serialize_txout_salvium_tagged_key = do_all
     [FIELD stk_key stk_key_update serialize_key,
      FIELD stk_asset_type stk_asset_type_update serialize_string,
      VARINT_FIELD stk_unlock_time stk_unlock_time_update,
      FIELD stk_view_tag stk_view_tag_update (serialize_blob 1)]"

definition null_txout_salvium_tagged_key :: txout_salvium_tagged_key where
  "null_txout_salvium_tagged_key =
     \<lparr> stk_key = null_key, stk_asset_type = [], stk_unlock_time = 0, stk_view_tag = [0] \<rparr>"

record txout_zephyr_tagged_key =
  zk_key :: key
  zk_asset_type :: bytes
  zk_view_tag :: bytes

definition serialize_txout_zephyr_tagged_key :: "txout_zephyr_tagged_key serializer" where
  "serialize_txout_zephyr_tagged_key = do_all
     [FIELD zk_key zk_key_update serialize_key,
      FIELD zk_asset_type zk_asset_type_update serialize_string,
      FIELD zk_view_tag zk_view_tag_update (serialize_blob 1)]"

definition null_txout_zephyr_tagged_key :: txout_zephyr_tagged_key where
  "null_txout_zephyr_tagged_key = \<lparr> zk_key = null_key, zk_asset_type = [], zk_view_tag = [0] \<rparr>"

text \<open>The targets; \<open>txout_to_scripthash\<close>, \<open>txout_to_key\<close> and \<open>txout_offshore\<close> are blobs of 32 bytes.\<close>

datatype txout_target_v =
    TxoutToScript txout_to_script
  | TxoutToScripthash bytes
  | TxoutToKey key
  | TxoutToTaggedKey txout_to_tagged_key

definition serialize_txout_target_v :: "txout_target_v serializer" where
  "serialize_txout_target_v = serialize_variant
     [ALT 0x0 (\<lambda>v. case v of TxoutToScript p \<Rightarrow> Some p | _ \<Rightarrow> None) TxoutToScript null_txout_to_script serialize_txout_to_script,
      ALT 0x1 (\<lambda>v. case v of TxoutToScripthash p \<Rightarrow> Some p | _ \<Rightarrow> None) TxoutToScripthash null_key (serialize_blob 32),
      ALT 0x2 (\<lambda>v. case v of TxoutToKey p \<Rightarrow> Some p | _ \<Rightarrow> None) TxoutToKey null_key serialize_key,
      ALT 0x3 (\<lambda>v. case v of TxoutToTaggedKey p \<Rightarrow> Some p | _ \<Rightarrow> None) TxoutToTaggedKey null_txout_to_tagged_key
        serialize_txout_to_tagged_key]"

datatype txout_xhv_target_v =
    XhvToScript txout_to_script
  | XhvToScripthash bytes
  | XhvToKey key
  | XhvOffshore key
  | XhvXasset txout_xasset

definition serialize_txout_xhv_target_v :: "txout_xhv_target_v serializer" where
  "serialize_txout_xhv_target_v = serialize_variant
     [ALT 0x0 (\<lambda>v. case v of XhvToScript p \<Rightarrow> Some p | _ \<Rightarrow> None) XhvToScript null_txout_to_script serialize_txout_to_script,
      ALT 0x1 (\<lambda>v. case v of XhvToScripthash p \<Rightarrow> Some p | _ \<Rightarrow> None) XhvToScripthash null_key (serialize_blob 32),
      ALT 0x2 (\<lambda>v. case v of XhvToKey p \<Rightarrow> Some p | _ \<Rightarrow> None) XhvToKey null_key serialize_key,
      ALT 0x3 (\<lambda>v. case v of XhvOffshore p \<Rightarrow> Some p | _ \<Rightarrow> None) XhvOffshore null_key serialize_key,
      ALT 0x5 (\<lambda>v. case v of XhvXasset p \<Rightarrow> Some p | _ \<Rightarrow> None) XhvXasset null_txout_xasset serialize_txout_xasset]"

datatype txout_salvium_target_v =
    SalToScript txout_to_script
  | SalToScripthash bytes
  | SalKey txout_salvium_key
  | SalTaggedKey txout_salvium_tagged_key

definition serialize_txout_salvium_target_v :: "txout_salvium_target_v serializer" where
  "serialize_txout_salvium_target_v = serialize_variant
     [ALT 0x0 (\<lambda>v. case v of SalToScript p \<Rightarrow> Some p | _ \<Rightarrow> None) SalToScript null_txout_to_script serialize_txout_to_script,
      ALT 0x1 (\<lambda>v. case v of SalToScripthash p \<Rightarrow> Some p | _ \<Rightarrow> None) SalToScripthash null_key (serialize_blob 32),
      ALT 0x2 (\<lambda>v. case v of SalKey p \<Rightarrow> Some p | _ \<Rightarrow> None) SalKey null_txout_salvium_key serialize_txout_salvium_key,
      ALT 0x3 (\<lambda>v. case v of SalTaggedKey p \<Rightarrow> Some p | _ \<Rightarrow> None) SalTaggedKey null_txout_salvium_tagged_key
        serialize_txout_salvium_tagged_key]"

datatype txout_stablero_target_v =
    ZepToScript txout_to_script
  | ZepToScripthash bytes
  | ZepTaggedKey txout_zephyr_tagged_key

definition serialize_txout_stablero_target_v :: "txout_stablero_target_v serializer" where
  "serialize_txout_stablero_target_v = serialize_variant
     [ALT 0x0 (\<lambda>v. case v of ZepToScript p \<Rightarrow> Some p | _ \<Rightarrow> None) ZepToScript null_txout_to_script serialize_txout_to_script,
      ALT 0x1 (\<lambda>v. case v of ZepToScripthash p \<Rightarrow> Some p | _ \<Rightarrow> None) ZepToScripthash null_key (serialize_blob 32),
      ALT 0x2 (\<lambda>v. case v of ZepTaggedKey p \<Rightarrow> Some p | _ \<Rightarrow> None) ZepTaggedKey null_txout_zephyr_tagged_key
        serialize_txout_zephyr_tagged_key]"

text \<open>\<open>tx_out\<close>, \<open>tx_out_xhv\<close>, \<open>tx_out_salvium\<close> and \<open>tx_out_zephyr\<close> differ in the type of the target.\<close>

record 't tx_out =
  out_amount :: u64
  target :: 't

definition serialize_tx_out :: "'t serializer \<Rightarrow> 't tx_out serializer" where
  "serialize_tx_out s = do_all
     [VARINT_FIELD out_amount out_amount_update,
      FIELD target target_update s]"

section \<open>Inputs\<close>

record txin_to_script =
  is_prev :: bytes
  is_prevout :: u64
  is_sigset :: bytes

definition serialize_txin_to_script :: "txin_to_script serializer" where
  "serialize_txin_to_script = do_all
     [FIELD is_prev is_prev_update (serialize_blob 32),
      VARINT_FIELD is_prevout is_prevout_update,
      FIELD is_sigset is_sigset_update serialize_bytes]"

definition null_txin_to_script :: txin_to_script where
  "null_txin_to_script = \<lparr> is_prev = null_key, is_prevout = 0, is_sigset = [] \<rparr>"

record txin_to_scripthash =
  ish_prev :: bytes
  ish_prevout :: u64
  ish_script :: txout_to_script
  ish_sigset :: bytes

definition serialize_txin_to_scripthash :: "txin_to_scripthash serializer" where
  "serialize_txin_to_scripthash = do_all
     [FIELD ish_prev ish_prev_update (serialize_blob 32),
      VARINT_FIELD ish_prevout ish_prevout_update,
      FIELD ish_script ish_script_update serialize_txout_to_script,
      FIELD ish_sigset ish_sigset_update serialize_bytes]"

definition null_txin_to_scripthash :: txin_to_scripthash where
  "null_txin_to_scripthash =
     \<lparr> ish_prev = null_key, ish_prevout = 0, ish_script = null_txout_to_script, ish_sigset = [] \<rparr>"

text \<open>\<open>txin_to_key\<close>, which \<open>txin_offshore\<close> and \<open>txin_onshore\<close> repeat.\<close>

record txin_to_key =
  ik_amount :: u64
  ik_key_offsets :: "u64 list"
  ik_k_image :: key

definition serialize_txin_to_key :: "txin_to_key serializer" where
  "serialize_txin_to_key = do_all
     [VARINT_FIELD ik_amount ik_amount_update,
      FIELD ik_key_offsets ik_key_offsets_update serialize_offsets,
      FIELD ik_k_image ik_k_image_update serialize_key]"

definition null_txin_to_key :: txin_to_key where
  "null_txin_to_key = \<lparr> ik_amount = 0, ik_key_offsets = [], ik_k_image = null_key \<rparr>"

text \<open>\<open>txin_xasset\<close>, which \<open>txin_salvium_key\<close> and \<open>txin_zephyr_key\<close> repeat.\<close>

record txin_xasset =
  ia_amount :: u64
  ia_asset_type :: bytes
  ia_key_offsets :: "u64 list"
  ia_k_image :: key

definition serialize_txin_xasset :: "txin_xasset serializer" where
  "serialize_txin_xasset = do_all
     [VARINT_FIELD ia_amount ia_amount_update,
      FIELD ia_asset_type ia_asset_type_update serialize_string,
      FIELD ia_key_offsets ia_key_offsets_update serialize_offsets,
      FIELD ia_k_image ia_k_image_update serialize_key]"

definition null_txin_xasset :: txin_xasset where
  "null_txin_xasset = \<lparr> ia_amount = 0, ia_asset_type = [], ia_key_offsets = [], ia_k_image = null_key \<rparr>"

datatype txin_v =
    TxinGen u64
  | TxinToScript txin_to_script
  | TxinToScripthash txin_to_scripthash
  | TxinToKey txin_to_key
  | TxinOffshore txin_to_key
  | TxinOnshore txin_to_key
  | TxinXasset txin_xasset
  | TxinZephyrKey txin_xasset

text \<open>The last alternative has the tag of \<open>txin_to_key\<close>.\<close>

definition serialize_txin_v :: "txin_v serializer" where
  "serialize_txin_v = serialize_variant
     [ALT 0xff (\<lambda>v. case v of TxinGen p \<Rightarrow> Some p | _ \<Rightarrow> None) TxinGen 0 serialize_varint,
      ALT 0x0 (\<lambda>v. case v of TxinToScript p \<Rightarrow> Some p | _ \<Rightarrow> None) TxinToScript null_txin_to_script serialize_txin_to_script,
      ALT 0x1 (\<lambda>v. case v of TxinToScripthash p \<Rightarrow> Some p | _ \<Rightarrow> None) TxinToScripthash null_txin_to_scripthash
        serialize_txin_to_scripthash,
      ALT 0x2 (\<lambda>v. case v of TxinToKey p \<Rightarrow> Some p | _ \<Rightarrow> None) TxinToKey null_txin_to_key serialize_txin_to_key,
      ALT 0x3 (\<lambda>v. case v of TxinOffshore p \<Rightarrow> Some p | _ \<Rightarrow> None) TxinOffshore null_txin_to_key serialize_txin_to_key,
      ALT 0x4 (\<lambda>v. case v of TxinOnshore p \<Rightarrow> Some p | _ \<Rightarrow> None) TxinOnshore null_txin_to_key serialize_txin_to_key,
      ALT 0x5 (\<lambda>v. case v of TxinXasset p \<Rightarrow> Some p | _ \<Rightarrow> None) TxinXasset null_txin_xasset serialize_txin_xasset,
      ALT 0x2 (\<lambda>v. case v of TxinZephyrKey p \<Rightarrow> Some p | _ \<Rightarrow> None) TxinZephyrKey null_txin_xasset serialize_txin_xasset]"

datatype txin_salvium_v =
    SalinGen u64
  | SalinToScript txin_to_script
  | SalinToScripthash txin_to_scripthash
  | SalinKey txin_xasset

definition serialize_txin_salvium_v :: "txin_salvium_v serializer" where
  "serialize_txin_salvium_v = serialize_variant
     [ALT 0xff (\<lambda>v. case v of SalinGen p \<Rightarrow> Some p | _ \<Rightarrow> None) SalinGen 0 serialize_varint,
      ALT 0x0 (\<lambda>v. case v of SalinToScript p \<Rightarrow> Some p | _ \<Rightarrow> None) SalinToScript null_txin_to_script serialize_txin_to_script,
      ALT 0x1 (\<lambda>v. case v of SalinToScripthash p \<Rightarrow> Some p | _ \<Rightarrow> None) SalinToScripthash null_txin_to_scripthash
        serialize_txin_to_scripthash,
      ALT 0x2 (\<lambda>v. case v of SalinKey p \<Rightarrow> Some p | _ \<Rightarrow> None) SalinKey null_txin_xasset serialize_txin_xasset]"

fun get_signature_size :: "txin_v \<Rightarrow> nat" where
  "get_signature_size (TxinGen h) = 0"
| "get_signature_size (TxinToScript i) = 0"
| "get_signature_size (TxinToScripthash i) = 0"
| "get_signature_size (TxinToKey i) = length (ik_key_offsets i)"
| "get_signature_size (TxinOffshore i) = length (ik_key_offsets i)"
| "get_signature_size (TxinOnshore i) = length (ik_key_offsets i)"
| "get_signature_size (TxinXasset i) = length (ia_key_offsets i)"
| "get_signature_size (TxinZephyrKey i) = length (ia_key_offsets i)"

section \<open>The prefix\<close>

text \<open>
  \<open>transaction_prefix\<close>. The union of \<open>is_deregister\<close> and \<open>type\<close> is the field \<open>loki_type\<close>, whose low byte is
  \<open>is_deregister\<close>. The fields of \<open>version\<close> and of the heights are \<open>size_t\<close>.
\<close>

record transaction_prefix =
  tx_blob_type :: BLOB_TYPE
  version :: u64
  unlock_time :: u64
  vin :: "txin_v list"
  vin_salvium :: "txin_salvium_v list"
  vout :: "txout_target_v tx_out list"
  vout_salvium :: "txout_salvium_target_v tx_out list"
  vout_xhv :: "txout_xhv_target_v tx_out list"
  vout_zephyr :: "txout_stablero_target_v tx_out list"
  extra :: bytes
  pricing_record_height :: u64
  offshore_data :: bytes
  amount_burnt :: u64
  amount_minted :: u64
  output_unlock_times :: "u64 list"
  arq_tx_type :: u16
  collateral_indices :: "u32 list"
  tx_type :: u32
  return_address :: key
  return_address_list :: "key list"
  return_address_change_mask :: bytes
  return_pubkey :: key
  source_asset_type :: bytes
  destination_asset_type :: bytes
  amount_slippage_limit :: u64
  loki_type :: u16

definition is_deregister :: "'z transaction_prefix_scheme \<Rightarrow> u8" where
  "is_deregister tx = ucast (loki_type tx)"

definition is_deregister_update :: "(u8 \<Rightarrow> u8) \<Rightarrow> 'z transaction_prefix_scheme \<Rightarrow> 'z transaction_prefix_scheme" where
  "is_deregister_update f tx = tx\<lparr> loki_type := (loki_type tx AND 0xff00) OR ucast (f (is_deregister tx)) \<rparr>"

abbreviation "PROTOCOL_TX \<equiv> 2 :: u32"
abbreviation "MINER_TX \<equiv> 1 :: u32"
abbreviation "TRANSFER_TX \<equiv> 3 :: u32"

definition serialize_transaction_prefix :: "'z transaction_prefix_scheme serializer" where
  "serialize_transaction_prefix = do_all
     [VARINT_FIELD version version_update,
      IF (\<lambda>tx. 2 < version tx \<and> tx_blob_type tx \<in> {BLOB_TYPE_CRYPTONOTE_LOKI, BLOB_TYPE_CRYPTONOTE_XTNC})
        [FIELD output_unlock_times output_unlock_times_update serialize_offsets,
         IF (\<lambda>tx. version tx = 3) [FIELD is_deregister is_deregister_update serialize_int] []] [],
      IF (\<lambda>tx. 3 \<le> version tx \<and> tx_blob_type tx = BLOB_TYPE_CRYPTONOTE_ARQMA)
        [VARINT_FIELD arq_tx_type arq_tx_type_update,
         RETURN_FALSE_IF (\<lambda>tx. 4 \<le> arq_tx_type tx),
         FIELD output_unlock_times output_unlock_times_update serialize_offsets] [],
      IF (\<lambda>tx. tx_blob_type tx \<noteq> BLOB_TYPE_CRYPTONOTE_XHV \<or> version tx < 6)
        [VARINT_FIELD unlock_time unlock_time_update] [],
      IF (\<lambda>tx. tx_blob_type tx = BLOB_TYPE_CRYPTONOTE_SALVIUM)
        [FIELD vin_salvium vin_salvium_update (serialize_vector (SalinGen 0) serialize_txin_salvium_v)]
        [FIELD vin vin_update (serialize_vector (TxinGen 0) serialize_txin_v)],
      IF (\<lambda>tx. tx_blob_type tx = BLOB_TYPE_CRYPTONOTE_SALVIUM)
        [FIELD vout_salvium vout_salvium_update
           (serialize_vector \<lparr> out_amount = 0, target = SalToScript null_txout_to_script \<rparr>
             (serialize_tx_out serialize_txout_salvium_target_v))]
        [IF (\<lambda>tx. tx_blob_type tx = BLOB_TYPE_CRYPTONOTE_ZEPHYR)
          [FIELD vout_zephyr vout_zephyr_update
             (serialize_vector \<lparr> out_amount = 0, target = ZepToScript null_txout_to_script \<rparr>
               (serialize_tx_out serialize_txout_stablero_target_v))]
          [IF (\<lambda>tx. tx_blob_type tx = BLOB_TYPE_CRYPTONOTE_XHV)
            [FIELD vout_xhv vout_xhv_update
               (serialize_vector \<lparr> out_amount = 0, target = XhvToScript null_txout_to_script \<rparr>
                 (serialize_tx_out serialize_txout_xhv_target_v))]
            [FIELD vout vout_update
               (serialize_vector \<lparr> out_amount = 0, target = TxoutToScript null_txout_to_script \<rparr>
                 (serialize_tx_out serialize_txout_target_v))]]],
      IF (\<lambda>tx. tx_blob_type tx \<in> {BLOB_TYPE_CRYPTONOTE_LOKI, BLOB_TYPE_CRYPTONOTE_XTNC, BLOB_TYPE_CRYPTONOTE_ARQMA})
        [RETURN_FALSE_IF (\<lambda>tx. (3 \<le> version tx \<or> 3 \<le> version tx) \<and> length (vout tx) \<noteq> length (output_unlock_times tx))] [],
      FIELD extra extra_update serialize_bytes,
      IF (\<lambda>tx. tx_blob_type tx \<in> {BLOB_TYPE_CRYPTONOTE_LOKI, BLOB_TYPE_CRYPTONOTE_XTNC} \<and> 4 \<le> version tx)
        [VARINT_FIELD loki_type loki_type_update,
         RETURN_FALSE_IF (\<lambda>tx. 3 \<le> loki_type tx)] [],
      IF (\<lambda>tx. tx_blob_type tx = BLOB_TYPE_CRYPTONOTE_SALVIUM)
        [VARINT_FIELD tx_type tx_type_update,
         IF (\<lambda>tx. tx_type tx \<noteq> PROTOCOL_TX)
           [VARINT_FIELD amount_burnt amount_burnt_update,
            IF (\<lambda>tx. tx_type tx \<noteq> MINER_TX)
              [IF (\<lambda>tx. tx_type tx = TRANSFER_TX \<and> 3 \<le> version tx)
                [FIELD return_address_list return_address_list_update (serialize_vector null_key serialize_key),
                 FIELD return_address_change_mask return_address_change_mask_update serialize_bytes]
                [FIELD return_address return_address_update serialize_key,
                 FIELD return_pubkey return_pubkey_update serialize_key],
               FIELD source_asset_type source_asset_type_update serialize_string,
               FIELD destination_asset_type destination_asset_type_update serialize_string,
               VARINT_FIELD amount_slippage_limit amount_slippage_limit_update] []] []]
        [IF (\<lambda>tx. tx_blob_type tx = BLOB_TYPE_CRYPTONOTE_ZEPHYR)
          [VARINT_FIELD pricing_record_height pricing_record_height_update,
           VARINT_FIELD amount_burnt amount_burnt_update,
           VARINT_FIELD amount_minted amount_minted_update] []],
      IF (\<lambda>tx. tx_blob_type tx = BLOB_TYPE_CRYPTONOTE_XHV \<and> 3 \<le> version tx)
        [VARINT_FIELD pricing_record_height pricing_record_height_update,
         IF (\<lambda>tx. version tx < 5) [FIELD offshore_data offshore_data_update serialize_bytes] [],
         IF (\<lambda>tx. 6 \<le> version tx) [FIELD output_unlock_times output_unlock_times_update serialize_offsets] [],
         RETURN_FALSE_IF (\<lambda>tx. 6 \<le> version tx \<and> length (vout_xhv tx) \<noteq> length (output_unlock_times tx)),
         VARINT_FIELD amount_burnt amount_burnt_update,
         VARINT_FIELD amount_minted amount_minted_update,
         IF (\<lambda>tx. 7 \<le> version tx \<and> amount_burnt tx \<noteq> 0)
           [FIELD collateral_indices collateral_indices_update (serialize_vector 0 serialize_int),
            RETURN_FALSE_IF (\<lambda>tx. length (collateral_indices tx) \<noteq> 2),
            RETURN_FALSE_IF (\<lambda>tx. list_ex (\<lambda>i. length (vout tx) \<le> unat i) (collateral_indices tx))] []] []]"

section \<open>Signatures\<close>

text \<open>\<open>crypto.h\<close>: the signatures of one input, whose number is known from the input.\<close>

abbreviation null_signature :: bytes where
  "null_signature \<equiv> replicate 64 0"

definition serialize_signature_vector :: "bytes list serializer" where
  "serialize_signature_vector v ar =
     (case ar of
        Saving out \<Rightarrow> serialize_elements (serialize_blob 64) v ar
      | Loading input \<Rightarrow> if length input < length v * 64 then None
          else serialize_elements (serialize_blob 64) (replicate (length v) null_signature) ar)"

definition serialize_signatures_of :: "nat \<Rightarrow> bytes list serializer" where
  "serialize_signatures_of n v ar =
     (let v = (case ar of Saving out \<Rightarrow> v | Loading input \<Rightarrow> resize n null_signature v) in
      if n \<noteq> length v then None else serialize_signature_vector v ar)"

text \<open>The loop over the inputs.\<close>

fun serialize_signature_loop :: "nat list \<Rightarrow> bytes list list serializer" where
  "serialize_signature_loop [] v ar = Some (v, ar)"
| "serialize_signature_loop (n # ns) [] ar = None"
| "serialize_signature_loop (n # ns) (s # v) ar =
     do { (s, ar) \<leftarrow> serialize_signatures_of n s ar; (v, ar) \<leftarrow> serialize_signature_loop ns v ar; Some (s # v, ar) }"

definition serialize_signatures :: "nat list \<Rightarrow> bytes list list serializer" where
  "serialize_signatures sizes v ar =
     (let v = (case ar of Saving out \<Rightarrow> v | Loading input \<Rightarrow> resize (length sizes) [] v) in
      if v = [] then (if list_all (\<lambda>n. n = 0) sizes then Some (v, ar) else None)
      else if length sizes \<noteq> length v then None
      else serialize_signature_loop sizes v ar)"

section \<open>Transactions\<close>

record transaction = transaction_prefix +
  signatures :: "bytes list list"
  rct_signatures :: rctSig

text \<open>
  The object that is filled when a transaction is parsed. In the code \<open>p_r\<close>, which a step tests before anything has
  been read into it, is what the memory held before; here it is zero.
\<close>

definition null_transaction :: "BLOB_TYPE \<Rightarrow> transaction" where
  "null_transaction bt = \<lparr> tx_blob_type = bt, version = 0, unlock_time = 0, vin = [], vin_salvium = [], vout = [],
     vout_salvium = [], vout_xhv = [], vout_zephyr = [], extra = [], pricing_record_height = 0, offshore_data = [],
     amount_burnt = 0, amount_minted = 0, output_unlock_times = [], arq_tx_type = 0, collateral_indices = [],
     tx_type = 0, return_address = null_key, return_address_list = [], return_address_change_mask = [],
     return_pubkey = null_key, source_asset_type = [], destination_asset_type = [], amount_slippage_limit = 0,
     loki_type = 0, signatures = [], rct_signatures = null_rctSig \<rparr>"

text \<open>\<open>key_offsets.size() - 1\<close>, in \<open>size_t\<close>.\<close>

definition offsets_mixin :: "u64 list \<Rightarrow> nat" where
  "offsets_mixin offs = unat (of_nat (length offs) - 1 :: u64)"

definition tx_mixin :: "'z transaction_prefix_scheme \<Rightarrow> nat" where
  "tx_mixin tx =
     (case tx_blob_type tx of
        BLOB_TYPE_CRYPTONOTE_SALVIUM \<Rightarrow>
          (case vin_salvium tx of SalinKey i # _ \<Rightarrow> offsets_mixin (ia_key_offsets i) | _ \<Rightarrow> 0)
      | BLOB_TYPE_CRYPTONOTE_ZEPHYR \<Rightarrow>
          (case vin tx of TxinZephyrKey i # _ \<Rightarrow> offsets_mixin (ia_key_offsets i) | _ \<Rightarrow> 0)
      | BLOB_TYPE_CRYPTONOTE_XHV \<Rightarrow>
          (case vin tx of
             TxinToKey i # _ \<Rightarrow> offsets_mixin (ik_key_offsets i)
           | TxinOffshore i # _ \<Rightarrow> offsets_mixin (ik_key_offsets i)
           | TxinOnshore i # _ \<Rightarrow> offsets_mixin (ik_key_offsets i)
           | TxinXasset i # _ \<Rightarrow> offsets_mixin (ia_key_offsets i)
           | _ \<Rightarrow> 0)
      | _ \<Rightarrow> (case vin tx of TxinToKey i # _ \<Rightarrow> offsets_mixin (ik_key_offsets i) | _ \<Rightarrow> 0))"

definition tx_inputs :: "'z transaction_prefix_scheme \<Rightarrow> nat" where
  "tx_inputs tx = (if tx_blob_type tx = BLOB_TYPE_CRYPTONOTE_SALVIUM then length (vin_salvium tx) else length (vin tx))"

definition tx_outputs :: "'z transaction_prefix_scheme \<Rightarrow> nat" where
  "tx_outputs tx =
     (case tx_blob_type tx of
        BLOB_TYPE_CRYPTONOTE_SALVIUM \<Rightarrow> length (vout_salvium tx)
      | BLOB_TYPE_CRYPTONOTE_ZEPHYR \<Rightarrow> length (vout_zephyr tx)
      | BLOB_TYPE_CRYPTONOTE_XHV \<Rightarrow> length (vout_xhv tx)
      | _ \<Rightarrow> length (vout tx))"

text \<open>The number of outputs the base of the signature is given here has no case for Salvium.\<close>

definition tx_base_outputs :: "'z transaction_prefix_scheme \<Rightarrow> nat" where
  "tx_base_outputs tx =
     (if tx_blob_type tx = BLOB_TYPE_CRYPTONOTE_ZEPHYR then length (vout_zephyr tx)
      else if tx_blob_type tx \<noteq> BLOB_TYPE_CRYPTONOTE_XHV then length (vout tx) else length (vout_xhv tx))"

record rct_sizes =
  sz_inputs :: nat
  sz_base_outputs :: nat
  sz_outputs :: nat
  sz_mixin :: nat

definition rct_sizes_of :: "'z transaction_prefix_scheme \<Rightarrow> rct_sizes" where
  "rct_sizes_of tx = \<lparr> sz_inputs = tx_inputs tx, sz_base_outputs = tx_base_outputs tx, sz_outputs = tx_outputs tx,
     sz_mixin = tx_mixin tx \<rparr>"

definition serialize_rct :: "amounts \<Rightarrow> rct_sizes \<Rightarrow> rctSig serializer" where
  "serialize_rct am sz = do_all
     [serialize_rctsig_base (sz_inputs sz) (sz_base_outputs sz),
      IF (\<lambda>r. rct_type r \<noteq> RCTTypeNull)
        [WITH rct_type (\<lambda>ty. FIELD rctsig_p rctsig_p_update
           (serialize_rctsig_prunable am ty (sz_inputs sz) (sz_outputs sz) (sz_mixin sz)))] []]"

definition has_v1_signatures :: "'z transaction_prefix_scheme \<Rightarrow> bool" where
  "has_v1_signatures tx \<longleftrightarrow> version tx = 1 \<and> tx_blob_type tx \<notin> {BLOB_TYPE_CRYPTONOTE2, BLOB_TYPE_CRYPTONOTE3}"

definition serialize_transaction :: "amounts \<Rightarrow> transaction serializer" where
  "serialize_transaction am = do_all
     [serialize_transaction_prefix,
      IF has_v1_signatures
        [WITH (\<lambda>tx. map get_signature_size (vin tx)) (\<lambda>sizes. FIELD signatures signatures_update (serialize_signatures sizes))]
        [IF (\<lambda>tx. tx_inputs tx \<noteq> 0)
          [WITH rct_sizes_of (\<lambda>sz. FIELD rct_signatures rct_signatures_update (serialize_rct am sz))] []]]"

section \<open>The parts are read back\<close>

lemma wide_vectors [codecs]: "wide_codec serialize_bytes" "wide_codec serialize_offsets"
  by (simp_all add: codecs)

lemma full_outputs_and_inputs [codecs]:
  "full_codec serialize_txout_to_script" "full_codec serialize_txout_to_tagged_key" "full_codec serialize_txout_xasset"
  "full_codec serialize_txout_salvium_key" "full_codec serialize_txout_salvium_tagged_key"
  "full_codec serialize_txout_zephyr_tagged_key" "full_codec serialize_txin_to_script" "full_codec serialize_txin_to_key"
  "full_codec serialize_txin_xasset"
  unfolding serialize_txout_to_script_def serialize_txout_to_tagged_key_def serialize_txout_xasset_def
    serialize_txout_salvium_key_def serialize_txout_salvium_tagged_key_def serialize_txout_zephyr_tagged_key_def
    serialize_txin_to_script_def serialize_txin_to_key_def serialize_txin_xasset_def VARINT_FIELD_def
  by (rule full_structure, simp add: codecs saving_rules, simp add: codecs shrinks_rules,
      (rule loads_steps | simp add: saving_rules codecs)+,
      (elim do_all_loadE; (simp (no_asm) add: codecs shrinks_rules; fail)?), elim load_elims,
      (simp (no_asm_simp) add: saving_rules codecs; simp?))+

lemma full_txin_to_scripthash [codecs]: "full_codec serialize_txin_to_scripthash"
  unfolding serialize_txin_to_scripthash_def VARINT_FIELD_def
  by (rule full_structure, simp add: codecs saving_rules, simp add: codecs shrinks_rules,
      (rule loads_steps | simp add: saving_rules codecs)+,
      (elim do_all_loadE; (simp (no_asm) add: codecs shrinks_rules; fail)?), elim load_elims,
      (simp (no_asm_simp) add: saving_rules codecs; simp?))

lemma variant_codecs [codecs]:
  "wide_codec serialize_txout_target_v" "wide_codec serialize_txout_xhv_target_v"
  "wide_codec serialize_txout_salvium_target_v" "wide_codec serialize_txout_stablero_target_v"
  "wide_codec serialize_txin_v" "wide_codec serialize_txin_salvium_v"
  unfolding serialize_txout_target_v_def serialize_txout_xhv_target_v_def serialize_txout_salvium_target_v_def
    serialize_txout_stablero_target_v_def serialize_txin_v_def serialize_txin_salvium_v_def
  by (rule variant_codec,
      (simp only: list.set ball_simps, intro conjI ALT_codec TrueI;
        simp add: codecs split: txout_target_v.splits txout_xhv_target_v.splits txout_salvium_target_v.splits
          txout_stablero_target_v.splits txin_v.splits txin_salvium_v.splits),
      (simp only: exclusive_def, rule allI, case_tac v; simp add: ALT_def))+

lemma tx_out_codec [codecs]:
  fixes s :: "'t serializer"
  assumes s: "wide_codec s"
  shows "wide_codec (serialize_tx_out s)"
  unfolding serialize_tx_out_def VARINT_FIELD_def
proof (rule wide_structure, rule codec_structure)
  let ?ss = "[FIELD out_amount out_amount_update serialize_varint, FIELD target target_update s] :: 't tx_out serializer list"
  note c = codecs saving_rules shrinks_rules s
  show a: "\<forall>t \<in> set ?ss. saves t v" for v by (simp add: c)
  then show "\<forall>t \<in> set ?ss. saves t v" for v .
  show "\<forall>t \<in> set ?ss. shrinks t" by (simp add: c)
  show "\<exists>t \<in> set ?ss. \<forall>v. saved t v \<noteq> Some []" by (simp add: c saved_varint)
  show "loads_all ?ss v1 v v" if "do_all ?ss v0 (Loading input) = Some (v, ar)" for v0 input v ar v1
    using that
    by (elim do_all_loadE; (simp (no_asm) add: c; fail)?) (elim load_elims, (rule loads_steps | simp add: c)+)
  show "\<forall>t \<in> set ?ss. \<exists>w. saved t v = Some w" if "do_all ?ss v0 (Loading input) = Some (v, ar)" for v0 input v ar
    using that
    by (elim do_all_loadE; (simp (no_asm) add: c; fail)?) (elim load_elims, simp add: c)
qed

section \<open>A transaction reads back what it has loaded\<close>

lemma is_deregister_lens:
  "is_deregister (is_deregister_update (\<lambda>_. b) tx) = b" "is_deregister_update (\<lambda>_. is_deregister tx) tx = tx"
  "is_deregister_update (\<lambda>_. b) (is_deregister_update (\<lambda>_. b') tx) = is_deregister_update (\<lambda>_. b) tx"
proof -
  have low: "ucast ((w AND 0xff00) OR ucast b) = b" for w :: u16 and b :: u8
    by (rule bit_word_eqI) (auto simp: bit_simps less_Suc_eq numeral_eq_Suc)
  have same: "(w AND 0xff00) OR ucast (ucast w :: u8) = w" for w :: u16
    by (rule bit_word_eqI) (auto simp: bit_simps less_Suc_eq numeral_eq_Suc)
  have twice: "((w AND 0xff00) OR ucast b') AND 0xff00 = w AND 0xff00" for w :: u16 and b' :: u8
    by (rule bit_word_eqI) (auto simp: bit_simps less_Suc_eq numeral_eq_Suc dest: bit_imp_le_length)
  show "is_deregister (is_deregister_update (\<lambda>_. b) tx) = b" "is_deregister_update (\<lambda>_. is_deregister tx) tx = tx"
    "is_deregister_update (\<lambda>_. b) (is_deregister_update (\<lambda>_. b') tx) = is_deregister_update (\<lambda>_. b) tx"
    by (simp_all add: is_deregister_def is_deregister_update_def low same twice)
qed

lemma prefix_reloads: "reloads serialize_transaction_prefix (\<lambda>_. True)"
  unfolding serialize_transaction_prefix_def VARINT_FIELD_def
  by (rule indep_first | rule reload_rules indep_rules
    | ((rule indep_leaf, (rule keeps_rules | (simp add: is_deregister_lens; fail)
        | (simp add: is_deregister_def is_deregister_update_def; fail))+)[1]; fail)
    | rule indep_right keeps_rules | (rule codec_reloads, simp add: codecs; fail)
    | (rule indep_step indep_assign, (simp add: codecs saving_rules is_deregister_lens; fail))
    | (simp add: codecs saving_rules is_deregister_lens; fail)
    | (simp add: is_deregister_update_def; fail) | (rule indep_absurd, force))+

lemma prefix_saves [saving_rules]: "saves serialize_transaction_prefix tx"
  by (simp add: serialize_transaction_prefix_def VARINT_FIELD_def saving_rules codecs is_deregister_lens)

lemma keeps_prefix [keeps_rules]: "keeps serialize_transaction_prefix tx_blob_type"
  unfolding serialize_transaction_prefix_def VARINT_FIELD_def
  by (rule keeps_rules | (simp add: is_deregister_update_def; fail))+

text \<open>The signatures.\<close>

lemma blob_elements_length:
  "length xs = length ys \<Longrightarrow> serialize_elements (serialize_blob k) xs (Loading input)
    = serialize_elements (serialize_blob k) ys (Loading input)"
proof (induction xs arbitrary: ys input)
  case (Cons x xs)
  then obtain y zs where "ys = y # zs" "length xs = length zs" by (cases ys) auto
  with Cons.IH [of zs] show ?case by (simp add: serialize_blob_def)
qed simp

lemma blob_elements_short:
  "length input < length xs * k \<Longrightarrow> serialize_elements (serialize_blob k) xs (Loading input) = None"
proof (induction xs arbitrary: input)
  case (Cons x xs)
  show ?case
  proof (cases "length input < k")
    case False
    with Cons have "serialize_elements (serialize_blob k) xs (Loading (drop k input)) = None" by simp
    moreover have "serialize_blob k x (Loading input) = Some (take k input, Loading (drop k input))"
      using False by (simp add: serialize_blob_def)
    ultimately show ?thesis by simp
  qed (simp add: serialize_blob_def)
qed simp

lemma signatures_of_custom: "serialize_signatures_of n = serialize_custom n null_signature (serialize_blob 64)"
proof (intro ext)
  fix v ar
  show "serialize_signatures_of n v ar = serialize_custom n null_signature (serialize_blob 64) v ar"
  proof (cases ar)
    case (Loading input)
    have l: "length (resize n null_signature v) = length (replicate n null_signature)" by simp
    show ?thesis unfolding Loading serialize_signatures_of_def serialize_custom_def serialize_signature_vector_def Let_def
      using blob_elements_short [of input "resize n null_signature v" 64] blob_elements_length [OF l, of 64 input] by simp
  qed (auto simp: serialize_signatures_of_def serialize_custom_def serialize_signature_vector_def Let_def)
qed

lemma signatures_of_codec [codecs]: "full_codec (serialize_signatures_of n)"
  by (simp add: signatures_of_custom codecs)

lemma signature_loop_reloads: "reloads (serialize_signature_loop ns) (\<lambda>v. length v = m)"
proof (induction ns arbitrary: m)
  case Nil
  show ?case by (rule reloadsI) (auto simp: shrinks_def writes_def)
next
  case (Cons n ns)
  have s: "reloads (serialize_signatures_of n) (\<lambda>_. True)" by (rule codec_reloads) (simp add: codecs)
  have l: "\<exists>x xs i1 y ys rest. v0 = x # xs \<and> v = y # ys \<and> length xs = length ys \<and> ar = Loading rest \<and> length rest \<le> length input
      \<and> serialize_signatures_of n x (Loading input) = Some (y, Loading i1)
      \<and> serialize_signature_loop ns xs (Loading i1) = Some (ys, ar)"
    if lv: "serialize_signature_loop (n # ns) v0 (Loading input) = Some (v, ar)" for v0 input v ar
  proof -
    obtain x xs y ar1 ys where e: "v0 = x # xs" "v = y # ys" "serialize_signatures_of n x (Loading input) = Some (y, ar1)"
        "serialize_signature_loop ns xs ar1 = Some (ys, ar)"
      using lv by (cases v0) (auto simp: bind_eq_Some_conv)
    obtain i1 where i1: "ar1 = Loading i1" "length i1 \<le> length input" using shrinksD [OF reloads_shrinks [OF s] e(3)] by blast
    with reloadsE [OF Cons.IH [of "length xs"] refl, of i1 ys ar] e(4)
    obtain rest where "length ys = length xs" "ar = Loading rest" "length rest \<le> length i1" by metis
    with e i1 show ?thesis by auto
  qed
  show ?case
  proof (rule reloadsI)
    show "shrinks (serialize_signature_loop (n # ns))" unfolding shrinks_def using l by blast
    fix v0 input v ar
    assume m: "length v0 = m" and "serialize_signature_loop (n # ns) v0 (Loading input) = Some (v, ar)"
    then obtain x xs i1 y ys where e: "v0 = x # xs" "v = y # ys" "length xs = length ys"
        "serialize_signatures_of n x (Loading input) = Some (y, Loading i1)"
        "serialize_signature_loop ns xs (Loading i1) = Some (ys, ar)"
      using l by blast
    obtain w where w: "writes (serialize_signatures_of n) y w"
        "\<And>rest. serialize_signatures_of n x (Loading (w @ rest)) = Some (y, Loading rest)"
      using reloadsE [OF s TrueI e(4)] by metis
    obtain u where u: "writes (serialize_signature_loop ns) ys u"
        "\<And>rest. serialize_signature_loop ns xs (Loading (u @ rest)) = Some (ys, Loading rest)"
      using reloadsE [OF Cons.IH [of "length xs"] refl e(5)] by metis
    have "writes (serialize_signature_loop (n # ns)) v (w @ u)" using w(1) u(1) by (simp add: writes_def e(2))
    moreover have "serialize_signature_loop (n # ns) v0 (Loading ((w @ u) @ rest)) = Some (v, Loading rest)" for rest
      using w(2) u(2) by (simp add: e(1,2))
    ultimately show "length v = m \<and> (\<exists>w. writes (serialize_signature_loop (n # ns)) v w
        \<and> (\<forall>rest. serialize_signature_loop (n # ns) v0 (Loading (w @ rest)) = Some (v, Loading rest)))"
      using m e by (auto simp del: serialize_signature_loop.simps)
  qed
qed

lemma signatures_reloads [reload_rules]: "reloads (serialize_signatures sizes) (\<lambda>_. True)"
proof (rule reloadsI)
  have c: "serialize_signatures sizes v0 (Loading input) = (if sizes = [] then Some ([], Loading input)
      else serialize_signature_loop sizes (resize (length sizes) [] v0) (Loading input))" for v0 input
    by (cases sizes; cases "resize (length sizes) [] v0")
      (auto simp: serialize_signatures_def Let_def dest: arg_cong [where f = length])
  note loop = signature_loop_reloads [of sizes "length sizes"]
  show "shrinks (serialize_signatures sizes)"
    using reloads_shrinks [OF loop] by (auto simp: shrinks_def c)
  fix v0 input v ar
  assume l: "serialize_signatures sizes v0 (Loading input) = Some (v, ar)"
  show "True \<and> (\<exists>w. writes (serialize_signatures sizes) v w
      \<and> (\<forall>rest. serialize_signatures sizes v0 (Loading (w @ rest)) = Some (v, Loading rest)))"
  proof (cases "sizes = []")
    case True
    moreover from True have "v = []" using l c [of v0 input] by simp
    ultimately have "writes (serialize_signatures sizes) v []" by (simp add: writes_def serialize_signatures_def)
    moreover have "serialize_signatures sizes v0 (Loading rest) = Some (v, Loading rest)" for rest
      using True \<open>v = []\<close> c [of v0 rest] by simp
    ultimately show ?thesis by (intro conjI TrueI exI [of _ "[]"]) simp_all
  next
    case False
    from reloadsE [OF loop, of "resize (length sizes) [] v0" input v ar] l False
    obtain w where w: "length v = length sizes" "writes (serialize_signature_loop sizes) v w"
        "\<And>rest. serialize_signature_loop sizes (resize (length sizes) [] v0) (Loading (w @ rest)) = Some (v, Loading rest)"
      by (simp add: c) metis
    have "v \<noteq> []" using w(1) False by auto
    then have "writes (serialize_signatures sizes) v w" using w(1,2) by (simp add: writes_def serialize_signatures_def)
    with w(3) False show ?thesis by (auto simp: c)
  qed
qed

lemma rct_reloads: "reloads (serialize_rct am sz) (\<lambda>r. p_r r = null_key)"
  unfolding serialize_rct_def serialize_rctsig_base_def serialize_rctsig_base_old_def VARINT_FIELD_def
  by (rule indep_first | rule reload_rules indep_rules indep_leaf keeps_rules | (rule codec_reloads, simp add: codecs; fail)
    | (rule indep_step indep_assign, (simp add: codecs saving_rules is_deregister_lens; fail))
    | (simp add: codecs saving_rules zeroed_fees; fail) | (elim conjE, rule FalseE, erule notE, assumption))+

definition no_p_r :: "transaction \<Rightarrow> bool" where
  "no_p_r tx \<longleftrightarrow> p_r (rct_signatures tx) = null_key"

lemma no_p_r_null [simp]: "no_p_r (null_transaction bt)"
  by (simp add: no_p_r_def null_transaction_def null_rctSig_def)

lemma step_conditions [simp]:
  "has_v1_signatures (tx\<lparr> signatures := x \<rparr>) = has_v1_signatures tx" "tx_inputs (tx\<lparr> signatures := x \<rparr>) = tx_inputs tx"
  "has_v1_signatures (tx\<lparr> rct_signatures := r \<rparr>) = has_v1_signatures tx" "tx_inputs (tx\<lparr> rct_signatures := r \<rparr>) = tx_inputs tx"
  "rct_sizes_of (tx\<lparr> rct_signatures := r \<rparr>) = rct_sizes_of tx" "no_p_r (tx\<lparr> signatures := x \<rparr>) = no_p_r tx"
  by (simp_all add: has_v1_signatures_def tx_inputs_def rct_sizes_of_def tx_base_outputs_def tx_outputs_def tx_mixin_def no_p_r_def
    cong del: BLOB_TYPE.case_cong_weak)

lemma transaction_reloads: "reloads (serialize_transaction am) no_p_r"
  unfolding serialize_transaction_def
proof (rule reloads_Cons)
  show "reloads serialize_transaction_prefix no_p_r"
  proof (rule reloads_kept [OF prefix_reloads])
    show "keeps serialize_transaction_prefix no_p_r"
      unfolding serialize_transaction_prefix_def VARINT_FIELD_def
      by (rule keeps_rules | (simp add: is_deregister_update_def no_p_r_def; fail))+
  qed
  let ?rest = "[IF has_v1_signatures
        [WITH (\<lambda>tx. map get_signature_size (vin tx)) (\<lambda>sizes. FIELD signatures signatures_update (serialize_signatures sizes))]
        [IF (\<lambda>tx. tx_inputs tx \<noteq> 0)
          [WITH rct_sizes_of (\<lambda>sz. FIELD rct_signatures rct_signatures_update (serialize_rct am sz))] []]]"
  have rct: "reloads (FIELD rct_signatures rct_signatures_update (serialize_rct am sz)) (\<lambda>tx. no_p_r tx \<and> Q tx)"
    if "\<And>r tx. Q (tx\<lparr> rct_signatures := r \<rparr>) = Q tx" for sz Q
    by (rule reloads_FIELD [OF rct_reloads]) (simp_all add: no_p_r_def that)
  show "reloads (do_all ?rest) no_p_r"
    by (rule indep_first | rule reloads_Cons reloads_Nil reloads_IF reloads_WITH | (simp only: conj_assoc, rule rct)
      | rule reload_rules | (simp; fail))+
  show "indep no_p_r serialize_transaction_prefix (do_all ?rest)"
    unfolding serialize_transaction_prefix_def VARINT_FIELD_def
    by (rule indep_first | rule indep_rules indep_leaf keeps_rules
      | (rule indep_step indep_assign, (simp add: codecs saving_rules is_deregister_lens; fail))
      | (simp add: codecs saving_rules is_deregister_lens; fail) | (simp add: is_deregister_def; fail))+
qed

section \<open>Parsing and hashing\<close>

definition parse_and_validate_tx_from_blob :: "amounts \<Rightarrow> BLOB_TYPE \<Rightarrow> bytes \<Rightarrow> transaction option" where
  "parse_and_validate_tx_from_blob am bt tx_blob = parse_binary (serialize_transaction am) (null_transaction bt) tx_blob"

text \<open>
  \<open>t_serializable_object_to_blob\<close>. It ignores a failure and returns what has been written until then; in the
  model that is \<open>None\<close>, and so is every hash of it.
\<close>

definition t_serializable_object_to_blob :: "'v serializer \<Rightarrow> 'v \<Rightarrow> bytes option" where
  "t_serializable_object_to_blob s v = saved s v"

definition tx_to_blob :: "amounts \<Rightarrow> transaction \<Rightarrow> bytes option" where
  "tx_to_blob am tx = t_serializable_object_to_blob (serialize_transaction am) tx"

definition get_blob_hash :: "bytes \<Rightarrow> bytes option" where
  "get_blob_hash blob = cn_fast_hash blob"

definition get_object_hash :: "'v serializer \<Rightarrow> 'v \<Rightarrow> bytes option" where
  "get_object_hash s v = do { blob \<leftarrow> t_serializable_object_to_blob s v; get_blob_hash blob }"

abbreviation null_hash :: bytes where
  "null_hash \<equiv> replicate 32 0"

text \<open>The letters \<open>ryo-currency\<close> stand in front of the prefix of a Ryo transaction.\<close>

definition ryo_currency :: bytes where
  "ryo_currency = [0x72, 0x79, 0x6f, 0x2d, 0x63, 0x75, 0x72, 0x72, 0x65, 0x6e, 0x63, 0x79]"

definition get_transaction_prefix_hash :: "'z transaction_prefix_scheme \<Rightarrow> bytes option" where
  "get_transaction_prefix_hash tx =
     do {
       blob \<leftarrow> saved serialize_transaction_prefix tx;
       cn_fast_hash ((if tx_blob_type tx = BLOB_TYPE_CRYPTONOTE_RYO then ryo_currency else []) @ blob)
     }"

text \<open>The result and what \<open>res\<close> holds afterwards, which is its old value after an early return.\<close>

definition get_transaction_hash :: "amounts \<Rightarrow> transaction \<Rightarrow> bytes \<Rightarrow> (bool \<times> bytes) option" where
  "get_transaction_hash am t res =
     (if has_v1_signatures t then do { h \<leftarrow> get_object_hash (serialize_transaction am) t; Some (True, h) }
      else do {
        hash0 \<leftarrow> get_transaction_prefix_hash t;
        case saved (serialize_rctsig_base (tx_inputs t) (tx_outputs t)) (rct_signatures t) of
          None \<Rightarrow> Some (False, res)
        | Some base \<Rightarrow>
            do {
              hash1 \<leftarrow> get_blob_hash base;
              if rct_type (rct_signatures t) = RCTTypeNull then
                do { h \<leftarrow> cn_fast_hash (hash0 @ hash1 @ null_hash); Some (True, h) }
              else
                case saved (serialize_rctsig_prunable am (rct_type (rct_signatures t)) (tx_inputs t) (tx_outputs t)
                       (tx_mixin t)) (rctsig_p (rct_signatures t)) of
                  None \<Rightarrow> Some (False, res)
                | Some prunable \<Rightarrow>
                    do {
                      hash2 \<leftarrow> get_blob_hash prunable;
                      h \<leftarrow> cn_fast_hash (hash0 @ hash1 @ hash2);
                      Some (True, h)
                    }
            }
      })"

section \<open>Inputs and amounts\<close>

text \<open>The sum so far stays in \<open>money\<close> when an input has the wrong type.\<close>

fun sum_inputs :: "('i \<Rightarrow> u64 option) \<Rightarrow> 'i list \<Rightarrow> u64 \<Rightarrow> bool \<times> u64" where
  "sum_inputs amount [] money = (True, money)"
| "sum_inputs amount (i # is) money =
     (case amount i of None \<Rightarrow> (False, money) | Some a \<Rightarrow> sum_inputs amount is (money + a))"

definition get_inputs_money_amount :: "transaction \<Rightarrow> bool \<times> u64" where
  "get_inputs_money_amount tx =
     (if tx_blob_type tx = BLOB_TYPE_CRYPTONOTE_SALVIUM
      then sum_inputs (\<lambda>i. case i of SalinKey k \<Rightarrow> Some (ia_amount k) | _ \<Rightarrow> None) (vin_salvium tx) 0
      else sum_inputs (\<lambda>i. case i of TxinToKey k \<Rightarrow> Some (ik_amount k) | _ \<Rightarrow> None) (vin tx) 0)"

definition input_supported :: "BLOB_TYPE \<Rightarrow> txin_v \<Rightarrow> bool" where
  "input_supported bt i =
     (if bt = BLOB_TYPE_CRYPTONOTE_ZEPHYR then (case i of TxinZephyrKey k \<Rightarrow> True | _ \<Rightarrow> False)
      else if bt = BLOB_TYPE_CRYPTONOTE_XHV then
        (case i of TxinToKey k \<Rightarrow> True | TxinOffshore k \<Rightarrow> True | TxinOnshore k \<Rightarrow> True | TxinXasset k \<Rightarrow> True | _ \<Rightarrow> False)
      else (case i of TxinToKey k \<Rightarrow> True | _ \<Rightarrow> False))"

definition check_inputs_types_supported :: "transaction \<Rightarrow> bool" where
  "check_inputs_types_supported tx =
     (if tx_blob_type tx = BLOB_TYPE_CRYPTONOTE_SALVIUM
      then list_all (\<lambda>i. case i of SalinKey k \<Rightarrow> True | _ \<Rightarrow> False) (vin_salvium tx)
      else list_all (input_supported (tx_blob_type tx)) (vin tx))"

text \<open>Offsets in place, upwards and downwards.\<close>

definition relative_output_offsets_to_absolute :: "u64 list \<Rightarrow> u64 list" where
  "relative_output_offsets_to_absolute off = fold (\<lambda>i res. res[i := res ! i + res ! (i - 1)]) [1..<length off] off"

definition absolute_output_offsets_to_relative :: "u64 list \<Rightarrow> u64 list" where
  "absolute_output_offsets_to_relative off =
     (if off = [] then off
      else fold (\<lambda>i res. res[i := res ! i - res ! (i - 1)]) (rev [1..<length off]) (sort off))"

text \<open>
  \<open>decompose_amount_into_digits\<close>, with the calls of the two handlers in order.
\<close>

datatype part = Chunk u64 | Dust u64

fun part_amount :: "part \<Rightarrow> u64" where
  "part_amount (Chunk a) = a"
| "part_amount (Dust a) = a"

function decompose_loop :: "u64 \<Rightarrow> bool \<Rightarrow> u64 \<Rightarrow> u64 \<Rightarrow> u64 \<Rightarrow> part list" where
  "decompose_loop threshold is_dust_handled dust order amount =
     (if amount = 0 then (if \<not> is_dust_handled \<and> dust \<noteq> 0 then [Dust dust] else [])
      else let chunk = (amount mod 10) * order in
        if dust + chunk \<le> threshold then decompose_loop threshold is_dust_handled (dust + chunk) (order * 10) (amount div 10)
        else (if \<not> is_dust_handled \<and> dust \<noteq> 0 then [Dust dust] else [])
          @ (if chunk \<noteq> 0 then [Chunk chunk] else [])
          @ decompose_loop threshold (is_dust_handled \<or> dust \<noteq> 0) dust (order * 10) (amount div 10))"
  by pat_completeness auto
termination
  by (relation "measure (\<lambda>(_, _, _, _, amount). unat amount)") (auto simp: unat_div unat_gt_0)

definition decompose_amount_into_digits :: "u64 \<Rightarrow> u64 \<Rightarrow> part list" where
  "decompose_amount_into_digits amount dust_threshold =
     (if amount = 0 then [] else decompose_loop dust_threshold False 0 1 amount)"

section \<open>What is parsed is written back\<close>

text \<open>
  Property C18: a transaction of any coin that has been parsed from bytes is written to bytes that parse to
  the same transaction, whatever the first bytes were (they may differ: varints that are cut off or not
  canonical are accepted). Both times the object that is filled starts with a zero \<open>p_r\<close>.
\<close>

theorem transaction_reparsed:
  assumes "parse_and_validate_tx_from_blob am bt tx_blob = Some tx"
  shows "\<exists>blob. tx_to_blob am tx = Some blob \<and> parse_and_validate_tx_from_blob am bt blob = Some tx"
  using parse_reloads(2) [OF transaction_reloads no_p_r_null assms [unfolded parse_and_validate_tx_from_blob_def]]
  by (auto simp: tx_to_blob_def t_serializable_object_to_blob_def parse_and_validate_tx_from_blob_def dest: writes_saved)

lemmas parsing = loading parse_and_validate_tx_from_blob_def serialize_transaction_def serialize_transaction_prefix_def
  null_transaction_def has_v1_signatures_def serialize_txin_v_def serialize_signatures_def resize_def
  serialize_signatures_of_def serialize_signature_vector_def tx_inputs_def

theorem transaction_reparsed_witness:
  "let tx = (null_transaction BLOB_TYPE_CRYPTONOTE)\<lparr> version := 1, vin := [TxinGen 5], signatures := [[]] \<rparr>
   in \<exists>blob. tx_to_blob amounts_by_length tx = Some blob \<and> parse_and_validate_tx_from_blob amounts_by_length BLOB_TYPE_CRYPTONOTE blob = Some tx"
proof -
  have "parse_and_validate_tx_from_blob amounts_by_length BLOB_TYPE_CRYPTONOTE [1, 0, 1, 0xff, 5, 0, 0]
      = Some ((null_transaction BLOB_TYPE_CRYPTONOTE)\<lparr> version := 1, vin := [TxinGen 5], signatures := [[]] \<rparr>)"
    by (simp add: parsing)
  from transaction_reparsed [OF this] show ?thesis by (simp add: Let_def)
qed

text \<open>Haven: the check of the collateral indices looks at the outputs of the other coins.\<close>

lemma haven_prefix:
  "reloads serialize_transaction_prefix (\<lambda>tx. tx_blob_type tx = BLOB_TYPE_CRYPTONOTE_XHV \<and> vout tx = [])"
  unfolding serialize_transaction_prefix_def VARINT_FIELD_def
  by (rule indep_first | rule reload_rules indep_rules
    | ((rule indep_leaf, (rule keeps_rules | (simp add: is_deregister_lens; fail)
        | (simp add: is_deregister_def is_deregister_update_def; fail))+)[1]; fail)
    | rule indep_right keeps_rules | (rule codec_reloads, simp add: codecs; fail)
    | (rule indep_step indep_assign, (simp add: codecs saving_rules is_deregister_lens; fail))
    | (simp add: codecs saving_rules is_deregister_lens; fail)
    | (simp add: is_deregister_update_def; fail) | (elim conjE, simp; fail) | (rule indep_absurd, force) | force)+

lemma haven_no_collateral_prefix:
  assumes "writes serialize_transaction_prefix tx w" and "tx_blob_type tx = BLOB_TYPE_CRYPTONOTE_XHV" and "vout tx = []" and "7 \<le> version tx"
  shows "amount_burnt tx = 0"
proof (rule ccontr)
  assume b: "amount_burnt tx \<noteq> 0"
  have v: "3 \<le> version tx" "6 \<le> version tx" "\<not> version tx < 5"
    using assms(4) by (auto elim: order_trans [rotated] simp: not_less)
  note c = codecs saving_rules is_deregister_lens
  have "saved serialize_transaction_prefix tx \<noteq> None" using writes_saved [OF assms(1)] by simp
  then show False
    using assms(2-4) b v
    by (simp add: serialize_transaction_prefix_def VARINT_FIELD_def saved_do_all_None c)
      (auto simp: length_Suc_conv numeral_2_eq_2 split: if_splits)
qed

text \<open>
  Property C21: no Haven transaction from version 7 on that burns an amount can be parsed: its two collateral
  indices are compared with the number of \<open>vout\<close>, which a Haven transaction, whose outputs are in
  \<open>vout_xhv\<close>, leaves empty.
\<close>

theorem haven_collateral_never_parses:
  assumes "parse_and_validate_tx_from_blob am BLOB_TYPE_CRYPTONOTE_XHV tx_blob = Some tx" and "7 \<le> version tx"
  shows "amount_burnt tx = 0"
proof -
  let ?rest = "[IF has_v1_signatures
        [WITH (\<lambda>tx. map get_signature_size (vin tx)) (\<lambda>sizes. FIELD signatures signatures_update (serialize_signatures sizes))]
        [IF (\<lambda>tx. tx_inputs tx \<noteq> 0)
          [WITH rct_sizes_of (\<lambda>sz. FIELD rct_signatures rct_signatures_update (serialize_rct am sz))] []]]"
  let ?null = "null_transaction BLOB_TYPE_CRYPTONOTE_XHV"
  obtain ar where "do_all (serialize_transaction_prefix # ?rest) ?null (Loading tx_blob) = Some (tx, ar)"
    using assms(1) by (auto simp: parse_and_validate_tx_from_blob_def parse_binary_def serialize_whole_def
      serialize_transaction_def bind_eq_Some_conv split: if_splits)
  from this reloads_shrinks [OF prefix_reloads]
  obtain tx1 i1 where l: "serialize_transaction_prefix ?null (Loading tx_blob) = Some (tx1, Loading i1)"
      "do_all ?rest tx1 (Loading i1) = Some (tx, ar)"
    by (rule do_all_loadE)
  have "keeps (do_all ?rest) version" "keeps (do_all ?rest) amount_burnt" by (rule keeps_rules | simp)+
  with l(2) have k: "version tx = version tx1" "amount_burnt tx = amount_burnt tx1" by (auto dest: keepsD)
  have "tx_blob_type ?null = BLOB_TYPE_CRYPTONOTE_XHV \<and> vout ?null = []" by (simp add: null_transaction_def)
  from reloadsE [OF haven_prefix this l(1)] obtain w where "tx_blob_type tx1 = BLOB_TYPE_CRYPTONOTE_XHV" "vout tx1 = []"
      "writes serialize_transaction_prefix tx1 w"
    by metis
  with haven_no_collateral_prefix [of tx1 w] assms(2) show ?thesis by (simp add: k)
qed

theorem haven_collateral_never_parses_witness:
  "\<exists>tx. version tx = 7 \<and> parse_and_validate_tx_from_blob amounts_by_length BLOB_TYPE_CRYPTONOTE_XHV [7, 1, 0xff, 5, 0, 0, 0, 0, 0, 0, 0] = Some tx
     \<and> amount_burnt tx = 0"
proof -
  have "parse_and_validate_tx_from_blob amounts_by_length BLOB_TYPE_CRYPTONOTE_XHV [7, 1, 0xff, 5, 0, 0, 0, 0, 0, 0, 0]
      = Some ((null_transaction BLOB_TYPE_CRYPTONOTE_XHV)\<lparr> version := 7, vin := [TxinGen 5] \<rparr>)"
    by (simp add: parsing serialize_rct_def serialize_rctsig_base_def rct_sizes_of_def null_rctSig_def)
  from haven_collateral_never_parses [OF this] this show ?thesis by auto
qed

section \<open>Amounts and offsets\<close>

declare decompose_loop.simps [simp del]

definition parts_sum :: "part list \<Rightarrow> nat" where
  "parts_sum ps = (\<Sum>p \<leftarrow> ps. unat (part_amount p))"

lemma parts_sum_simps [simp]:
  "parts_sum [] = 0" "parts_sum (p # ps) = unat (part_amount p) + parts_sum ps" "parts_sum (ps @ qs) = parts_sum ps + parts_sum qs"
  by (simp_all add: parts_sum_def)

text \<open>One digit, without wrapping around.\<close>

lemma digit_step:
  fixes amount order dust :: u64
  assumes "unat dust + unat amount * unat order < 2 ^ 64"
  shows "unat ((amount mod 10) * order) = unat amount mod 10 * unat order"
    and "unat (dust + (amount mod 10) * order) = unat dust + unat amount mod 10 * unat order"
    and "unat amount mod 10 * unat order + unat (amount div 10) * unat (order * 10) = unat amount * unat order"
    and "amount div 10 \<noteq> 0 \<Longrightarrow> unat (order * 10) = 10 * unat order"
proof -
  have le: "unat amount mod 10 * unat order \<le> unat amount * unat order" by (rule mult_right_mono) simp_all
  then have "unat amount mod 10 * unat order < 2 ^ 64" using assms by linarith
  then show c: "unat ((amount mod 10) * order) = unat amount mod 10 * unat order"
    by (simp add: unat_mod unat_word_ariths)
  have "unat dust + unat amount mod 10 * unat order < 2 ^ 64" using le assms by linarith
  with c show "unat (dust + (amount mod 10) * order) = unat dust + unat amount mod 10 * unat order"
    by (simp add: unat_word_ariths)
  show o: "unat (order * 10) = 10 * unat order" if "amount div 10 \<noteq> 0"
  proof -
    have "unat (amount div 10) \<noteq> 0" using that unat_eq_zero by blast
    then have "10 \<le> unat amount" by (simp add: unat_div)
    then have "10 * unat order \<le> unat amount * unat order" by (intro mult_right_mono) simp_all
    then have "unat order * 10 < 2 ^ 64" using assms by linarith
    then show ?thesis by (simp add: unat_word_ariths)
  qed
  have q: "unat (amount div 10) = unat amount div 10" by (simp add: unat_div)
  have "unat (amount div 10) * unat (order * 10) = unat (amount div 10) * (10 * unat order)"
    by (cases "amount div 10 = 0") (simp_all add: o)
  also have "unat amount mod 10 * unat order + \<dots> = (unat amount mod 10 + 10 * (unat amount div 10)) * unat order"
    by (simp only: q distrib_left mult_ac)
  also have "unat amount mod 10 + 10 * (unat amount div 10) = unat amount" by (rule mod_mult_div_eq)
  finally show "unat amount mod 10 * unat order + unat (amount div 10) * unat (order * 10) = unat amount * unat order" .
qed

text \<open>Once a digit has not fitted, no later one does.\<close>

lemma decompose_rest:
  "amount = 0 \<or> unat dust + unat amount * unat order < 2 ^ 64 \<and> unat threshold < unat dust + unat order
    \<Longrightarrow> handled \<or> dust = 0 \<Longrightarrow> parts_sum (decompose_loop threshold handled dust order amount) = unat amount * unat order"
proof (induction threshold handled dust order amount rule: decompose_loop.induct)
  case (1 threshold handled dust order amount)
  show ?case
  proof (cases "amount = 0")
    case True
    with "1.prems"(2) show ?thesis by (auto simp: decompose_loop.simps)
  next
    case False
    then have b: "unat dust + unat amount * unat order < 2 ^ 64" and t: "unat threshold < unat dust + unat order" using 1 by auto
    note d = digit_step [OF b]
    have nxt: "amount div 10 = 0 \<or> unat dust + unat (amount div 10) * unat (order * 10) < 2 ^ 64
        \<and> unat threshold < unat dust + unat (order * 10)"
      using b t d(3,4) by (cases "amount div 10 = 0") simp_all
    show ?thesis
    proof (cases "dust + (amount mod 10) * order \<le> threshold")
      case le: True
      then have "unat dust + unat amount mod 10 * unat order \<le> unat threshold" using d(2) by (simp add: word_le_nat_alt)
      then have lt: "unat amount mod 10 * unat order < 1 * unat order" using t by linarith
      then have z: "unat amount mod 10 = 0" unfolding mult_less_cancel2 by simp
      then have "(amount mod 10) * order = 0" by (simp add: word_unat_eq_iff d(1) del: unat_eq_zero)
      then show ?thesis using "1.IH"(1) [OF False refl le] nxt "1.prems"(2) le d(3) z False
        by (simp add: decompose_loop.simps [of _ _ _ _ amount])
    next
      case gt: False
      show ?thesis using "1.IH"(2) [OF False refl gt] nxt "1.prems"(2) gt d(1,3) False
        by (auto simp: decompose_loop.simps [of _ _ _ _ amount] Let_def)
    qed
  qed
qed

lemma decompose_sum:
  "amount = 0 \<or> unat dust + unat amount * unat order < 2 ^ 64 \<Longrightarrow> dust \<le> threshold
    \<Longrightarrow> parts_sum (decompose_loop threshold False dust order amount) = unat dust + unat amount * unat order"
proof (induction threshold False dust order amount rule: decompose_loop.induct)
  case (1 threshold dust order amount)
  show ?case
  proof (cases "amount = 0")
    case True
    then show ?thesis by (simp add: decompose_loop.simps)
  next
    case False
    then have b: "unat dust + unat amount * unat order < 2 ^ 64" using 1 by auto
    note d = digit_step [OF b]
    show ?thesis
    proof (cases "dust + (amount mod 10) * order \<le> threshold")
      case le: True
      have "amount div 10 = 0 \<or> unat (dust + (amount mod 10) * order) + unat (amount div 10) * unat (order * 10) < 2 ^ 64"
        using b d(2,3) by simp
      then show ?thesis using "1.hyps"(1) [OF False refl le] le d(2,3) False
        by (simp add: decompose_loop.simps [of _ _ _ _ amount])
    next
      case gt: False
      have m: "unat amount mod 10 * unat order \<le> 9 * unat order" by (rule mult_right_mono) simp_all
      have "unat threshold < unat dust + unat amount mod 10 * unat order"
        using gt d(2) by (simp add: word_le_nat_alt)
      moreover have "unat dust \<le> unat threshold" using "1.prems"(2) by (simp add: word_le_nat_alt)
      ultimately have "unat threshold < unat dust + 10 * unat order" using m by linarith
      then have "amount div 10 \<noteq> 0 \<longrightarrow> unat threshold < unat dust + unat (order * 10)" using d(4) by simp
      then have "parts_sum (decompose_loop threshold (dust \<noteq> 0) dust (order * 10) (amount div 10))
          = unat (amount div 10) * unat (order * 10)"
        using b d(3) by (intro decompose_rest) auto
      then show ?thesis using gt d(1,3) False
        by (auto simp: decompose_loop.simps [of _ _ _ _ amount] Let_def)
    qed
  qed
qed

text \<open>
  The parts an amount is decomposed into add up to the amount, without wrapping around,
  whatever the dust threshold.
\<close>

theorem decomposed_amount:
  "parts_sum (decompose_amount_into_digits amount dust_threshold) = unat amount"
  using decompose_sum [of amount 0 1 dust_threshold] unsigned_less [of amount, where ?'a = nat]
  by (simp add: decompose_amount_into_digits_def)

text \<open>The offsets: the two loops on a list that is shorter by its head.\<close>

lemma fold_update_length: "length (fold (\<lambda>i res. res[i := f res i]) is xs) = length xs"
  by (induction "is" arbitrary: xs) simp_all

lemma upwards_spec:
  fixes off :: "u64 list"
  assumes "k < length off" and "j < length off"
  shows "fold (\<lambda>i res. res[i := res ! i + res ! (i - 1)]) [1..<Suc k] off ! j = (if j \<le> k then (\<Sum>i\<le>j. off ! i) else off ! j)"
  using assms
proof (induction k arbitrary: j)
  case 0
  then show ?case by simp
next
  case (Suc k)
  let ?r = "fold (\<lambda>i res. res[i := res ! i + res ! (i - 1)]) [1..<Suc k] off"
  have "fold (\<lambda>i res. res[i := res ! i + res ! (i - 1)]) [1..<Suc (Suc k)] off = ?r[Suc k := ?r ! Suc k + ?r ! k]"
    by simp
  moreover have "?r ! Suc k = off ! Suc k" "?r ! k = (\<Sum>i\<le>k. off ! i)" using Suc.IH [of "Suc k"] Suc.IH [of k] Suc.prems(1) by simp_all
  moreover have "length ?r = length off" by (rule fold_update_length)
  ultimately show ?case using Suc.IH [of j] Suc.prems by (cases "j = Suc k") (auto simp: le_Suc_eq)
qed

lemma downwards_spec:
  fixes s :: "u64 list"
  assumes "0 < k" and "k \<le> length s" and "j < length s"
  shows "fold (\<lambda>i res. res[i := res ! i - res ! (i - 1)]) (rev [k..<length s]) s ! j = (if k \<le> j then s ! j - s ! (j - 1) else s ! j)"
  using assms(2,1,3)
proof (induction k arbitrary: j rule: inc_induct)
  case base
  then show ?case by simp
next
  case (step k)
  let ?r = "fold (\<lambda>i res. res[i := res ! i - res ! (i - 1)]) (rev [Suc k..<length s]) s"
  have "[k..<length s] = k # [Suc k..<length s]" using step.hyps by (simp add: upt_conv_Cons)
  then have "fold (\<lambda>i res. res[i := res ! i - res ! (i - 1)]) (rev [k..<length s]) s = ?r[k := ?r ! k - ?r ! (k - 1)]"
    by simp
  moreover have "?r ! k = s ! k" "?r ! (k - 1) = s ! (k - 1)" using step.IH [of k] step.IH [of "k - 1"] step.hyps step.prems by auto
  moreover have "length ?r = length s" by (rule fold_update_length)
  ultimately show ?case using step.IH [of j] step.hyps step.prems by (auto simp: nth_list_update)
qed

lemma telescope: "(\<Sum>i\<le>j. if Suc 0 \<le> i then (s ! i :: u64) - s ! (i - 1) else s ! i) = s ! j"
  by (induction j) simp_all

text \<open>
  Making absolute offsets relative and absolute again sorts them, in 64-bit arithmetic.
\<close>

theorem offsets_relative_absolute:
  "relative_output_offsets_to_absolute (absolute_output_offsets_to_relative off) = sort off"
proof (cases "off = []")
  case False
  let ?r = "absolute_output_offsets_to_relative off"
  have r: "?r ! j = (if 1 \<le> j then sort off ! j - sort off ! (j - 1) else sort off ! j)" if "j < length off" for j
    using downwards_spec [of 1 "sort off" j] that False by (simp add: absolute_output_offsets_to_relative_def Suc_le_eq)
  have l: "length ?r = length off"
    by (simp add: absolute_output_offsets_to_relative_def fold_update_length)
  obtain n where n: "length off = Suc n" using False by (cases off) auto
  show ?thesis
  proof (rule nth_equalityI)
    show "length (relative_output_offsets_to_absolute ?r) = length (sort off)"
      by (simp add: relative_output_offsets_to_absolute_def fold_update_length l)
    fix j assume "j < length (relative_output_offsets_to_absolute ?r)"
    then have j: "j < length off" by (simp add: relative_output_offsets_to_absolute_def fold_update_length l)
    have "relative_output_offsets_to_absolute ?r ! j = (\<Sum>i\<le>j. ?r ! i)"
      using upwards_spec [of n ?r j] j n l by (simp add: relative_output_offsets_to_absolute_def del: upt_Suc)
    also have "\<dots> = (\<Sum>i\<le>j. if Suc 0 \<le> i then sort off ! i - sort off ! (i - 1) else sort off ! i)"
      using j r by (intro sum.cong) simp_all
    finally show "relative_output_offsets_to_absolute ?r ! j = sort off ! j" by (simp add: telescope)
  qed
qed (simp add: absolute_output_offsets_to_relative_def relative_output_offsets_to_absolute_def)
end
