(* ===== verification/TxExtra.thy ===== *)
theory TxExtra
  imports Transactions
begin

text \<open>
  The field \<open>extra\<close> of a transaction: \<open>libcryptonote/cryptonote_core/tx_extra.h\<close> and the functions of
  \<open>cryptonote_format_utils.cpp\<close> that add to it and parse it. The theorems: the merge-mining tag, the public key
  and the payment id that have been put in are found again, and parsing ends on every input.
\<close>

section \<open>The fields\<close>

text \<open>
  Padding: zeros up to the end. When loading, \<open>size\<close> counts from 1, for the tag, and there may be at most 255
  bytes.
\<close>

fun load_padding :: "u64 \<Rightarrow> bytes \<Rightarrow> (u64 \<times> bytes) option" where
  "load_padding sz [] = (if sz \<le> 255 then Some (sz, []) else None)"
| "load_padding sz (zero # rest) = (if sz \<le> 255 \<and> zero = 0 then load_padding (sz + 1) rest else None)"

definition serialize_padding :: "u64 serializer" where
  "serialize_padding sz ar =
     (case ar of
        Saving out \<Rightarrow> if 255 < sz then None else Some (sz, Saving (out @ replicate (unat sz - 1) 0))
      | Loading input \<Rightarrow> map_option (\<lambda>(sz, rest). (sz, Loading rest)) (load_padding 1 input))"

definition serialize_extra_nonce :: "bytes serializer" where
  "serialize_extra_nonce = do_all
     [FIELD id id serialize_string,
      RETURN_FALSE_IF (\<lambda>nonce. 255 < length nonce)]"

text \<open>The merge-mining tag is written as a string.\<close>

record tx_extra_merge_mining_tag =
  mm_depth :: u64
  mm_merkle_root :: bytes

definition serialize_mm_helper :: "tx_extra_merge_mining_tag serializer" where
  "serialize_mm_helper = do_all
     [VARINT_FIELD mm_depth mm_depth_update,
      FIELD mm_merkle_root mm_merkle_root_update (serialize_blob 32)]"

definition serialize_mm_tag :: "tx_extra_merge_mining_tag serializer" where
  "serialize_mm_tag mm_tag ar =
     (case ar of
        Saving out \<Rightarrow>
          do { field \<leftarrow> saved serialize_mm_helper mm_tag; (field, ar) \<leftarrow> serialize_string field ar; Some (mm_tag, ar) }
      | Loading input \<Rightarrow>
          do { (field, ar) \<leftarrow> serialize_string [] ar; mm_tag \<leftarrow> parse_binary serialize_mm_helper mm_tag field;
               Some (mm_tag, ar) })"

definition null_mm_tag :: tx_extra_merge_mining_tag where
  "null_mm_tag = \<lparr> mm_depth = 0, mm_merkle_root = null_hash \<rparr>"

record service_node_register =
  sn_spend_keys :: "key list"
  sn_view_keys :: "key list"
  sn_portions_for_operator :: u64
  sn_portions :: "u64 list"
  sn_expiration_timestamp :: u64
  sn_signature :: bytes

definition serialize_service_node_register :: "service_node_register serializer" where
  "serialize_service_node_register = do_all
     [FIELD sn_spend_keys sn_spend_keys_update (serialize_vector null_key serialize_key),
      FIELD sn_view_keys sn_view_keys_update (serialize_vector null_key serialize_key),
      FIELD sn_portions_for_operator sn_portions_for_operator_update serialize_int,
      FIELD sn_portions sn_portions_update serialize_offsets,
      FIELD sn_expiration_timestamp sn_expiration_timestamp_update serialize_int,
      FIELD sn_signature sn_signature_update (serialize_blob 64)]"

definition null_service_node_register :: service_node_register where
  "null_service_node_register = \<lparr> sn_spend_keys = [], sn_view_keys = [], sn_portions_for_operator = 0, sn_portions = [],
     sn_expiration_timestamp = 0, sn_signature = null_signature \<rparr>"

record service_node_contributor =
  snc_spend_public_key :: key
  snc_view_public_key :: key

definition serialize_service_node_contributor :: "service_node_contributor serializer" where
  "serialize_service_node_contributor = do_all
     [FIELD snc_spend_public_key snc_spend_public_key_update serialize_key,
      FIELD snc_view_public_key snc_view_public_key_update serialize_key]"

definition null_service_node_contributor :: service_node_contributor where
  "null_service_node_contributor = \<lparr> snc_spend_public_key = null_key, snc_view_public_key = null_key \<rparr>"

text \<open>A vote is a structure of a signature and 32 bits.\<close>

record service_node_deregister =
  snd_block_height :: u64
  snd_service_node_index :: u32
  snd_votes :: "bytes list"

definition serialize_service_node_deregister :: "service_node_deregister serializer" where
  "serialize_service_node_deregister = do_all
     [FIELD snd_block_height snd_block_height_update serialize_int,
      FIELD snd_service_node_index snd_service_node_index_update serialize_int,
      FIELD snd_votes snd_votes_update (serialize_vector (replicate 68 0) (serialize_blob 68))]"

definition null_service_node_deregister :: service_node_deregister where
  "null_service_node_deregister = \<lparr> snd_block_height = 0, snd_service_node_index = 0, snd_votes = [] \<rparr>"

record tx_key_image_unlock =
  ku_key_image :: key
  ku_signature :: bytes
  ku_nonce :: u32

definition serialize_tx_key_image_unlock :: "tx_key_image_unlock serializer" where
  "serialize_tx_key_image_unlock = do_all
     [FIELD ku_key_image ku_key_image_update serialize_key,
      FIELD ku_signature ku_signature_update (serialize_blob 64),
      FIELD ku_nonce ku_nonce_update serialize_int]"

definition null_tx_key_image_unlock :: tx_key_image_unlock where
  "null_tx_key_image_unlock = \<lparr> ku_key_image = null_key, ku_signature = null_signature, ku_nonce = 0 \<rparr>"

text \<open>
  The alternatives. A structure of one field is its field; \<open>Key_image_proofs\<close> are structures of a key image and a
  signature.
\<close>

datatype tx_extra_field =
    Padding u64
  | Pub_key key
  | Nonce bytes
  | Merge_mining_tag tx_extra_merge_mining_tag
  | Additional_pub_keys "key list"
  | Mysterious_minergate bytes
  | Offshore bytes
  | Memo bytes
  | Service_node_pubkey key
  | Service_node_register service_node_register
  | Service_node_contributor service_node_contributor
  | Service_node_winner key
  | Service_node_deregister service_node_deregister
  | Tx_secret_key key
  | Key_image_proofs "bytes list"
  | Key_image_unlock tx_key_image_unlock

definition tx_extra_alternatives :: "tx_extra_field alternative list" where
  "tx_extra_alternatives =
     [ALT 0x00 (\<lambda>v. case v of Padding p \<Rightarrow> Some p | _ \<Rightarrow> None) Padding 0 serialize_padding,
      ALT 0x01 (\<lambda>v. case v of Pub_key p \<Rightarrow> Some p | _ \<Rightarrow> None) Pub_key null_key serialize_key,
      ALT 0x02 (\<lambda>v. case v of Nonce p \<Rightarrow> Some p | _ \<Rightarrow> None) Nonce [] serialize_extra_nonce,
      ALT 0x03 (\<lambda>v. case v of Merge_mining_tag p \<Rightarrow> Some p | _ \<Rightarrow> None) Merge_mining_tag null_mm_tag serialize_mm_tag,
      ALT 0x04 (\<lambda>v. case v of Additional_pub_keys p \<Rightarrow> Some p | _ \<Rightarrow> None) Additional_pub_keys []
        (serialize_vector null_key serialize_key),
      ALT 0xDE (\<lambda>v. case v of Mysterious_minergate p \<Rightarrow> Some p | _ \<Rightarrow> None) Mysterious_minergate [] serialize_string,
      ALT 0x17 (\<lambda>v. case v of Offshore p \<Rightarrow> Some p | _ \<Rightarrow> None) Offshore [] serialize_string,
      ALT 0x18 (\<lambda>v. case v of Memo p \<Rightarrow> Some p | _ \<Rightarrow> None) Memo [] serialize_string,
      ALT 0x74 (\<lambda>v. case v of Service_node_pubkey p \<Rightarrow> Some p | _ \<Rightarrow> None) Service_node_pubkey null_key serialize_key,
      ALT 0x70 (\<lambda>v. case v of Service_node_register p \<Rightarrow> Some p | _ \<Rightarrow> None) Service_node_register
        null_service_node_register serialize_service_node_register,
      ALT 0x73 (\<lambda>v. case v of Service_node_contributor p \<Rightarrow> Some p | _ \<Rightarrow> None) Service_node_contributor
        null_service_node_contributor serialize_service_node_contributor,
      ALT 0x72 (\<lambda>v. case v of Service_node_winner p \<Rightarrow> Some p | _ \<Rightarrow> None) Service_node_winner null_key serialize_key,
      ALT 0x71 (\<lambda>v. case v of Service_node_deregister p \<Rightarrow> Some p | _ \<Rightarrow> None) Service_node_deregister
        null_service_node_deregister serialize_service_node_deregister,
      ALT 0x75 (\<lambda>v. case v of Tx_secret_key p \<Rightarrow> Some p | _ \<Rightarrow> None) Tx_secret_key null_key serialize_key,
      ALT 0x76 (\<lambda>v. case v of Key_image_proofs p \<Rightarrow> Some p | _ \<Rightarrow> None) Key_image_proofs []
        (serialize_vector (replicate 96 0) (serialize_blob 96)),
      ALT 0x77 (\<lambda>v. case v of Key_image_unlock p \<Rightarrow> Some p | _ \<Rightarrow> None) Key_image_unlock null_tx_key_image_unlock
        serialize_tx_key_image_unlock]"

definition serialize_tx_extra_field :: "tx_extra_field serializer" where
  "serialize_tx_extra_field = serialize_variant tx_extra_alternatives"

section \<open>Reading a field\<close>

lemma full_extra_parts [codecs]:
  "full_codec serialize_mm_helper" "full_codec serialize_service_node_register" "full_codec serialize_service_node_contributor"
  "full_codec serialize_service_node_deregister" "full_codec serialize_tx_key_image_unlock"
  unfolding serialize_mm_helper_def serialize_service_node_register_def serialize_service_node_contributor_def
    serialize_service_node_deregister_def serialize_tx_key_image_unlock_def VARINT_FIELD_def
  by (rule full_structure, simp add: codecs saving_rules, simp add: codecs shrinks_rules,
      (rule loads_steps | simp add: saving_rules codecs)+,
      (elim do_all_loadE; (simp (no_asm) add: codecs shrinks_rules; fail)?), elim load_elims,
      (simp (no_asm_simp) add: saving_rules codecs; simp?))+

lemma shrinks_padding: "shrinks serialize_padding"
proof -
  have "length rest \<le> length input" if "load_padding sz input = Some (n, rest)" for sz input n rest
    using that by (induction sz input rule: load_padding.induct) (auto split: if_splits)
  then show ?thesis by (auto simp: shrinks_def serialize_padding_def)
qed

lemma shrinks_mm_tag: "shrinks serialize_mm_tag"
proof -
  have "\<exists>rest. ar = Loading rest \<and> length rest \<le> length input" if l: "serialize_mm_tag v0 (Loading input) = Some (v, ar)" for v0 input v ar
  proof -
    obtain field ar1 where "serialize_string [] (Loading input) = Some (field, ar1)" "ar = ar1"
      using l by (auto simp: serialize_mm_tag_def bind_eq_Some_conv)
    then show ?thesis using shrinksD [OF str.shrinking] by blast
  qed
  then show ?thesis by (simp add: shrinks_def)
qed

lemma shrinks_extra_nonce: "shrinks serialize_extra_nonce"
  by (simp add: serialize_extra_nonce_def shrinks_rules codecs)

lemma shrinks_ALT: "shrinks s \<Longrightarrow> shrinks (alt_body (ALT t sel mk d s))"
  by (fastforce simp: shrinks_def ALT_def bind_eq_Some_conv)

lemma extra_field_consumes:
  assumes "serialize_tx_extra_field v0 (Loading input) = Some (v, Loading rest)"
  shows "length rest < length input"
proof -
  obtain a t i where a: "input = t # i" "a \<in> set tx_extra_alternatives" "alt_body a v0 (Loading i) = Some (v, Loading rest)"
    using assms by (auto simp: serialize_tx_extra_field_def serialize_variant_def load_int8 find_Some_iff split: list.splits option.splits
      intro: nth_mem)
  have "list_all (\<lambda>a. shrinks (alt_body a)) tx_extra_alternatives"
    unfolding tx_extra_alternatives_def list.pred_inject
    by (intro conjI TrueI shrinks_ALT) (simp_all add: codecs shrinks_padding shrinks_mm_tag shrinks_extra_nonce)
  then have "shrinks (alt_body a)" using a(2) by (simp add: list_all_iff)
  from shrinksD [OF this a(3)] show ?thesis by (simp add: a(1))
qed

section \<open>Parsing\<close>

text \<open>
  \<open>parse_tx_extra\<close>: the result, and the fields that have been parsed, which stay in the vector after a failure. At
  the end of the loop the stream is at its end.
\<close>

function parse_fields :: "bytes \<Rightarrow> bool \<times> tx_extra_field list" where
  "parse_fields input =
     (case serialize_tx_extra_field (Padding 0) (Loading input) of
        Some (field, Loading rest) \<Rightarrow>
          if rest = [] then (True, [field])
          else (case parse_fields rest of (r, fs) \<Rightarrow> (r, field # fs))
      | _ \<Rightarrow> (False, []))"
  by pat_completeness auto
termination
  by (relation "measure length") (auto dest: extra_field_consumes)

declare parse_fields.simps [simp del]

definition parse_tx_extra :: "bytes \<Rightarrow> bool \<times> tx_extra_field list" where
  "parse_tx_extra tx_extra = (if tx_extra = [] then (True, []) else parse_fields tx_extra)"

text \<open>\<open>find_tx_extra_field_by_type\<close>\<close>

definition find_tx_extra_field_by_type :: "(tx_extra_field \<Rightarrow> 'p option) \<Rightarrow> tx_extra_field list \<Rightarrow> 'p option" where
  "find_tx_extra_field_by_type sel fs = (case find (\<lambda>f. sel f \<noteq> None) fs of None \<Rightarrow> None | Some f \<Rightarrow> sel f)"

definition get_tx_pub_key_from_extra :: "bytes \<Rightarrow> key" where
  "get_tx_pub_key_from_extra tx_extra =
     (case find_tx_extra_field_by_type (\<lambda>f. case f of Pub_key k \<Rightarrow> Some k | _ \<Rightarrow> None) (snd (parse_tx_extra tx_extra)) of
        None \<Rightarrow> null_key | Some k \<Rightarrow> k)"

definition get_mm_tag_from_extra :: "bytes \<Rightarrow> tx_extra_merge_mining_tag option" where
  "get_mm_tag_from_extra tx_extra =
     (case parse_tx_extra tx_extra of (r, fs) \<Rightarrow>
        if r then find_tx_extra_field_by_type (\<lambda>f. case f of Merge_mining_tag t \<Rightarrow> Some t | _ \<Rightarrow> None) fs else None)"

section \<open>Adding\<close>

definition add_tx_pub_key_to_extra :: "bytes \<Rightarrow> key \<Rightarrow> bytes" where
  "add_tx_pub_key_to_extra tx_extra tx_pub_key =
     (let tx_extra = resize (length tx_extra + 1 + 32) 0 tx_extra;
          tx_extra = tx_extra[length tx_extra - 1 - 32 := 0x01]
      in memcpy_at tx_extra (length tx_extra - 32) tx_pub_key)"

definition add_extra_nonce_to_tx_extra :: "bytes \<Rightarrow> bytes \<Rightarrow> bytes option" where
  "add_extra_nonce_to_tx_extra tx_extra extra_nonce =
     (if 255 < length extra_nonce then None
      else let start_pos = length tx_extra;
               tx_extra = resize (length tx_extra + 2 + length extra_nonce) 0 tx_extra;
               tx_extra = tx_extra[start_pos := 0x02];
               tx_extra = tx_extra[start_pos + 1 := of_nat (length extra_nonce)]
           in Some (memcpy_at tx_extra (start_pos + 2) extra_nonce))"

definition append_mm_tag_to_extra :: "bytes \<Rightarrow> tx_extra_merge_mining_tag \<Rightarrow> bytes option" where
  "append_mm_tag_to_extra tx_extra mm_tag =
     do { blob \<leftarrow> t_serializable_object_to_blob serialize_mm_tag mm_tag; Some (tx_extra @ [0x03] @ blob) }"

definition set_payment_id_to_tx_extra_nonce :: "bytes \<Rightarrow> bytes" where
  "set_payment_id_to_tx_extra_nonce payment_id = [0x00] @ payment_id"

definition get_payment_id_from_tx_extra_nonce :: "bytes \<Rightarrow> bytes option" where
  "get_payment_id_from_tx_extra_nonce extra_nonce =
     (if 32 + 1 \<noteq> length extra_nonce then None
      else if extra_nonce ! 0 \<noteq> 0x00 then None
      else Some (drop 1 extra_nonce))"

section \<open>What is put in is found\<close>

lemma add_pub_key_eq: "length key = 32 \<Longrightarrow> add_tx_pub_key_to_extra tx_extra key = tx_extra @ 0x01 # key"
proof -
  assume "length key = 32"
  moreover have "replicate 33 (0 :: u8) = 0 # replicate 32 0" by (simp flip: replicate_Suc)
  ultimately show ?thesis
    by (simp add: add_tx_pub_key_to_extra_def Let_def resize_def memcpy_at_def list_update_append del: replicate_numeral)
qed

lemma add_extra_nonce_eq:
  "add_extra_nonce_to_tx_extra tx_extra nonce
    = (if 255 < length nonce then None else Some (tx_extra @ 0x02 # of_nat (length nonce) # nonce))"
  by (simp add: add_extra_nonce_to_tx_extra_def Let_def resize_def memcpy_at_def list_update_append)

lemma saved_mm_tag:
  "saved serialize_mm_tag mm_tag = do { field \<leftarrow> saved serialize_mm_helper mm_tag; saved serialize_string field }"
  using savesD [OF conjunct1 [OF saved_string], where out = "[]"]
  by (cases "saved serialize_mm_helper mm_tag"; cases "saved serialize_string (the (saved serialize_mm_helper mm_tag))")
    (simp_all add: saved_def [of serialize_mm_tag] serialize_mm_tag_def)

lemma load_mm_tag:
  assumes "saved serialize_mm_tag mm_tag = Some w"
  shows "serialize_mm_tag v0 (Loading (w @ rest)) = Some (mm_tag, Loading rest)"
proof -
  obtain field where f: "saved serialize_mm_helper mm_tag = Some field" "saved serialize_string field = Some w"
    using assms by (auto simp: saved_mm_tag bind_eq_Some_conv)
  have "readable serialize_mm_helper mm_tag" by (simp add: codecs)
  then have "parse_binary serialize_mm_helper v0 field = Some mm_tag" using f(1) by (rule parse_saved [OF readable_loads])
  with readableD [OF str.readable f(2)] show ?thesis by (simp add: serialize_mm_tag_def)
qed

text \<open>A field in front of the others.\<close>

lemma parse_field_Cons:
  assumes "serialize_tx_extra_field (Padding 0) (Loading input) = Some (f, Loading rest)"
  shows "parse_fields input = (if rest = [] then (True, [f]) else (fst (parse_fields rest), f # snd (parse_fields rest)))"
  using assms by (subst parse_fields.simps) (simp split: prod.splits)

lemmas extra_loading = serialize_tx_extra_field_def load_variant tx_extra_alternatives_def ALT_def

lemma load_pub_key: "length key = 32 \<Longrightarrow> serialize_tx_extra_field v0 (Loading (0x01 # key @ rest)) = Some (Pub_key key, Loading rest)"
  by (simp add: extra_loading serialize_blob_def)

lemma load_merge_mining_tag:
  "saved serialize_mm_tag mm_tag = Some w
    \<Longrightarrow> serialize_tx_extra_field v0 (Loading (0x03 # w @ rest)) = Some (Merge_mining_tag mm_tag, Loading rest)"
  by (simp add: extra_loading load_mm_tag)

text \<open>The length of a nonce is written as one byte, and read as a varint.\<close>

lemma load_nonce:
  assumes "length nonce \<le> 127"
  shows "serialize_tx_extra_field v0 (Loading (0x02 # of_nat (length nonce) # nonce @ rest)) = Some (Nonce nonce, Loading rest)"
proof -
  have b: "(of_nat (length nonce) :: u8) < 128" "unat (of_nat (length nonce) :: u8) = length nonce"
    using assms by (simp_all add: word_less_nat_alt unat_of_nat)
  have "serialize_string v (Loading (of_nat (length nonce) # nonce @ rest)) = Some (nonce, Loading rest)" for v
    using assms by (simp add: serialize_string_def load_small_varint b(1) serialize_blob_def unsigned_ucast_eq b(2) take_bit_nat_eq_self)
  then show ?thesis using assms by (simp add: extra_loading serialize_extra_nonce_def loading)
qed

lemma read_uvarint_consumes: "read_uvarint_from (b # input) s n acc = (r, v, rest) \<Longrightarrow> length rest \<le> length input"
  by (auto simp: Let_def split: if_splits dest: read_uvarint_shrinks)

lemma string_is_short:
  assumes "serialize_string v0 (Loading (b # input)) = Some (v, ar)" and "128 \<le> b" and "input \<noteq> []"
  shows "length v < length input"
proof -
  obtain r n i1 where c: "read_uvarint_from (b # input) 0 0 (0 :: u64) = (r, n, i1)" using prod_cases3 by blast
  have "b AND 0x80 \<noteq> 0" "b \<noteq> 0" using assms(2) by (auto simp: byte_top_bit word_le_nat_alt)
  then have "read_uvarint_from input 7 1 (ucast (b AND 0x7f) :: u64) = (r, n, i1)" using c by simp
  then have "length i1 < length input" using assms(3) read_uvarint_consumes by (cases input) (fastforce dest: le_imp_less_Suc)+
  moreover have "length v \<le> length i1"
    using assms(1) c by (auto simp: serialize_string_def serialize_varint_def serialize_blob_def split: if_splits)
  ultimately show ?thesis by simp
qed

lemma long_nonce_lost:
  assumes "serialize_tx_extra_field v0 (Loading (0x02 # b # nonce)) = Some (Nonce nonce, ar)" and "128 \<le> b" and "nonce \<noteq> []"
  shows False
proof -
  obtain ar' where "serialize_string [] (Loading (b # nonce)) = Some (nonce, ar')"
    using assms(1) by (auto simp: extra_loading serialize_extra_nonce_def loading bind_eq_Some_conv split: if_splits)
  with string_is_short [OF this assms(2,3)] show False by simp
qed

text \<open>
  Property C20: an extra nonce of at most 255 bytes is accepted, but one of 128 bytes or more is not read back: its
  length is written as one byte, which the parser takes for the first byte of a varint.
\<close>

theorem extra_nonce_read_back:
  assumes "add_extra_nonce_to_tx_extra [] nonce = Some tx_extra"
  shows "parse_tx_extra tx_extra = (True, [Nonce nonce]) \<longleftrightarrow> length nonce \<le> 127"
proof
  have e: "tx_extra = 0x02 # of_nat (length nonce) # nonce" "length nonce \<le> 255"
    using assms by (simp_all add: add_extra_nonce_eq split: if_splits)
  show "parse_tx_extra tx_extra = (True, [Nonce nonce])" if "length nonce \<le> 127"
    using parse_field_Cons [of tx_extra "Nonce nonce" "[]"] load_nonce [OF that, of _ "[]"] by (simp add: e(1) parse_tx_extra_def)
  show "length nonce \<le> 127" if p: "parse_tx_extra tx_extra = (True, [Nonce nonce])"
  proof (rule ccontr)
    assume "\<not> length nonce \<le> 127"
    then have b: "(128 :: u8) \<le> of_nat (length nonce)" "nonce \<noteq> []" using e(2) by (auto simp: word_le_nat_alt unat_of_nat)
    have "parse_fields tx_extra = (True, [Nonce nonce])" using p by (simp add: parse_tx_extra_def e(1))
    then obtain rest where "serialize_tx_extra_field (Padding 0) (Loading tx_extra) = Some (Nonce nonce, rest)"
      by (subst (asm) parse_fields.simps) (auto split: option.splits archive.splits if_splits prod.splits)
    then show False using long_nonce_lost b unfolding e(1) by blast
  qed
qed

theorem extra_nonce_read_back_witness:
  "parse_tx_extra (0x02 # 3 # [7, 8, 9]) = (True, [Nonce [7, 8, 9]])
   \<and> parse_tx_extra (0x02 # 200 # replicate 200 1) \<noteq> (True, [Nonce (replicate 200 1)])"
  using extra_nonce_read_back [of "[7, 8, 9]"] extra_nonce_read_back [of "replicate 200 1"]
  by (simp add: add_extra_nonce_eq)

text \<open>
  Property C19: what is put into the field \<open>extra\<close> of a coinbase, its public key, a nonce of at most 127 bytes and
  the merge-mining tag, is found in it again.
\<close>

theorem coinbase_extra_found:
  assumes "length key = 32" and "length nonce \<le> 127" and "length (mm_merkle_root mm_tag) = 32"
    and "add_extra_nonce_to_tx_extra (add_tx_pub_key_to_extra [] key) nonce = Some extra1"
    and "append_mm_tag_to_extra extra1 mm_tag = Some tx_extra"
  shows "get_tx_pub_key_from_extra tx_extra = key \<and> get_mm_tag_from_extra tx_extra = Some mm_tag"
proof -
  obtain w where w: "saved serialize_mm_tag mm_tag = Some w"
      and e: "tx_extra = 0x01 # key @ 0x02 # of_nat (length nonce) # nonce @ 0x03 # w"
    using assms by (auto simp: add_extra_nonce_eq add_pub_key_eq append_mm_tag_to_extra_def t_serializable_object_to_blob_def
      bind_eq_Some_conv split: if_splits)
  have "parse_fields (0x03 # w) = (True, [Merge_mining_tag mm_tag])"
    using parse_field_Cons [of "0x03 # w" _ "[]"] load_merge_mining_tag [OF w, of _ "[]"] by simp
  then have "parse_fields (0x02 # of_nat (length nonce) # nonce @ 0x03 # w) = (True, [Nonce nonce, Merge_mining_tag mm_tag])"
    using parse_field_Cons [OF load_nonce [OF assms(2), of _ "0x03 # w"]] by simp
  then have "parse_tx_extra tx_extra = (True, [Pub_key key, Nonce nonce, Merge_mining_tag mm_tag])"
    using parse_field_Cons [OF load_pub_key [OF assms(1), of _ "0x02 # of_nat (length nonce) # nonce @ 0x03 # w"]]
    by (simp add: parse_tx_extra_def e)
  then show ?thesis
    by (simp add: get_tx_pub_key_from_extra_def get_mm_tag_from_extra_def find_tx_extra_field_by_type_def)
qed

theorem coinbase_extra_found_witness:
  "get_mm_tag_from_extra (0x01 # replicate 32 5 @ [0x02, 2, 8, 9, 0x03, 33, 1] @ replicate 32 6)
   = Some \<lparr> mm_depth = 1, mm_merkle_root = replicate 32 6 \<rparr>"
proof -
  let ?t = "\<lparr> mm_depth = 1, mm_merkle_root = replicate 32 6 \<rparr>"
  have h: "saved serialize_mm_helper ?t = Some (1 # replicate 32 6)"
    by (simp add: serialize_mm_helper_def VARINT_FIELD_def saved_do_all saving_rules codecs saved_varint saved_blob
      write_varint.simps word_le_nat_alt del: replicate_numeral)
  have "append_mm_tag_to_extra (0x01 # replicate 32 5 @ [0x02, 2, 8, 9]) ?t
      = Some (0x01 # replicate 32 5 @ [0x02, 2, 8, 9, 0x03, 33, 1] @ replicate 32 6)"
    by (simp add: append_mm_tag_to_extra_def t_serializable_object_to_blob_def saved_mm_tag h saved_string write_varint.simps word_le_nat_alt
      del: replicate_numeral)
  moreover have "add_extra_nonce_to_tx_extra (add_tx_pub_key_to_extra [] (replicate 32 5)) [8, 9]
      = Some (0x01 # replicate 32 5 @ [0x02, 2, 8, 9])"
    by (simp add: add_pub_key_eq add_extra_nonce_eq del: replicate_numeral)
  ultimately show ?thesis
    by (intro conjunct2 [OF coinbase_extra_found [of "replicate 32 5" "[8, 9]"]]) simp_all
qed

text \<open>
  A payment id is read back from the nonce it has been put into, and from nothing else.
\<close>

theorem payment_id_roundtrip:
  "get_payment_id_from_tx_extra_nonce nonce = Some payment_id \<longleftrightarrow> length payment_id = 32 \<and> nonce = set_payment_id_to_tx_extra_nonce payment_id"
  by (cases nonce) (auto simp: get_payment_id_from_tx_extra_nonce_def set_payment_id_to_tx_extra_nonce_def)

end
