(* ===== verification/Blocks.thy ===== *)
theory Blocks
  imports TxExtra
begin

text \<open>
  Blocks: \<open>block_header\<close>, \<open>bytecoin_block\<close> and \<open>block\<close> of \<open>cryptonote_basic.h\<close>, the pricing records of Salvium
  and Zephyr (\<open>salvium_oracle/pricing_record.h\<close>, \<open>zephyr_oracle/pricing_record.h\<close>), and the parser of blocks
  (\<open>cryptonote_format_utils.cpp\<close>). A block of every coin that has been parsed is written back to bytes that
  parse to it, and the count at its end may be missing.
\<close>

section \<open>Pricing records\<close>

record supply_data =
  sd_sal :: u64
  sd_vsd :: u64

definition serialize_supply_data :: "supply_data serializer" where
  "serialize_supply_data = do_all
     [VARINT_FIELD sd_sal sd_sal_update,
      VARINT_FIELD sd_vsd sd_vsd_update]"

record asset_data =
  ad_asset_type :: bytes
  ad_spot_price :: u64
  ad_ma_price :: u64

definition serialize_asset_data :: "asset_data serializer" where
  "serialize_asset_data = do_all
     [FIELD ad_asset_type ad_asset_type_update serialize_string,
      VARINT_FIELD ad_spot_price ad_spot_price_update,
      VARINT_FIELD ad_ma_price ad_ma_price_update]"

record salvium_pricing_record =
  sp_pr_version :: u64
  sp_height :: u64
  sp_supply :: supply_data
  sp_assets :: "asset_data list"
  sp_timestamp :: u64
  sp_signature :: bytes

definition serialize_salvium_pricing_record :: "salvium_pricing_record serializer" where
  "serialize_salvium_pricing_record = do_all
     [VARINT_FIELD sp_pr_version sp_pr_version_update,
      VARINT_FIELD sp_height sp_height_update,
      FIELD sp_supply sp_supply_update serialize_supply_data,
      FIELD sp_assets sp_assets_update
        (serialize_vector \<lparr> ad_asset_type = [], ad_spot_price = 0, ad_ma_price = 0 \<rparr> serialize_asset_data),
      VARINT_FIELD sp_timestamp sp_timestamp_update,
      FIELD sp_signature sp_signature_update serialize_bytes]"

text \<open>
  The records of Zephyr are structures of 64-bit numbers and a signature, written as they lie in memory:
  their numbers in order, in little-endian bytes.
\<close>

record zephyr_pricing_record =
  zp_spot :: u64
  zp_moving_average :: u64
  zp_stable :: u64
  zp_stable_ma :: u64
  zp_reserve :: u64
  zp_reserve_ma :: u64
  zp_reserve_ratio :: u64
  zp_reserve_ratio_ma :: u64
  zp_timestamp :: u64
  zp_signature :: bytes

definition serialize_zephyr_pricing_record :: "zephyr_pricing_record serializer" where
  "serialize_zephyr_pricing_record = do_all
     [FIELD zp_spot zp_spot_update serialize_int,
      FIELD zp_moving_average zp_moving_average_update serialize_int,
      FIELD zp_stable zp_stable_update serialize_int,
      FIELD zp_stable_ma zp_stable_ma_update serialize_int,
      FIELD zp_reserve zp_reserve_update serialize_int,
      FIELD zp_reserve_ma zp_reserve_ma_update serialize_int,
      FIELD zp_reserve_ratio zp_reserve_ratio_update serialize_int,
      FIELD zp_reserve_ratio_ma zp_reserve_ratio_ma_update serialize_int,
      FIELD zp_timestamp zp_timestamp_update serialize_int,
      FIELD zp_signature zp_signature_update (serialize_blob 64)]"

record zephyr_pricing_record_v2 =
  z2_spot :: u64
  z2_moving_average :: u64
  z2_stable :: u64
  z2_stable_ma :: u64
  z2_reserve :: u64
  z2_reserve_ma :: u64
  z2_timestamp :: u64
  z2_signature :: bytes

definition serialize_zephyr_pricing_record_v2 :: "zephyr_pricing_record_v2 serializer" where
  "serialize_zephyr_pricing_record_v2 = do_all
     [FIELD z2_spot z2_spot_update serialize_int,
      FIELD z2_moving_average z2_moving_average_update serialize_int,
      FIELD z2_stable z2_stable_update serialize_int,
      FIELD z2_stable_ma z2_stable_ma_update serialize_int,
      FIELD z2_reserve z2_reserve_update serialize_int,
      FIELD z2_reserve_ma z2_reserve_ma_update serialize_int,
      FIELD z2_timestamp z2_timestamp_update serialize_int,
      FIELD z2_signature z2_signature_update (serialize_blob 64)]"

record zephyr_pricing_record_v1 =
  z1_zEPHUSD :: u64
  z1_zEPHRSV :: u64
  z1_timestamp :: u64

definition serialize_zephyr_pricing_record_v1 :: "zephyr_pricing_record_v1 serializer" where
  "serialize_zephyr_pricing_record_v1 = do_all
     [FIELD z1_zEPHUSD z1_zEPHUSD_update serialize_int,
      FIELD z1_zEPHRSV z1_zEPHRSV_update serialize_int,
      FIELD z1_timestamp z1_timestamp_update serialize_int]"

definition write_to_pr_v1 :: "zephyr_pricing_record_v1 \<Rightarrow> zephyr_pricing_record \<Rightarrow> zephyr_pricing_record" where
  "write_to_pr_v1 r pr = pr\<lparr> zp_spot := 0, zp_moving_average := 0, zp_stable := 0, zp_stable_ma := 0, zp_reserve := 0,
     zp_reserve_ma := 0, zp_timestamp := 0, zp_signature := replicate 64 0 \<rparr>"

definition read_from_pr_v1 :: "zephyr_pricing_record \<Rightarrow> zephyr_pricing_record_v1" where
  "read_from_pr_v1 pr = \<lparr> z1_zEPHUSD = 0, z1_zEPHRSV = 0, z1_timestamp = 0 \<rparr>"

definition write_to_pr_v2 :: "zephyr_pricing_record_v2 \<Rightarrow> zephyr_pricing_record \<Rightarrow> zephyr_pricing_record" where
  "write_to_pr_v2 r pr = \<lparr> zp_spot = z2_spot r, zp_moving_average = z2_moving_average r, zp_stable = z2_stable r,
     zp_stable_ma = z2_stable_ma r, zp_reserve = z2_reserve r, zp_reserve_ma = z2_reserve_ma r, zp_reserve_ratio = 0,
     zp_reserve_ratio_ma = 0, zp_timestamp = z2_timestamp r, zp_signature = z2_signature r \<rparr>"

definition read_from_pr_v2 :: "zephyr_pricing_record \<Rightarrow> zephyr_pricing_record_v2" where
  "read_from_pr_v2 pr = \<lparr> z2_spot = zp_spot pr, z2_moving_average = zp_moving_average pr, z2_stable = zp_stable pr,
     z2_stable_ma = zp_stable_ma pr, z2_reserve = zp_reserve pr, z2_reserve_ma = zp_reserve_ma pr,
     z2_timestamp = zp_timestamp pr, z2_signature = zp_signature pr \<rparr>"

text \<open>A record of an old version, which is converted on the way; \<open>d\<close> is what the local variable holds.\<close>

definition serialize_converted ::
    "'r \<Rightarrow> 'r serializer \<Rightarrow> ('p \<Rightarrow> 'r) \<Rightarrow> ('r \<Rightarrow> 'p \<Rightarrow> 'p) \<Rightarrow> 'p serializer" where
  "serialize_converted d s read_from_pr write_to_pr pr ar =
     (case ar of
        Saving out \<Rightarrow> do { (r, ar) \<leftarrow> s (read_from_pr pr) ar; Some (pr, ar) }
      | Loading input \<Rightarrow> do { (r, ar) \<leftarrow> s d ar; Some (write_to_pr r pr, ar) })"

definition null_v1 :: zephyr_pricing_record_v1 where
  "null_v1 = \<lparr> z1_zEPHUSD = 0, z1_zEPHRSV = 0, z1_timestamp = 0 \<rparr>"

definition null_v2 :: zephyr_pricing_record_v2 where
  "null_v2 = \<lparr> z2_spot = 0, z2_moving_average = 0, z2_stable = 0, z2_stable_ma = 0, z2_reserve = 0, z2_reserve_ma = 0,
     z2_timestamp = 0, z2_signature = replicate 64 0 \<rparr>"

section \<open>The parent block of a merge-mined block\<close>

record bytecoin_block =
  bb_major_version :: u8
  bb_minor_version :: u8
  bb_prev_id :: bytes
  bb_nonce :: u32
  number_of_transactions :: u64
  miner_tx_branch :: "bytes list"
  bb_miner_tx :: transaction
  blockchain_branch :: "bytes list"

text \<open>The time stamp is a reference to the one of the block around it.\<close>

record serializable_bytecoin_block = bytecoin_block +
  sbb_timestamp :: u64

text \<open>The 96 bytes of which the first 32 are replaced by the hash of the coinbase.\<close>

definition parent_hash_data :: bytes where
  "parent_hash_data = replicate 32 0
     @ [0xbc, 0x36, 0x78, 0x9e, 0x7a, 0x1e, 0x28, 0x14, 0x36, 0x46, 0x42, 0x29, 0x82, 0x8f, 0x81, 0x7d,
        0x66, 0x12, 0xf7, 0xb4, 0x77, 0xd6, 0x65, 0x91, 0xff, 0x96, 0xa9, 0xe0, 0x64, 0xbc, 0xc9, 0x8a]
     @ replicate 32 0"

definition parent_merkle_root :: "amounts \<Rightarrow> 'z bytecoin_block_scheme \<Rightarrow> bytes option" where
  "parent_merkle_root am b =
     do {
       miner_tx_hash \<leftarrow>
         (if version (bb_miner_tx b) < 2 then get_object_hash (serialize_transaction am) (bb_miner_tx b)
          else do { h \<leftarrow> get_transaction_prefix_hash (bb_miner_tx b); get_blob_hash (memcpy_at parent_hash_data 0 h) });
       tree_hash_from_branch (miner_tx_branch b) (length (miner_tx_branch b)) miner_tx_hash None
     }"

definition serialize_merkle_root :: "amounts \<Rightarrow> 'z bytecoin_block_scheme serializer" where
  "serialize_merkle_root am b ar =
     do {
       merkle_root \<leftarrow> parent_merkle_root am b;
       (merkle_root, ar) \<leftarrow> serialize_blob 32 merkle_root ar;
       Some (b, ar)
     }"

text \<open>
  A parent block. Resizing \<open>blockchain_branch\<close> to a depth for which there is no memory is an exception in the code;
  here the input is too short for it, so that reading fails.
\<close>

definition serialize_bytecoin_block :: "amounts \<Rightarrow> bool \<Rightarrow> bool \<Rightarrow> serializable_bytecoin_block serializer" where
  "serialize_bytecoin_block am hashing_serialization header_only = do_all
     ([VARINT_FIELD bb_major_version bb_major_version_update,
       VARINT_FIELD bb_minor_version bb_minor_version_update,
       VARINT_FIELD sbb_timestamp sbb_timestamp_update,
       FIELD bb_prev_id bb_prev_id_update (serialize_blob 32),
       FIELD bb_nonce bb_nonce_update serialize_int]
      @ (if hashing_serialization then [serialize_merkle_root am] else [])
      @ [VARINT_FIELD number_of_transactions number_of_transactions_update,
         RETURN_FALSE_IF (\<lambda>b. number_of_transactions b < 1)]
      @ (if header_only then []
         else
           [WITH (\<lambda>b. the (tree_depth (number_of_transactions b)))
              (\<lambda>branch_size. FIELD miner_tx_branch miner_tx_branch_update
                 (serialize_custom branch_size null_hash (serialize_blob 32))),
            FIELD bb_miner_tx bb_miner_tx_update (serialize_transaction am),
            WITH (\<lambda>b. get_mm_tag_from_extra (extra (bb_miner_tx b)))
              (\<lambda>mm_tag. case mm_tag of None \<Rightarrow> RETURN_FALSE_IF (\<lambda>_. True)
                 | Some t \<Rightarrow> FIELD blockchain_branch blockchain_branch_update
                     (serialize_custom (unat (mm_depth t)) null_hash (serialize_blob 32)))]))"

section \<open>Blocks\<close>

text \<open>\<open>pricing_record\<close> of Haven is a structure of 200 bytes that is only copied.\<close>

record block_header =
  blob_type :: BLOB_TYPE
  major_version :: u8
  minor_version :: u8
  timestamp :: u64
  prev_id :: bytes
  nonce :: u64
  nonce8 :: u64
  pricing_record :: bytes
  zephyr_pr :: zephyr_pricing_record
  salvium_pr :: salvium_pricing_record
  cycle :: bytes
  cycle40 :: bytes
  cycle48 :: bytes
  signature :: bytes

text \<open>The nonce through a local variable of 32 bits.\<close>

definition serialize_nonce32 :: "u64 serializer" where
  "serialize_nonce32 n ar =
     (case ar of
        Saving out \<Rightarrow> do { (nonce32, ar) \<leftarrow> serialize_int (ucast n :: u32) ar; Some (n, ar) }
      | Loading input \<Rightarrow> do { (nonce32, ar) \<leftarrow> serialize_int (0 :: u32) ar; Some (ucast nonce32, ar) })"

definition serialize_block_header :: "'z block_header_scheme serializer" where
  "serialize_block_header = do_all
     [VARINT_FIELD major_version major_version_update,
      VARINT_FIELD minor_version minor_version_update,
      IF (\<lambda>b. blob_type b \<noteq> BLOB_TYPE_FORKNOTE2) [VARINT_FIELD timestamp timestamp_update] [],
      FIELD prev_id prev_id_update (serialize_blob 32),
      IF (\<lambda>b. blob_type b \<in> {BLOB_TYPE_CRYPTONOTE_CUCKOO, BLOB_TYPE_CRYPTONOTE_TUBE, BLOB_TYPE_CRYPTONOTE_XTA})
        [FIELD nonce8 nonce8_update serialize_int] [],
      IF (\<lambda>b. blob_type b \<noteq> BLOB_TYPE_FORKNOTE2)
        [IF (\<lambda>b. blob_type b = BLOB_TYPE_AEON) [FIELD nonce nonce_update serialize_int]
          [FIELD nonce nonce_update serialize_nonce32]] [],
      IF (\<lambda>b. blob_type b \<in> {BLOB_TYPE_CRYPTONOTE_XTNC, BLOB_TYPE_CRYPTONOTE_CUCKOO})
        [FIELD cycle cycle_update (serialize_blob 128)] [],
      IF (\<lambda>b. blob_type b = BLOB_TYPE_CRYPTONOTE_TUBE) [FIELD cycle40 cycle40_update (serialize_blob 160)] [],
      IF (\<lambda>b. blob_type b = BLOB_TYPE_CRYPTONOTE_XTA) [FIELD cycle48 cycle48_update (serialize_blob 192)] [],
      IF (\<lambda>b. blob_type b = BLOB_TYPE_CRYPTONOTE_XHV) [FIELD pricing_record pricing_record_update (serialize_blob 200)] [],
      IF (\<lambda>b. blob_type b = BLOB_TYPE_CRYPTONOTE_SALVIUM)
        [IF (\<lambda>b. 255 \<le> major_version b) [FIELD salvium_pr salvium_pr_update serialize_salvium_pricing_record] []]
        [IF (\<lambda>b. blob_type b = BLOB_TYPE_CRYPTONOTE_ZEPHYR)
          [IF (\<lambda>b. 4 \<le> major_version b) [FIELD zephyr_pr zephyr_pr_update serialize_zephyr_pricing_record]
            [IF (\<lambda>b. 3 \<le> major_version b)
              [FIELD zephyr_pr zephyr_pr_update
                 (serialize_converted null_v2 serialize_zephyr_pricing_record_v2 read_from_pr_v2 write_to_pr_v2)]
              [FIELD zephyr_pr zephyr_pr_update
                 (serialize_converted null_v1 serialize_zephyr_pricing_record_v1 read_from_pr_v1 write_to_pr_v1)]]] []],
      IF (\<lambda>b. blob_type b = BLOB_TYPE_CRYPTONOTE_XLA \<and> 13 \<le> major_version b)
        [FIELD signature signature_update (serialize_blob 64)] []]"

record block = block_header +
  parent_block :: bytecoin_block
  miner_tx :: transaction
  protocol_tx :: transaction
  tx_hashes :: "bytes list"
  uncle :: bytes

text \<open>\<open>make_serializable_bytecoin_block\<close>, and what the references change in the block.\<close>

definition make_sbb :: "block \<Rightarrow> serializable_bytecoin_block" where
  "make_sbb b = bytecoin_block.extend (parent_block b) \<lparr> sbb_timestamp = timestamp b \<rparr>"

definition make_sbb_update :: "(serializable_bytecoin_block \<Rightarrow> serializable_bytecoin_block) \<Rightarrow> block \<Rightarrow> block" where
  "make_sbb_update f b =
     (let s = f (make_sbb b) in b\<lparr> parent_block := bytecoin_block.truncate s, timestamp := sbb_timestamp s \<rparr>)"

definition serialize_block :: "amounts \<Rightarrow> block serializer" where
  "serialize_block am = do_all
     [serialize_block_header,
      IF (\<lambda>b. blob_type b = BLOB_TYPE_FORKNOTE2)
        [FIELD make_sbb make_sbb_update (serialize_bytecoin_block am False False)] [],
      FIELD miner_tx miner_tx_update (serialize_transaction am),
      IF (\<lambda>b. blob_type b = BLOB_TYPE_CRYPTONOTE_SALVIUM)
        [FIELD protocol_tx protocol_tx_update (serialize_transaction am)] [],
      FIELD tx_hashes tx_hashes_update (serialize_vector null_hash (serialize_blob 32)),
      IF (\<lambda>b. blob_type b = BLOB_TYPE_CRYPTONOTE3) [FIELD uncle uncle_update (serialize_blob 32)] []]"

text \<open>\<open>AUTO_VAL_INIT(block)\<close> and \<open>set_blob_type\<close>, which does not reach the parent block.\<close>

definition null_block :: "BLOB_TYPE \<Rightarrow> block" where
  "null_block bt = \<lparr> blob_type = bt, major_version = 0, minor_version = 0, timestamp = 0, prev_id = null_hash, nonce = 0,
     nonce8 = 0, pricing_record = replicate 200 0,
     zephyr_pr = \<lparr> zp_spot = 0, zp_moving_average = 0, zp_stable = 0, zp_stable_ma = 0, zp_reserve = 0, zp_reserve_ma = 0,
       zp_reserve_ratio = 0, zp_reserve_ratio_ma = 0, zp_timestamp = 0, zp_signature = replicate 64 0 \<rparr>,
     salvium_pr = \<lparr> sp_pr_version = 0, sp_height = 0, sp_supply = \<lparr> sd_sal = 0, sd_vsd = 0 \<rparr>, sp_assets = [],
       sp_timestamp = 0, sp_signature = [] \<rparr>,
     cycle = replicate 128 0, cycle40 = replicate 160 0, cycle48 = replicate 192 0, signature = null_signature,
     parent_block = \<lparr> bb_major_version = 0, bb_minor_version = 0, bb_prev_id = null_hash, bb_nonce = 0,
       number_of_transactions = 0, miner_tx_branch = [], bb_miner_tx = null_transaction BLOB_TYPE_CRYPTONOTE,
       blockchain_branch = [] \<rparr>,
     miner_tx = null_transaction bt, protocol_tx = null_transaction bt, tx_hashes = [], uncle = null_hash \<rparr>"

section \<open>The parts are read back\<close>

lemma full_supply_data [codecs]: "full_codec serialize_supply_data"
  unfolding serialize_supply_data_def VARINT_FIELD_def
  by (rule full_structure, simp add: codecs saving_rules, simp add: codecs shrinks_rules,
      (rule loads_steps | simp add: saving_rules codecs)+,
      (elim do_all_loadE; (simp (no_asm) add: codecs shrinks_rules; fail)?), elim load_elims,
      (simp (no_asm_simp) add: saving_rules codecs; simp?))

lemma full_asset_data [codecs]: "full_codec serialize_asset_data"
  unfolding serialize_asset_data_def VARINT_FIELD_def
  by (rule full_structure, simp add: codecs saving_rules, simp add: codecs shrinks_rules,
      (rule loads_steps | simp add: saving_rules codecs)+,
      (elim do_all_loadE; (simp (no_asm) add: codecs shrinks_rules; fail)?), elim load_elims,
      (simp (no_asm_simp) add: saving_rules codecs; simp?))

lemma wide_asset_data [codecs]: "wide_codec serialize_asset_data"
proof -
  have c: "codec serialize_asset_data" by (simp add: codecs)
  show ?thesis using c unfolding serialize_asset_data_def VARINT_FIELD_def
    by (rule wide_structure) (simp_all add: codecs saving_rules saved_varint)
qed

lemma full_salvium_pricing_record [codecs]: "full_codec serialize_salvium_pricing_record"
  unfolding serialize_salvium_pricing_record_def VARINT_FIELD_def
  by (rule full_structure, simp add: codecs saving_rules, simp add: codecs shrinks_rules,
      (rule loads_steps | simp add: saving_rules codecs)+,
      (elim do_all_loadE; (simp (no_asm) add: codecs shrinks_rules; fail)?), elim load_elims,
      (simp (no_asm_simp) add: saving_rules codecs; simp?))

lemma full_zephyr_pricing_records [codecs]:
  "full_codec serialize_zephyr_pricing_record" "full_codec serialize_zephyr_pricing_record_v2"
  "full_codec serialize_zephyr_pricing_record_v1"
  unfolding serialize_zephyr_pricing_record_def serialize_zephyr_pricing_record_v2_def serialize_zephyr_pricing_record_v1_def
  by (rule full_structure, simp add: codecs saving_rules, simp add: codecs shrinks_rules,
      (rule loads_steps | simp add: saving_rules codecs)+,
      (elim do_all_loadE; (simp (no_asm) add: codecs shrinks_rules; fail)?), elim load_elims,
      (simp (no_asm_simp) add: saving_rules codecs; simp?))+

lemma nonce32_codec [codecs]: "codec serialize_nonce32"
proof
  have s: "saves serialize_nonce32 n \<and> saved serialize_nonce32 n = Some (bytes_of_word (ucast n :: u32))" for n
    by (rule savesI) (simp add: serialize_nonce32_def serialize_int_def)
  then show "saves serialize_nonce32 n" for n by blast
  show "shrinks serialize_nonce32" by (auto simp: shrinks_def serialize_nonce32_def serialize_int_def split: if_splits)
  show "readable serialize_nonce32 v \<and> (\<exists>w. saved serialize_nonce32 v = Some w)"
    if l: "serialize_nonce32 v0 (Loading input) = Some (v, ar)" for v0 input v ar
  proof -
    obtain n where v: "v = ucast (n :: u32)" using l by (auto simp: serialize_nonce32_def bind_eq_Some_conv)
    have "serialize_int (0 :: u32) (Loading (bytes_of_word n @ rest)) = Some (n, Loading rest)" for rest
      using readableD [OF int32.readable, of n] by (simp add: saved_int)
    moreover have "ucast (ucast n :: u64) = n" by (rule bit_word_eqI) (auto simp: bit_unsigned_iff)
    ultimately have "readable serialize_nonce32 v"
      by (intro readableI) (auto simp: s v serialize_nonce32_def)
    with s show ?thesis by blast
  qed
qed

lemma saves_converted [saving_rules]: "(\<And>r. saves s r) \<Longrightarrow> saves (serialize_converted d s f g) pr"
  by (rule conjunct1 [OF savesI [where w = "saved s (f pr)"]])
    (cases "saved s (f pr)"; simp add: serialize_converted_def savesD)

text \<open>A converted record: the conversion to the current version is settled by the old one.\<close>

lemma converted_reloads:
  assumes s: "full_codec s" and same: "\<And>r pr. g (f (g r pr)) pr = g r pr"
    and savable: "\<And>r pr. \<exists>w. saved s r = Some w \<Longrightarrow> \<exists>w. saved s (f (g r pr)) = Some w"
  shows "reloads (serialize_converted d s f g) (\<lambda>_. True)"
proof (rule reloadsI)
  have sh: "shrinks s" using s by (simp add: codecs)
  show "shrinks (serialize_converted d s f g)"
    by (auto simp: shrinks_def serialize_converted_def bind_eq_Some_conv dest: shrinksD [OF sh])
  fix v0 input v ar
  assume "serialize_converted d s f g v0 (Loading input) = Some (v, ar)"
  then obtain r where r: "s d (Loading input) = Some (r, ar)" "v = g r v0"
    by (auto simp: serialize_converted_def bind_eq_Some_conv)
  from codec.reload [OF full_codec.axioms(1) [OF s] r(1)] savable obtain w where w: "saved s (f v) = Some w"
    unfolding r(2) by blast
  have "writes (serialize_converted d s f g) v w"
    using savesD [OF codec.saving [OF full_codec.axioms(1) [OF s]], of "f v"] w
    by (simp add: writes_def serialize_converted_def)
  moreover have "serialize_converted d s f g v0 (Loading (w @ rest)) = Some (v, Loading rest)" for rest
    using readableD [OF full_codec.readable [OF s] w] same [of r v0] by (simp add: serialize_converted_def r(2))
  ultimately show "True \<and> (\<exists>w. writes (serialize_converted d s f g) v w
      \<and> (\<forall>rest. serialize_converted d s f g v0 (Loading (w @ rest)) = Some (v, Loading rest)))"
    by blast
qed

lemma converted_zephyr_reloads [reload_rules]:
  "reloads (serialize_converted null_v2 serialize_zephyr_pricing_record_v2 read_from_pr_v2 write_to_pr_v2) (\<lambda>_. True)"
  "reloads (serialize_converted null_v1 serialize_zephyr_pricing_record_v1 read_from_pr_v1 write_to_pr_v1) (\<lambda>_. True)"
proof -
  have v2: "read_from_pr_v2 (write_to_pr_v2 r pr) = r" for r :: zephyr_pricing_record_v2 and pr
    by (simp add: read_from_pr_v2_def write_to_pr_v2_def)
  show "reloads (serialize_converted null_v2 serialize_zephyr_pricing_record_v2 read_from_pr_v2 write_to_pr_v2) (\<lambda>_. True)"
    by (rule converted_reloads) (simp_all add: codecs v2)
  have "\<exists>w. saved serialize_zephyr_pricing_record_v1 r = Some w" for r
    by (simp add: serialize_zephyr_pricing_record_v1_def saved_do_all saving_rules codecs saved_int)
  then show "reloads (serialize_converted null_v1 serialize_zephyr_pricing_record_v1 read_from_pr_v1 write_to_pr_v1) (\<lambda>_. True)"
    by (intro converted_reloads) (simp_all add: codecs read_from_pr_v1_def write_to_pr_v1_def)
qed

lemma make_sbb_lens:
  "make_sbb (make_sbb_update (\<lambda>_. s) b) = s" "make_sbb_update (\<lambda>_. make_sbb b) b = b"
  "make_sbb_update (\<lambda>_. s) (make_sbb_update (\<lambda>_. s') b) = make_sbb_update (\<lambda>_. s) b"
  by (simp_all add: make_sbb_def make_sbb_update_def bytecoin_block.defs Let_def)


lemma header_reloads: "reloads (serialize_block_header :: block serializer) (\<lambda>_. True)"
  unfolding serialize_block_header_def VARINT_FIELD_def
  by (rule indep_first | rule reload_rules indep_rules
    | ((rule indep_leaf, (rule keeps_rules | (simp; fail))+)[1]; fail)
    | rule indep_right keeps_rules | (rule codec_reloads, simp add: codecs; fail)
    | (rule indep_step indep_assign, (simp add: codecs saving_rules; fail))
    | (simp add: codecs saving_rules; fail) | (elim conjE, simp; fail) | (rule indep_absurd, force) | force)+

lemma header_saves [saving_rules]: "saves (serialize_block_header :: block serializer) b"
  by (simp add: serialize_block_header_def VARINT_FIELD_def saving_rules codecs)

lemma keeps_header:
  "keeps (serialize_block_header :: block serializer) blob_type" "keeps (serialize_block_header :: block serializer) miner_tx"
  "keeps (serialize_block_header :: block serializer) protocol_tx" "keeps (serialize_block_header :: block serializer) tx_hashes"
  unfolding serialize_block_header_def VARINT_FIELD_def
  by (rule keeps_rules | (simp; fail))+


text \<open>The parent block.\<close>

lemma mm_branch_reloads [reload_rules]:
  "reloads (case mm_tag of None \<Rightarrow> RETURN_FALSE_IF (\<lambda>_. True)
     | Some t \<Rightarrow> FIELD blockchain_branch blockchain_branch_update
         (serialize_custom (unat (mm_depth t)) null_hash (serialize_blob 32)))
   (\<lambda>b. no_p_r (bb_miner_tx b) \<and> get_mm_tag_from_extra (extra (bb_miner_tx b)) = mm_tag)"
  by (cases mm_tag) (simp_all add: reload_rules codec_reloads codecs)

lemma keeps_mm_branch [keeps_rules]:
  "(\<And>x b. f (b\<lparr> blockchain_branch := x \<rparr>) = f b) \<Longrightarrow> keeps (case mm_tag of None \<Rightarrow> RETURN_FALSE_IF (\<lambda>_. True)
     | Some t \<Rightarrow> FIELD blockchain_branch blockchain_branch_update
         (serialize_custom (unat (mm_depth t)) null_hash (serialize_blob 32))) f"
  by (cases mm_tag) (simp_all add: keeps_rules)

lemma parent_block_reloads: "reloads (serialize_bytecoin_block am False False) (\<lambda>b. no_p_r (bb_miner_tx b))"
proof -
  have tx: "reloads (FIELD bb_miner_tx bb_miner_tx_update (serialize_transaction am))
      (\<lambda>b :: serializable_bytecoin_block. no_p_r (bb_miner_tx b))"
    by (rule reloads_FIELD [OF transaction_reloads]) simp_all
  show ?thesis
    unfolding serialize_bytecoin_block_def VARINT_FIELD_def append.simps if_False
    by (rule indep_first | rule tx reload_rules indep_rules
      | ((rule indep_leaf, (rule keeps_rules | (simp; fail))+)[1]; fail)
      | rule indep_right keeps_rules | (rule codec_reloads, simp add: codecs; fail)
      | (rule indep_step indep_assign, (simp add: codecs saving_rules; fail))
      | (simp add: codecs saving_rules; fail) | (elim conjE, simp; fail) | (rule indep_absurd, force) | force)+
qed


text \<open>The block. Its parts start without \<open>p_r\<close> in the three transactions.\<close>

definition no_p_rs :: "block \<Rightarrow> bool" where
  "no_p_rs b \<longleftrightarrow> no_p_r (miner_tx b) \<and> no_p_r (protocol_tx b) \<and> no_p_r (bb_miner_tx (parent_block b))"

lemma no_p_rs_null [simp]: "no_p_rs (null_block bt)"
  by (simp add: no_p_rs_def null_block_def)

lemma indep_weaken: "indep (\<lambda>_. True) s t \<Longrightarrow> indep P s t"
  by (simp add: indep_def)

text \<open>What writes the header, and the parent block, which has the time stamp that is then not in the header.\<close>

lemma header_indep:
  assumes "keeps t block_header.truncate"
  shows "indep P (serialize_block_header :: block serializer) t"
proof -
  have k: "keeps t f" if "\<And>v v'. block_header.truncate v = block_header.truncate v' \<Longrightarrow> f v = f v'" for f :: "block \<Rightarrow> 'x"
    using assms that unfolding keeps_def by blast
  show ?thesis unfolding serialize_block_header_def VARINT_FIELD_def
    by (rule indep_first | rule indep_rules indep_leaf | (rule k, simp add: block_header.defs; fail)
      | (rule indep_step indep_assign, (simp add: codecs saving_rules; fail))
      | (simp add: codecs saving_rules; fail))+
qed

lemma parent_indep:
  "indep (\<lambda>b. P b \<and> blob_type b = BLOB_TYPE_FORKNOTE2) serialize_block_header (do_all [FIELD make_sbb make_sbb_update s])"
  unfolding serialize_block_header_def VARINT_FIELD_def
  by (rule indep_first | rule indep_rules
    | ((rule indep_leaf, (rule keeps_rules | (simp add: make_sbb_update_def Let_def; fail))+)[1]; fail)
    | rule keeps_rules
    | (rule indep_step indep_assign, (simp add: codecs saving_rules; fail))
    | (simp add: codecs saving_rules make_sbb_update_def Let_def; fail)
    | (rule indep_absurd, force))+

abbreviation block_front :: "amounts \<Rightarrow> block serializer list" where
  "block_front am \<equiv>
     [serialize_block_header,
      IF (\<lambda>b. blob_type b = BLOB_TYPE_FORKNOTE2)
        [FIELD make_sbb make_sbb_update (serialize_bytecoin_block am False False)] [],
      FIELD miner_tx miner_tx_update (serialize_transaction am),
      IF (\<lambda>b. blob_type b = BLOB_TYPE_CRYPTONOTE_SALVIUM)
        [FIELD protocol_tx protocol_tx_update (serialize_transaction am)] []]"

abbreviation block_end :: "block serializer list" where
  "block_end \<equiv>
     [FIELD tx_hashes tx_hashes_update (serialize_vector null_hash (serialize_blob 32)),
      IF (\<lambda>b. blob_type b = BLOB_TYPE_CRYPTONOTE3) [FIELD uncle uncle_update (serialize_blob 32)] []]"

lemma block_steps_reload:
  shows "reloads (do_all (block_front am)) no_p_rs" and "reloads (serialize_block am) no_p_rs"
    and "reloads (do_all (tl (block_front am @ block_end))) no_p_rs" and "reloads serialize_block_header no_p_rs"
proof -
  have header: "reloads serialize_block_header no_p_rs"
  proof (rule reloads_kept [OF header_reloads])
    show "keeps serialize_block_header no_p_rs" unfolding serialize_block_header_def VARINT_FIELD_def
      by (rule keeps_rules | (simp add: no_p_rs_def; fail))+
  qed
  note b = make_sbb_def make_sbb_update_def bytecoin_block.defs Let_def
  have parent: "reloads (FIELD make_sbb make_sbb_update (serialize_bytecoin_block am False False))
      (\<lambda>b. no_p_rs b \<and> blob_type b = BLOB_TYPE_FORKNOTE2)"
    by (rule reloads_FIELD [OF parent_block_reloads]) (simp_all add: no_p_rs_def make_sbb_lens, simp_all add: b)
  have txs: "reloads (FIELD miner_tx miner_tx_update (serialize_transaction am)) no_p_rs"
    "reloads (FIELD protocol_tx protocol_tx_update (serialize_transaction am))
       (\<lambda>b. no_p_rs b \<and> blob_type b = BLOB_TYPE_CRYPTONOTE_SALVIUM)"
    by (rule reloads_FIELD [OF transaction_reloads]; simp add: no_p_rs_def)+
  have others: "reloads (FIELD tx_hashes tx_hashes_update (serialize_vector null_hash (serialize_blob 32))) no_p_rs"
    "reloads (FIELD uncle uncle_update (serialize_blob 32)) (\<lambda>b. no_p_rs b \<and> blob_type b = BLOB_TYPE_CRYPTONOTE3)"
    by (rule reloads_FIELD_any, simp add: codec_reloads codecs, simp_all add: no_p_rs_def)+
  have tail: "reloads (do_all (tl (block_front am))) no_p_rs" "reloads (do_all (tl (block_front am @ block_end))) no_p_rs"
    unfolding append.simps list.sel
    by (rule indep_first | rule parent txs others reload_rules indep_rules
      | ((rule indep_leaf, (rule keeps_rules | (simp add: b; fail))+)[1]; fail)
      | rule indep_right keeps_rules | (simp add: codecs saving_rules b; fail))+
  have i: "indep (\<lambda>_. True) serialize_block_header (do_all (tl (block_front am)))"
    "indep (\<lambda>_. True) serialize_block_header (do_all (tl (block_front am @ block_end)))"
    unfolding append.simps list.sel
    by (rule indep_first | rule parent_indep indep_right keeps_rules | rule header_indep
      | (simp add: b no_p_rs_def block_header.defs; fail))+
  show "reloads (do_all (block_front am)) no_p_rs"
    using reloads_Cons [OF header tail(1) indep_weaken [OF i(1)]] by simp
  show "reloads (serialize_block am) no_p_rs"
    using reloads_Cons [OF header tail(2) indep_weaken [OF i(2)]] by (simp add: serialize_block_def)
  show "reloads (do_all (tl (block_front am @ block_end))) no_p_rs" by (rule tail)
  show "reloads serialize_block_header no_p_rs" by (rule header)
qed

section \<open>Parsing\<close>

definition parse_and_validate_block_from_blob :: "amounts \<Rightarrow> BLOB_TYPE \<Rightarrow> bytes \<Rightarrow> block option" where
  "parse_and_validate_block_from_blob am bt b_blob = parse_binary (serialize_block am) (null_block bt) b_blob"

definition block_to_blob :: "amounts \<Rightarrow> block \<Rightarrow> bytes option" where
  "block_to_blob am b = t_serializable_object_to_blob (serialize_block am) b"

text \<open>A block of a plain coin, with a coinbase and no other transaction.\<close>

definition small_blob :: bytes where
  "small_blob = [7, 9, 0x80, 0x80, 0x80, 0x80, 5] @ replicate 32 1 @ [1, 2, 3, 4] @ [1, 0, 1, 0xff, 5, 0, 0] @ [0]"

definition small_block :: block where
  "small_block = (null_block BLOB_TYPE_CRYPTONOTE)\<lparr> major_version := 7, minor_version := 9, timestamp := 0x50000000,
     prev_id := replicate 32 1, nonce := 0x04030201,
     miner_tx := (null_transaction BLOB_TYPE_CRYPTONOTE)\<lparr> version := 1, vin := [TxinGen 5], signatures := [[]] \<rparr> \<rparr>"

lemma load_narrow_varint:
  assumes "b < 128"
  shows "serialize_varint v (Loading (b # rest)) = Some (b :: u8, Loading rest)"
proof -
  have b: "unat b < 2 ^ 7" using assms by (simp add: word_less_nat_alt)
  have "b AND 0x7f = take_bit 7 b" by (simp add: take_bit_eq_mask mask_eq_exp_minus_1)
  also have "\<dots> = b" using b by (simp add: word_unat_eq_iff unsigned_take_bit_eq take_bit_nat_eq_self)
  finally have "b AND 0x7f = b" .
  moreover have "b AND 0x80 = 0" using b by (simp add: byte_top_bit)
  ultimately show ?thesis using b by (simp add: serialize_varint_def)
qed

lemma load_small_timestamp:
  "serialize_varint v (Loading (0x80 # 0x80 # 0x80 # 0x80 # 5 # rest)) = Some (0x50000000 :: u64, Loading rest)"
  by (simp add: serialize_varint_def)

lemma load_blob: "length w = n \<Longrightarrow> serialize_blob n v (Loading (w @ rest)) = Some (w, Loading rest)"
  by (simp add: serialize_blob_def)

lemma load_small_header:
  "serialize_block_header (null_block BLOB_TYPE_CRYPTONOTE) (Loading ([7, 9, 0x80, 0x80, 0x80, 0x80, 5] @ replicate 32 1 @ [1, 2, 3, 4] @ rest))
   = Some ((null_block BLOB_TYPE_CRYPTONOTE)\<lparr> major_version := 7, minor_version := 9, timestamp := 0x50000000,
     prev_id := replicate 32 1, nonce := 0x04030201 \<rparr>, Loading rest)"
  by (simp add: serialize_block_header_def loading null_block_def load_narrow_varint load_small_timestamp load_blob
    serialize_nonce32_def serialize_int_def word_of_bytes_def del: replicate_numeral)


lemma load_small_coinbase:
  "serialize_transaction am (null_transaction BLOB_TYPE_CRYPTONOTE) (Loading ([1, 0, 1, 0xff, 5, 0, 0] @ rest))
   = Some ((null_transaction BLOB_TYPE_CRYPTONOTE)\<lparr> version := 1, vin := [TxinGen 5], signatures := [[]] \<rparr>, Loading rest)"
  by (simp add: parsing)

lemma parse_small_blob: "parse_and_validate_block_from_blob am BLOB_TYPE_CRYPTONOTE small_blob = Some small_block"
proof -
  have "blob_type (null_block BLOB_TYPE_CRYPTONOTE) = BLOB_TYPE_CRYPTONOTE"
    "miner_tx (null_block BLOB_TYPE_CRYPTONOTE) = null_transaction BLOB_TYPE_CRYPTONOTE" "tx_hashes (null_block BLOB_TYPE_CRYPTONOTE) = []"
    by (simp_all add: null_block_def)
  then show ?thesis
    unfolding parse_and_validate_block_from_blob_def parse_binary_def serialize_whole_def small_blob_def
      serialize_block_def small_block_def do_all.simps load_small_header
    by (simp add: IF_def do_all.simps FIELD_def load_small_coinbase [simplified] load_vector check_stream_state_def)
qed

text \<open>
  Property C15: whatever block the library accepts, of whichever coin, it writes to bytes that it parses to
  the same block.
\<close>

theorem block_reparsed:
  assumes "parse_and_validate_block_from_blob am bt b_blob = Some b"
  shows "\<exists>blob. block_to_blob am b = Some blob \<and> parse_and_validate_block_from_blob am bt blob = Some b"
  using parse_reloads(2) [OF block_steps_reload(2) no_p_rs_null assms [unfolded parse_and_validate_block_from_blob_def]]
  by (auto simp: block_to_blob_def t_serializable_object_to_blob_def parse_and_validate_block_from_blob_def dest: writes_saved)

theorem block_reparsed_witness:
  "\<exists>blob. block_to_blob amounts_by_length small_block = Some blob \<and> parse_and_validate_block_from_blob amounts_by_length BLOB_TYPE_CRYPTONOTE blob = Some small_block"
  by (rule block_reparsed [OF parse_small_blob])


text \<open>The last number of a block is how many transactions follow.\<close>

lemma block_two_parts: "serialize_block am v ar = do { (v, ar) \<leftarrow> do_all (block_front am) v ar; do_all block_end v ar }"
proof -
  have "serialize_block am = do_all (block_front am @ block_end)" by (simp add: serialize_block_def)
  then show ?thesis by (simp only: do_all_append)
qed

lemma no_transactions_end:
  "blob_type b \<noteq> BLOB_TYPE_CRYPTONOTE3 \<Longrightarrow> tx_hashes b = []
    \<Longrightarrow> do_all block_end b (Loading []) = Some (b, Loading []) \<and> writes (do_all block_end) b [0]"
  by (simp add: do_all.simps FIELD_def IF_def serialize_vector_def serialize_varint_def writes_def write_varint.simps)



end
