(* ===== verification/BlockExports.thy ===== *)
theory BlockExports
  imports Blocks
begin

text \<open>
  The hashes of a block (\<open>cryptonote_format_utils.cpp\<close>), the functions of \<open>exports.cpp\<close> that the pool calls for
  blocks, and their caller \<open>ConvertBlob\<close> (\<open>Miningcore/Native/Cryptonote.cs\<close>): what the hashing blob consists of,
  where the nonce is in it, and what the exported functions do with their buffers.
\<close>

section \<open>The hashing blob\<close>

text \<open>
  The hashes of the coinbase and of the protocol transaction, which stay \<open>null_hash\<close> when
  \<open>get_transaction_hash\<close> fails, and those of the transactions.
\<close>

definition get_tx_tree_hash :: "amounts \<Rightarrow> block \<Rightarrow> bytes option" where
  "get_tx_tree_hash am b =
     do {
       (r, h) \<leftarrow> get_transaction_hash am (miner_tx b) null_hash;
       txs_ids \<leftarrow>
         (if blob_type b = BLOB_TYPE_CRYPTONOTE_SALVIUM
          then do { (r, h') \<leftarrow> get_transaction_hash am (protocol_tx b) null_hash; Some [h, h'] }
          else Some [h]);
       tree_hash (txs_ids @ tx_hashes b) (of_nat (length (txs_ids @ tx_hashes b)))
     }"

definition HF_VERSION_ENABLE_N_OUTS :: u8 where
  "HF_VERSION_ENABLE_N_OUTS = 2"

definition get_block_hashing_blob :: "amounts \<Rightarrow> block \<Rightarrow> bytes option" where
  "get_block_hashing_blob am b =
     do {
       blob \<leftarrow>
         (if blob_type b \<in> {BLOB_TYPE_CRYPTONOTE_XTNC, BLOB_TYPE_CRYPTONOTE_CUCKOO, BLOB_TYPE_CRYPTONOTE_TUBE, BLOB_TYPE_CRYPTONOTE_XTA}
          then do {
            blob \<leftarrow> t_serializable_object_to_blob serialize_int (major_version b);
            Some (blob @ bytes_of_word (minor_version b) @ bytes_of_word (timestamp b) @ prev_id b)
          }
          else t_serializable_object_to_blob serialize_block_header b);
       tree_root_hash \<leftarrow> get_tx_tree_hash am b;
       let n = of_nat (length (tx_hashes b)) :: u64 in
       Some (blob @ tree_root_hash
         @ write_varint
             (if blob_type b = BLOB_TYPE_CRYPTONOTE_SALVIUM
              then n + (if HF_VERSION_ENABLE_N_OUTS \<le> major_version b then 2 else 1) else n + 1)
         @ (if blob_type b = BLOB_TYPE_CRYPTONOTE3 then uncle b else [])
         @ (if blob_type b \<in> {BLOB_TYPE_CRYPTONOTE_CUCKOO, BLOB_TYPE_CRYPTONOTE_TUBE, BLOB_TYPE_CRYPTONOTE_XTA}
            then bytes_of_word (nonce8 b) else []))
     }"

definition get_bytecoin_block_hashing_blob :: "amounts \<Rightarrow> block \<Rightarrow> bytes option" where
  "get_bytecoin_block_hashing_blob am b = t_serializable_object_to_blob (serialize_bytecoin_block am True True) (make_sbb b)"

text \<open>The blob is hashed as a string, with its length in front; \<open>res\<close> is kept when the parent block cannot be saved.\<close>

definition get_block_hash :: "amounts \<Rightarrow> block \<Rightarrow> bytes \<Rightarrow> (bool \<times> bytes) option" where
  "get_block_hash am b res =
     do {
       blob \<leftarrow> get_block_hashing_blob am b;
       if blob_type b = BLOB_TYPE_FORKNOTE2 then
         (case t_serializable_object_to_blob (serialize_bytecoin_block am True False) (make_sbb b) of
            None \<Rightarrow> Some (False, res)
          | Some parent_blob \<Rightarrow> do { h \<leftarrow> get_object_hash serialize_string (blob @ parent_blob); Some (True, h) })
       else do { h \<leftarrow> get_object_hash serialize_string blob; Some (True, h) }
     }"

definition get_block_header_hash :: "amounts \<Rightarrow> block \<Rightarrow> bytes \<Rightarrow> (bool \<times> bytes) option" where
  "get_block_header_hash am b res =
     do {
       blob \<leftarrow> get_block_hashing_blob am b;
       h \<leftarrow> get_object_hash serialize_string blob;
       Some (True, h)
     }"

definition get_block_height :: "block \<Rightarrow> u64" where
  "get_block_height b =
     (if tx_blob_type (miner_tx b) = BLOB_TYPE_CRYPTONOTE_SALVIUM
      then (case vin_salvium (miner_tx b) of [SalinGen height] \<Rightarrow> height | _ \<Rightarrow> 0)
      else (case vin (miner_tx b) of [TxinGen height] \<Rightarrow> height | _ \<Rightarrow> 0))"

section \<open>The exported functions\<close>

text \<open>
  When a parent block is read, \<open>blockchain_branch.resize(mm_tag.depth)\<close>, with the depth that the extra field of its coinbase
  states, throws an exception if there is no memory for that many hashes; \<open>max_hashes\<close> is how many there is memory for.
  Nothing catches the exception. (The other vectors are only resized to sizes that the bytes left in the input bound.)
\<close>

definition before_branch :: "amounts \<Rightarrow> serializable_bytecoin_block serializer list" where
  "before_branch am =
     [VARINT_FIELD bb_major_version bb_major_version_update,
      VARINT_FIELD bb_minor_version bb_minor_version_update,
      VARINT_FIELD sbb_timestamp sbb_timestamp_update,
      FIELD bb_prev_id bb_prev_id_update (serialize_blob 32),
      FIELD bb_nonce bb_nonce_update serialize_int,
      VARINT_FIELD number_of_transactions number_of_transactions_update,
      RETURN_FALSE_IF (\<lambda>b. number_of_transactions b < 1),
      WITH (\<lambda>b. the (tree_depth (number_of_transactions b)))
        (\<lambda>branch_size. FIELD miner_tx_branch miner_tx_branch_update
           (serialize_custom branch_size null_hash (serialize_blob 32))),
      FIELD bb_miner_tx bb_miner_tx_update (serialize_transaction am)]"

lemma before_branch: "\<exists>branch. serialize_bytecoin_block am False False = do_all (before_branch am @ [branch])"
  unfolding serialize_bytecoin_block_def before_branch_def if_False append.simps by (rule exI, rule refl)

definition resize_throws :: "amounts \<Rightarrow> nat \<Rightarrow> BLOB_TYPE \<Rightarrow> bytes \<Rightarrow> bool" where
  "resize_throws am max_hashes bt b_blob \<longleftrightarrow>
     bt = BLOB_TYPE_FORKNOTE2
     \<and> (case do_all [serialize_block_header, FIELD make_sbb make_sbb_update (do_all (before_branch am))]
               (null_block bt) (Loading b_blob) of
           None \<Rightarrow> False
         | Some (b, ar) \<Rightarrow>
             (case get_mm_tag_from_extra (extra (bb_miner_tx (parent_block b))) of
                None \<Rightarrow> False
              | Some mm_tag \<Rightarrow> max_hashes < unat (mm_depth mm_tag)))"

text \<open>
  The input is what the pointer points to; \<open>None\<close> stands for reading or writing outside of the buffers, and for an
  exception that leaves the function. The result, the output buffer and \<open>outputSize\<close> afterwards.
\<close>

definition convert_blob_export ::
    "amounts \<Rightarrow> nat \<Rightarrow> bytes \<Rightarrow> u32 \<Rightarrow> bytes \<Rightarrow> u32 \<Rightarrow> u32 \<Rightarrow> (bool \<times> bytes \<times> u32) option" where
  "convert_blob_export am max_hashes input inputSize out outputSize blobType =
     (let originalOutputSize = outputSize in
      if length input < unat inputSize then None
      else if resize_throws am max_hashes (blob_type_of blobType) (take (unat inputSize) input) then None
      else case parse_and_validate_block_from_blob am (blob_type_of blobType) (take (unat inputSize) input) of
        None \<Rightarrow> Some (False, out, 0)
      | Some b \<Rightarrow>
          do {
            result \<leftarrow> get_block_hashing_blob am b;
            let outputSize = of_nat (length result) in
            if unat originalOutputSize < length result then Some (False, out, outputSize)
            else if length out < length result then None
            else Some (True, memcpy_at out 0 result, outputSize)
          })"

definition get_block_id_export :: "amounts \<Rightarrow> nat \<Rightarrow> bytes \<Rightarrow> u32 \<Rightarrow> bytes \<Rightarrow> u32 \<Rightarrow> (bool \<times> bytes) option" where
  "get_block_id_export am max_hashes input inputSize out blobType =
     (if length input < unat inputSize then None
      else if resize_throws am max_hashes (blob_type_of blobType) (take (unat inputSize) input) then None
      else case parse_and_validate_block_from_blob am (blob_type_of blobType) (take (unat inputSize) input) of
        None \<Rightarrow> Some (False, out)
      | Some b \<Rightarrow>
          do {
            (r, block_id) \<leftarrow> get_block_hash am b null_hash;
            if \<not> r then Some (False, out)
            else if length out < 32 then None
            else Some (True, memcpy_at out 0 block_id)
          })"

section \<open>The caller\<close>

text \<open>
  \<open>ConvertBlob\<close>: \<open>rent n\<close> is the array that \<open>ArrayPool.Rent\<close> returns, of at least \<open>n\<close> bytes. It gives \<open>Inl\<close> for the
  exception of the contract, and \<open>Inr None\<close> for \<open>null\<close>; the outer \<open>None\<close> is that of the exported function. Sizes are \<open>int\<close> in C# and \<open>unsigned int\<close> in C.
\<close>

definition ConvertBlob ::
    "amounts \<Rightarrow> nat \<Rightarrow> (nat \<Rightarrow> bytes) \<Rightarrow> bytes \<Rightarrow> u32 \<Rightarrow> u32 \<Rightarrow> (unit + bytes option) option" where
  "ConvertBlob am max_hashes rent data sz blobType =
     (if data = [] then Some (Inl ())
      else do {
        let outputBuffer = rent 0x100;
        (success, outputBuffer, outputBufferLength) \<leftarrow>
          convert_blob_export am max_hashes data sz outputBuffer (of_nat (length outputBuffer)) blobType;
        if success then Some (Inr (Some (take (unat outputBufferLength) outputBuffer)))
        else if outputBufferLength = 0 then Some (Inr None)
        else do {
          let outputBuffer = rent (unat outputBufferLength);
          (success, outputBuffer, outputBufferLength) \<leftarrow>
            convert_blob_export am max_hashes data sz outputBuffer outputBufferLength blobType;
          if success then Some (Inr (Some (take (unat outputBufferLength) outputBuffer))) else Some (Inr None)
        }
      })"

section \<open>What the hashing blob consists of\<close>

lemma blob_elements_lengths:
  "serialize_elements (serialize_blob k) xs (Loading input) = Some (ys, ar) \<Longrightarrow> length ys = length xs \<and> (\<forall>y \<in> set ys. length y = k)"
proof (induction xs arbitrary: input ys ar)
  case (Cons x xs)
  have "serialize_blob k x (Loading input) = (if length input < k then None else Some (take k input, Loading (drop k input)))"
    by (simp add: serialize_blob_def)
  with Cons.prems obtain zs where zs: "k \<le> length input" "serialize_elements (serialize_blob k) xs (Loading (drop k input)) = Some (zs, ar)"
      "ys = take k input # zs"
    by (auto simp: bind_eq_Some_conv split: if_splits)
  from Cons.IH [OF zs(2)] zs(1,3) show ?case by simp
qed simp

lemma parsed_hashes:
  assumes "parse_and_validate_block_from_blob am bt b_blob = Some b"
  shows "all_hashes (tx_hashes b)" and "length (tx_hashes b) \<le> length b_blob" and "blob_type b = bt"
proof -
  obtain ar where "do { (v, ar) \<leftarrow> do_all (block_front am) (null_block bt) (Loading b_blob); do_all block_end v ar } = Some (b, ar)"
    using assms by (auto simp: parse_and_validate_block_from_blob_def parse_binary_def serialize_whole_def
      block_two_parts bind_eq_Some_conv split: if_splits simp del: do_all.simps)
  then obtain v1 ar1 where l: "do_all (block_front am) (null_block bt) (Loading b_blob) = Some (v1, ar1)"
      "do_all block_end v1 ar1 = Some (b, ar)"
    by (auto simp: bind_eq_Some_conv simp del: do_all.simps)
  obtain i1 where i1: "ar1 = Loading i1" "length i1 \<le> length b_blob"
    using shrinksD [OF reloads_shrinks [OF block_steps_reload(1)] l(1)] by blast
  have "keeps (do_all (block_front am)) blob_type"
    by (rule keeps_rules keeps_header | (simp add: make_sbb_update_def Let_def; fail))+
  with l(1) have bt: "blob_type v1 = bt" by (auto simp: null_block_def dest: keepsD simp del: do_all.simps)
  obtain txs ar2 where txs: "serialize_vector null_hash (serialize_blob 32) (tx_hashes v1) (Loading i1) = Some (txs, ar2)"
      "tx_hashes b = txs" "blob_type b = bt"
  proof -
    note end_loads = l(2) [unfolded i1(1)]
    obtain v2 ar2 where v2: "FIELD tx_hashes tx_hashes_update (serialize_vector null_hash (serialize_blob 32)) v1 (Loading i1) = Some (v2, ar2)"
        "do_all (tl block_end) v2 ar2 = Some (b, ar)"
      using end_loads by (auto simp: do_all.simps(2) [of "FIELD tx_hashes tx_hashes_update _"] bind_eq_Some_conv simp del: do_all.simps)
    have "keeps (do_all (tl block_end)) tx_hashes" "keeps (do_all block_end) blob_type"
      by (simp only: list.sel, (rule keeps_rules | (simp; fail))+)+
    with v2 end_loads bt that show thesis by (auto simp: FIELD_def bind_eq_Some_conv dest!: keepsD simp del: do_all.simps)
  qed
  obtain r cnt i2 where c: "read_uvarint_from i1 0 0 (0 :: u64) = (r, cnt, i2)" using prod_cases3 by blast
  have e: "unat cnt \<le> length i2" "serialize_elements (serialize_blob 32) (replicate (unat cnt) null_hash) (Loading i2) = Some (txs, ar2)"
    using txs(1) c by (auto simp: serialize_vector_def serialize_varint_def split: if_splits)
  from blob_elements_lengths [OF e(2)] e(1) i1(2) read_uvarint_shrinks [OF c] txs(2,3)
  show "all_hashes (tx_hashes b)" "length (tx_hashes b) \<le> length b_blob" "blob_type b = bt"
    by (simp_all add: all_hashes_def)
qed

lemma transaction_hash_length: "get_transaction_hash am tx null_hash = Some (r, h) \<Longrightarrow> length h = 32"
  by (auto simp: get_transaction_hash_def get_object_hash_def get_blob_hash_def bind_eq_Some_conv
    split: if_splits option.splits; erule cn_fast_hash_length)

lemma hashing_blob_eq:
  assumes "parse_and_validate_block_from_blob am bt b_blob = Some b" and "length b_blob < 2 ^ 32"
    and "bt \<notin> {BLOB_TYPE_CRYPTONOTE_XTNC, BLOB_TYPE_CRYPTONOTE_CUCKOO, BLOB_TYPE_CRYPTONOTE_TUBE, BLOB_TYPE_CRYPTONOTE_XTA,
      BLOB_TYPE_CRYPTONOTE_SALVIUM, BLOB_TYPE_CRYPTONOTE3}"
    and "get_transaction_hash am (miner_tx b) null_hash = Some (True, h)"
  shows "get_block_hashing_blob am b = do { header \<leftarrow> saved serialize_block_header b;
    Some (header @ tree_root (h # tx_hashes b) @ write_varint (of_nat (Suc (length (tx_hashes b))))) }"
proof -
  note p = parsed_hashes [OF assms(1)]
  let ?n = "of_nat (Suc (length (tx_hashes b))) :: u64"
  have u: "unat ?n = Suc (length (tx_hashes b))" using p(2) assms(2) by (simp add: unat_of_nat take_bit_nat_eq_self del: of_nat_Suc)
  have "all_hashes (h # tx_hashes b)" using p(1) transaction_hash_length [OF assms(4)] by (simp add: all_hashes_def)
  moreover have "?n \<noteq> 0" using u by (metis nat.distinct(1) unat_0)
  ultimately have "tree_hash (h # tx_hashes b) ?n = Some (tree_root (h # tx_hashes b))"
    using u by (intro tree_hash_eq_root) simp_all
  then have "get_tx_tree_hash am b = Some (tree_root (h # tx_hashes b))"
    using assms(3,4) p(3) by (simp add: get_tx_tree_hash_def)
  then show ?thesis using assms(3) p(3)
    by (cases "saved serialize_block_header b")
      (simp_all add: get_block_hashing_blob_def t_serializable_object_to_blob_def Let_def add.commute)
qed

text \<open>The coinbase of the small block has a hash, and so has the block.\<close>

lemma small_coinbase_hash: "\<exists>h. get_transaction_hash am (miner_tx small_block) null_hash = Some (True, h)"
proof -
  let ?tx = "(null_transaction BLOB_TYPE_CRYPTONOTE)\<lparr> version := 1, vin := [TxinGen 5], signatures := [[]] \<rparr>"
  have s: "saved (serialize_transaction am) ?tx = Some [1, 0, 1, 0xff, 5, 0, 0]"
    by (simp add: saved_def parsing serialize_varint_def write_varint.simps serialize_vector_def serialize_int_def serialize_variant_def
      bytes_of_word_def word_le_nat_alt)
  then show ?thesis
    by (simp add: small_block_def get_transaction_hash_def get_object_hash_def t_serializable_object_to_blob_def get_blob_hash_def
      cn_fast_hash_sponge has_v1_signatures_def null_transaction_def)
qed

text \<open>
  Property C16: the hashing blob of a block of a plain coin is its header, the root of the Merkle tree over the
  hash of the coinbase and the hashes of the transactions, and the number of these.
\<close>

theorem hashing_blob_layout:
  assumes "parse_and_validate_block_from_blob am bt b_blob = Some b" and "length b_blob < 2 ^ 32"
    and "bt \<notin> {BLOB_TYPE_CRYPTONOTE_XTNC, BLOB_TYPE_CRYPTONOTE_CUCKOO, BLOB_TYPE_CRYPTONOTE_TUBE, BLOB_TYPE_CRYPTONOTE_XTA,
      BLOB_TYPE_CRYPTONOTE_SALVIUM, BLOB_TYPE_CRYPTONOTE3}"
    and "get_transaction_hash am (miner_tx b) null_hash = Some (True, h)"
  shows "get_block_hashing_blob am b = do { header \<leftarrow> saved serialize_block_header b;
    Some (header @ tree_root (h # tx_hashes b) @ write_varint (of_nat (Suc (length (tx_hashes b))))) }"
  using assms by (rule hashing_blob_eq)

theorem hashing_blob_layout_witness:
  "\<exists>h. get_transaction_hash amounts_by_length (miner_tx small_block) null_hash = Some (True, h)
     \<and> get_block_hashing_blob amounts_by_length small_block = do { header \<leftarrow> saved serialize_block_header small_block; Some (header @ tree_root [h] @ [1]) }"
proof -
  obtain h where h: "get_transaction_hash amounts_by_length (miner_tx small_block) null_hash = Some (True, h)" using small_coinbase_hash by blast
  have "length small_blob < 2 ^ 32" "tx_hashes small_block = []" by (simp_all add: small_blob_def small_block_def null_block_def)
  with hashing_blob_layout [OF parse_small_blob _ _ h] h show ?thesis by (simp add: write_varint.simps word_le_nat_alt)
qed

section \<open>Where the nonce is\<close>

text \<open>The coins whose header has the time stamp and, after it, a nonce of 32 bits.\<close>

definition nonce_coins :: "BLOB_TYPE set" where
  "nonce_coins = - {BLOB_TYPE_FORKNOTE2, BLOB_TYPE_CRYPTONOTE_XTNC, BLOB_TYPE_CRYPTONOTE_CUCKOO, BLOB_TYPE_CRYPTONOTE_TUBE,
     BLOB_TYPE_CRYPTONOTE_XTA, BLOB_TYPE_AEON}"

lemma length_write_varint: "unat v < 2 ^ (7 * Suc n) \<Longrightarrow> n = 0 \<or> 2 ^ (7 * n) \<le> unat v \<Longrightarrow> length (write_varint v) = Suc n"
proof (induction n arbitrary: v)
  case 0
  then have "\<not> 0x80 \<le> v" by (simp add: word_le_nat_alt)
  then show ?case by (simp add: write_varint.simps [of v])
next
  case (Suc n)
  have "(2 :: nat) ^ 7 \<le> 2 ^ (7 * Suc n)" by (rule power_increasing) simp_all
  with Suc.prems(2) have "0x80 \<le> v" by (simp add: word_le_nat_alt)
  moreover have "unat (drop_bit 7 v) < 2 ^ (7 * Suc n)"
    using Suc.prems(1) by (simp add: unat_drop_bit less_mult_imp_div_less power_add mult.commute)
  moreover have "n = 0 \<or> 2 ^ (7 * n) \<le> unat (drop_bit 7 v)"
    using Suc.prems(2) by (simp add: unat_drop_bit less_eq_div_iff_mult_less_eq power_add mult.commute)
  ultimately show ?case using Suc.IH [of "drop_bit 7 v"] by (simp add: write_varint.simps [of v])
qed

text \<open>What stands in front of the nonce, and what follows in the header.\<close>

definition nonce_prefix :: "block \<Rightarrow> bytes" where
  "nonce_prefix b = write_varint (ucast (major_version b)) @ write_varint (ucast (minor_version b)) @ write_varint (timestamp b) @ prev_id b"

lemma length_nonce_prefix:
  assumes "major_version b < 128" and "minor_version b < 128" and "2 ^ 28 \<le> unat (timestamp b)" and "unat (timestamp b) < 2 ^ 35"
    and "length (prev_id b) = 32"
  shows "length (nonce_prefix b) = 39"
proof -
  have s: "length (write_varint (ucast v)) = 1" if "v < 128" for v :: u8
  proof -
    have "unat v < 128" using that by (simp add: word_less_nat_alt)
    moreover from this have "unat (ucast v :: u64) = unat v" by (simp add: unsigned_ucast_eq take_bit_nat_eq_self)
    ultimately show ?thesis using length_write_varint [of "ucast v" 0] by simp
  qed
  have "length (write_varint (timestamp b)) = 5" using length_write_varint [of "timestamp b" 4] assms(3,4) by simp
  with assms s show ?thesis by (simp add: nonce_prefix_def)
qed

definition header_end :: "block serializer list" where
  "header_end =
     [IF (\<lambda>b. blob_type b \<in> {BLOB_TYPE_CRYPTONOTE_XTNC, BLOB_TYPE_CRYPTONOTE_CUCKOO})
        [FIELD cycle cycle_update (serialize_blob 128)] [],
      IF (\<lambda>b. blob_type b = BLOB_TYPE_CRYPTONOTE_TUBE) [FIELD cycle40 cycle40_update (serialize_blob 160)] [],
      IF (\<lambda>b. blob_type b = BLOB_TYPE_CRYPTONOTE_XTA) [FIELD cycle48 cycle48_update (serialize_blob 192)] [],
      IF (\<lambda>b. blob_type b = BLOB_TYPE_CRYPTONOTE_XHV) [FIELD pricing_record pricing_record_update (serialize_blob 200)] [],
      IF (\<lambda>b. blob_type b = BLOB_TYPE_CRYPTONOTE_SALVIUM)
        [IF (\<lambda>b. 255 \<le> major_version b) [FIELD salvium_pr salvium_pr_update serialize_salvium_pricing_record] []]
        [IF (\<lambda>b. blob_type b = BLOB_TYPE_CRYPTONOTE_ZEPHYR)
          [IF (\<lambda>b. 4 \<le> major_version b) [FIELD zephyr_pr zephyr_pr_update serialize_zephyr_pricing_record]
            [IF (\<lambda>b. 3 \<le> major_version b)
              [FIELD zephyr_pr zephyr_pr_update
                 (serialize_converted null_v2 serialize_zephyr_pricing_record_v2 read_from_pr_v2 write_to_pr_v2)]
              [FIELD zephyr_pr zephyr_pr_update
                 (serialize_converted null_v1 serialize_zephyr_pricing_record_v1 read_from_pr_v1 write_to_pr_v1)]]] []],
      IF (\<lambda>b. blob_type b = BLOB_TYPE_CRYPTONOTE_XLA \<and> 13 \<le> major_version b)
        [FIELD signature signature_update (serialize_blob 64)] []]"

lemma header_end_saves: "\<forall>s \<in> set header_end. saves s b"
  by (simp add: header_end_def saving_rules codecs)

text \<open>Steps that do not depend on a part of the object.\<close>

definition commutes :: "('v \<Rightarrow> 'v) \<Rightarrow> 'v serializer \<Rightarrow> bool" where
  "commutes f s \<longleftrightarrow> (\<forall>v ar. s (f v) ar = map_option (map_prod f id) (s v ar))"

lemma commutes_steps:
  "commutes f (do_all [])" "commutes f s \<Longrightarrow> commutes f (do_all ss) \<Longrightarrow> commutes f (do_all (s # ss))"
  "(\<And>v. get (f v) = get v) \<Longrightarrow> (\<And>x v. upd (\<lambda>_. x) (f v) = f (upd (\<lambda>_. x) v)) \<Longrightarrow> commutes f (FIELD get upd t)"
  "(\<And>v. c (f v) = c v) \<Longrightarrow> commutes f (do_all ss) \<Longrightarrow> commutes f (do_all ts) \<Longrightarrow> commutes f (IF c ss ts)"
proof -
  show "commutes f (do_all [])" by (simp add: commutes_def do_all.simps)
  show "commutes f (do_all (s # ss))" if "commutes f s" "commutes f (do_all ss)"
    unfolding commutes_def
  proof (intro allI)
    fix v ar
    show "do_all (s # ss) (f v) ar = map_option (map_prod f id) (do_all (s # ss) v ar)"
      using that by (cases "s v ar") (auto simp: commutes_def do_all.simps)
  qed
  show "commutes f (FIELD get upd t)" if "\<And>v. get (f v) = get v" "\<And>x v. upd (\<lambda>_. x) (f v) = f (upd (\<lambda>_. x) v)"
    unfolding commutes_def
  proof (intro allI)
    fix v ar
    show "FIELD get upd t (f v) ar = map_option (map_prod f id) (FIELD get upd t v ar)"
      using that by (cases "t (get v) ar") (auto simp: FIELD_def)
  qed
  show "commutes f (IF c ss ts)" if "\<And>v. c (f v) = c v" "commutes f (do_all ss)" "commutes f (do_all ts)"
    using that by (simp add: commutes_def IF_def)
qed

lemma commutes_saved: "commutes f s \<Longrightarrow> saved s (f v) = saved s v"
  by (cases "s v (Saving [])") (auto simp: commutes_def saved_def)

lemma header_end_nonce: "saved (do_all header_end) (b\<lparr> nonce := n \<rparr>) = saved (do_all header_end) b"
proof -
  have "commutes (nonce_update (\<lambda>_. n)) (do_all header_end)"
    unfolding header_end_def by (rule commutes_steps | (simp; fail))+
  then show ?thesis by (rule commutes_saved)
qed

lemma saved_nonce32: "saved serialize_nonce32 n = Some (bytes_of_word (ucast n :: u32))"
  by (simp add: saved_def serialize_nonce32_def serialize_int_def)

lemma saved_header:
  assumes "blob_type b \<in> nonce_coins"
  shows "saved serialize_block_header b
    = (if length (prev_id b) = 32
       then map_option (\<lambda>e. nonce_prefix b @ bytes_of_word (ucast (nonce b) :: u32) @ e) (saved (do_all header_end) b) else None)"
proof -
  have h: "(serialize_block_header :: block serializer) = do_all
     (FIELD major_version major_version_update serialize_varint # FIELD minor_version minor_version_update serialize_varint
      # IF (\<lambda>b. blob_type b \<noteq> BLOB_TYPE_FORKNOTE2) [FIELD timestamp timestamp_update serialize_varint] []
      # FIELD prev_id prev_id_update (serialize_blob 32)
      # IF (\<lambda>b. blob_type b \<in> {BLOB_TYPE_CRYPTONOTE_CUCKOO, BLOB_TYPE_CRYPTONOTE_TUBE, BLOB_TYPE_CRYPTONOTE_XTA})
         [FIELD nonce8 nonce8_update serialize_int] []
      # IF (\<lambda>b. blob_type b \<noteq> BLOB_TYPE_FORKNOTE2)
         [IF (\<lambda>b. blob_type b = BLOB_TYPE_AEON) [FIELD nonce nonce_update serialize_int]
           [FIELD nonce nonce_update serialize_nonce32]] []
      # header_end)"
    by (simp add: serialize_block_header_def VARINT_FIELD_def header_end_def)
  have b: "blob_type b \<noteq> BLOB_TYPE_FORKNOTE2" "blob_type b \<noteq> BLOB_TYPE_AEON" "blob_type b \<noteq> BLOB_TYPE_CRYPTONOTE_CUCKOO"
    "blob_type b \<noteq> BLOB_TYPE_CRYPTONOTE_TUBE" "blob_type b \<noteq> BLOB_TYPE_CRYPTONOTE_XTA"
    using assms by (auto simp: nonce_coins_def)
  show ?thesis unfolding h
    by (simp add: saved_do_all header_end_saves saving_rules codecs saved_blob saved_varint saved_nonce32 b saves_Nil
      option.map_comp o_def nonce_prefix_def)
qed

definition block_body :: "amounts \<Rightarrow> block serializer list" where
  "block_body am = tl (block_front am @ block_end)"

lemma block_body_nonce: "commutes (nonce_update (\<lambda>_. n)) (do_all (block_body am))"
  unfolding block_body_def append.simps list.sel
  by (rule commutes_steps | (simp add: make_sbb_def make_sbb_update_def Let_def; fail))+

lemma saved_block:
  "block_to_blob am b = (case saved serialize_block_header b of None \<Rightarrow> None
     | Some h \<Rightarrow> (case do_all (block_body am) b (Saving h) of Some (b', Saving w) \<Rightarrow> Some w | _ \<Rightarrow> None))"
proof -
  have "serialize_block am = do_all (serialize_block_header # block_body am)"
    by (simp add: serialize_block_def block_body_def)
  then have "serialize_block am b (Saving []) = do { (v, ar) \<leftarrow> serialize_block_header b (Saving []); do_all (block_body am) v ar }"
    by (simp only: do_all.simps)
  with savesD [OF header_saves, of b "[]"] show ?thesis
    unfolding block_to_blob_def t_serializable_object_to_blob_def saved_def [of "serialize_block am"]
    by (cases "saved serialize_block_header b") simp_all
qed

lemma parsed_body:
  assumes "parse_and_validate_block_from_blob am bt b_blob = Some b"
  shows "\<exists>w. writes (do_all (block_body am)) b w"
proof -
  obtain ar where l: "do_all (serialize_block_header # block_body am) (null_block bt) (Loading b_blob) = Some (b, ar)"
    using assms by (auto simp: parse_and_validate_block_from_blob_def parse_binary_def serialize_whole_def serialize_block_def
      block_body_def bind_eq_Some_conv split: if_splits simp del: do_all.simps)
  from this reloads_shrinks [OF block_steps_reload(4)]
  obtain v1 i1 where v1: "serialize_block_header (null_block bt) (Loading b_blob) = Some (v1, Loading i1)"
      "do_all (block_body am) v1 (Loading i1) = Some (b, ar)"
    by (rule do_all_loadE)
  have "no_p_rs v1" by (rule reloadsE [OF block_steps_reload(4) no_p_rs_null v1(1)])
  with v1(2) show ?thesis using block_steps_reload(3) [of am] unfolding block_body_def reloads_def by blast
qed

text \<open>
  Property C14: writing four bytes at offset 39 of the block template, and at offset 39 of the hashing blob, is
  setting the nonce of the block, for coins with a nonce of 32 bits and as long as the two versions are below 128
  and the time stamp takes five bytes (from 1978 to 3058).
\<close>

theorem nonce_at_39:
  assumes "parse_and_validate_block_from_blob am bt b_blob = Some b" and "bt \<in> nonce_coins" and "major_version b < 128" and "minor_version b < 128"
    and "2 ^ 28 \<le> unat (timestamp b)" and "unat (timestamp b) < 2 ^ 35"
    and "block_to_blob am b = Some template" and "get_block_hashing_blob am b = Some hashing_blob"
  shows "block_to_blob am (b\<lparr> nonce := ucast (n :: u32) \<rparr>) = Some (memcpy_at template 39 (bytes_of_word n))
    \<and> get_block_hashing_blob am (b\<lparr> nonce := ucast n \<rparr>) = Some (memcpy_at hashing_blob 39 (bytes_of_word n))"
proof -
  have bt: "blob_type b \<in> nonce_coins" using assms(2) parsed_hashes(3) [OF assms(1)] by simp
  let ?b = "b\<lparr> nonce := ucast n \<rparr>" and ?old = "bytes_of_word (ucast (nonce b) :: u32)"
  have u: "ucast (ucast n :: u64) = n" by (rule bit_word_eqI) (auto simp: bit_unsigned_iff)
  have np: "nonce_prefix ?b = nonce_prefix b" by (simp add: nonce_prefix_def)
  obtain h where "saved serialize_block_header b = Some h" using assms(7) by (auto simp: saved_block split: option.splits)
  then obtain e where e: "length (prev_id b) = 32" "saved (do_all header_end) b = Some e" "h = nonce_prefix b @ ?old @ e"
    using saved_header [OF bt] by (auto split: if_splits)
  note len = length_nonce_prefix [OF assms(3-6) e(1)]
  have h: "saved serialize_block_header b = Some (nonce_prefix b @ ?old @ e)"
    "saved serialize_block_header ?b = Some (nonce_prefix b @ bytes_of_word n @ e)"
    using saved_header [of b] saved_header [of ?b] bt e(1,2) by (simp_all add: header_end_nonce np u)
  have m: "memcpy_at (nonce_prefix b @ ?old @ e @ rest) 39 (bytes_of_word n) = nonce_prefix b @ bytes_of_word n @ e @ rest" for rest
    using len by (simp add: memcpy_at_append)
  obtain w where w: "writes (do_all (block_body am)) b w" using parsed_body [OF assms(1)] by blast
  then have "do_all (block_body am) b (Saving out) = Some (b, Saving (out @ w))"
    and "do_all (block_body am) ?b (Saving out) = Some (?b, Saving (out @ w))" for out
    using block_body_nonce [of "ucast n" am] by (simp_all add: writes_def commutes_def)
  then have "template = (nonce_prefix b @ ?old @ e) @ w" "block_to_blob am ?b = Some ((nonce_prefix b @ bytes_of_word n @ e) @ w)"
    using assms(7) h by (simp_all add: saved_block)
  moreover have "get_tx_tree_hash am ?b = get_tx_tree_hash am b" by (simp add: get_tx_tree_hash_def cong: if_cong)
  then have "\<exists>rest. hashing_blob = nonce_prefix b @ ?old @ e @ rest
      \<and> get_block_hashing_blob am ?b = Some (nonce_prefix b @ bytes_of_word n @ e @ rest)"
    using assms(8) h bt by (auto simp: get_block_hashing_blob_def t_serializable_object_to_blob_def nonce_coins_def Let_def
      bind_eq_Some_conv split: if_splits)
  ultimately show ?thesis using m by auto
qed

lemma small_hashing_blob:
  "\<exists>hashing_blob. get_block_hashing_blob am small_block = Some hashing_blob \<and> length hashing_blob = 76"
proof -
  obtain h where h: "get_transaction_hash am (miner_tx small_block) null_hash = Some (True, h)" using small_coinbase_hash by blast
  have b: "blob_type small_block = BLOB_TYPE_CRYPTONOTE" "tx_hashes small_block = []" by (simp_all add: small_block_def null_block_def)
  have "\<exists>header. saved serialize_block_header small_block = Some header \<and> length header = 43"
  proof -
    have e: "saved (do_all header_end) small_block = Some []"
      by (simp add: saved_def header_end_def do_all.simps IF_def b)
    have "length (nonce_prefix small_block) = 39" by (rule length_nonce_prefix) (simp_all add: small_block_def)
    then show ?thesis using saved_header [of small_block] by (simp add: nonce_coins_def b e) (simp add: small_block_def)
  qed
  then obtain header where "saved serialize_block_header small_block = Some header" "length header = 43" by blast
  moreover have "length b_blob < 2 ^ 32" if "b_blob = small_blob" for b_blob using that by (simp add: small_blob_def)
  ultimately show ?thesis using hashing_blob_eq [OF parse_small_blob _ _ h] transaction_hash_length [OF h]
    by (simp add: b tree_root_def write_varint.simps word_le_nat_alt)
qed

theorem nonce_at_39_witness:
  "\<exists>template hashing_blob. block_to_blob amounts_by_length small_block = Some template
     \<and> get_block_hashing_blob amounts_by_length small_block = Some hashing_blob
     \<and> get_block_hashing_blob amounts_by_length (small_block\<lparr> nonce := 5 \<rparr>) = Some (memcpy_at hashing_blob 39 [5, 0, 0, 0])"
proof -
  obtain hb where hb: "get_block_hashing_blob amounts_by_length small_block = Some hb" using small_hashing_blob by blast
  obtain template where t: "block_to_blob amounts_by_length small_block = Some template"
    using parse_reloads(2) [OF block_steps_reload(2) no_p_rs_null parse_small_blob [unfolded parse_and_validate_block_from_blob_def]]
    by (auto simp: block_to_blob_def t_serializable_object_to_blob_def dest: writes_saved)
  have "get_block_hashing_blob amounts_by_length (small_block\<lparr> nonce := ucast (5 :: u32) \<rparr>) = Some (memcpy_at hb 39 (bytes_of_word (5 :: u32)))"
    using nonce_at_39 [OF parse_small_blob _ _ _ _ _ t hb, of 5] by (simp add: nonce_coins_def small_block_def)
  moreover have "bytes_of_word (5 :: u32) = [5, 0, 0, 0]" by code_simp
  ultimately show ?thesis using hb t by simp
qed

section \<open>The buffers of the caller\<close>

lemma hashing_blob_not_Nil: "get_block_hashing_blob am b = Some blob \<Longrightarrow> blob \<noteq> []"
  by (auto simp: get_block_hashing_blob_def bind_eq_Some_conv Let_def write_varint_not_Nil)

text \<open>
  A block that can be parsed has a hashing blob, unless something to be hashed has 2 to the 31 bytes or more, which
  Keccak takes as a negative number. \<open>hashed_parts\<close> are the byte strings that are written for it.
\<close>

definition tx_parts :: "amounts \<Rightarrow> transaction \<Rightarrow> bytes option list" where
  "tx_parts am t =
     (if has_v1_signatures t then [saved (serialize_transaction am) t]
      else
        [saved serialize_transaction_prefix t,
         saved (serialize_rctsig_base (tx_inputs t) (tx_outputs t)) (rct_signatures t),
         saved (serialize_rctsig_prunable am (rct_type (rct_signatures t)) (tx_inputs t) (tx_outputs t) (tx_mixin t))
           (rctsig_p (rct_signatures t))])"

definition hashed_parts :: "amounts \<Rightarrow> block \<Rightarrow> bytes option list" where
  "hashed_parts am b = get_block_hashing_blob am b # tx_parts am (miner_tx b)
     @ (if blob_type b = BLOB_TYPE_CRYPTONOTE_SALVIUM then tx_parts am (protocol_tx b) else [])"

lemma cn_fast_hash_total: "length data < 2 ^ 31 \<Longrightarrow> \<exists>h. cn_fast_hash data = Some h \<and> length h = 32"
  using cn_fast_hash_sponge [of data] cn_fast_hash_length [of data] by simp

lemma transaction_hash_total:
  assumes w: "writes (serialize_transaction am) t w" and small: "\<And>x. Some x \<in> set (tx_parts am t) \<Longrightarrow> length x < 2 ^ 30"
  shows "\<exists>r h. get_transaction_hash am t null_hash = Some (r, h) \<and> length h = 32"
proof -
  let ?rct = "rct_signatures t"
  have w': "saved (serialize_transaction am) t = Some w" using writes_saved [OF w] .
  obtain p where p: "saved serialize_transaction_prefix t = Some p"
    using writesD [OF w, of "[]"] savesD [OF prefix_saves, of t "[]"]
    unfolding serialize_transaction_def do_all.simps(2) [of serialize_transaction_prefix]
    by (cases "saved serialize_transaction_prefix t") simp_all
  have base: "\<exists>h. get_blob_hash x = Some h \<and> length h = 32"
    if "\<not> has_v1_signatures t" "saved (serialize_rctsig_base (tx_inputs t) (tx_outputs t)) ?rct = Some x" for x
    using small [of x] that cn_fast_hash_total [of x] by (simp add: tx_parts_def get_blob_hash_def)
  have prunable: "\<exists>h. get_blob_hash x = Some h \<and> length h = 32"
    if "\<not> has_v1_signatures t" "saved (serialize_rctsig_prunable am (rct_type ?rct) (tx_inputs t) (tx_outputs t) (tx_mixin t)) (rctsig_p ?rct) = Some x" for x
    using small [of x] that cn_fast_hash_total [of x] by (simp add: tx_parts_def get_blob_hash_def)
  have join: "\<exists>h. cn_fast_hash (a @ b @ c) = Some h" if "length a = 32" "length b = 32" "length c = 32" for a b c
    using cn_fast_hash_total [of "a @ b @ c"] that by auto
  have "\<exists>r h. get_transaction_hash am t null_hash = Some (r, h)"
  proof (cases "has_v1_signatures t")
    case True
    then have "length w < 2 ^ 30" using small [of w] w' by (simp add: tx_parts_def)
    then show ?thesis using True w' cn_fast_hash_total [of w]
      by (auto simp: get_transaction_hash_def get_object_hash_def t_serializable_object_to_blob_def get_blob_hash_def)
  next
    case False
    have "length p < 2 ^ 30" using small [of p] p False by (simp add: tx_parts_def)
    moreover have "length (if tx_blob_type t = BLOB_TYPE_CRYPTONOTE_RYO then ryo_currency else []) \<le> 12" by (simp add: ryo_currency_def)
    ultimately obtain h0 where h0: "get_transaction_prefix_hash t = Some h0" "length h0 = 32"
      using p cn_fast_hash_total [of "(if tx_blob_type t = BLOB_TYPE_CRYPTONOTE_RYO then ryo_currency else []) @ p"]
      by (auto simp: get_transaction_prefix_hash_def simp del: if_split)
    let ?base = "saved (serialize_rctsig_base (tx_inputs t) (tx_outputs t)) ?rct"
      and ?prunable = "saved (serialize_rctsig_prunable am (rct_type ?rct) (tx_inputs t) (tx_outputs t) (tx_mixin t)) (rctsig_p ?rct)"
    show ?thesis
    proof (cases ?base)
      case None
      then show ?thesis using False h0 by (auto simp: get_transaction_hash_def)
    next
      case (Some x)
      then obtain h1 where h1: "get_blob_hash x = Some h1" "length h1 = 32" using base [OF False] by blast
      obtain h' where h': "cn_fast_hash (h0 @ h1 @ null_hash) = Some h'" using join [OF h0(2) h1(2)] by (metis length_replicate)
      show ?thesis
      proof (cases ?prunable)
        case None
        then show ?thesis using False h0 Some h1 h' by (auto simp: get_transaction_hash_def)
      next
        case y: (Some y)
        then obtain h2 where h2: "get_blob_hash y = Some h2" "length h2 = 32" using prunable [OF False] by blast
        obtain h'' where "cn_fast_hash (h0 @ h1 @ h2) = Some h''" using join [OF h0(2) h1(2) h2(2)] by blast
        then show ?thesis using False h0 Some y h1 h2(1) h' by (auto simp: get_transaction_hash_def)
      qed
    qed
  qed
  then show ?thesis using transaction_hash_length by blast
qed

lemma parsed_parts:
  assumes "parse_and_validate_block_from_blob am bt b_blob = Some b"
  shows "\<exists>w. writes (serialize_transaction am) (miner_tx b) w"
    and "bt = BLOB_TYPE_CRYPTONOTE_SALVIUM \<Longrightarrow> \<exists>w. writes (serialize_transaction am) (protocol_tx b) w"
    and "\<exists>header. saved serialize_block_header b = Some header"
proof -
  let ?parent = "IF (\<lambda>b. blob_type b = BLOB_TYPE_FORKNOTE2) [FIELD make_sbb make_sbb_update (serialize_bytecoin_block am False False)] []"
    and ?protocol = "IF (\<lambda>b. blob_type b = BLOB_TYPE_CRYPTONOTE_SALVIUM) [FIELD protocol_tx protocol_tx_update (serialize_transaction am)] []"
  have body: "block_body am = ?parent # FIELD miner_tx miner_tx_update (serialize_transaction am) # ?protocol # block_end"
    by (simp add: block_body_def)
  obtain ar where l: "do_all (serialize_block_header # block_body am) (null_block bt) (Loading b_blob) = Some (b, ar)"
    using assms by (auto simp: parse_and_validate_block_from_blob_def parse_binary_def serialize_whole_def serialize_block_def
      block_body_def bind_eq_Some_conv split: if_splits simp del: do_all.simps)
  from this reloads_shrinks [OF block_steps_reload(4)]
  obtain v1 i1 where v1: "serialize_block_header (null_block bt) (Loading b_blob) = Some (v1, Loading i1)"
      "do_all (block_body am) v1 (Loading i1) = Some (b, ar)"
    by (rule do_all_loadE)
  have "shrinks ?parent"
    by (intro shrinks_rules) (simp_all add: shrinks_rules reloads_shrinks [OF parent_block_reloads])
  with v1(2) [unfolded body] obtain v2 i2 where v2: "?parent v1 (Loading i1) = Some (v2, Loading i2)"
      "do_all (FIELD miner_tx miner_tx_update (serialize_transaction am) # ?protocol # block_end) v2 (Loading i2) = Some (b, ar)"
    by (rule do_all_loadE)
  note tx = reloads_shrinks [OF transaction_reloads]
  have "shrinks (FIELD miner_tx miner_tx_update (serialize_transaction am) :: block serializer)" by (intro shrinks_rules tx)
  with v2(2) obtain v3 i3 where v3: "FIELD miner_tx miner_tx_update (serialize_transaction am) v2 (Loading i2) = Some (v3, Loading i3)"
      "do_all (?protocol # block_end) v3 (Loading i3) = Some (b, ar)"
    by (rule do_all_loadE)
  have "shrinks ?protocol" by (intro shrinks_rules) (simp_all add: shrinks_rules tx)
  with v3(2) obtain v4 i4 where v4: "?protocol v3 (Loading i3) = Some (v4, Loading i4)" "do_all block_end v4 (Loading i4) = Some (b, ar)"
    by (rule do_all_loadE)
  have k: "keeps ?parent miner_tx" "keeps ?parent protocol_tx" "keeps ?protocol miner_tx" "keeps ?protocol blob_type"
      "keeps (FIELD miner_tx miner_tx_update (serialize_transaction am) :: block serializer) protocol_tx"
      "keeps (do_all block_end) miner_tx" "keeps (do_all block_end) protocol_tx" "keeps (do_all block_end) blob_type"
    by (rule keeps_rules | (simp add: make_sbb_update_def Let_def; fail))+
  have m: "miner_tx v2 = null_transaction bt" "protocol_tx v3 = null_transaction bt" "miner_tx b = miner_tx v3" "protocol_tx b = protocol_tx v4"
      "blob_type v3 = blob_type b"
    using keepsD [OF keeps_header(2) v1(1)] keepsD [OF keeps_header(3) v1(1)] keepsD [OF k(1) v2(1)] keepsD [OF k(2) v2(1)]
      keepsD [OF k(3) v4(1)] keepsD [OF k(4) v4(1)] keepsD [OF k(5) v3(1)] keepsD [OF k(6) v4(2)] keepsD [OF k(7) v4(2)] keepsD [OF k(8) v4(2)]
    by (simp_all add: null_block_def)
  have bt: "blob_type b = bt" by (rule parsed_hashes(3) [OF assms])
  obtain t where t: "serialize_transaction am (null_transaction bt) (Loading i2) = Some (t, Loading i3)" "miner_tx v3 = t"
    using v3(1) m(1) by (auto simp: FIELD_def bind_eq_Some_conv)
  show "\<exists>w. writes (serialize_transaction am) (miner_tx b) w"
    using reloadsE [OF transaction_reloads no_p_r_null t(1)] m(3) t(2) by metis
  show "\<exists>w. writes (serialize_transaction am) (protocol_tx b) w" if "bt = BLOB_TYPE_CRYPTONOTE_SALVIUM"
  proof -
    have "blob_type v3 = BLOB_TYPE_CRYPTONOTE_SALVIUM" using m(5) bt that by simp
    then obtain p where p: "serialize_transaction am (null_transaction bt) (Loading i3) = Some (p, Loading i4)" "protocol_tx v4 = p"
      using v4(1) m(2) by (auto simp: IF_def FIELD_def bind_eq_Some_conv do_all.simps)
    show ?thesis using reloadsE [OF transaction_reloads no_p_r_null p(1)] m(4) p(2) by metis
  qed
  obtain blob where "block_to_blob am b = Some blob"
    using parse_reloads(2) [OF block_steps_reload(2) no_p_rs_null assms [unfolded parse_and_validate_block_from_blob_def]]
    by (auto simp: block_to_blob_def t_serializable_object_to_blob_def dest: writes_saved)
  then show "\<exists>header. saved serialize_block_header b = Some header" by (auto simp: saved_block split: option.splits)
qed

lemma parsed_has_hashing_blob:
  assumes p: "parse_and_validate_block_from_blob am bt b_blob = Some b" and l: "length b_blob < 2 ^ 32"
    and small: "\<And>x. Some x \<in> set (hashed_parts am b) \<Longrightarrow> length x < 2 ^ 30"
  shows "\<exists>blob. get_block_hashing_blob am b = Some blob \<and> length blob < 2 ^ 30"
proof -
  note h = parsed_hashes [OF p]
  obtain header where header: "saved serialize_block_header b = Some header" using parsed_parts(3) [OF p] by blast
  have "\<exists>r h. get_transaction_hash am (miner_tx b) null_hash = Some (r, h) \<and> length h = 32"
  proof -
    obtain w where "writes (serialize_transaction am) (miner_tx b) w" using parsed_parts(1) [OF p] by blast
    then show ?thesis by (rule transaction_hash_total) (rule small, simp add: hashed_parts_def)
  qed
  then obtain r1 h1 where h1: "get_transaction_hash am (miner_tx b) null_hash = Some (r1, h1)" "length h1 = 32" by blast
  have h2: "\<exists>r h. get_transaction_hash am (protocol_tx b) null_hash = Some (r, h) \<and> length h = 32" if salvium: "bt = BLOB_TYPE_CRYPTONOTE_SALVIUM"
  proof -
    obtain w where "writes (serialize_transaction am) (protocol_tx b) w" using parsed_parts(2) [OF p salvium] by blast
    then show ?thesis by (rule transaction_hash_total) (rule small, simp add: hashed_parts_def h(3) salvium)
  qed
  have tree: "\<exists>root. tree_hash hs (of_nat (length hs)) = Some root" if "all_hashes hs" "hs \<noteq> []" "length hs \<le> Suc (Suc (length b_blob))" for hs
  proof -
    have u: "unat (of_nat (length hs) :: u64) = length hs" using that(3) l by (simp add: unat_of_nat take_bit_nat_eq_self)
    moreover have "(of_nat (length hs) :: u64) \<noteq> 0" using u that(2) by (metis length_0_conv unat_0)
    ultimately show ?thesis using tree_hash_eq_root [OF that(1)] by simp
  qed
  have "\<exists>root. get_tx_tree_hash am b = Some root"
  proof (cases "bt = BLOB_TYPE_CRYPTONOTE_SALVIUM")
    case True
    then obtain r2 x where "get_transaction_hash am (protocol_tx b) null_hash = Some (r2, x)" "length x = 32" using h2 by blast
    then show ?thesis using True h h1 tree [of "h1 # x # tx_hashes b"] by (simp add: get_tx_tree_hash_def all_hashes_def)
  next
    case False
    then show ?thesis using h h1 tree [of "h1 # tx_hashes b"] by (simp add: get_tx_tree_hash_def all_hashes_def)
  qed
  then obtain root where root: "get_tx_tree_hash am b = Some root" by blast
  have "\<exists>x. t_serializable_object_to_blob serialize_int (major_version b) = Some x"
    by (simp add: t_serializable_object_to_blob_def saved_int)
  then have "\<exists>blob. get_block_hashing_blob am b = Some blob"
    using root header by (auto simp: get_block_hashing_blob_def t_serializable_object_to_blob_def Let_def)
  then obtain blob where blob: "get_block_hashing_blob am b = Some blob" by blast
  then have "Some blob \<in> set (hashed_parts am b)" by (simp add: hashed_parts_def)
  then show ?thesis using small blob by blast
qed

text \<open>A block of Haven, whose header has a pricing record of 200 bytes.\<close>

definition haven_blob :: bytes where
  "haven_blob = [7, 9, 0x80, 0x80, 0x80, 0x80, 5] @ replicate 32 1 @ [1, 2, 3, 4] @ replicate 200 0 @ [1, 0, 1, 0xff, 5, 0, 0] @ [0]"

definition haven_block :: block where
  "haven_block = (null_block BLOB_TYPE_CRYPTONOTE_XHV)\<lparr> major_version := 7, minor_version := 9, timestamp := 0x50000000,
     prev_id := replicate 32 1, nonce := 0x04030201, pricing_record := replicate 200 0,
     miner_tx := (null_transaction BLOB_TYPE_CRYPTONOTE_XHV)\<lparr> version := 1, vin := [TxinGen 5], signatures := [[]] \<rparr> \<rparr>"

lemma load_haven_header:
  "serialize_block_header (null_block BLOB_TYPE_CRYPTONOTE_XHV)
     (Loading ([7, 9, 0x80, 0x80, 0x80, 0x80, 5] @ replicate 32 1 @ [1, 2, 3, 4] @ replicate 200 0 @ rest))
   = Some ((null_block BLOB_TYPE_CRYPTONOTE_XHV)\<lparr> major_version := 7, minor_version := 9, timestamp := 0x50000000,
     prev_id := replicate 32 1, nonce := 0x04030201, pricing_record := replicate 200 0 \<rparr>, Loading rest)"
  by (simp add: serialize_block_header_def loading null_block_def load_narrow_varint load_small_timestamp load_blob
    serialize_nonce32_def serialize_int_def word_of_bytes_def del: replicate_numeral)

lemma load_haven_coinbase:
  "serialize_transaction am (null_transaction BLOB_TYPE_CRYPTONOTE_XHV) (Loading ([1, 0, 1, 0xff, 5, 0, 0] @ rest))
   = Some ((null_transaction BLOB_TYPE_CRYPTONOTE_XHV)\<lparr> version := 1, vin := [TxinGen 5], signatures := [[]] \<rparr>, Loading rest)"
  by (simp add: parsing word_le_nat_alt)

lemma parse_haven_blob: "parse_and_validate_block_from_blob am BLOB_TYPE_CRYPTONOTE_XHV haven_blob = Some haven_block"
proof -
  have "blob_type (null_block BLOB_TYPE_CRYPTONOTE_XHV) = BLOB_TYPE_CRYPTONOTE_XHV"
    "miner_tx (null_block BLOB_TYPE_CRYPTONOTE_XHV) = null_transaction BLOB_TYPE_CRYPTONOTE_XHV"
    "tx_hashes (null_block BLOB_TYPE_CRYPTONOTE_XHV) = []"
    by (simp_all add: null_block_def)
  then show ?thesis
    unfolding parse_and_validate_block_from_blob_def parse_binary_def serialize_whole_def haven_blob_def
      serialize_block_def haven_block_def do_all.simps load_haven_header
    by (simp add: IF_def do_all.simps FIELD_def load_haven_coinbase [simplified] load_vector check_stream_state_def)
qed

lemma saved_haven_coinbase: "saved (serialize_transaction am) (miner_tx haven_block) = Some [1, 0, 1, 0xff, 5, 0, 0]"
  by (simp add: haven_block_def saved_def parsing serialize_varint_def write_varint.simps serialize_vector_def serialize_int_def
    serialize_variant_def bytes_of_word_def word_le_nat_alt)

lemma haven_hashing_blob: "\<exists>blob. get_block_hashing_blob am haven_block = Some blob \<and> length blob = 276"
proof -
  have v1: "has_v1_signatures (miner_tx haven_block)" by (simp add: haven_block_def has_v1_signatures_def null_transaction_def)
  obtain h where h: "get_transaction_hash am (miner_tx haven_block) null_hash = Some (True, h)"
    using v1 saved_haven_coinbase cn_fast_hash_total [of "[1, 0, 1, 0xff, 5, 0, 0]"]
    by (auto simp: get_transaction_hash_def get_object_hash_def t_serializable_object_to_blob_def get_blob_hash_def)
  have b: "blob_type haven_block = BLOB_TYPE_CRYPTONOTE_XHV" "tx_hashes haven_block = []" by (simp_all add: haven_block_def null_block_def)
  have e: "saved (do_all header_end) haven_block = Some (replicate 200 0)"
    by (simp add: saved_def header_end_def do_all.simps IF_def b FIELD_def serialize_blob_def)
      (simp add: haven_block_def del: replicate_numeral)
  have "length (nonce_prefix haven_block) = 39" by (rule length_nonce_prefix) (simp_all add: haven_block_def)
  moreover have "length (prev_id haven_block) = 32" by (simp add: haven_block_def)
  ultimately obtain header where "saved serialize_block_header haven_block = Some header" "length header = 243"
    using saved_header [of haven_block] by (simp add: nonce_coins_def b e)
  moreover have "length haven_blob < 2 ^ 32" by (simp add: haven_blob_def)
  ultimately show ?thesis using hashing_blob_eq [OF parse_haven_blob _ _ h] transaction_hash_length [OF h]
    by (simp add: b tree_root_def write_varint.simps word_le_nat_alt)
qed

text \<open>
  Property C17: whatever arrays \<open>ArrayPool\<close> returns, \<open>ConvertBlob\<close> returns the whole hashing blob of every block that can
  be parsed, also when it does not fit into the first buffer, and \<open>null\<close> for every input that cannot be parsed. The one
  exception is an input for which reading the parent block throws. That the block has a hashing blob is part of the
  property; nothing that is hashed for it may have 2 to the 30 bytes or more.
\<close>

theorem ConvertBlob_returns_hashing_blob:
  assumes "\<And>n. n < 2 ^ 31 \<Longrightarrow> n \<le> length (rent n) \<and> length (rent n) < 2 ^ 32"
    and "data \<noteq> []" and "unat sz \<le> length data"
    and "\<And>b x. parse_and_validate_block_from_blob am (blob_type_of blobType) (take (unat sz) data) = Some b
      \<Longrightarrow> Some x \<in> set (hashed_parts am b) \<Longrightarrow> length x < 2 ^ 30"
  shows "if resize_throws am max_hashes (blob_type_of blobType) (take (unat sz) data)
    then ConvertBlob am max_hashes rent data sz blobType = None
    else case parse_and_validate_block_from_blob am (blob_type_of blobType) (take (unat sz) data) of
        None \<Rightarrow> ConvertBlob am max_hashes rent data sz blobType = Some (Inr None)
      | Some b \<Rightarrow> \<exists>blob. get_block_hashing_blob am b = Some blob
          \<and> ConvertBlob am max_hashes rent data sz blobType = Some (Inr (Some blob))"
proof (cases "resize_throws am max_hashes (blob_type_of blobType) (take (unat sz) data)")
  case True
  then show ?thesis using assms(2,3) by (simp add: ConvertBlob_def convert_blob_export_def Let_def)
next
  case no: False
  show ?thesis
  proof (cases "parse_and_validate_block_from_blob am (blob_type_of blobType) (take (unat sz) data)")
    case None
    then show ?thesis using no assms(2,3) by (simp add: ConvertBlob_def convert_blob_export_def Let_def)
  next
    case (Some b)
    have "length (take (unat sz) data) < 2 ^ 32" using unsigned_less [of sz, where ?'a = nat] by (simp add: min_def)
    from parsed_has_hashing_blob [OF Some this assms(4) [OF Some]]
    obtain blob where blob: "get_block_hashing_blob am b = Some blob" "length blob < 2 ^ 31" by force
    have l: "unat (of_nat (length blob) :: u32) = length blob" using blob(2) by (simp add: unat_of_nat take_bit_nat_eq_self)
    then have nz: "(of_nat (length blob) :: u32) \<noteq> 0" using hashing_blob_not_Nil [OF blob(1)] by (metis length_0_conv unat_0)
    have r: "unat (of_nat (length (rent 256)) :: u32) = length (rent 256)" "length blob \<le> length (rent (length blob))"
      using assms(1) [of 256] assms(1) [OF blob(2)] by (simp_all add: unat_of_nat take_bit_nat_eq_self)
    have "ConvertBlob am max_hashes rent data sz blobType = Some (Inr (Some blob))"
      using assms(2,3) no Some blob(1) l nz r
      by (auto simp: ConvertBlob_def convert_blob_export_def Let_def memcpy_at_def not_less)
    then show ?thesis using no Some blob(1) by simp
  qed
qed

theorem ConvertBlob_returns_hashing_blob_witness:
  "\<exists>blob. ConvertBlob amounts_by_length 1000 (\<lambda>n. replicate n 0) haven_blob 251 11 = Some (Inr (Some blob))
     \<and> length (replicate 0x100 0) < length blob \<and> get_block_hashing_blob amounts_by_length haven_block = Some blob"
proof -
  obtain hb where hb: "get_block_hashing_blob amounts_by_length haven_block = Some hb" "length hb = 276" using haven_hashing_blob by blast
  have bt: "blob_type_of 11 = BLOB_TYPE_CRYPTONOTE_XHV" by (simp add: blob_type_of_def BLOB_TYPES_def)
  have t: "take (unat (251 :: u32)) haven_blob = haven_blob" "haven_blob \<noteq> []" "unat (251 :: u32) \<le> length haven_blob"
    by (simp_all add: haven_blob_def)
  have v1: "has_v1_signatures (miner_tx haven_block)" "blob_type haven_block = BLOB_TYPE_CRYPTONOTE_XHV"
    by (simp_all add: haven_block_def has_v1_signatures_def null_transaction_def null_block_def)
  have small: "length x < 2 ^ 30" if "Some x \<in> set (hashed_parts amounts_by_length haven_block)" for x
    using that hb v1 saved_haven_coinbase [of amounts_by_length] by (auto simp: hashed_parts_def tx_parts_def)
  show ?thesis
    using ConvertBlob_returns_hashing_blob [of "\<lambda>n. replicate n 0" haven_blob 251 amounts_by_length 11 1000] t hb small
    by (simp add: bt parse_haven_blob resize_throws_def)
qed

end
