(* ===== verification/Cuckaroo.thy ===== *)
theory Cuckaroo
  imports Blake2 "HOL-Library.Multiset"
begin

text \<open>
  The proof of work of Cortex, \<open>libcortexcuckoocycle\<close>: SipHash (\<open>crypto/siphash.hpp\<close>), the verifiers of Cuckoo and
  Cuckaroo Cycle (\<open>cuckoo/cuckoo.h\<close>, \<open>cuckaroo/cuckaroo.hpp\<close>) and the exported function. A solution is a list of 42
  edges of a bipartite graph that the header determines. The theorems: the verifier ends for every list of
  edges, and accepts exactly the ascending lists of edges that form one simple cycle. The keys of the hash are BLAKE2b
  of the header; \<open>crypto/blake2b-ref.c\<close> is the same file as \<open>libubqhash/blake2.c\<close>, the theory \<open>Blake2\<close>.
\<close>

section \<open>SipHash\<close>

record siphash_keys =
  sip_k0 :: u64
  sip_k1 :: u64
  sip_k2 :: u64
  sip_k3 :: u64

record siphash_state =
  sip_v0 :: u64
  sip_v1 :: u64
  sip_v2 :: u64
  sip_v3 :: u64

definition siphash_state_of :: "siphash_keys \<Rightarrow> siphash_state" where
  "siphash_state_of sk = \<lparr> sip_v0 = sip_k0 sk, sip_v1 = sip_k1 sk, sip_v2 = sip_k2 sk, sip_v3 = sip_k3 sk \<rparr>"

definition xor_with :: "siphash_state \<Rightarrow> siphash_state \<Rightarrow> siphash_state" where
  "xor_with s x = \<lparr> sip_v0 = sip_v0 s XOR sip_v0 x, sip_v1 = sip_v1 s XOR sip_v1 x, sip_v2 = sip_v2 s XOR sip_v2 x,
     sip_v3 = sip_v3 s XOR sip_v3 x \<rparr>"

definition xor_lanes :: "siphash_state \<Rightarrow> u64" where
  "xor_lanes s = (sip_v0 s XOR sip_v1 s) XOR (sip_v2 s XOR sip_v3 s)"

definition sip_rotl :: "u64 \<Rightarrow> nat \<Rightarrow> u64" where
  "sip_rotl x b = push_bit b x OR drop_bit (64 - b) x"

definition sip_round :: "siphash_state \<Rightarrow> siphash_state" where
  "sip_round s =
     (let s = s\<lparr> sip_v0 := sip_v0 s + sip_v1 s \<rparr>; s = s\<lparr> sip_v2 := sip_v2 s + sip_v3 s \<rparr>;
          s = s\<lparr> sip_v1 := sip_rotl (sip_v1 s) 13 \<rparr>; s = s\<lparr> sip_v3 := sip_rotl (sip_v3 s) 16 \<rparr>;
          s = s\<lparr> sip_v1 := sip_v1 s XOR sip_v0 s \<rparr>; s = s\<lparr> sip_v3 := sip_v3 s XOR sip_v2 s \<rparr>;
          s = s\<lparr> sip_v0 := sip_rotl (sip_v0 s) 32 \<rparr>; s = s\<lparr> sip_v2 := sip_v2 s + sip_v1 s \<rparr>;
          s = s\<lparr> sip_v0 := sip_v0 s + sip_v3 s \<rparr>;
          s = s\<lparr> sip_v1 := sip_rotl (sip_v1 s) 17 \<rparr>; s = s\<lparr> sip_v3 := sip_rotl (sip_v3 s) 21 \<rparr>;
          s = s\<lparr> sip_v1 := sip_v1 s XOR sip_v2 s \<rparr>; s = s\<lparr> sip_v3 := sip_v3 s XOR sip_v0 s \<rparr>;
          s = s\<lparr> sip_v2 := sip_rotl (sip_v2 s) 32 \<rparr>
      in s)"

definition hash24 :: "u64 \<Rightarrow> siphash_state \<Rightarrow> siphash_state" where
  "hash24 nonce s =
     (let s = s\<lparr> sip_v3 := sip_v3 s XOR nonce \<rparr>;
          s = sip_round (sip_round s);
          s = s\<lparr> sip_v0 := sip_v0 s XOR nonce \<rparr>;
          s = s\<lparr> sip_v2 := sip_v2 s XOR 0xff \<rparr>
      in sip_round (sip_round (sip_round (sip_round s))))"

definition setkeys :: "bytes \<Rightarrow> siphash_keys" where
  "setkeys keybuf =
     \<lparr> sip_k0 = word_of_bytes (take 8 keybuf), sip_k1 = word_of_bytes (take 8 (drop 8 keybuf)),
       sip_k2 = word_of_bytes (take 8 (drop 16 keybuf)), sip_k3 = word_of_bytes (take 8 (drop 24 keybuf)) \<rparr>"

definition siphash24 :: "siphash_keys \<Rightarrow> u64 \<Rightarrow> u64" where
  "siphash24 keys nonce = xor_lanes (hash24 nonce (siphash_state_of keys))"

section \<open>The graph\<close>

text \<open>Both variants have the same parameters, with the prefixes \<open>CUCKOO_CORTEX\<close> and \<open>CUCKAROO_CORTEX\<close>.\<close>

definition PROOFSIZE :: nat where
  "PROOFSIZE = 42"

definition EDGEMASK :: u32 where
  "EDGEMASK = push_bit 30 1 - 1"

definition EDGE_BLOCK_SIZE :: nat where
  "EDGE_BLOCK_SIZE = 64"

definition EDGE_BLOCK_MASK :: nat where
  "EDGE_BLOCK_MASK = EDGE_BLOCK_SIZE - 1"

text \<open>Cuckoo: the two endpoints of an edge are hashed on their own.\<close>

definition cuckoo_cortex_sipnode :: "siphash_keys \<Rightarrow> u32 \<Rightarrow> u32 \<Rightarrow> u32" where
  "cuckoo_cortex_sipnode keys edge uorv = ucast (siphash24 keys (ucast (2 * edge + uorv)) AND ucast EDGEMASK)"

definition cuckoo_cortex_sipnode_part :: "siphash_keys \<Rightarrow> u32 \<Rightarrow> u32 \<Rightarrow> u32" where
  "cuckoo_cortex_sipnode_part keys edge uorv = push_bit 1 (cuckoo_cortex_sipnode keys edge uorv) OR uorv"

text \<open>
  Cuckaroo: the hash of an edge is one of 64 that are computed together, with one state that goes on from edge
  to edge, and the last one is added to all before it. The result and the buffer.
\<close>

definition cuckaroo_cortex_sipblock :: "siphash_keys \<Rightarrow> u32 \<Rightarrow> u64 \<times> u64 list" where
  "cuckaroo_cortex_sipblock keys edge =
     (let shs = siphash_state_of keys;
          edge0 = edge AND NOT (of_nat EDGE_BLOCK_MASK);
          (shs, buf) = fold (\<lambda>i (shs, buf).
             let shs = hash24 (ucast (edge0 + of_nat i)) shs in (shs, buf @ [xor_lanes shs])) [0..<EDGE_BLOCK_SIZE] (shs, []);
          last = buf ! EDGE_BLOCK_MASK;
          buf = fold (\<lambda>i buf. buf[i := buf ! i XOR last]) [0..<EDGE_BLOCK_MASK] buf
      in (buf ! unat (edge AND of_nat EDGE_BLOCK_MASK), buf))"

definition cuckaroo_endpoints :: "siphash_keys \<Rightarrow> u32 \<Rightarrow> u32 \<times> u32" where
  "cuckaroo_endpoints keys e =
     (let edge = fst (cuckaroo_cortex_sipblock keys e)
      in (ucast (edge AND ucast EDGEMASK), ucast (drop_bit 32 edge AND ucast EDGEMASK)))"

definition cuckoo_endpoints :: "siphash_keys \<Rightarrow> u32 \<Rightarrow> u32 \<times> u32" where
  "cuckoo_endpoints keys e = (cuckoo_cortex_sipnode keys e 0, cuckoo_cortex_sipnode keys e 1)"

section \<open>Verification\<close>

text \<open>The verifiers of the two variants differ in the endpoints only; their codes have the same order.\<close>

datatype verify_code =
    POW_OK
  | POW_HEADER_LENGTH
  | POW_TOO_BIG
  | POW_TOO_SMALL
  | POW_NON_MATCHING
  | POW_BRANCH
  | POW_DEAD_END
  | POW_SHORT_CYCLE

text \<open>The first loop: the endpoints \<open>uvs\<close> of all edges, and the sums of those on either side.\<close>

fun verify_edges :: "(u32 \<Rightarrow> u32 \<times> u32) \<Rightarrow> u32 option \<Rightarrow> u32 list \<Rightarrow> u32 \<Rightarrow> u32 \<Rightarrow> u32 list \<Rightarrow> verify_code + u32 \<times> u32 \<times> u32 list" where
  "verify_edges endpoints prev [] xor0 xor1 uvs = Inr (xor0, xor1, uvs)"
| "verify_edges endpoints prev (e # es) xor0 xor1 uvs =
     (if EDGEMASK < e then Inl POW_TOO_BIG
      else if (case prev of None \<Rightarrow> False | Some p \<Rightarrow> e \<le> p) then Inl POW_TOO_SMALL
      else let (u, v) = endpoints e
           in verify_edges endpoints (Some e) es (xor0 XOR u) (xor1 XOR v) (uvs @ [u, v]))"

text \<open>
  The search for the other endpoint equal to the one at \<open>i\<close>, and the loop that follows the cycle. \<open>None\<close> is a loop
  that does not end, or an access out of range.
\<close>

partial_function (option) find_match :: "u32 list \<Rightarrow> nat \<Rightarrow> nat \<Rightarrow> nat \<Rightarrow> (verify_code + nat) option" where
  "find_match uvs i k j =
     (let k = (k + 2) mod (2 * PROOFSIZE) in
      if k = i then Some (Inr j)
      else do {
        a \<leftarrow> rd uvs k;
        b \<leftarrow> rd uvs i;
        if a = b then (if j \<noteq> i then Some (Inl POW_BRANCH) else find_match uvs i k k)
        else find_match uvs i k j
      })"

partial_function (option) follow_cycle :: "u32 list \<Rightarrow> nat \<Rightarrow> nat \<Rightarrow> verify_code option" where
  "follow_cycle uvs n i =
     do {
       r \<leftarrow> find_match uvs i i i;
       case r of Inl c \<Rightarrow> Some c
       | Inr j \<Rightarrow>
           if j = i then Some POW_DEAD_END
           else let i = j XOR 1; n = n + 1 in
             if i \<noteq> 0 then follow_cycle uvs n i
             else Some (if n = PROOFSIZE then POW_OK else POW_SHORT_CYCLE)
     }"

definition verify_cycle :: "(u32 \<Rightarrow> u32 \<times> u32) \<Rightarrow> u32 list \<Rightarrow> verify_code option" where
  "verify_cycle endpoints edges =
     (if length edges < PROOFSIZE then None
      else case verify_edges endpoints None (take PROOFSIZE edges) 0 0 [] of
        Inl c \<Rightarrow> Some c
      | Inr (xor0, xor1, uvs) \<Rightarrow>
          if xor0 OR xor1 \<noteq> 0 then Some POW_NON_MATCHING else follow_cycle uvs 0 0)"

definition cuckaroo_cortex_verify :: "u32 list \<Rightarrow> siphash_keys \<Rightarrow> verify_code option" where
  "cuckaroo_cortex_verify edges keys = verify_cycle (cuckaroo_endpoints keys) edges"

definition cuckoo_cortex_verify :: "u32 list \<Rightarrow> siphash_keys \<Rightarrow> verify_code option" where
  "cuckoo_cortex_verify edges keys = verify_cycle (cuckoo_endpoints keys) edges"

section \<open>The search\<close>

text \<open>The other indices on the side of \<open>i\<close> with the endpoint of \<open>i\<close>.\<close>

definition matches :: "u32 list \<Rightarrow> nat \<Rightarrow> nat set" where
  "matches uvs i = {k. k < 84 \<and> k \<noteq> i \<and> even k = even i \<and> uvs ! k = uvs ! i}"

lemma matches_sym: "j \<in> matches uvs i \<Longrightarrow> i < 84 \<Longrightarrow> i \<in> matches uvs j"
  by (simp add: matches_def)

lemma matches_trans: "j \<in> matches uvs i \<Longrightarrow> k \<in> matches uvs i \<Longrightarrow> k \<noteq> j \<Longrightarrow> k \<in> matches uvs j"
  by (simp add: matches_def)

lemma mod_84: "i < 84 \<Longrightarrow> r \<le> 41 \<Longrightarrow> (i + 2 * r) mod 84 = (if i + 2 * r < 84 then i + 2 * r else i + 2 * r - 84)"
  for i r :: nat
  by (auto simp: mod_less le_mod_geq not_less)

lemma steps_side:
  fixes i k :: nat
  assumes "i < 84" and "k < 84" and "k \<noteq> i" and "even k = even i"
  shows "\<exists>t. 1 \<le> t \<and> t \<le> 41 \<and> k = (i + 2 * t) mod 84"
proof -
  have "even (if i < k then k - i else k + 84 - i)" using assms by simp
  then obtain t where t: "(if i < k then k - i else k + 84 - i) = 2 * t" by (elim evenE)
  then have "1 \<le> t \<and> t \<le> 41 \<and> (k = i + 2 * t \<or> k + 84 = i + 2 * t)" using assms(1-3) by (auto split: if_splits)
  then show ?thesis using assms(1,2) mod_84 [of i t] by (intro exI [of _ t]) auto
qed

definition around :: "nat \<Rightarrow> nat \<Rightarrow> nat" where
  "around i t = (i + 2 * t) mod 84"

lemma around:
  assumes "i < 84"
  shows "around i 0 = i" and "around i t < 84" and "(around i t + 2) mod 84 = around i (Suc t)" and "even (around i t) = even i"
    and "around i 42 = i"
  using assms by (simp_all add: around_def mod_simps add_ac dvd_mod_iff)

lemma around_inj:
  assumes "i < 84" and "s \<le> 41" and "t \<le> 41" and "around i s = around i t"
  shows "s = t"
  using assms mod_84 [of i s] mod_84 [of i t] by (simp add: around_def split: if_splits)

lemma around_ne: "i < 84 \<Longrightarrow> t \<le> 41 \<Longrightarrow> 1 \<le> t \<Longrightarrow> around i t \<noteq> i"
  using around_inj [of i t 0] around(1) [of i] by fastforce

lemma matches_around: "i < 84 \<Longrightarrow> matches uvs i = {k. (\<exists>t. 1 \<le> t \<and> t \<le> 41 \<and> k = around i t) \<and> uvs ! k = uvs ! i}"
  using steps_side [of i] around_ne [of i] by (auto simp: matches_def around around_def [symmetric])

lemma find_match_step:
  assumes "(k + 2) mod 84 = k'" and "i < 84" and "k' < 84" and "length uvs = 84"
  shows "find_match uvs i k j
    = (if k' = i then Some (Inr j)
       else if uvs ! k' = uvs ! i then (if j \<noteq> i then Some (Inl POW_BRANCH) else find_match uvs i k' k')
       else find_match uvs i k' j)"
  using assms by (subst find_match.simps) (simp add: PROOFSIZE_def rd_def Let_def)

lemma find_match_from:
  assumes i: "i < 84" and l: "length uvs = 84"
  shows "t \<le> 41 \<Longrightarrow> j = (if S = {} then i else the_elem S)
    \<Longrightarrow> S = {k. (\<exists>s. 1 \<le> s \<and> s \<le> t \<and> k = around i s) \<and> uvs ! k = uvs ! i} \<Longrightarrow> S = {} \<or> (\<exists>k. S = {k})
    \<Longrightarrow> find_match uvs i (around i t) j
      = Some (if matches uvs i = {} then Inr i else if \<exists>k. matches uvs i = {k} then Inr (the_elem (matches uvs i)) else Inl POW_BRANCH)"
proof (induction "41 - t" arbitrary: t j S)
  case 0
  then have t: "t = 41" by simp
  have "S = matches uvs i" unfolding "0.prems"(3) t matches_around [OF i] ..
  moreover have "(around i t + 2) mod 84 = i" using around(3,5) [OF i] by (simp add: t)
  ultimately show ?case using "0.prems"(2,4) find_match_step [OF _ i i l, of "around i t" j] by auto
next
  case (Suc d)
  let ?k = "around i (Suc t)"
  let ?S = "{k. (\<exists>s. 1 \<le> s \<and> s \<le> Suc t \<and> k = around i s) \<and> uvs ! k = uvs ! i}"
  have d: "d = 41 - Suc t" "Suc t \<le> 41" using Suc(2) by simp_all
  have ne: "?k \<noteq> i" using around_ne [OF i d(2)] by simp
  have S: "?S = (if uvs ! ?k = uvs ! i then insert ?k S else S)"
    unfolding Suc.prems(3) by (auto simp: le_Suc_eq)
  have s: "around i s \<noteq> ?k \<and> around i s \<noteq> i" if "1 \<le> s" "s \<le> t" for s
    using around_inj [OF i _ d(2), of s] around_ne [OF i, of s] d(2) that by auto
  have new: "?k \<notin> S"
  proof
    assume "?k \<in> S"
    then obtain r where "1 \<le> r" "r \<le> t" "?k = around i r" unfolding Suc.prems(3) by blast
    with s [of r] show False by simp
  qed
  have "i \<notin> S"
  proof
    assume "i \<in> S"
    then obtain r where "1 \<le> r" "r \<le> t" "i = around i r" unfolding Suc.prems(3) by blast
    with s [of r] show False by simp
  qed
  then have j: "j \<noteq> i \<longleftrightarrow> S \<noteq> {}" using Suc.prems(2,4) by auto
  have step: "find_match uvs i (around i t) j
      = (if uvs ! ?k = uvs ! i then (if j \<noteq> i then Some (Inl POW_BRANCH) else find_match uvs i ?k ?k) else find_match uvs i ?k j)"
    using find_match_step [OF around(3) [OF i] i around(2) [OF i] l] ne by simp
  have sub: "?S \<subseteq> matches uvs i" using d(2) unfolding matches_around [OF i] by force
  consider "uvs ! ?k \<noteq> uvs ! i" | "uvs ! ?k = uvs ! i" "S = {}" | a where "uvs ! ?k = uvs ! i" "S = {a}"
    using Suc.prems(4) by blast
  then show ?case
  proof cases
    case 1
    then show ?thesis using step S Suc(1) [OF d Suc.prems(2) _ Suc.prems(4)] by simp
  next
    case 2
    then have k: "{?k} = ?S" unfolding S by simp
    have "find_match uvs i ?k ?k
        = Some (if matches uvs i = {} then Inr i else if \<exists>k. matches uvs i = {k} then Inr (the_elem (matches uvs i)) else Inl POW_BRANCH)"
      by (rule Suc(1) [OF d _ k]) simp_all
    then show ?thesis using step 2 j by simp
  next
    case 3
    then have "a \<in> matches uvs i" "?k \<in> matches uvs i" "a \<noteq> ?k" using S sub new by auto
    then have "matches uvs i \<noteq> {}" and "\<nexists>k. matches uvs i = {k}" by auto
    then show ?thesis using step j 3 by simp
  qed
qed

lemma find_match_spec:
  assumes "i < 84" and "length uvs = 84"
  shows "find_match uvs i i i
      = Some (if matches uvs i = {} then Inr i else if \<exists>k. matches uvs i = {k} then Inr (the_elem (matches uvs i)) else Inl POW_BRANCH)"
  using find_match_from [OF assms, of 0 i "{}"] around(1) [OF assms(1)] by simp

section \<open>The walk\<close>

definition paired :: "u32 list \<Rightarrow> nat \<Rightarrow> bool" where
  "paired uvs i \<longleftrightarrow> (\<exists>k. matches uvs i = {k})"

definition mate :: "u32 list \<Rightarrow> nat \<Rightarrow> nat" where
  "mate uvs i = the_elem (matches uvs i)"

definition other_end :: "nat \<Rightarrow> nat" where
  "other_end i = i XOR 1"

primrec walk :: "u32 list \<Rightarrow> nat \<Rightarrow> nat" where
  "walk uvs 0 = 0"
| "walk uvs (Suc t) = other_end (mate uvs (walk uvs t))"

lemma other_end_if: "other_end i = (if even i then Suc i else i - 1)"
  by (simp add: other_end_def xor_Suc_0_eq)

lemma other_end [simp]:
  "other_end (other_end i) = i" "even (other_end i) \<longleftrightarrow> odd i" "other_end i div 2 = i div 2"
  "other_end i = other_end j \<longleftrightarrow> i = j" "other_end i \<noteq> i"
proof -
  have o: "other_end (Suc (2 * b)) = 2 * b" for b by (simp add: other_end_if)
  show a: "other_end (other_end i) = i" for i
  proof (cases "even i")
    case False
    then obtain b where "i = Suc (2 * b)" by (auto elim: oddE)
    then show ?thesis by (simp add: o, simp add: other_end_if)
  qed (simp add: other_end_if)
  show "even (other_end i) \<longleftrightarrow> odd i" by (simp add: other_end_if)
  show "other_end i div 2 = i div 2"
  proof (cases "even i")
    case False
    then obtain b where "i = Suc (2 * b)" by (auto elim: oddE)
    then show ?thesis by (simp add: o)
  qed (simp add: other_end_if)
  show "other_end i \<noteq> i" by (cases i) (simp_all add: other_end_if)
  show "other_end i = other_end j \<longleftrightarrow> i = j" by (metis a)
qed

lemma other_end_less: "i < 84 \<Longrightarrow> other_end i < 84"
  by (auto simp: other_end_if elim!: evenE)

lemma mate:
  assumes "paired uvs i" and "i < 84"
  shows "mate uvs i < 84" and "mate uvs i \<noteq> i" and "even (mate uvs i) = even i" and "paired uvs (mate uvs i)"
    and "mate uvs (mate uvs i) = i" and "matches uvs i = {mate uvs i}"
proof -
  obtain m where m: "matches uvs i = {m}" using assms(1) paired_def by blast
  then have mi: "mate uvs i = m" by (simp add: mate_def)
  have in_m: "m \<in> matches uvs i" using m by simp
  then show "mate uvs i < 84" "mate uvs i \<noteq> i" "even (mate uvs i) = even i" by (simp_all add: mi matches_def)
  show "matches uvs i = {mate uvs i}" using m mi by simp
  have "k = i" if "k \<in> matches uvs m" for k
  proof (rule ccontr)
    assume "k \<noteq> i"
    then have "k \<in> matches uvs i" using that in_m by (simp add: matches_def)
    with m that show False by (simp add: matches_def)
  qed
  then have "matches uvs m = {i}" using matches_sym [OF in_m assms(2)] by blast
  then show "paired uvs (mate uvs i)" "mate uvs (mate uvs i) = i" by (simp_all add: mi, simp_all add: paired_def mate_def)
qed

lemma walk_range:
  assumes "\<And>r. r < t \<Longrightarrow> paired uvs (walk uvs r)"
  shows "walk uvs t < 84 \<and> (even (walk uvs t) \<longleftrightarrow> even t)"
  using assms
proof (induction t)
  case (Suc t)
  then have "walk uvs t < 84" "even (walk uvs t) \<longleftrightarrow> even t" "paired uvs (walk uvs t)" by simp_all
  then show ?case by (simp add: mate other_end_less)
qed simp

lemma walk_back:
  assumes "\<And>r. r < t \<Longrightarrow> paired uvs (walk uvs r)"
  shows "s \<le> t \<Longrightarrow> walk uvs s = walk uvs t \<Longrightarrow> walk uvs (t - s) = 0"
  using assms
proof (induction s arbitrary: t)
  case (Suc s)
  then obtain t' where t: "t = Suc t'" by (cases t) simp_all
  have p: "paired uvs (walk uvs r)" if "r \<le> t'" for r using that Suc.prems(3) t by simp
  have w: "walk uvs s < 84" "walk uvs t' < 84" using walk_range [of s] walk_range [of t'] p Suc.prems(1) t by simp_all
  have "mate uvs (walk uvs s) = mate uvs (walk uvs t')" using Suc.prems(2) by (simp add: t)
  moreover have "s \<le> t'" using Suc.prems(1) t by simp
  ultimately have "walk uvs s = walk uvs t'" using mate(5) [OF p w(1)] mate(5) [OF p w(2)] order_refl by metis
  then show ?case using Suc.IH [of t'] Suc.prems(1) p t by simp
qed simp

lemma walk_stops: "\<exists>t. \<not> paired uvs (walk uvs t) \<or> walk uvs (Suc t) = 0"
proof (rule ccontr)
  assume "\<not> ?thesis"
  then have p: "paired uvs (walk uvs t)" and z: "walk uvs (Suc t) \<noteq> 0" for t by auto
  have "walk uvs s \<noteq> walk uvs t" if "s < t" for s t
  proof
    assume "walk uvs s = walk uvs t"
    then have "walk uvs (t - s) = 0" using walk_back [of t uvs s] p that by simp
    then show False using z [of "t - s - 1"] that by (simp add: Suc_diff_Suc del: walk.simps)
  qed
  then have "inj (walk uvs)" by (intro linorder_injI)
  moreover have "range (walk uvs) \<subseteq> {..<84}" using walk_range p by blast
  ultimately show False using finite_imageD finite_subset infinite_UNIV_nat by blast
qed

definition walk_end :: "u32 list \<Rightarrow> nat" where
  "walk_end uvs = (LEAST t. \<not> paired uvs (walk uvs t) \<or> walk uvs (Suc t) = 0)"

lemma walk_end:
  "\<not> paired uvs (walk uvs (walk_end uvs)) \<or> walk uvs (Suc (walk_end uvs)) = 0"
  "t < walk_end uvs \<Longrightarrow> paired uvs (walk uvs t)"
  "t < walk_end uvs \<Longrightarrow> walk uvs (Suc t) \<noteq> 0"
proof -
  let ?P = "\<lambda>t. \<not> paired uvs (walk uvs t) \<or> walk uvs (Suc t) = 0"
  show "?P (walk_end uvs)" unfolding walk_end_def by (rule LeastI_ex [OF walk_stops])
  have "\<not> ?P t" if "t < walk_end uvs" using that unfolding walk_end_def by (rule not_less_Least)
  then show "t < walk_end uvs \<Longrightarrow> paired uvs (walk uvs t)" and "t < walk_end uvs \<Longrightarrow> walk uvs (Suc t) \<noteq> 0" by blast+
qed

definition walk_code :: "u32 list \<Rightarrow> verify_code" where
  "walk_code uvs =
     (let t = walk_end uvs
      in if matches uvs (walk uvs t) = {} then POW_DEAD_END
         else if \<not> paired uvs (walk uvs t) then POW_BRANCH
         else if Suc t = PROOFSIZE then POW_OK else POW_SHORT_CYCLE)"

lemma follow_step:
  assumes "i < 84" and "length uvs = 84"
  shows "follow_cycle uvs n i
    = (if matches uvs i = {} then Some POW_DEAD_END else if \<not> paired uvs i then Some POW_BRANCH
       else if other_end (mate uvs i) \<noteq> 0 then follow_cycle uvs (Suc n) (other_end (mate uvs i))
       else Some (if Suc n = PROOFSIZE then POW_OK else POW_SHORT_CYCLE))"
proof -
  have "the_elem (matches uvs i) \<noteq> i" if "\<exists>k. matches uvs i = {k}"
    using mate(2) [OF _ assms(1), of uvs] that by (simp add: paired_def mate_def)
  then show ?thesis using assms by (subst follow_cycle.simps) (auto simp: find_match_spec paired_def mate_def Let_def other_end_def)
qed

lemma follow_walk:
  assumes "length uvs = 84"
  shows "follow_cycle uvs 0 0 = Some (walk_code uvs)"
proof -
  have r: "walk uvs t < 84" if "t \<le> walk_end uvs" for t using walk_range [of t uvs] walk_end(2) [of _ uvs] that by simp
  have "follow_cycle uvs t (walk uvs t) = Some (walk_code uvs)" if "t \<le> walk_end uvs" for t
    using that
  proof (induction t rule: inc_induct)
    case base
    then show ?case using follow_step [OF r [OF order_refl] assms] walk_end(1) [of uvs] by (auto simp: walk_code_def Let_def)
  next
    case (step t)
    then show ?case using follow_step [OF r assms, of t t] walk_end(2,3) [of t uvs] by (auto simp: paired_def)
  qed
  then show ?thesis using walk.simps(1) by (metis le0)
qed

section \<open>The cycles of the graph\<close>

text \<open>
  The node of an edge on side \<open>s mod 2\<close>, and what a solution is: the edges can be ordered so that, cyclically, each
  one shares a node with the next, on the two sides in turn, and no node is visited twice. The first edge is left
  through its node on side 0.
\<close>

definition node_on :: "(u32 \<Rightarrow> u32 \<times> u32) \<Rightarrow> nat \<Rightarrow> u32 \<Rightarrow> u32" where
  "node_on endpoints s e = (if even s then fst (endpoints e) else snd (endpoints e))"

definition simple_cycle :: "(u32 \<Rightarrow> u32 \<times> u32) \<Rightarrow> u32 list \<Rightarrow> bool" where
  "simple_cycle endpoints p \<longleftrightarrow>
     (\<forall>t < length p. node_on endpoints t (p ! t) = node_on endpoints t (p ! (Suc t mod length p)))
     \<and> (\<forall>s < length p. \<forall>t < length p. even s = even t \<longrightarrow> node_on endpoints s (p ! s) = node_on endpoints t (p ! t) \<longrightarrow> s = t)"

definition forms_cycle :: "(u32 \<Rightarrow> u32 \<times> u32) \<Rightarrow> u32 list \<Rightarrow> bool" where
  "forms_cycle endpoints es \<longleftrightarrow> (\<exists>p. mset p = mset es \<and> p ! 0 = es ! 0 \<and> simple_cycle endpoints p)"

lemma node_on_parity: "even s = even t \<Longrightarrow> node_on endpoints s e = node_on endpoints t e"
  by (simp add: node_on_def)

definition ends :: "(u32 \<Rightarrow> u32 \<times> u32) \<Rightarrow> u32 list \<Rightarrow> u32 list" where
  "ends endpoints es = concat (map (\<lambda>e. [fst (endpoints e), snd (endpoints e)]) es)"

lemma length_ends [simp]: "length (ends endpoints es) = 2 * length es"
  by (induction es) (simp_all add: ends_def)

lemma nth_ends: "k < 2 * length es \<Longrightarrow> ends endpoints es ! k = node_on endpoints k (es ! (k div 2))"
proof (induction es arbitrary: k)
  case (Cons e es)
  have e: "ends endpoints (e # es) = fst (endpoints e) # snd (endpoints e) # ends endpoints es" by (simp add: ends_def)
  consider "k = 0" | "k = 1" | j where "k = Suc (Suc j)" by (cases k) (auto intro: nat.exhaust [of "k - 1"])
  then show ?case by cases (use Cons in \<open>simp_all add: e node_on_def\<close>)
qed simp

lemma matches_ends:
  assumes "length es = 42" and "i < 84"
  shows "k \<in> matches (ends endpoints es) i \<longleftrightarrow>
    k < 84 \<and> k \<noteq> i \<and> even k = even i \<and> node_on endpoints i (es ! (k div 2)) = node_on endpoints i (es ! (i div 2))"
  using assms nth_ends [of k es endpoints] nth_ends [of i es endpoints] node_on_parity [of k i] by (auto simp: matches_def)

section \<open>An accepted walk is a cycle\<close>

lemma same_edge: "i div 2 = j div 2 \<Longrightarrow> i = j \<or> i = other_end j"
  unfolding other_end_if by presburger

definition closed_walk :: "u32 list \<Rightarrow> bool" where
  "closed_walk uvs \<longleftrightarrow> (\<forall>t < 42. paired uvs (walk uvs t) \<and> (0 < t \<longrightarrow> walk uvs t \<noteq> 0)) \<and> walk uvs 42 = 0"

lemma closed_range:
  assumes "closed_walk uvs"
  shows "t < 42 \<Longrightarrow> paired uvs (walk uvs t)" and "t \<le> 42 \<Longrightarrow> walk uvs t < 84" and "t \<le> 42 \<Longrightarrow> even (walk uvs t) \<longleftrightarrow> even t"
  using walk_range [of t uvs] assms by (simp_all add: closed_walk_def)

lemma mate_walk: "mate uvs (walk uvs t) = other_end (walk uvs (Suc t))"
  by simp

lemma closed_inj:
  assumes "closed_walk uvs" and "s < 42" and "t < 42" and "walk uvs s = walk uvs t"
  shows "s = t"
proof -
  have "\<not> s < t" if "t < 42" "walk uvs s = walk uvs t" for s t
  proof
    assume "s < t"
    then have "walk uvs (t - s) = 0" using walk_back [of t uvs s] assms(1) that by (simp add: closed_walk_def)
    then show False using assms(1) that \<open>s < t\<close> unfolding closed_walk_def by (metis less_imp_diff_less zero_less_diff)
  qed
  then show ?thesis using assms by (metis nat_neq_iff)
qed

lemma closed_odd:
  assumes c: "closed_walk uvs"
  shows "s + Suc (2 * d) < 42 \<Longrightarrow> walk uvs s \<noteq> other_end (walk uvs (s + Suc (2 * d)))"
proof (induction d arbitrary: s)
  case 0
  then show ?case using mate(2) [OF closed_range(1,2) [OF c], of s] by simp
next
  case (Suc d)
  let ?t = "Suc s + Suc (2 * d)"
  have t: "paired uvs (walk uvs ?t)" "walk uvs ?t < 84" using closed_range(1,2) [OF c, of ?t] Suc.prems by simp_all
  show ?case
  proof
    assume "walk uvs s = other_end (walk uvs (s + Suc (2 * Suc d)))"
    then have "walk uvs s = mate uvs (walk uvs ?t)" by simp
    then have "mate uvs (walk uvs s) = walk uvs ?t" using mate(5) [OF t] by simp
    then have "walk uvs (Suc s) = other_end (walk uvs ?t)" by simp
    then show False using Suc.IH [of "Suc s"] Suc.prems by simp
  qed
qed

lemma closed_less: "closed_walk uvs \<Longrightarrow> s \<le> t \<Longrightarrow> t < 42 \<Longrightarrow> walk uvs s \<noteq> other_end (walk uvs t)"
proof (cases "even (t - s)")
  case True
  assume "closed_walk uvs" "s \<le> t" "t < 42"
  then have "even (walk uvs s) = even (walk uvs t)" using closed_range(3) [of uvs] True by simp
  then show ?thesis by (metis other_end(2))
next
  case False
  assume a: "closed_walk uvs" "s \<le> t" "t < 42"
  obtain d where "t - s = 2 * d + 1" using False by (rule oddE)
  then have "t = s + Suc (2 * d)" using a(2) by simp
  then show ?thesis using closed_odd [OF a(1), of s d] a(3) by simp
qed

lemma closed_sides: "closed_walk uvs \<Longrightarrow> s < 42 \<Longrightarrow> t < 42 \<Longrightarrow> walk uvs s \<noteq> other_end (walk uvs t)"
  using closed_less [of uvs s t] closed_less [of uvs t s] other_end(1) by (metis nat_le_linear)

lemma closed_edges: "closed_walk uvs \<Longrightarrow> s < 42 \<Longrightarrow> t < 42 \<Longrightarrow> walk uvs s div 2 = walk uvs t div 2 \<Longrightarrow> s = t"
  using same_edge closed_inj closed_sides by blast

lemma closed_not_zero: "closed_walk uvs \<Longrightarrow> 0 < t \<Longrightarrow> t < 42 \<Longrightarrow> walk uvs t \<noteq> 0"
  by (simp add: closed_walk_def)

lemma closed_walk_iff: "walk_code uvs = POW_OK \<longleftrightarrow> closed_walk uvs"
proof
  assume ok: "walk_code uvs = POW_OK"
  then have p: "paired uvs (walk uvs (walk_end uvs))" and e: "Suc (walk_end uvs) = 42"
    by (auto simp: walk_code_def PROOFSIZE_def Let_def split: if_splits)
  then have e: "walk_end uvs = 41" by simp
  have "paired uvs (walk uvs t) \<and> (0 < t \<longrightarrow> walk uvs t \<noteq> 0)" if "t < 42" for t
    using that p walk_end(2) [of t uvs] walk_end(3) [of "t - 1" uvs] by (cases "t = 41"; cases t) (auto simp: e)
  moreover have "walk uvs 42 = 0" using walk_end(1) [of uvs] p by (simp add: e)
  ultimately show "closed_walk uvs" by (simp add: closed_walk_def)
next
  assume c: "closed_walk uvs"
  have "walk_end uvs = 41" unfolding walk_end_def
  proof (rule Least_equality)
    show "\<not> paired uvs (walk uvs 41) \<or> walk uvs (Suc 41) = 0" using c by (simp add: closed_walk_def)
    fix t assume "\<not> paired uvs (walk uvs t) \<or> walk uvs (Suc t) = 0"
    then show "41 \<le> t" using closed_not_zero [OF c, of "Suc t"] closed_range(1) [OF c, of t]
      by (cases "t < 41") (simp_all del: walk.simps)
  qed
  moreover have "paired uvs (walk uvs 41)" using closed_range(1) [OF c] by simp
  ultimately show "walk_code uvs = POW_OK" by (auto simp: walk_code_def PROOFSIZE_def Let_def paired_def)
qed

lemma closed_order:
  assumes "closed_walk uvs" and "length es = 42"
  shows "mset (map (\<lambda>t. es ! (walk uvs t div 2)) [0..<42]) = mset es"
proof -
  let ?q = "map (\<lambda>t. walk uvs t div 2) [0..<42]"
  have i: "inj_on (\<lambda>t. walk uvs t div 2) {0..<42}" using closed_edges [OF assms(1)] by (intro inj_onI) simp
  have "(\<lambda>t. walk uvs t div 2) ` {0..<42} = {0..<42}"
  proof (rule card_subset_eq)
    have "walk uvs t div 2 < 42" if "t < 42" for t using closed_range(2) [OF assms(1), of t] that by (simp add: less_mult_imp_div_less)
    then show "(\<lambda>t. walk uvs t div 2) ` {0..<42} \<subseteq> {0..<42}" by auto
    show "card ((\<lambda>t. walk uvs t div 2) ` {0..<42}) = card {0..<42::nat}" using i by (rule card_image)
  qed simp
  then have "mset ?q = mset [0..<42]"
    using i by (subst set_eq_iff_mset_eq_distinct [symmetric]) (simp_all add: distinct_map del: upt_rec_numeral upt_conv_Cons_Cons)
  then have "image_mset ((!) es) (mset ?q) = image_mset ((!) es) (mset [0..<42])" by (rule arg_cong)
  then have "mset (map ((!) es) ?q) = mset (map ((!) es) [0..<42])" by (simp only: mset_map)
  moreover have "map ((!) es) [0..<42] = es" using map_nth [of es] by (simp only: assms(2))
  ultimately show ?thesis by (simp only: map_map comp_def)
qed

lemma closed_forms_cycle:
  assumes c: "closed_walk (ends endpoints es)" and l: "length es = 42"
  shows "forms_cycle endpoints es"
proof -
  let ?uvs = "ends endpoints es"
  let ?w = "walk ?uvs"
  define p where "p = map (\<lambda>t. es ! (?w t div 2)) [0..<42]"
  have len: "length p = 42" and p: "t < 42 \<Longrightarrow> p ! t = es ! (?w t div 2)" for t by (simp_all add: p_def del: upt_rec_numeral)
  have node: "node_on endpoints t (p ! t) = node_on endpoints (?w t) (es ! (?w t div 2))" if "t < 42" for t
    using that closed_range(3) [OF c, of t] node_on_parity [of t "?w t"] by (simp add: p)
  have m: "k \<in> matches ?uvs (?w t) \<longleftrightarrow> k = other_end (?w (Suc t))" if "t < 42" for t k
    using mate(6) [OF closed_range(1,2) [OF c], of t] that by simp
  have next_w: "?w (Suc t mod 42) = ?w (Suc t)" if "t < 42" for t
  proof (cases "t = 41")
    case True
    moreover have "?w 42 = 0" using c by (simp add: closed_walk_def)
    ultimately show ?thesis by simp
  qed (use that in simp)
  have "node_on endpoints t (p ! t) = node_on endpoints t (p ! (Suc t mod 42))" if t: "t < 42" for t
  proof -
    have "other_end (?w (Suc t)) \<in> matches ?uvs (?w t)" using m [OF t] by simp
    then have "node_on endpoints (?w t) (es ! (?w (Suc t) div 2)) = node_on endpoints (?w t) (es ! (?w t div 2))"
      using matches_ends [OF l closed_range(2) [OF c]] t by simp
    moreover have "p ! (Suc t mod 42) = es ! (?w (Suc t) div 2)" using next_w [OF t] by (simp add: p)
    moreover have "node_on endpoints t = node_on endpoints (?w t)"
      using closed_range(3) [OF c, of t] t by (intro ext node_on_parity) simp
    ultimately show ?thesis using node [OF t] by simp
  qed
  moreover have "s = t"
    if st: "s < 42" "t < 42" "even s = even t" and n: "node_on endpoints s (p ! s) = node_on endpoints t (p ! t)" for s t
  proof (rule ccontr)
    assume "s \<noteq> t"
    have e: "even (?w t) = even (?w s)" using closed_range(3) [OF c] st by simp
    have "?w t \<noteq> ?w s" using closed_inj [OF c] st \<open>s \<noteq> t\<close> by blast
    moreover have "node_on endpoints (?w s) (es ! (?w t div 2)) = node_on endpoints (?w s) (es ! (?w s div 2))"
      using n node st node_on_parity [OF e] by metis
    ultimately have "?w t \<in> matches ?uvs (?w s)" using matches_ends [OF l closed_range(2) [OF c]] closed_range(2) [OF c] e st by simp
    then have "?w t = other_end (?w (Suc s mod 42))" using m next_w st by simp
    then show False using closed_sides [OF c, of t "Suc s mod 42"] st by simp
  qed
  ultimately have "simple_cycle endpoints p" unfolding simple_cycle_def len by blast
  moreover have "p ! 0 = es ! 0" by (simp add: p)
  ultimately show ?thesis unfolding forms_cycle_def using closed_order [OF c l, folded p_def] by blast
qed

section \<open>A cycle is accepted\<close>

lemma cycle_positions:
  assumes "mset p = mset es" and "distinct es" and "length es = 42"
  obtains q where "\<And>t. t < 42 \<Longrightarrow> q t < 42 \<and> es ! q t = p ! t" and "inj_on q {..<42}" and "\<And>k. k < 42 \<Longrightarrow> \<exists>t<42. q t = k"
proof -
  have len: "length p = 42" and set: "set p = set es" and "distinct p"
    using assms mset_eq_length [OF assms(1)] mset_eq_setD [OF assms(1)] mset_eq_imp_distinct_iff [OF assms(1)] by simp_all
  have "\<forall>t. \<exists>k. t < 42 \<longrightarrow> k < 42 \<and> es ! k = p ! t"
    using set len assms(3) by (metis in_set_conv_nth)
  then obtain q where q: "\<And>t. t < 42 \<Longrightarrow> q t < 42 \<and> es ! q t = p ! t" by metis
  have "inj_on q {..<42}"
  proof (rule inj_onI)
    fix s t assume "s \<in> {..<42}" "t \<in> {..<42}" "q s = q t"
    then have "p ! s = p ! t" "s < 42" "t < 42" using q [of s] q [of t] by simp_all
    then show "s = t" using \<open>distinct p\<close> len by (simp add: nth_eq_iff_index_eq)
  qed
  moreover have "\<exists>t<42. q t = k" if k: "k < 42" for k
  proof -
    have "es ! k \<in> set p" using set k assms(3) by simp
    then obtain t where t: "t < 42" "p ! t = es ! k" using len by (metis in_set_conv_nth)
    then have "q t = k" using q [OF t(1)] k t(2) assms(2,3) nth_eq_iff_index_eq [of es "q t" k] by simp
    then show ?thesis using t(1) by blast
  qed
  ultimately show thesis using q that by blast
qed

lemma cycle_step:
  assumes cyc: "simple_cycle endpoints p" and len: "length p = 42" and t: "t < 42" and s: "s < 42"
    and n: "node_on endpoints t (p ! s) = node_on endpoints t (p ! t)"
  shows "s = t \<or> s = Suc t mod 42"
proof (cases "even s = even t")
  case True
  then have "node_on endpoints s (p ! s) = node_on endpoints t (p ! t)" using n node_on_parity [OF True] by simp
  then show ?thesis using cyc s t True unfolding simple_cycle_def len by blast
next
  case False
  define r where "r = (if s = 0 then 41 else s - 1)"
  have r: "r < 42" "Suc r mod 42 = s" "even r = even t" using s False by (auto simp: r_def)
  have "node_on endpoints r (p ! r) = node_on endpoints r (p ! s)" using cyc r(1,2) unfolding simple_cycle_def len by metis
  also have "\<dots> = node_on endpoints t (p ! t)" using n node_on_parity [OF r(3)] by simp
  finally have "r = t" using cyc r(1,3) t unfolding simple_cycle_def len by blast
  then show ?thesis using r(2) by simp
qed

lemma forms_cycle_closed:
  assumes "forms_cycle endpoints es" and l: "length es = 42" and d: "distinct es"
  shows "closed_walk (ends endpoints es)"
proof -
  let ?uvs = "ends endpoints es"
  obtain p where p: "mset p = mset es" "p ! 0 = es ! 0" "simple_cycle endpoints p" using assms(1) unfolding forms_cycle_def by blast
  have len: "length p = 42" using mset_eq_length [OF p(1)] l by simp
  obtain q where q: "\<And>t. t < 42 \<Longrightarrow> q t < 42 \<and> es ! q t = p ! t" and inj: "inj_on q {..<42}" and surj: "\<And>k. k < 42 \<Longrightarrow> \<exists>t<42. q t = k"
    by (rule cycle_positions [OF p(1) d l]) blast
  have q0: "q 0 = 0" using q [of 0] p(2) d l nth_eq_iff_index_eq [of es "q 0" 0] by simp
  have q_eq: "q s = q t \<longleftrightarrow> s = t" if "s < 42" "t < 42" for s t using inj that by (auto dest: inj_onD)
  define x where "x t = 2 * q (t mod 42) + of_bool (odd t)" for t
  have x: "x t < 84" "even (x t) = even t" "x t div 2 = q (t mod 42)" for t using q [of "t mod 42"] by (simp_all add: x_def)
  have other_x: "other_end (x (Suc t)) = 2 * q (Suc t mod 42) + of_bool (odd t)" for t by (simp add: other_end_if x_def)
  have mx: "matches ?uvs (x t) = {other_end (x (Suc t))}" if t: "t < 42" for t
  proof (intro set_eqI)
    fix k
    have nt: "node_on endpoints (x t) = node_on endpoints t" using x(2) by (intro ext node_on_parity) simp
    have "k \<in> matches ?uvs (x t) \<longleftrightarrow> k < 84 \<and> k \<noteq> x t \<and> even k = even t \<and> node_on endpoints t (es ! (k div 2)) = node_on endpoints t (p ! t)"
      using matches_ends [OF l x(1)] x t q by (simp add: nt)
    also have "\<dots> \<longleftrightarrow> (\<exists>s<42. k = 2 * q s + of_bool (odd t) \<and> s \<noteq> t \<and> node_on endpoints t (p ! s) = node_on endpoints t (p ! t))"
      (is "?L \<longleftrightarrow> ?R")
    proof
      assume k: ?L
      then obtain s where s: "s < 42" "q s = k div 2" using surj [of "k div 2"] by (auto simp: less_mult_imp_div_less)
      have "k = 2 * q s + of_bool (odd t)" using k s(2) by auto
      then show ?R using k s q [OF s(1)] t by (intro exI [of _ s]) (auto simp: x_def)
    next
      assume ?R
      then obtain s where s: "s < 42" "k = 2 * q s + of_bool (odd t)" "s \<noteq> t" "node_on endpoints t (p ! s) = node_on endpoints t (p ! t)" by blast
      then show ?L using q [OF s(1)] q_eq [OF s(1) t] t by (auto simp: x_def)
    qed
    also have "\<dots> \<longleftrightarrow> k = 2 * q (Suc t mod 42) + of_bool (odd t)"
    proof
      have "node_on endpoints t (p ! (Suc t mod 42)) = node_on endpoints t (p ! t)" using p(3) t unfolding simple_cycle_def len by simp
      moreover have "Suc t mod 42 < 42 \<and> Suc t mod 42 \<noteq> t" using t by (cases "t = 41") simp_all
      ultimately show "k = 2 * q (Suc t mod 42) + of_bool (odd t) \<Longrightarrow>
        \<exists>s<42. k = 2 * q s + of_bool (odd t) \<and> s \<noteq> t \<and> node_on endpoints t (p ! s) = node_on endpoints t (p ! t)" by blast
    qed (use cycle_step [OF p(3) len t] in blast)
    finally show "k \<in> matches ?uvs (x t) \<longleftrightarrow> k \<in> {other_end (x (Suc t))}" unfolding other_x by simp
  qed
  have w: "walk ?uvs t = x t" if "t \<le> 42" for t
    using that
  proof (induction t)
    case 0
    show ?case by (simp add: x_def q0)
  next
    case (Suc t)
    then show ?case using mx [of t] by (simp add: mate_def)
  qed
  have "paired ?uvs (walk ?uvs t) \<and> (0 < t \<longrightarrow> walk ?uvs t \<noteq> 0)" if t: "t < 42" for t
    using w [of t] mx [OF t] q_eq [OF t, of 0] q0 t by (auto simp: paired_def x_def)
  moreover have "walk ?uvs 42 = 0" using w [of 42] by (simp add: x_def q0)
  ultimately show ?thesis by (simp add: closed_walk_def)
qed

section \<open>The first loop\<close>

definition ascending :: "u32 list \<Rightarrow> bool" where
  "ascending es \<longleftrightarrow> (\<forall>e \<in> set es. e \<le> EDGEMASK) \<and> sorted_wrt (<) es"

definition xors :: "(u32 \<Rightarrow> u32) \<Rightarrow> u32 list \<Rightarrow> u32 \<Rightarrow> u32" where
  "xors f es a = fold (\<lambda>e x. x XOR f e) es a"

lemma verify_edges_runs:
  "ascending es \<Longrightarrow> \<forall>p e. prev = Some p \<longrightarrow> e \<in> set es \<longrightarrow> p < e \<Longrightarrow>
     verify_edges endpoints prev es x0 x1 uvs = Inr (xors (fst \<circ> endpoints) es x0, xors (snd \<circ> endpoints) es x1, uvs @ ends endpoints es)"
proof (induction es arbitrary: prev x0 x1 uvs)
  case (Cons e es)
  then have "e \<le> EDGEMASK" "ascending es" "\<forall>a \<in> set es. e < a" "\<forall>p. prev = Some p \<longrightarrow> p < e" by (auto simp: ascending_def)
  then show ?case using Cons.IH [of "Some e"] by (auto simp: xors_def ends_def not_less not_le split: prod.splits option.splits)
qed (simp add: xors_def ends_def)

lemma verify_edges_ascending:
  "verify_edges endpoints prev es x0 x1 uvs = Inr r \<Longrightarrow> ascending es \<and> (\<forall>p e. prev = Some p \<longrightarrow> e \<in> set es \<longrightarrow> p < e)"
proof (induction es arbitrary: prev x0 x1 uvs)
  case (Cons e es)
  obtain u v where "endpoints e = (u, v)" by fastforce
  with Cons.prems have c: "e \<le> EDGEMASK" "\<forall>p. prev = Some p \<longrightarrow> p < e"
    "verify_edges endpoints (Some e) es (x0 XOR u) (x1 XOR v) (uvs @ [u, v]) = Inr r"
    by (auto split: if_splits option.splits)
  then show ?case using Cons.IH [OF c(3)] by (fastforce simp: ascending_def)
qed (simp add: ascending_def)

lemma xors_mset: "mset es = mset p \<Longrightarrow> xors f es a = xors f p a"
proof -
  assume "mset es = mset p"
  then have "fold (\<lambda>e x. x XOR f e) es = fold (\<lambda>e x. x XOR f e) p"
    by (intro fold_multiset_equiv) (simp_all add: fun_eq_iff ac_simps)
  then show ?thesis by (simp add: xors_def)
qed

lemma xors_pairs: "length xs = 2 * n \<Longrightarrow> \<forall>t<n. f (xs ! (2 * t)) = f (xs ! Suc (2 * t)) \<Longrightarrow> xors f xs a = a"
proof (induction n arbitrary: xs a)
  case (Suc n)
  then obtain y z ys where xs: "xs = y # z # ys" by (auto simp: length_Suc_conv)
  have "f (ys ! (2 * t)) = f (ys ! Suc (2 * t))" if "t < n" for t using Suc.prems(2) [rule_format, of "Suc t"] that xs by simp
  moreover have "f y = f z" using Suc.prems(2) [rule_format, of 0] xs by simp
  ultimately show ?case using Suc.IH [of ys a] Suc.prems(1) xs by (simp add: xors_def xor.assoc)
qed (simp add: xors_def)

lemma cycle_xors:
  assumes "forms_cycle endpoints es" and l: "length es = 42"
  shows "xors (fst \<circ> endpoints) es 0 = 0" and "xors (snd \<circ> endpoints) es 0 = 0"
proof -
  obtain p where p: "mset p = mset es" "simple_cycle endpoints p" using assms(1) unfolding forms_cycle_def by blast
  have len: "length p = 42" using mset_eq_length [OF p(1)] l by simp
  have n: "node_on endpoints t (p ! t) = node_on endpoints t (p ! (Suc t mod 42))" if "t < 42" for t
    using p(2) that unfolding simple_cycle_def len by blast
  have "xors (fst \<circ> endpoints) p 0 = 0"
  proof (rule xors_pairs [of _ 21])
    show "\<forall>t<21. (fst \<circ> endpoints) (p ! (2 * t)) = (fst \<circ> endpoints) (p ! Suc (2 * t))"
      using n [of "2 * _"] by (auto simp: node_on_def)
  qed (simp add: len)
  then show "xors (fst \<circ> endpoints) es 0 = 0" using xors_mset [OF p(1)] by metis
  have "xors (snd \<circ> endpoints) (rotate1 p) 0 = 0"
  proof (rule xors_pairs [of _ 21])
    show "\<forall>t<21. (snd \<circ> endpoints) (rotate1 p ! (2 * t)) = (snd \<circ> endpoints) (rotate1 p ! Suc (2 * t))"
      using n [of "Suc (2 * _)"] by (auto simp: node_on_def nth_rotate1 len)
  qed (simp add: len)
  moreover have "mset (rotate1 p) = mset es" using p(1) by (cases p) simp_all
  ultimately show "xors (snd \<circ> endpoints) es 0 = 0" using xors_mset by metis
qed

section \<open>What the verifiers accept\<close>

lemma walk_code_forms_cycle: "length es = 42 \<Longrightarrow> distinct es \<Longrightarrow> walk_code (ends endpoints es) = POW_OK \<longleftrightarrow> forms_cycle endpoints es"
  using closed_walk_iff closed_forms_cycle forms_cycle_closed by blast

lemma verify_cycle_runs:
  assumes "length es = 42"
  shows "verify_cycle endpoints es =
    (case verify_edges endpoints None es 0 0 [] of
       Inl c \<Rightarrow> Some c
     | Inr (xor0, xor1, uvs) \<Rightarrow> if xor0 OR xor1 \<noteq> 0 then Some POW_NON_MATCHING else Some (walk_code (ends endpoints es)))"
proof (cases "verify_edges endpoints None es 0 0 []")
  case (Inr r)
  then have "ascending es" using verify_edges_ascending by blast
  then have "verify_edges endpoints None es 0 0 [] = Inr (xors (fst \<circ> endpoints) es 0, xors (snd \<circ> endpoints) es 0, ends endpoints es)"
    using verify_edges_runs [of es None endpoints 0 0 "[]"] by simp
  then show ?thesis using assms follow_walk [of "ends endpoints es"] by (simp add: verify_cycle_def PROOFSIZE_def)
qed (simp add: verify_cycle_def PROOFSIZE_def assms)

lemma verify_cycle_total: "length es = 42 \<Longrightarrow> \<exists>c. verify_cycle endpoints es = Some c"
  by (auto simp: verify_cycle_runs split: sum.split prod.split)

lemma sorted_less_distinct: "sorted_wrt (<) xs \<Longrightarrow> distinct xs"
  for xs :: "'a :: order list"
  by (induction xs) auto

lemma verify_edges_not_OK: "verify_edges endpoints prev es x0 x1 uvs = Inl c \<Longrightarrow> c = POW_TOO_BIG \<or> c = POW_TOO_SMALL"
  by (induction es arbitrary: prev x0 x1 uvs) (auto split: if_splits prod.splits)

lemma verify_cycle_OK:
  assumes l: "length es = 42"
  shows "verify_cycle endpoints es = Some POW_OK \<longleftrightarrow> ascending es \<and> forms_cycle endpoints es"
proof (cases "ascending es")
  case True
  then have d: "distinct es" by (simp add: ascending_def sorted_less_distinct)
  have "verify_cycle endpoints es = Some POW_OK
      \<longleftrightarrow> xors (fst \<circ> endpoints) es 0 OR xors (snd \<circ> endpoints) es 0 = 0 \<and> forms_cycle endpoints es"
    using walk_code_forms_cycle [OF l d] verify_edges_runs [OF True, of None endpoints 0 0 "[]"] by (simp add: verify_cycle_runs [OF l])
  then show ?thesis using True cycle_xors [OF _ l] by auto
next
  case False
  then obtain c where "verify_edges endpoints None es 0 0 [] = Inl c" using verify_edges_ascending by (metis sum.exhaust)
  then show ?thesis using False verify_edges_not_OK [of endpoints None es 0 0 "[]" c] by (auto simp: verify_cycle_runs [OF l])
qed

section \<open>The exported function\<close>

fun verify_code_int :: "verify_code \<Rightarrow> int" where
  "verify_code_int POW_OK = 0"
| "verify_code_int POW_HEADER_LENGTH = 1"
| "verify_code_int POW_TOO_BIG = 2"
| "verify_code_int POW_TOO_SMALL = 3"
| "verify_code_int POW_NON_MATCHING = 4"
| "verify_code_int POW_BRANCH = 5"
| "verify_code_int POW_DEAD_END = 6"
| "verify_code_int POW_SHORT_CYCLE = 7"

text \<open>
  \<open>hdrkey\<close> is what the buffer on the stack holds; the result of \<open>blake2b\<close> is ignored. \<open>SIPHASH_COMPAT\<close> is not defined.
  \<open>headerLen\<close> is an \<open>int\<close> that is converted to \<open>u32\<close>. \<open>None\<close> is a header or a solution with fewer bytes than are read.
\<close>

definition cuckaroo_cortex_setheader :: "bytes \<Rightarrow> bytes option \<Rightarrow> u32 \<Rightarrow> siphash_keys option" where
  "cuckaroo_cortex_setheader hdrkey header headerlen =
     do {
       (ret, out) \<leftarrow> blake2b (Some hdrkey) 32 header (unat headerlen) None 0;
       hdrkey \<leftarrow> out;
       Some (setkeys hdrkey)
     }"

definition cuckoo_cortex_setheader :: "bytes \<Rightarrow> bytes option \<Rightarrow> u32 \<Rightarrow> siphash_keys option" where
  "cuckoo_cortex_setheader hdrkey header headerlen =
     do {
       (ret, out) \<leftarrow> blake2b (Some hdrkey) 32 header (unat headerlen) None 0;
       hdrkey \<leftarrow> out;
       Some (setkeys hdrkey)
     }"

definition cortexcuckoocycle :: "bytes \<Rightarrow> bytes option \<Rightarrow> u32 \<Rightarrow> bytes \<Rightarrow> int option" where
  "cortexcuckoocycle hdrkey header headerLen solution =
     (if \<exists>bs \<in> set_option header. length bs < unat headerLen then None
      else do {
        keys \<leftarrow> cuckaroo_cortex_setheader hdrkey header headerLen;
        res \<leftarrow> cuckaroo_cortex_verify (words_of_bytes solution) keys;
        Some (verify_code_int res)
      })"

definition cortexcuckoocycle_export :: "bytes \<Rightarrow> bytes option \<Rightarrow> u32 \<Rightarrow> bytes \<Rightarrow> int option" where
  "cortexcuckoocycle_export hdrkey header headerLen solution = cortexcuckoocycle hdrkey header headerLen solution"

lemma verify_code_int_0: "verify_code_int c = 0 \<longleftrightarrow> c = POW_OK"
  by (cases c) simp_all

lemma setheader_rfc:
  assumes "length hdrkey = 32" and "header \<noteq> None \<or> headerlen = 0" and "\<And>bs. header = Some bs \<Longrightarrow> unat headerlen \<le> length bs"
  shows "cuckaroo_cortex_setheader hdrkey header headerlen
    = Some (setkeys (rfc_blake2b 32 [] (take (unat headerlen) (case_option [] id header))))"
proof -
  have "memcpy_at hdrkey 0 (rfc_blake2b 32 [] m) = rfc_blake2b 32 [] m" for m
    using assms(1) by (simp add: memcpy_at_def)
  then show ?thesis using blake2b_result [OF assms(3), where key = None and keylen = 0 and out = "Some hdrkey" and outlen = 32] assms(2)
    by (auto simp: cuckaroo_cortex_setheader_def)
qed

text \<open>
  Property C12: the verifier of Cuckoo and Cuckaroo Cycle accepts exactly the 42 edges that are in the graph, strictly
  ascending, and form one simple cycle through all of them: the search for the matching endpoint, the test of the sums
  and the walk from the first edge decide this for every graph.
\<close>

theorem verify_accepts_cycles:
  assumes "length es = 42"
  shows "verify_cycle endpoints es = Some POW_OK \<longleftrightarrow> (\<forall>e \<in> set es. e \<le> EDGEMASK) \<and> sorted_wrt (<) es \<and> forms_cycle endpoints es"
  using verify_cycle_OK [OF assms] by (simp add: ascending_def)

text \<open>A graph of 42 edges, the edge \<open>e\<close> between the nodes \<open>e div 2\<close> and \<open>(e + 1) div 2\<close> modulo 21.\<close>

definition ring_endpoints :: "u32 \<Rightarrow> u32 \<times> u32" where
  "ring_endpoints e = (e div 2, ((e + 1) mod 42) div 2)"

definition ring_edges :: "u32 list" where
  "ring_edges = map of_nat [0..<42]"

lemma ring_cycle: "forms_cycle ring_endpoints ring_edges"
proof -
  have len: "length ring_edges = 42" by (simp add: ring_edges_def)
  have "list_all (\<lambda>t. node_on ring_endpoints t (ring_edges ! t) = of_nat (((t + 1) mod 42) div 2)) [0..<42]"
    and "list_all (\<lambda>t. node_on ring_endpoints t (ring_edges ! (Suc t mod 42)) = of_nat (((t + 1) mod 42) div 2)) [0..<42]"
    by code_simp+
  then have n: "node_on ring_endpoints t (ring_edges ! t) = of_nat (((t + 1) mod 42) div 2)"
    "node_on ring_endpoints t (ring_edges ! (Suc t mod 42)) = of_nat (((t + 1) mod 42) div 2)" if "t < 42" for t
    using that by (simp_all add: list_all_iff del: upt_rec_numeral)
  have "s = t" if st: "s < 42" "t < 42" "even s = even t"
    and e: "(of_nat (((s + 1) mod 42) div 2) :: u32) = of_nat (((t + 1) mod 42) div 2)" for s t :: nat
  proof -
    have u: "unat (of_nat ((k mod 42) div 2) :: u32) = (k mod 42) div 2" for k :: nat
    proof -
      have "(k mod 42) div 2 < 2 ^ 32" using mod_less_divisor [of 42 k] by simp
      then show ?thesis by (simp add: unat_of_nat take_bit_nat_eq_self)
    qed
    have "((s + 1) mod 42) div 2 = ((t + 1) mod 42) div 2" using arg_cong [OF e, of unat] unfolding u .
    moreover have "(k + 1) mod 42 = (if k = 41 then 0 else k + 1)" if "k < 42" for k :: nat using that by simp
    ultimately show ?thesis using st by (auto split: if_splits elim!: evenE oddE)
  qed
  then have "simple_cycle ring_endpoints ring_edges" unfolding simple_cycle_def len using n by simp
  then show ?thesis unfolding forms_cycle_def by blast
qed

theorem verify_accepts_cycles_witness: "verify_cycle ring_endpoints ring_edges = Some POW_OK"
proof -
  have "length ring_edges = 42" and "(\<forall>e \<in> set ring_edges. e \<le> EDGEMASK)" and "sorted_wrt (<) ring_edges" by code_simp+
  then show ?thesis using verify_accepts_cycles [of ring_edges ring_endpoints] ring_cycle by blast
qed

text \<open>
  Property C13: for every header and every solution of 168 bytes, the exported function returns, and the code is 0
  exactly if the edges ascend and form a cycle of length 42 in the graph of the Cuckaroo hash with the keys that
  BLAKE2b of RFC 7693 gives for the header.
\<close>

theorem cortex_decides_cycles:
  assumes "length hdrkey = 32" and "header \<noteq> None \<or> headerLen = 0" and "\<And>bs. header = Some bs \<Longrightarrow> unat headerLen \<le> length bs"
    and "length solution = 168"
    and "keys = setkeys (rfc_blake2b 32 [] (take (unat headerLen) (case_option [] id header)))"
    and "edges = words_of_bytes solution"
  shows "\<exists>code. cortexcuckoocycle_export hdrkey header headerLen solution = Some code
    \<and> (code = 0 \<longleftrightarrow> (\<forall>e \<in> set edges. e \<le> EDGEMASK) \<and> sorted_wrt (<) edges \<and> forms_cycle (cuckaroo_endpoints keys) edges)"
proof -
  have l: "length edges = 42" using assms(4) by (simp add: assms(6) length_words_of_bytes)
  obtain c where c: "verify_cycle (cuckaroo_endpoints keys) edges = Some c" using verify_cycle_total [OF l] by blast
  have "cortexcuckoocycle_export hdrkey header headerLen solution = Some (verify_code_int c)"
    using setheader_rfc [OF assms(1-3)] c assms(3)
    by (auto simp: cortexcuckoocycle_export_def cortexcuckoocycle_def cuckaroo_cortex_verify_def assms(5,6) not_less)
  then show ?thesis using verify_cycle_OK [OF l, of "cuckaroo_endpoints keys"] c by (simp add: verify_code_int_0 ascending_def)
qed

theorem cortex_decides_cycles_witness:
  "\<exists>code. cortexcuckoocycle_export (replicate 32 0) (Some [1, 2, 3]) 3 (replicate 168 0) = Some code \<and> code \<noteq> 0"
proof -
  have "\<not> sorted_wrt (<) (words_of_bytes (replicate 168 0) :: u32 list)" by code_simp
  then show ?thesis using cortex_decides_cycles [of "replicate 32 0" "Some [1, 2, 3]" 3 "replicate 168 0", OF _ _ _ _ refl refl] by simp
qed

end
