(* ===== verification/Spec2Isabelle.thy ===== *)
theory Spec2Isabelle
  imports TreeHash X16 Forks Base58 Managed BlockExports Cuckaroo
begin

text \<open>
  The native libraries of Miningcore, a mining pool server. The server is C#; what it asks of a proof of work, an
  address or a block it asks of C and C++ libraries under \<open>src/src/Native/\<close>, through functions declared \<open>extern "C"\<close>.
  This library models those of them that are Miningcore's or its forks' own code, and proves what the server relies
  on. Paths below are relative to \<open>src/src/Native/\<close>.

  \<^bold>\<open>The parts and how they depend on each other.\<close>

    \<^item> \<open>Prelude\<close>: the machine integers as words, memory as lists of bytes and its little-endian reinterpretation as
      words, checked accesses (\<open>None\<close> is undefined behaviour: an index out of range, a division by zero, the
      overflow of a signed number), loops, and the sponge-independent facts about them.

    \<^item> \<open>Keccak\<close> (\<open>libethhash/sha3.c\<close>, \<open>libcryptonote/crypto/keccak.c\<close> and \<open>hash.c\<close>, \<open>libzanonote/crypto/hash.c\<close>): each
      implementation translated from its own source, and FIPS 202 as the specification all of them are proved equal to.
      \<open>KeccakPP\<close> does the same for the unrolled permutations of the ProgPoW libraries (\<open>libkawpow/keccak/\<close>).
      \<open>Blake2\<close> (\<open>libubqhash/blake2.c\<close>) and \<open>Blake3\<close> (\<open>libethhashb3/internal.c\<close>) are streaming hashers; their
      specifications are RFC 7693 and the BLAKE3 tree, and the refinement relates the state of the hasher to the
      message absorbed so far.

    \<^item> \<open>DataSizes\<close>, \<open>Ethash\<close>, \<open>EthashFile\<close> (\<open>libethhash/\<close>): the tables of sizes, the cache, the data set, light and full
      hashing, the handlers, and the DAG file in a file system over a sequence of runs that may fail or be killed at
      any library call. \<open>Forks\<close> are \<open>libetchash\<close>, \<open>libubqhash\<close> and \<open>libethhashb3\<close> as instances at their hash functions and epochs, with the
      functions they changed. The locales \<open>node_hash\<close> and \<open>ethash_hashes\<close> are the interface between the algorithm and
      the hash functions, interpreted for each of them.

    \<^item> \<open>Primes\<close>, \<open>EthashPP\<close>, \<open>EthashAgree\<close>, \<open>ProgPow\<close>, \<open>ProgPowAgree\<close>, \<open>Managed\<close> (\<open>libkawpow/ethash/\<close> and the copies
      in \<open>libfiropow\<close>, \<open>libmeowpow\<close>, \<open>libmerakipow\<close>, \<open>libprogpowz\<close>): sizes, contexts, lazily filled data sets, hashing,
      verification and search of Ethash and ProgPoW, and the contexts the threads of the server share, as a step
      relation over interleaved threads. What differs between the libraries is a record of parameters. The locale
      \<open>item_lookup\<close> is what hashing asks of a data set, light or lazy; \<open>context_source\<close> is what the managed contexts
      ask of the function that builds a context.

    \<^item> \<open>Chains\<close>, \<open>X16\<close> (\<open>libmultihash/\<close>): the chained hashes of the X11 family and its relatives over the digests of
      sphlib, which are third-party code and a parameter.

    \<^item> \<open>Cuckaroo\<close> (\<open>libcortexcuckoocycle/\<close>): SipHash, the graphs of Cuckoo and Cuckaroo Cycle and the verifiers of Cortex.

    \<^item> \<open>Varint\<close>, \<open>Base58\<close>, \<open>TreeHash\<close>, \<open>Archive\<close>, \<open>RingCT\<close>, \<open>Transactions\<close>, \<open>TxExtra\<close>, \<open>Blocks\<close>, \<open>BlockExports\<close>
      (\<open>libcryptonote/\<close>): numbers of variable length, addresses, the Merkle tree (\<open>crypto/tree-hash.c\<close>), the binary
      archive (\<open>serialization/\<close>), the formats of signatures (\<open>ringct/rctTypes.h\<close>), transactions, extra fields and
      blocks (\<open>cryptonote_core/\<close>) of the seventeen kinds of coins, their hashes, and the exported functions
      (\<open>exports.cpp\<close>) with their caller \<open>ConvertBlob\<close> (\<open>src/Miningcore/Native/Cryptonote.cs\<close>).

  \<^bold>\<open>How the code became definitions.\<close> A C function is a definition of the same name (a prefix or suffix tells two
  of one name apart: \<open>sha3_\<close>, \<open>cn_\<close>, \<open>etc_\<close>, \<open>ubq_\<close>, \<open>b3_\<close>, \<open>pp_\<close>). Structures are records, enumerations datatypes,
  buffers lists of bytes, unsigned integers words of their width, \<open>int\<close> is \<open>int\<close> with the overflow written out.
  A pointer argument that is written to is a result. The template \<open>do_serialize\<close> of the archives serves saving and
  loading, and so does a serializer here: a function on an object and an archive that is one or the other. The
  bodies between \<open>BEGIN_SERIALIZE\<close> and \<open>END_SERIALIZE\<close> are lists of steps, one for each macro, condition, assignment and
  early return, in their order.

  \<^bold>\<open>What the groups of lemmas show.\<close>

    \<^item> Hash functions: equality with the published specification for every input, however it is cut into pieces.

    \<^item> Ethash and ProgPoW: full and light hashing agree, over every history of the DAG file and of the lazily filled
      data set; no access is out of range; which epochs can be sized; verification accepts exactly what hashing
      returns; the threads' contexts are live, of the right epoch, counted, and every call can end. \<open>libprogpowz\<close> and
      \<open>libethhash\<close> compute the same from the same sizes; that the 2048 entries of the tables of \<open>libethhash\<close> are the
      primes that the other libraries compute is not proved.

    \<^item> Cuckoo Cycle: the verifier ends for every list of edges and accepts exactly the simple cycles of length 42.

    \<^item> Cryptonote: numbers, base-58 strings and addresses are read back and nothing else is accepted, but for a number
      that the end of the input cuts off. In \<open>Archive\<close> the
      locale \<open>codec\<close> is the contract of a serializer (saving changes no object, loading consumes input, what was
      loaded can be saved and is read back into any object), \<open>full_codec\<close> and \<open>wide_codec\<close> extend it, and every basic
      serializer, container and structure is shown to satisfy it. Objects whose steps depend on what has been loaded satisfy the
      weaker \<open>reloads\<close>: with the relation \<open>indep\<close> between steps it is decided step by step, and gives that every transaction
      and every block that is accepted is written to bytes that parse to it. \<open>BlockExports\<close> composes this with the tree
      hash: what the hashing blob is, that its bytes 39 to 42 are the nonce, and what the caller gets.

  \<^bold>\<open>Fuel and bounds.\<close> No definition runs on fuel. Loops whose end has to be proved are partial functions: that of
  \<open>ethash_get_seedhash\<close>, whose value is \<open>None\<close> exactly from epoch \<open>2 ^ 32\<close> on, and those of \<open>Cuckaroo\<close>, which always end.
  Hypotheses on lengths are those of the types of
  the code: \<open>int\<close> lengths in the Keccak of Cryptonote (below \<open>2 ^ 31\<close> bytes), \<open>unsigned int\<close> sizes of the exported functions.

  \<^bold>\<open>Code that is not in the repository or not modelled.\<close>

    \<^item> Parameters, with what is assumed of them: the digests of sphlib (a digest has its size); the outcome of each
      library call on the DAG file and of each allocation; whether a key is a point of the curve; how many amounts
      an aggregated range proof covers, which \<open>rctTypes.h\<close> declares and nothing defines; the arrays that \<open>ArrayPool.Rent\<close> returns (at least as
      long as asked for); for how many hashes there is memory when a parent block is read.

    \<^item> In the archives a failure is \<open>None\<close> at once. The code tests the state of the stream after each field and
      once more at the end; after a failure it never succeeds, so the results are the same. Where the code ignores
      the failure of saving and hashes what has been written so far, the model is \<open>None\<close>; objects that have
      been parsed are saved without failure. The exception that a merge-mining depth without memory for it raises is
      a failure of the parser and the outcome \<open>None\<close> of the exported functions (\<open>resize_throws\<close>).

    \<^item> Objects are read into zeroed ones. In the code, \<open>p_r\<close> of the ring signatures is what the memory held before
      (\<open>ringct/rctTypes.h\<close> 330), so the round trips of transactions and blocks are about objects where it is zero.
      The lengths of the chained hashes, \<open>int\<close> in the code, are numbers below \<open>2 ^ 31\<close> in all calls of the server.

    \<^item> Not modelled: \<open>libphihash\<close>, which computes sizes with \<open>std::pow\<close> and mixes with \<open>std::tanh\<close> in floating point;
      the digests of sphlib, Lyra2, RandomX, Cryptonight, GhostRider, AstroBWT, VerusHash and the other vendored engines; the curve
      arithmetic \<open>crypto-ops.c\<close>; the currency core of \<open>libzanonote\<close>; the peer-to-peer storage of pricing records; the
      Windows variants of the platform layer; freeing of contexts; and the server, apart from \<open>ConvertBlob\<close>.
\<close>

end
